(* ===== verification/Arith_Uint256.thy ===== *)
theory Arith_Uint256
  imports Prelude
begin

text \<open>
  The 256-bit unsigned integer of \<^verbatim>\<open>arith_uint256.h\<close> and \<^verbatim>\<open>arith_uint256.cpp\<close>: an array \<open>pn\<close>
  of eight 32-bit limbs, least significant first. The operations are the loops of the source
  over the limbs, with their 64-bit carries. The second half shows that each of them computes
  the corresponding operation modulo \<open>2 ^ 256\<close> on the number the limbs stand for.
\<close>

section \<open>The class base\_uint\<close>

type_synonym base_uint = "u32 list"

definition WIDTH :: nat where
  "WIDTH = 8"

datatype uint_error = Division_by_zero

definition uint_zero :: base_uint where
  "uint_zero = replicate WIDTH 0"

definition of_uint64 :: "u64 \<Rightarrow> base_uint" where
  "of_uint64 b = [ucast b, ucast (drop_bit 32 b)] @ replicate (WIDTH - 2) 0"

definition uint_not :: "base_uint \<Rightarrow> base_uint" where
  "uint_not a = map (\<lambda>x. NOT x) a"

fun uint_inc :: "base_uint \<Rightarrow> base_uint" where
  "uint_inc [] = []"
| "uint_inc (x # xs) = (if x + 1 = 0 then (x + 1) # uint_inc xs else (x + 1) # xs)"

fun uint_dec :: "base_uint \<Rightarrow> base_uint" where
  "uint_dec [] = []"
| "uint_dec (x # xs) = (if x - 1 = - 1 then (x - 1) # uint_dec xs else (x - 1) # xs)"

definition uint_neg :: "base_uint \<Rightarrow> base_uint" where
  "uint_neg a = uint_inc (uint_not a)"

definition uint_xor :: "base_uint \<Rightarrow> base_uint \<Rightarrow> base_uint" where
  "uint_xor a b = map2 (\<lambda>x y. x XOR y) a b"

definition uint_and :: "base_uint \<Rightarrow> base_uint \<Rightarrow> base_uint" where
  "uint_and a b = map2 (\<lambda>x y. x AND y) a b"

definition uint_or :: "base_uint \<Rightarrow> base_uint \<Rightarrow> base_uint" where
  "uint_or a b = map2 (\<lambda>x y. x OR y) a b"

fun add_loop :: "u64 \<Rightarrow> base_uint \<Rightarrow> base_uint \<Rightarrow> base_uint" where
  "add_loop carry (x # xs) (y # ys) =
     (let n = carry + ucast x + ucast y
      in ucast (n AND 0xffffffff) # add_loop (drop_bit 32 n) xs ys)"
| "add_loop carry _ _ = []"

definition uint_add :: "base_uint \<Rightarrow> base_uint \<Rightarrow> base_uint" where
  "uint_add a b = add_loop 0 a b"

definition uint_sub :: "base_uint \<Rightarrow> base_uint \<Rightarrow> base_uint" where
  "uint_sub a b = uint_add a (uint_neg b)"

fun mul32_loop :: "u64 \<Rightarrow> u32 \<Rightarrow> base_uint \<Rightarrow> base_uint" where
  "mul32_loop carry b32 [] = []"
| "mul32_loop carry b32 (x # xs) =
     (let n = carry + ucast b32 * ucast x
      in ucast (n AND 0xffffffff) # mul32_loop (drop_bit 32 n) b32 xs)"

definition uint_mul32 :: "base_uint \<Rightarrow> u32 \<Rightarrow> base_uint" where
  "uint_mul32 a b32 = mul32_loop 0 b32 a"

text \<open>
  The inner loop of the schoolbook product walks \<open>a.pn[i + j]\<close> and \<open>b.pn[i]\<close> together until
  \<open>i + j\<close> reaches the width: the first list is the part of \<open>a\<close> from limb \<open>j\<close> on.
\<close>

fun mul_row :: "u64 \<Rightarrow> u32 \<Rightarrow> base_uint \<Rightarrow> base_uint \<Rightarrow> base_uint" where
  "mul_row carry pj (x # xs) (y # ys) =
     (let n = carry + ucast x + ucast pj * ucast y
      in ucast (n AND 0xffffffff) # mul_row (drop_bit 32 n) pj xs ys)"
| "mul_row carry pj xs _ = xs"

definition mul_outer :: "base_uint \<Rightarrow> base_uint \<Rightarrow> nat \<Rightarrow> base_uint \<Rightarrow> base_uint" where
  "mul_outer pn b j a = take j a @ mul_row 0 (pn ! j) (drop j a) b"

definition uint_mul :: "base_uint \<Rightarrow> base_uint \<Rightarrow> base_uint" where
  "uint_mul pn b = fold (mul_outer pn b) [0..<WIDTH] uint_zero"

definition shl_step :: "base_uint \<Rightarrow> nat \<Rightarrow> nat \<Rightarrow> nat \<Rightarrow> base_uint \<Rightarrow> base_uint" where
  "shl_step a k s i pn =
     (let pn1 = (if i + k + 1 < WIDTH \<and> s \<noteq> 0
                 then pn[i + k + 1 := pn ! (i + k + 1) OR drop_bit (32 - s) (a ! i)] else pn)
      in if i + k < WIDTH then pn1[i + k := pn1 ! (i + k) OR push_bit s (a ! i)] else pn1)"

definition uint_shl :: "base_uint \<Rightarrow> nat \<Rightarrow> base_uint" where
  "uint_shl a shift = fold (shl_step a (shift div 32) (shift mod 32)) [0..<WIDTH] uint_zero"

definition shr_step :: "base_uint \<Rightarrow> nat \<Rightarrow> nat \<Rightarrow> nat \<Rightarrow> base_uint \<Rightarrow> base_uint" where
  "shr_step a k s i pn =
     (let pn1 = (if k + 1 \<le> i \<and> s \<noteq> 0
                 then pn[i - k - 1 := pn ! (i - k - 1) OR push_bit (32 - s) (a ! i)] else pn)
      in if k \<le> i then pn1[i - k := pn1 ! (i - k) OR drop_bit s (a ! i)] else pn1)"

definition uint_shr :: "base_uint \<Rightarrow> nat \<Rightarrow> base_uint" where
  "uint_shr a shift = fold (shr_step a (shift div 32) (shift mod 32)) [0..<WIDTH] uint_zero"

text \<open>
  \<open>CompareTo\<close> and \<open>bits\<close> walk from the most significant limb down; the recursion below has the
  number of limbs still to look at as its argument.
\<close>

fun compare_loop :: "nat \<Rightarrow> base_uint \<Rightarrow> base_uint \<Rightarrow> int" where
  "compare_loop 0 a b = 0"
| "compare_loop (Suc i) a b =
     (if a ! i < b ! i then - 1 else if b ! i < a ! i then 1 else compare_loop i a b)"

definition CompareTo :: "base_uint \<Rightarrow> base_uint \<Rightarrow> int" where
  "CompareTo a b = compare_loop WIDTH a b"

definition EqualTo :: "base_uint \<Rightarrow> u64 \<Rightarrow> bool" where
  "EqualTo a b =
     (if \<exists>i \<in> set [2..<WIDTH]. a ! i \<noteq> 0 then False
      else if (ucast (a ! 1) :: u64) \<noteq> drop_bit 32 b then False
      else if (ucast (a ! 0) :: u64) \<noteq> (b AND 0xffffffff) then False
      else True)"

fun top_bit :: "nat \<Rightarrow> u32 \<Rightarrow> nat" where
  "top_bit 0 x = 0"
| "top_bit (Suc nbits) x = (if x AND push_bit (Suc nbits) 1 \<noteq> 0 then Suc nbits else top_bit nbits x)"

fun bits_loop :: "nat \<Rightarrow> base_uint \<Rightarrow> nat" where
  "bits_loop 0 a = 0"
| "bits_loop (Suc pos) a =
     (if a ! pos \<noteq> 0 then 32 * pos + top_bit 31 (a ! pos) + 1 else bits_loop pos a)"

definition uint_bits :: "base_uint \<Rightarrow> nat" where
  "uint_bits a = bits_loop WIDTH a"

text \<open>
  The division loop runs while \<open>shift >= 0\<close>; the first argument is \<open>shift + 1\<close>.
\<close>

fun div_loop :: "nat \<Rightarrow> base_uint \<Rightarrow> base_uint \<Rightarrow> base_uint \<Rightarrow> base_uint \<times> base_uint" where
  "div_loop 0 num dv q = (q, num)"
| "div_loop (Suc shift) num dv q =
     (let (num', q') =
        (if CompareTo num dv \<ge> 0
         then (uint_sub num dv, q[shift div 32 := q ! (shift div 32) OR push_bit (shift mod 32) 1])
         else (num, q))
      in div_loop shift num' (uint_shr dv 1) q')"

definition uint_div :: "base_uint \<Rightarrow> base_uint \<Rightarrow> uint_error + base_uint" where
  "uint_div a b =
     (let num_bits = uint_bits a; div_bits = uint_bits b
      in if div_bits = 0 then Inl Division_by_zero
         else if div_bits > num_bits then Inr uint_zero
         else let shift = num_bits - div_bits
              in Inr (fst (div_loop (Suc shift) a (uint_shl b shift) uint_zero)))"

definition GetLow64 :: "base_uint \<Rightarrow> u64" where
  "GetLow64 a = ucast (a ! 0) OR push_bit 32 (ucast (a ! 1))"

section \<open>The compact encoding of targets\<close>

definition SetCompact :: "u32 \<Rightarrow> base_uint \<times> bool \<times> bool" where
  "SetCompact nCompact =
     (let nSize = unat (drop_bit 24 nCompact);
          nWord0 = nCompact AND 0x007fffff;
          nWord = (if nSize \<le> 3 then drop_bit (8 * (3 - nSize)) nWord0 else nWord0);
          v = (if nSize \<le> 3 then of_uint64 (ucast nWord)
               else uint_shl (of_uint64 (ucast nWord)) (8 * (nSize - 3)));
          fNegative = (nWord \<noteq> 0 \<and> nCompact AND 0x00800000 \<noteq> 0);
          fOverflow = (nWord \<noteq> 0 \<and> (nSize > 34 \<or> (nWord > 0xff \<and> nSize > 33)
                                        \<or> (nWord > 0xffff \<and> nSize > 32)))
      in (v, fNegative, fOverflow))"

text \<open>Its two assertions, a mantissa of 23 bits and a size below 256, are the lemmas \<open>compact_mant_bound\<close> and \<open>compact_size_bound\<close>.\<close>

definition GetCompact :: "base_uint \<Rightarrow> bool \<Rightarrow> u32" where
  "GetCompact a fNegative =
     (let nSize0 = (uint_bits a + 7) div 8;
          nCompact0 = (if nSize0 \<le> 3 then (ucast (push_bit (8 * (3 - nSize0)) (GetLow64 a)) :: u32)
                       else ucast (GetLow64 (uint_shr a (8 * (nSize0 - 3)))));
          (nCompact1, nSize) = (if nCompact0 AND 0x00800000 \<noteq> 0
                                then (drop_bit 8 nCompact0, nSize0 + 1) else (nCompact0, nSize0));
          nCompact2 = nCompact1 OR push_bit 24 (of_nat nSize)
      in nCompact2 OR (if fNegative \<and> nCompact2 AND 0x007fffff \<noteq> 0 then 0x00800000 else 0))"

section \<open>Conversion to and from the byte blob uint256\<close>

type_synonym uint256 = bytes

definition WriteLE32 :: "u32 \<Rightarrow> bytes" where
  "WriteLE32 x = [ucast x, ucast (drop_bit 8 x), ucast (drop_bit 16 x), ucast (drop_bit 24 x)]"

definition ReadLE32 :: "bytes \<Rightarrow> u32" where
  "ReadLE32 p = ucast (p ! 0) OR push_bit 8 (ucast (p ! 1)) OR push_bit 16 (ucast (p ! 2))
                OR push_bit 24 (ucast (p ! 3))"

definition ArithToUint256 :: "base_uint \<Rightarrow> uint256" where
  "ArithToUint256 a = concat (map (\<lambda>x. WriteLE32 (a ! x)) [0..<WIDTH])"

definition UintToArith256 :: "uint256 \<Rightarrow> base_uint" where
  "UintToArith256 b = map (\<lambda>x. ReadLE32 (take 4 (drop (x * 4) b))) [0..<WIDTH]"

section \<open>The number the limbs stand for\<close>

primrec uval :: "base_uint \<Rightarrow> nat" where
  "uval [] = 0"
| "uval (x # xs) = unat x + 4294967296 * uval xs"

lemma uval_bound: "uval xs < 2 ^ (32 * length xs)"
proof (induction xs)
  case (Cons x xs)
  have "uval xs + 1 \<le> 2 ^ (32 * length xs)"
    using Cons by simp
  then have "4294967296 * (uval xs + 1) \<le> 4294967296 * 2 ^ (32 * length xs)"
    by (rule mult_le_mono2)
  then have "4294967296 * uval xs + 4294967296 \<le> 4294967296 * 2 ^ (32 * length xs)"
    by simp
  moreover have "unat x < 4294967296" by simp
  ultimately have "unat x + 4294967296 * uval xs < 4294967296 * 2 ^ (32 * length xs)"
    by linarith
  then show ?case
    by (simp add: power_add)
qed simp

lemma uval_append: "uval (xs @ ys) = uval xs + 2 ^ (32 * length xs) * uval ys"
  by (induction xs) (simp_all add: algebra_simps power_add)

lemma uval_replicate_0 [simp]: "uval (replicate n 0) = 0"
  by (induction n) auto

lemma limb_step:
  "n mod b + b * ((n div b + r) mod m) = (n + b * r) mod (b * m)" for n b r m :: nat
proof (cases "b = 0")
  case False
  have "(n + b * r) mod (b * m) = b * ((n + b * r) div b mod m) + (n + b * r) mod b"
    by (rule mod_mult2_eq)
  with False show ?thesis by (simp add: add.commute)
qed simp

lemma length_add_loop [simp]: "length (add_loop c xs ys) = min (length xs) (length ys)"
  by (induction c xs ys rule: add_loop.induct) (auto simp: Let_def)

lemma unat_sum_64:
  "unat c + unat x + unat y < 18446744073709551616 \<Longrightarrow> unat ((c :: u64) + x + y) = unat c + unat x + unat y"
  by (simp add: unat_word_ariths)

lemma uval_add_loop:
  "length xs = length ys \<Longrightarrow> unat c < 4294967296 \<Longrightarrow>
   uval (add_loop c xs ys) = (unat c + uval xs + uval ys) mod 2 ^ (32 * length xs)"
proof (induction c xs ys rule: add_loop.induct)
  case (1 c x xs y ys)
  define n where "n = c + ucast x + ucast y"
  have n: "unat n = unat c + unat x + unat y"
    unfolding n_def using 1(3) unat_lt_32 [of x] unat_lt_32 [of y]
    by (subst unat_sum_64) (simp_all del: unat_lt_32)
  have small: "unat n < 18446744073709551616"
    by simp
  have c': "unat (drop_bit 32 n) = unat n div 4294967296"
    by (simp add: unat_drop_bit_word)
  have IH: "uval (add_loop (drop_bit 32 n) xs ys) = (unat n div 4294967296 + (uval xs + uval ys)) mod 2 ^ (32 * length xs)"
    using 1(1) [OF n_def] 1(2) by (simp add: c' div_limb_bound add.assoc)
  have "uval (add_loop c (x # xs) (y # ys)) =
        unat n mod 4294967296 + 4294967296 * ((unat n div 4294967296 + (uval xs + uval ys)) mod 2 ^ (32 * length xs))"
    by (simp add: Let_def IH unat_ucast_64_32 flip: n_def)
  also have "\<dots> = (unat n + 4294967296 * (uval xs + uval ys)) mod (4294967296 * 2 ^ (32 * length xs))"
    by (rule limb_step)
  finally show ?case
    by (simp add: n power_add algebra_simps)
qed auto

lemma length_mul32_loop [simp]: "length (mul32_loop c b xs) = length xs"
  by (induction c b xs rule: mul32_loop.induct) (auto simp: Let_def)

lemma unat_mac_64:
  assumes "unat (c :: u64) < 4294967296"
  shows "unat (c + ucast (x :: u32) + ucast (p :: u32) * ucast (y :: u32)) = unat c + unat x + unat p * unat y"
proof -
  have "unat c + unat x + unat p * unat y < 18446744073709551616"
    using assms by (intro mac_bound_nat) auto
  moreover from this have "unat p * unat y < 18446744073709551616" by linarith
  ultimately show ?thesis
    by (simp add: unat_word_ariths)
qed

lemma uval_mul32_loop:
  "unat c < 4294967296 \<Longrightarrow>
   uval (mul32_loop c b xs) = (unat c + unat b * uval xs) mod 2 ^ (32 * length xs)"
proof (induction c b xs rule: mul32_loop.induct)
  case (2 c b x xs)
  define n where "n = c + ucast b * ucast x"
  have n: "unat n = unat c + unat b * unat x"
    unfolding n_def using unat_mac_64 [OF 2(2), of 0 b x] by simp
  have c': "unat (drop_bit 32 n) = unat n div 4294967296"
    by (simp add: unat_drop_bit_word)
  have IH: "uval (mul32_loop (drop_bit 32 n) b xs) = (unat n div 4294967296 + unat b * uval xs) mod 2 ^ (32 * length xs)"
    using 2(1) [OF n_def] by (simp add: c' div_limb_bound)
  have "uval (mul32_loop c b (x # xs)) =
        unat n mod 4294967296 + 4294967296 * ((unat n div 4294967296 + unat b * uval xs) mod 2 ^ (32 * length xs))"
    by (simp add: Let_def IH unat_ucast_64_32 flip: n_def)
  also have "\<dots> = (unat n + 4294967296 * (unat b * uval xs)) mod (4294967296 * 2 ^ (32 * length xs))"
    by (rule limb_step)
  finally show ?case
    by (simp add: n power_add algebra_simps)
qed auto

lemma length_mul_row [simp]: "length (mul_row c p xs ys) = length xs"
  by (induction c p xs ys rule: mul_row.induct) (auto simp: Let_def)

lemma uval_mul_row:
  "length xs \<le> length ys \<Longrightarrow> unat c < 4294967296 \<Longrightarrow>
   uval (mul_row c p xs ys) = (unat c + uval xs + unat p * uval ys) mod 2 ^ (32 * length xs)"
proof (induction c p xs ys rule: mul_row.induct)
  case (1 c p x xs y ys)
  define n where "n = c + ucast x + ucast p * ucast y"
  have n: "unat n = unat c + unat x + unat p * unat y"
    unfolding n_def by (rule unat_mac_64 [OF 1(3)])
  have c': "unat (drop_bit 32 n) = unat n div 4294967296"
    by (simp add: unat_drop_bit_word)
  have IH: "uval (mul_row (drop_bit 32 n) p xs ys) = (unat n div 4294967296 + (uval xs + unat p * uval ys)) mod 2 ^ (32 * length xs)"
    using 1(1) [OF n_def] 1(2) by (simp add: c' div_limb_bound add.assoc)
  have "uval (mul_row c p (x # xs) (y # ys)) =
        unat n mod 4294967296 + 4294967296 * ((unat n div 4294967296 + (uval xs + unat p * uval ys)) mod 2 ^ (32 * length xs))"
    by (simp add: Let_def IH unat_ucast_64_32 flip: n_def)
  also have "\<dots> = (unat n + 4294967296 * (uval xs + unat p * uval ys)) mod (4294967296 * 2 ^ (32 * length xs))"
    by (rule limb_step)
  finally show ?case
    by (simp add: n power_add algebra_simps)
qed auto

lemma length_mul_outer [simp]: "length a = WIDTH \<Longrightarrow> length (mul_outer pn b j a) = WIDTH"
  by (simp add: mul_outer_def)

lemma uval_mul_outer:
  assumes "length a = n" "length b = n" "j \<le> n"
  shows "uval (mul_outer pn b j a) = (uval a + 2 ^ (32 * j) * (unat (pn ! j) * uval b)) mod 2 ^ (32 * n)"
proof -
  let ?lo = "take j a" and ?hi = "drop j a" and ?m = "2 ^ (32 * (n - j)) :: nat"
  have lo: "uval ?lo < 2 ^ (32 * j)"
    using uval_bound [of ?lo] assms by simp
  have split: "(2::nat) ^ (32 * j) * ?m = 2 ^ (32 * n)"
    using assms by (simp add: diff_mult_distrib2 flip: power_add)
  have "uval (mul_outer pn b j a) = uval ?lo + 2 ^ (32 * j) * ((uval ?hi + unat (pn ! j) * uval b) mod ?m)"
    using assms by (simp add: mul_outer_def uval_append uval_mul_row)
  also have "\<dots> = (uval ?lo + 2 ^ (32 * j) * (uval ?hi + unat (pn ! j) * uval b)) mod 2 ^ (32 * n)"
    using limb_step [of "uval ?lo" "2 ^ (32 * j)" "uval ?hi + unat (pn ! j) * uval b" ?m] lo split
    by simp
  also have "uval ?lo + 2 ^ (32 * j) * (uval ?hi + unat (pn ! j) * uval b) = uval a + 2 ^ (32 * j) * (unat (pn ! j) * uval b)"
    using uval_append [of ?lo ?hi] assms by (simp add: algebra_simps)
  finally show ?thesis .
qed

lemma uval_take_Suc: "j < length pn \<Longrightarrow> uval (take (Suc j) pn) = uval (take j pn) + 2 ^ (32 * j) * unat (pn ! j)"
  by (simp add: take_Suc_conv_app_nth uval_append)

lemma uval_mul_rows:
  assumes "length pn = WIDTH" "length b = WIDTH" "j \<le> WIDTH"
  shows "length (fold (mul_outer pn b) [0..<j] uint_zero) = WIDTH \<and>
         uval (fold (mul_outer pn b) [0..<j] uint_zero) = (uval (take j pn) * uval b) mod 2 ^ (32 * WIDTH)"
  using assms(3)
proof (induction j)
  case 0
  then show ?case by (simp add: uint_zero_def)
next
  case (Suc j)
  let ?a = "fold (mul_outer pn b) [0..<j] uint_zero"
  have IH: "length ?a = WIDTH" "uval ?a = (uval (take j pn) * uval b) mod 2 ^ (32 * WIDTH)"
    using Suc by auto
  have "uval (mul_outer pn b j ?a) =
        ((uval (take j pn) * uval b) mod 2 ^ (32 * WIDTH) + 2 ^ (32 * j) * (unat (pn ! j) * uval b)) mod 2 ^ (32 * WIDTH)"
    using uval_mul_outer [of ?a WIDTH b j pn] Suc.prems assms IH by simp
  also have "\<dots> = (uval (take (Suc j) pn) * uval b) mod 2 ^ (32 * WIDTH)"
    using Suc.prems assms by (simp add: mod_add_left_eq uval_take_Suc add_mult_distrib mult.assoc)
  finally show ?case
    using IH by simp
qed

lemma bit_add_shifted:
  fixes a m :: nat
  assumes "a < 2 ^ k"
  shows "bit (a + 2 ^ k * m) n = (if n < k then bit a n else bit m (n - k))"
proof (cases "n < k")
  case True
  have "take_bit k (a + 2 ^ k * m) = a"
    using assms by (simp add: take_bit_eq_mod)
  with True show ?thesis
    using bit_take_bit_iff [of k "a + 2 ^ k * m" n] by simp
next
  case False
  then have "(a + 2 ^ k * m) div 2 ^ n = (a + 2 ^ k * m) div 2 ^ k div 2 ^ (n - k)"
    by (metis div_exp_eq le_add_diff_inverse not_less)
  with False assms show ?thesis
    by (simp add: bit_iff_odd)
qed

lemma bit_uval: "bit (uval xs) n \<longleftrightarrow> n div 32 < length xs \<and> bit (xs ! (n div 32)) (n mod 32)"
proof (induction xs arbitrary: n)
  case (Cons x xs)
  have "bit (uval (x # xs)) n = (if n < 32 then bit (unat x) n else bit (uval xs) (n - 32))"
    using bit_add_shifted [of "unat x" 32 "uval xs" n] by simp
  also have "\<dots> \<longleftrightarrow> n div 32 < length (x # xs) \<and> bit ((x # xs) ! (n div 32)) (n mod 32)"
  proof (cases "n < 32")
    case False
    then obtain m where m: "n = m + 32"
      using le_iff_add [of 32 n] by (auto simp: add.commute)
    then have "n div 32 = Suc (m div 32)" by simp
    with m show ?thesis
      using Cons [of m] by simp
  qed (simp add: bit_simps)
  finally show ?case .
qed simp

lemma length_shl_step [simp]: "length (shl_step a k s i pn) = length pn"
  by (simp add: shl_step_def Let_def)

lemma length_shr_step [simp]: "length (shr_step a k s i pn) = length pn"
  by (simp add: shr_step_def Let_def)

lemma length_fold_shl [simp]: "length (fold (shl_step a k s) is pn) = length pn"
  by (induction "is" arbitrary: pn) simp_all

lemma length_fold_shr [simp]: "length (fold (shr_step a k s) is pn) = length pn"
  by (induction "is" arbitrary: pn) simp_all

lemma length_uint_zero [simp]: "length uint_zero = WIDTH"
  by (simp add: uint_zero_def)

lemma length_uint_shl [simp]: "length (uint_shl a n) = WIDTH"
  by (simp add: uint_shl_def)

lemma length_uint_shr [simp]: "length (uint_shr a n) = WIDTH"
  by (simp add: uint_shr_def)

lemma nth_fold_shl:
  assumes "p < WIDTH"
  shows "fold (shl_step a k s) [0..<m] uint_zero ! p =
         (if k \<le> p \<and> p - k < m then push_bit s (a ! (p - k)) else 0) OR
         (if s \<noteq> 0 \<and> k + 1 \<le> p \<and> p - k - 1 < m then drop_bit (32 - s) (a ! (p - k - 1)) else 0)"
proof (induction m)
  case 0
  then show ?case using assms by (simp add: uint_zero_def)
next
  case (Suc m)
  let ?f = "fold (shl_step a k s) [0..<m] uint_zero"
  have step: "shl_step a k s m ?f ! p =
      ?f ! p OR (if s \<noteq> 0 \<and> p = m + k + 1 then drop_bit (32 - s) (a ! m) else 0)
             OR (if p = m + k then push_bit s (a ! m) else 0)"
    using assms by (auto simp: shl_step_def Let_def nth_list_update)
  show ?case
    by (simp add: step Suc.IH) (auto simp: less_Suc_eq or.assoc or.commute or.left_commute)
qed

lemma nth_fold_shr:
  assumes "p < WIDTH"
  shows "m \<le> WIDTH \<Longrightarrow> fold (shr_step a k s) [0..<m] uint_zero ! p =
         (if p + k < m then drop_bit s (a ! (p + k)) else 0) OR
         (if s \<noteq> 0 \<and> p + k + 1 < m then push_bit (32 - s) (a ! (p + k + 1)) else 0)"
proof (induction m)
  case 0
  then show ?case using assms by (simp add: uint_zero_def)
next
  case (Suc m)
  let ?f = "fold (shr_step a k s) [0..<m] uint_zero"
  have step: "shr_step a k s m ?f ! p =
      ?f ! p OR (if s \<noteq> 0 \<and> m = p + k + 1 then push_bit (32 - s) (a ! m) else 0)
             OR (if m = p + k then drop_bit s (a ! m) else 0)"
    using assms Suc.prems by (auto simp: shr_step_def Let_def nth_list_update)
  show ?case
    using Suc.prems by (simp add: step Suc.IH)
qed

lemma div_mod_limb:
  assumes "r < 32"
  shows "(32 * q + r) div 32 = q" and "(32 * q + r) mod 32 = (r :: nat)"
  using assms by simp_all

lemma shift_index:
  assumes n: "n = 32 * k + s" "s < 32" "n \<le> (m::nat)"
  shows "(m - n) div 32 = (if s \<le> m mod 32 then m div 32 - k else m div 32 - k - 1)"
    and "(m - n) mod 32 = (if s \<le> m mod 32 then m mod 32 - s else 32 + m mod 32 - s)"
    and "k \<le> m div 32" and "\<not> s \<le> m mod 32 \<Longrightarrow> k + 1 \<le> m div 32"
proof -
  define q r where "q = m div 32" and "r = m mod 32"
  have m: "m = 32 * q + r" "r < 32" by (simp_all add: q_def r_def)
  have low: "k \<le> q" and high: "\<not> s \<le> r \<Longrightarrow> k + 1 \<le> q"
    using n m by linarith+
  then show "k \<le> m div 32" and "\<not> s \<le> m mod 32 \<Longrightarrow> k + 1 \<le> m div 32"
    by (simp_all add: q_def r_def)
  have "m - n = (if s \<le> r then 32 * (q - k) + (r - s) else 32 * (q - k - 1) + (32 + r - s))"
  proof (cases "s \<le> r")
    case True
    obtain d where "q = k + d" using low le_iff_add by blast
    with True n m show ?thesis by simp
  next
    case False
    obtain d where "q = k + 1 + d" using high [OF False] le_iff_add by blast
    with False n m show ?thesis by simp
  qed
  with n m show "(m - n) div 32 = (if s \<le> m mod 32 then m div 32 - k else m div 32 - k - 1)"
    and "(m - n) mod 32 = (if s \<le> m mod 32 then m mod 32 - s else 32 + m mod 32 - s)"
    unfolding q_def [symmetric] r_def [symmetric]
    by (simp_all only: div_mod_limb split: if_splits) (simp_all add: div_mod_limb)
qed

lemma shift_up_index:
  assumes n: "n = 32 * k + s" "s < (32 :: nat)"
  shows "(m + n) div 32 = (if m mod 32 + s < 32 then m div 32 + k else m div 32 + k + 1)"
    and "(m + n) mod 32 = (if m mod 32 + s < 32 then m mod 32 + s else m mod 32 + s - 32)"
proof -
  define q r where "q = m div 32" and "r = m mod 32"
  have m: "m = 32 * q + r" "r < 32" by (simp_all add: q_def r_def)
  have "m + n = (if r + s < 32 then 32 * (q + k) + (r + s) else 32 * (q + k + 1) + (r + s - 32))"
    using n m by auto
  with n m show "(m + n) div 32 = (if m mod 32 + s < 32 then m div 32 + k else m div 32 + k + 1)"
    and "(m + n) mod 32 = (if m mod 32 + s < 32 then m mod 32 + s else m mod 32 + s - 32)"
    unfolding q_def [symmetric] r_def [symmetric]
    by (simp_all only: div_mod_limb split: if_splits) (simp_all add: div_mod_limb)
qed

lemma bit_uint_shl:
  assumes "length a = WIDTH"
  shows "bit (uval (uint_shl a n)) m \<longleftrightarrow> m < 32 * WIDTH \<and> n \<le> m \<and> bit (uval a) (m - n)"
proof (cases "m div 32 < WIDTH")
  case True
  define k s where "k = n div 32" and "s = n mod 32"
  have n: "n = 32 * k + s" "s < 32" by (simp_all add: k_def s_def)
  have lhs: "bit (uval (uint_shl a n)) m \<longleftrightarrow>
     (k \<le> m div 32 \<and> s \<le> m mod 32 \<and> bit (a ! (m div 32 - k)) (m mod 32 - s)) \<or>
     (s \<noteq> 0 \<and> k + 1 \<le> m div 32 \<and> bit (a ! (m div 32 - k - 1)) (32 - s + m mod 32))"
    using True by (auto simp: bit_uval uint_shl_def nth_fold_shl bit_simps k_def s_def)
  show ?thesis
  proof (cases "n \<le> m")
    case True': True
    note ix = shift_index [OF n True']
    have "\<not> bit (a ! (m div 32 - k - 1)) (32 - s + m mod 32)" if "s \<le> m mod 32"
      using that n(2) by (auto dest: bit_imp_le_length)
    moreover have "m div 32 - k < WIDTH" "m div 32 - k - 1 < WIDTH"
      using True by auto
    ultimately show ?thesis
      unfolding lhs bit_uval [of a] using True True' ix n(2) assms
      by (cases "s \<le> m mod 32") (simp_all add: div_less_iff_less_mult mult.commute)
  next
    case False
    then have "32 * (m div 32) + m mod 32 < 32 * k + s"
      using n by simp
    with n(2) have "\<not> (k \<le> m div 32 \<and> s \<le> m mod 32)" "\<not> k + 1 \<le> m div 32"
      using mod_less_divisor [of 32 m] by linarith+
    with False show ?thesis by (auto simp: lhs)
  qed
next
  case False
  then show ?thesis
    by (auto simp: bit_uval div_less_iff_less_mult)
qed

lemma bit_uint_shr:
  assumes "length a = WIDTH"
  shows "bit (uval (uint_shr a n)) m \<longleftrightarrow> bit (uval a) (m + n)"
proof -
  define k s where "k = n div 32" and "s = n mod 32"
  have n: "n = 32 * k + s" "s < 32" by (simp_all add: k_def s_def)
  note ix = shift_up_index [OF n, of m]
  have lhs: "bit (uval (uint_shr a n)) m \<longleftrightarrow>
     (m div 32 < WIDTH \<and> m div 32 + k < WIDTH \<and> bit (a ! (m div 32 + k)) (m mod 32 + s)) \<or>
     (m div 32 < WIDTH \<and> s \<noteq> 0 \<and> m div 32 + k + 1 < WIDTH \<and> 32 - s \<le> m mod 32 \<and> bit (a ! (m div 32 + k + 1)) (m mod 32 - (32 - s)))"
    by (auto simp: bit_uval uint_shr_def nth_fold_shr bit_simps k_def s_def add.commute split: if_splits)
  show ?thesis
    unfolding lhs bit_uval [of a] ix using assms n(2)
    by (auto dest: bit_imp_le_length simp: add.commute)
qed

lemma uval_uint_shl:
  assumes "length a = WIDTH"
  shows "uval (uint_shl a n) = (uval a * 2 ^ n) mod 2 ^ (32 * WIDTH)"
proof -
  have "uval (uint_shl a n) = take_bit (32 * WIDTH) (push_bit n (uval a))"
    by (rule bit_eqI) (auto simp: bit_uint_shl [OF assms] bit_take_bit_iff bit_push_bit_iff)
  then show ?thesis
    by (simp add: take_bit_eq_mod push_bit_eq_mult)
qed

lemma uval_uint_shr:
  assumes "length a = WIDTH"
  shows "uval (uint_shr a n) = uval a div 2 ^ n"
proof -
  have "uval (uint_shr a n) = drop_bit n (uval a)"
    by (rule bit_eqI) (auto simp: bit_uint_shr [OF assms] bit_drop_bit_eq add.commute)
  then show ?thesis
    by (simp add: drop_bit_eq_div)
qed

abbreviation (input) limbs :: "base_uint \<Rightarrow> bool" where
  "limbs a \<equiv> length a = WIDTH"

lemma length_uint_inc [simp]: "length (uint_inc xs) = length xs"
  by (induction xs rule: uint_inc.induct) auto

lemma length_uint_dec [simp]: "length (uint_dec xs) = length xs"
  by (induction xs rule: uint_dec.induct) auto

lemma length_uint_not [simp]: "length (uint_not xs) = length xs"
  by (simp add: uint_not_def)

lemma length_uint_neg [simp]: "length (uint_neg xs) = length xs"
  by (simp add: uint_neg_def)

lemma length_uint_add [simp]: "length (uint_add a b) = min (length a) (length b)"
  by (simp add: uint_add_def)

lemma length_uint_sub [simp]: "length (uint_sub a b) = min (length a) (length b)"
  by (simp add: uint_sub_def)

lemma length_uint_mul32 [simp]: "length (uint_mul32 a b) = length a"
  by (simp add: uint_mul32_def)

lemma length_of_uint64 [simp]: "length (of_uint64 b) = WIDTH"
  by (simp add: of_uint64_def WIDTH_def)

lemma length_uint_mul [simp]: "limbs a \<Longrightarrow> limbs b \<Longrightarrow> limbs (uint_mul a b)"
  using uval_mul_rows [of a b WIDTH] by (simp add: uint_mul_def)

lemma inc_wraps: "x + 1 = (0 :: u32) \<Longrightarrow> unat x = 4294967295"
proof -
  assume "x + 1 = 0"
  then have "x = - 1" by (simp add: eq_neg_iff_add_eq_0)
  then show ?thesis by (simp add: unsigned_minus_1_eq_mask mask_eq_exp_minus_1)
qed

lemma unat_inc_limb:
  assumes "x + 1 \<noteq> (0 :: u32)"
  shows "unat (x + 1) = unat x + 1"
proof -
  have eq: "unat (x + 1) = (unat x + 1) mod 4294967296"
    by (simp add: unat_word_ariths)
  have "unat x \<noteq> 4294967295"
    using eq assms by (auto simp: unat_0_iff)
  then have "unat x + 1 < 4294967296"
    using unat_le_32 [of x] by linarith
  with eq show ?thesis by simp
qed

lemma uval_uint_inc: "uval (uint_inc xs) = (uval xs + 1) mod 2 ^ (32 * length xs)"
proof (induction xs rule: uint_inc.induct)
  case (2 x xs)
  show ?case
  proof (cases "x + 1 = 0")
    case True
    then have "uval (x # xs) + 1 = 4294967296 * (uval xs + 1)"
      by (simp add: inc_wraps)
    moreover have "uval (uint_inc (x # xs)) = 4294967296 * ((uval xs + 1) mod 2 ^ (32 * length xs))"
      using True 2 by simp
    ultimately show ?thesis
      by (simp add: power_add mult_mod_right)
  next
    case False
    then have "uval (uint_inc (x # xs)) = uval (x # xs) + 1"
      by (simp add: unat_inc_limb)
    moreover have "uval (uint_inc (x # xs)) < 2 ^ (32 * length (x # xs))"
      using uval_bound [of "uint_inc (x # xs)"] by (simp only: length_uint_inc)
    ultimately show ?thesis by (simp only: mod_less)
  qed
qed simp

lemma unat_dec_limb: "unat (x - 1 :: u32) = (if x = 0 then 4294967295 else unat x - 1)"
  by (simp add: unat_minus_one unsigned_minus_1_eq_mask mask_eq_exp_minus_1)

lemma uval_uint_dec: "uval (uint_dec xs) = (uval xs + (2 ^ (32 * length xs) - 1)) mod 2 ^ (32 * length xs)"
proof (induction xs rule: uint_dec.induct)
  case (2 x xs)
  let ?m = "2 ^ (32 * length xs) :: nat"
  have wrap: "x - 1 = - 1 \<longleftrightarrow> x = 0" by auto
  have m: "?m > 0" by simp
  show ?case
  proof (cases "x = 0")
    case True
    then have "uval (uint_dec (x # xs)) = 4294967295 + 4294967296 * ((uval xs + (?m - 1)) mod ?m)"
      using 2 by (simp add: wrap unsigned_minus_1_eq_mask mask_eq_exp_minus_1)
    also have "\<dots> = (4294967295 + 4294967296 * (uval xs + (?m - 1))) mod (4294967296 * ?m)"
      using limb_step [of 4294967295 4294967296 "uval xs + (?m - 1)" ?m] by simp
    also have "4294967295 + 4294967296 * (uval xs + (?m - 1)) = uval (x # xs) + (4294967296 * ?m - 1)"
    proof -
      have "4294967296 \<le> 4294967296 * ?m" using m by simp
      moreover have "uval (x # xs) = 4294967296 * uval xs" using True by simp
      ultimately show ?thesis
        unfolding add_mult_distrib2 diff_mult_distrib2 by linarith
    qed
    finally show ?thesis by (simp add: power_add)
  next
    case False
    then have pos: "unat x > 0" by (simp add: unat_gt_0)
    have "uval (uint_dec (x # xs)) = uval (x # xs) - 1"
      using False pos by (simp add: wrap unat_dec_limb)
    moreover have "(uval (x # xs) + (4294967296 * ?m - 1)) mod (4294967296 * ?m) = uval (x # xs) - 1"
    proof -
      have "uval (x # xs) + (4294967296 * ?m - 1) = (uval (x # xs) - 1) + 4294967296 * ?m"
        using pos m by simp
      moreover have "uval (x # xs) - 1 < 4294967296 * ?m"
        using uval_bound [of "x # xs"] by (simp add: power_add)
      ultimately show ?thesis by (simp only: mod_add_self2 mod_less)
    qed
    moreover have "(2 :: nat) ^ (32 * length (x # xs)) = 4294967296 * ?m"
      by (simp add: power_add)
    ultimately show ?thesis by (simp only:)
  qed
qed simp

lemma unat_not_limb: "unat (NOT x :: u32) = 4294967295 - unat x"
proof -
  have "NOT x = - 1 - x" by (simp add: not_eq_complement)
  then show ?thesis
    by (simp add: unat_sub unsigned_minus_1_eq_mask mask_eq_exp_minus_1)
qed

lemma uval_uint_not: "uval (uint_not xs) = 2 ^ (32 * length xs) - 1 - uval xs"
proof (induction xs)
  case (Cons x xs)
  let ?m = "2 ^ (32 * length xs) :: nat"
  have "uval xs < ?m" by (rule uval_bound)
  moreover have "unat x \<le> 4294967295" by simp
  ultimately have "4294967295 - unat x + 4294967296 * (?m - 1 - uval xs) = 4294967296 * ?m - 1 - (unat x + 4294967296 * uval xs)"
    by linarith
  with Cons show ?case
    by (simp add: uint_not_def unat_not_limb power_add)
qed (simp add: uint_not_def)

lemma uval_uint_neg: "uval (uint_neg xs) = (2 ^ (32 * length xs) - uval xs) mod 2 ^ (32 * length xs)"
proof -
  have "2 ^ (32 * length xs) - 1 - uval xs + 1 = 2 ^ (32 * length xs) - uval xs"
    using uval_bound [of xs] by linarith
  then show ?thesis
    by (simp only: uint_neg_def uval_uint_inc uval_uint_not length_uint_not)
qed

lemma uval_uint_add [limb_simps]:
  "length a = length b \<Longrightarrow> uval (uint_add a b) = (uval a + uval b) mod 2 ^ (32 * length a)"
  by (simp add: uint_add_def uval_add_loop)

lemma uval_uint_sub [limb_simps]:
  assumes "length a = length b"
  shows "uval (uint_sub a b) = (uval a + (2 ^ (32 * length a) - uval b)) mod 2 ^ (32 * length a)"
  using assms by (simp add: uint_sub_def uval_uint_add uval_uint_neg mod_add_right_eq)

lemma uval_uint_sub_le:
  assumes "length a = length b" "uval b \<le> uval a"
  shows "uval (uint_sub a b) = uval a - uval b"
proof -
  have "uval a < 2 ^ (32 * length a)" by (rule uval_bound)
  moreover have "uval a + (2 ^ (32 * length a) - uval b) = (uval a - uval b) + 2 ^ (32 * length a)"
    using assms uval_bound [of b] by simp
  ultimately have "(uval a + (2 ^ (32 * length a) - uval b)) mod 2 ^ (32 * length a) = uval a - uval b"
    by (simp only: mod_add_self2) simp
  then show ?thesis
    by (simp only: uval_uint_sub [OF assms(1)])
qed

lemma uval_uint_mul32 [limb_simps]: "uval (uint_mul32 a b) = (uval a * unat b) mod 2 ^ (32 * length a)"
  by (simp add: uint_mul32_def uval_mul32_loop mult.commute)

lemma uval_uint_mul [limb_simps]:
  "limbs a \<Longrightarrow> limbs b \<Longrightarrow> uval (uint_mul a b) = (uval a * uval b) mod 2 ^ (32 * WIDTH)"
  using uval_mul_rows [of a b WIDTH] by (simp add: uint_mul_def)

lemma uval_of_uint64 [limb_simps]: "uval (of_uint64 b) = unat b"
  by (simp add: of_uint64_def unat_ucast_64_32 unat_drop_bit_word div_limb_bound)

lemma uval_uint_zero [simp]: "uval uint_zero = 0"
  by (simp add: uint_zero_def)

section \<open>Comparison and bit length\<close>

lemma limb_less:
  fixes a b lo lo' m :: nat
  assumes "lo < m" "a < b"
  shows "lo + m * a < lo' + m * b"
proof -
  have "m * a + m \<le> m * b"
    using assms(2) by (metis Suc_leI mult_Suc_right mult_le_mono2 add.commute)
  with assms(1) show ?thesis by linarith
qed

lemma compare_loop_uval:
  assumes "i \<le> length a" "i \<le> length b"
  shows "compare_loop i a b =
    (if uval (take i a) < uval (take i b) then - 1 else if uval (take i b) < uval (take i a) then 1 else 0)"
  using assms
proof (induction i)
  case (Suc i)
  have lo: "uval (take i a) < 2 ^ (32 * i)" "uval (take i b) < 2 ^ (32 * i)"
    using uval_bound [of "take i a"] uval_bound [of "take i b"] Suc.prems by simp_all
  have eq: "uval (take (Suc i) a) = uval (take i a) + 2 ^ (32 * i) * unat (a ! i)"
           "uval (take (Suc i) b) = uval (take i b) + 2 ^ (32 * i) * unat (b ! i)"
    using Suc.prems by (simp_all add: uval_take_Suc)
  consider "unat (a ! i) < unat (b ! i)" | "unat (b ! i) < unat (a ! i)" | "a ! i = b ! i"
    by (metis linorder_neqE_nat unsigned_word_eqI)
  then show ?case
  proof cases
    case 1
    then show ?thesis
      using limb_less [OF lo(1) 1, of "uval (take i b)"] by (simp add: eq word_less_nat_alt)
  next
    case 2
    then show ?thesis
      using limb_less [OF lo(2) 2, of "uval (take i a)"] by (simp add: eq word_less_nat_alt)
  next
    case 3
    then show ?thesis using Suc by (simp add: eq)
  qed
qed simp

lemma CompareTo_uval:
  assumes "limbs a" "limbs b"
  shows "CompareTo a b = (if uval a < uval b then - 1 else if uval b < uval a then 1 else 0)"
  using compare_loop_uval [of WIDTH a b] assms by (simp add: CompareTo_def)

lemma CompareTo_ge [limb_simps]: "limbs a \<Longrightarrow> limbs b \<Longrightarrow> 0 \<le> CompareTo a b \<longleftrightarrow> uval b \<le> uval a"
  by (auto simp: CompareTo_uval)

lemma CompareTo_gt [limb_simps]: "limbs a \<Longrightarrow> limbs b \<Longrightarrow> 0 < CompareTo a b \<longleftrightarrow> uval b < uval a"
  by (auto simp: CompareTo_uval)

lemma bit_test_nonzero: "(x :: 'a::len word) AND push_bit n 1 \<noteq> 0 \<longleftrightarrow> bit x n"
proof -
  have "x AND push_bit n 1 = (if bit x n then push_bit n 1 else 0)"
    by (rule bit_word_eqI) (auto simp: bit_simps)
  moreover have "bit x n \<Longrightarrow> push_bit n 1 \<noteq> (0 :: 'a word)"
    by (auto dest!: bit_imp_le_length simp: bit_eq_iff bit_simps)
  ultimately show ?thesis by auto
qed

lemma unat_less_Suc_bit: "unat (x :: u32) < 2 ^ Suc n \<Longrightarrow> \<not> bit x n \<Longrightarrow> unat x < 2 ^ n"
proof -
  assume lt: "unat x < 2 ^ Suc n" and nb: "\<not> bit x n"
  have "take_bit (Suc n) (unat x) = take_bit n (unat x)"
  proof (rule bit_eqI)
    fix m
    show "bit (take_bit (Suc n) (unat x)) m \<longleftrightarrow> bit (take_bit n (unat x)) m"
      using nb by (auto simp: bit_take_bit_iff less_Suc_eq bit_unsigned_iff)
  qed
  then have "take_bit n (unat x) = unat x"
    using lt by (metis take_bit_nat_eq_self_iff)
  then show ?thesis
    by (simp only: take_bit_nat_eq_self_iff)
qed

lemma bit_imp_unat_ge: "bit (x :: u32) n \<Longrightarrow> 2 ^ n \<le> unat x"
proof -
  assume "bit x n"
  then have "bit (unat x) n" by (simp add: bit_unsigned_iff bit_imp_possible_bit)
  then have "odd (unat x div 2 ^ n)" by (rule bit_iff_odd [THEN iffD1])
  then have "unat x div 2 ^ n \<noteq> 0" by (metis even_zero)
  then show ?thesis by (meson div_less not_le)
qed

lemma top_bit_Suc: "top_bit (Suc n) x = (if bit x (Suc n) then Suc n else top_bit n x)"
  by (simp only: top_bit.simps bit_test_nonzero)

declare top_bit.simps(2) [simp del]

lemma top_bit_spec:
  "unat x < 2 ^ Suc n \<Longrightarrow> x \<noteq> 0 \<Longrightarrow> 2 ^ top_bit n x \<le> unat x \<and> unat x < 2 ^ Suc (top_bit n x)"
proof (induction n)
  case 0
  then show ?case by (simp add: unat_gt_0 Suc_leI)
next
  case (Suc n)
  show ?case
  proof (cases "bit x (Suc n)")
    case True
    then show ?thesis
      using Suc.prems(1) by (simp add: top_bit_Suc del: power_Suc) (rule bit_imp_unat_ge)
  next
    case False
    then have "unat x < 2 ^ Suc n"
      using Suc.prems(1) unat_less_Suc_bit by blast
    with False show ?thesis
      using Suc by (simp add: top_bit_Suc)
  qed
qed

lemma bits_loop_spec:
  assumes "pos \<le> length a"
  shows "(uval (take pos a) = 0 \<longrightarrow> bits_loop pos a = 0) \<and>
         (uval (take pos a) \<noteq> 0 \<longrightarrow> 0 < bits_loop pos a \<and>
            2 ^ (bits_loop pos a - 1) \<le> uval (take pos a) \<and> uval (take pos a) < 2 ^ bits_loop pos a)"
  using assms
proof (induction pos)
  case (Suc pos)
  have eq: "uval (take (Suc pos) a) = uval (take pos a) + 2 ^ (32 * pos) * unat (a ! pos)"
    using Suc.prems by (simp add: uval_take_Suc)
  have lo: "uval (take pos a) < 2 ^ (32 * pos)"
    using uval_bound [of "take pos a"] Suc.prems by simp
  show ?case
  proof (cases "a ! pos = 0")
    case True
    then show ?thesis using Suc by (simp add: eq)
  next
    case False
    define t where "t = top_bit 31 (a ! pos)"
    have t: "2 ^ t \<le> unat (a ! pos)" "unat (a ! pos) < 2 ^ Suc t"
      using top_bit_spec [of "a ! pos" 31] False by (simp_all add: t_def)
    have "2 ^ (32 * pos) * 2 ^ t \<le> 2 ^ (32 * pos) * unat (a ! pos)"
      using t(1) by (rule mult_le_mono2)
    then have lower: "2 ^ (32 * pos + t) \<le> uval (take (Suc pos) a)"
      unfolding eq power_add by linarith
    have "uval (take pos a) + 2 ^ (32 * pos) * unat (a ! pos) < 0 + 2 ^ (32 * pos) * 2 ^ Suc t"
      using lo t(2) by (rule limb_less)
    then have upper: "uval (take (Suc pos) a) < 2 ^ (32 * pos + t + 1)"
      by (simp add: eq power_add mult_ac)
    have "bits_loop (Suc pos) a = 32 * pos + t + 1"
      using False by (simp add: t_def)
    moreover have "uval (take (Suc pos) a) \<noteq> 0"
      using lower by (metis not_numeral_le_zero le_zero_eq power_not_zero zero_neq_numeral)
    ultimately show ?thesis
      using lower upper by simp
  qed
qed simp

lemma uint_bits_zero [limb_simps]: "limbs a \<Longrightarrow> uint_bits a = 0 \<longleftrightarrow> uval a = 0"
  using bits_loop_spec [of WIDTH a] by (auto simp: uint_bits_def)

lemma uint_bits_upper: "limbs a \<Longrightarrow> uval a < 2 ^ uint_bits a"
  using bits_loop_spec [of WIDTH a] by (cases "uval a = 0") (auto simp: uint_bits_def)

lemma uint_bits_lower: "limbs a \<Longrightarrow> uval a \<noteq> 0 \<Longrightarrow> 2 ^ (uint_bits a - 1) \<le> uval a"
  using bits_loop_spec [of WIDTH a] by (auto simp: uint_bits_def)

lemma uint_bits_le: "limbs a \<Longrightarrow> uint_bits a \<le> 256"
proof (rule ccontr)
  assume a: "limbs a" and "\<not> uint_bits a \<le> 256"
  then have big: "256 \<le> uint_bits a - 1" "uval a \<noteq> 0"
    using uint_bits_zero [of a] by auto
  then have "(2::nat) ^ 256 \<le> 2 ^ (uint_bits a - 1)"
    by (intro power_increasing) auto
  also have "\<dots> \<le> uval a"
    using a big uint_bits_lower by blast
  finally show False
    using uval_bound [of a] a by (simp add: WIDTH_def)
qed

lemma two_limb_number:
  fixes x0 x1 h b :: nat
  assumes "x0 < 4294967296" "b < 18446744073709551616"
  shows "h = 0 \<and> x1 = b div 4294967296 \<and> x0 = b mod 4294967296 \<longleftrightarrow>
         x0 + 4294967296 * (x1 + 4294967296 * h) = b"
proof
  assume eq: "x0 + 4294967296 * (x1 + 4294967296 * h) = b"
  have "b mod 4294967296 = x0" "b div 4294967296 = x1 + 4294967296 * h"
    using assms(1) by (simp_all only: eq [symmetric] mod_mult_self2 div_mult_self2) simp_all
  moreover from this have "x1 + 4294967296 * h < 4294967296"
    using div_limb_bound [OF assms(2)] by simp
  ultimately show "h = 0 \<and> x1 = b div 4294967296 \<and> x0 = b mod 4294967296"
    by (cases h) auto
qed auto

lemma EqualTo_uval [limb_simps]:
  assumes "limbs a"
  shows "EqualTo a b \<longleftrightarrow> uval a = unat b"
proof -
  obtain x0 x1 x2 x3 x4 x5 x6 x7 where a: "a = [x0, x1, x2, x3, x4, x5, x6, x7]"
    using assms by (auto simp: WIDTH_def numeral_eq_Suc length_Suc_conv)
  let ?h = "uval [x2, x3, x4, x5, x6, x7]"
  have hi: "(\<exists>i \<in> set [2..<WIDTH]. a ! i \<noteq> 0) \<longleftrightarrow> ?h \<noteq> 0"
    by (simp add: a WIDTH_def upt_rec unat_0_iff nth_Cons')
  have l1: "(ucast x1 :: u64) = drop_bit 32 b \<longleftrightarrow> unat x1 = unat b div 4294967296"
    by (simp add: word_unat_eq_iff) (simp add: unat_drop_bit_word)
  have l0: "(ucast x0 :: u64) = b AND 0xffffffff \<longleftrightarrow> unat x0 = unat b mod 4294967296"
    by (simp only: word_unat_eq_iff mask_low32 unsigned_take_bit_eq) (simp add: take_bit_eq_mod)
  have "EqualTo a b \<longleftrightarrow> ?h = 0 \<and> unat x1 = unat b div 4294967296 \<and> unat x0 = unat b mod 4294967296"
    unfolding EqualTo_def hi by (simp add: a l0 l1 del: uval.simps)
  also have "\<dots> \<longleftrightarrow> uval a = unat b"
    by (subst two_limb_number) (simp_all add: a)
  finally show ?thesis .
qed

section \<open>Division\<close>


lemma uval_set_bit:
  assumes "limbs q" "sh < 256" "\<not> bit (uval q) sh"
  shows "uval (q[sh div 32 := q ! (sh div 32) OR push_bit (sh mod 32) 1]) = uval q + 2 ^ sh"
proof -
  let ?q = "q[sh div 32 := q ! (sh div 32) OR push_bit (sh mod 32) 1]"
  have ix: "sh div 32 < length q" using assms by (simp add: WIDTH_def)
  have "uval ?q = uval q OR 2 ^ sh"
  proof (rule bit_eqI)
    fix n
    have eq: "n = sh \<longleftrightarrow> n div 32 = sh div 32 \<and> n mod 32 = sh mod 32"
      by (metis div_mult_mod_eq)
    show "bit (uval ?q) n \<longleftrightarrow> bit (uval q OR 2 ^ sh) n"
      unfolding bit_or_iff bit_exp_iff bit_uval eq
      using ix by (auto simp: nth_list_update bit_simps)
  qed
  also have "\<dots> = uval q + 2 ^ sh"
    using assms(3) by (intro disjunctive_add [symmetric]) (auto simp: bit_exp_iff)
  finally show ?thesis .
qed

lemma div_loop_spec:
  assumes "limbs num" "limbs dv" "limbs q" "0 < d" "c \<le> 256"
    and "0 < c \<Longrightarrow> uval dv = d * 2 ^ (c - 1)"
    and "uval num < d * 2 ^ c" "uval q * d + uval num = n"
    and "\<And>i. i < c \<Longrightarrow> \<not> bit (uval q) i"
  shows "limbs (fst (div_loop c num dv q)) \<and> uval (fst (div_loop c num dv q)) = n div d \<and>
         uval (snd (div_loop c num dv q)) = n mod d"
  using assms
proof (induction c arbitrary: num dv q)
  case 0
  then have "n = uval q * d + uval num" "uval num < d" by auto
  with 0 show ?case by simp
next
  case (Suc sh)
  have dv: "uval dv = d * 2 ^ sh" using Suc.prems(6) by simp
  have shr: "0 < sh \<Longrightarrow> uval (uint_shr dv 1) = d * 2 ^ (sh - 1)"
    using Suc.prems(2) dv by (cases sh) (simp_all add: uval_uint_shr)
  show ?case
  proof (cases "uval dv \<le> uval num")
    case True
    define q' where "q' = q[sh div 32 := q ! (sh div 32) OR push_bit (sh mod 32) 1]"
    have num: "uval (uint_sub num dv) = uval num - d * 2 ^ sh"
      using True Suc.prems dv by (simp add: uval_uint_sub_le)
    have q: "uval q' = uval q + 2 ^ sh"
      unfolding q'_def using Suc.prems by (intro uval_set_bit) auto
    have len: "limbs q'" using Suc.prems by (simp add: q'_def)
    have bits: "\<not> bit (uval q') i" if "i < sh" for i
    proof -
      have "sh div 32 < length q" using Suc.prems by (simp add: WIDTH_def)
      then show ?thesis
        using that Suc.prems(9) [of i] unfolding bit_uval q'_def
        by (auto simp: nth_list_update bit_simps) (metis div_mult_mod_eq less_irrefl)
    qed
    have "div_loop (Suc sh) num dv q = div_loop sh (uint_sub num dv) (uint_shr dv 1) q'"
      using True Suc.prems unfolding q'_def by (simp add: CompareTo_ge)
    moreover have "uval q' * d + uval (uint_sub num dv) = n"
      using True Suc.prems(8) dv by (simp add: q num add_mult_distrib)
    moreover have "uval (uint_sub num dv) < d * 2 ^ sh"
      using Suc.prems(7) by (simp add: num)
    ultimately show ?thesis
      using Suc.IH [of "uint_sub num dv" "uint_shr dv 1" q'] Suc.prems shr bits len by simp
  next
    case False
    then have "div_loop (Suc sh) num dv q = div_loop sh num (uint_shr dv 1) q"
      using Suc.prems by (simp add: CompareTo_ge)
    then show ?thesis
      using Suc.IH [of num "uint_shr dv 1" q] Suc.prems shr False dv by simp
  qed
qed

lemma uint_div_spec:
  assumes "limbs a" "limbs b" "uval b \<noteq> 0"
  shows "\<exists>q. uint_div a b = Inr q \<and> limbs q \<and> uval q = uval a div uval b"
proof (cases "uint_bits b > uint_bits a")
  case True
  have "uval a < 2 ^ uint_bits a" using assms uint_bits_upper by blast
  also have "\<dots> \<le> 2 ^ (uint_bits b - 1)" using True by (intro power_increasing) auto
  also have "\<dots> \<le> uval b" using assms uint_bits_lower by blast
  finally show ?thesis
    using True assms by (simp add: uint_div_def Let_def uint_bits_zero)
next
  case False
  define sh where "sh = uint_bits a - uint_bits b"
  have pos: "0 < uint_bits b" using assms uint_bits_zero [of b] by auto
  have bits: "uint_bits b + sh = uint_bits a" using False by (simp add: sh_def)
  have le: "uint_bits a \<le> 256" using assms uint_bits_le by blast
  have "uval b * 2 ^ sh < 2 ^ uint_bits b * 2 ^ sh"
    using assms uint_bits_upper by simp
  also have "\<dots> \<le> 2 ^ 256"
    unfolding power_add [symmetric] bits using le by (intro power_increasing) auto
  finally have dv: "uval (uint_shl b sh) = uval b * 2 ^ sh"
    using assms by (simp add: uval_uint_shl WIDTH_def)
  have "uval a < 2 ^ uint_bits a" using assms uint_bits_upper by blast
  also have "\<dots> = 2 ^ (uint_bits b - 1) * 2 ^ Suc sh"
  proof -
    have "uint_bits a = (uint_bits b - 1) + Suc sh" using pos bits by simp
    then show ?thesis by (simp only: power_add)
  qed
  also have "\<dots> \<le> uval b * 2 ^ Suc sh"
    using assms uint_bits_lower by (intro mult_le_mono1) auto
  finally have num: "uval a < uval b * 2 ^ Suc sh" .
  have "uint_div a b = Inr (fst (div_loop (Suc sh) a (uint_shl b sh) uint_zero))"
    using False assms by (simp add: uint_div_def Let_def uint_bits_zero sh_def)
  moreover have "limbs (fst (div_loop (Suc sh) a (uint_shl b sh) uint_zero)) \<and>
      uval (fst (div_loop (Suc sh) a (uint_shl b sh) uint_zero)) = uval a div uval b"
    using div_loop_spec [of a "uint_shl b sh" uint_zero "uval b" "Suc sh" "uval a"] assms dv num pos bits le
    by simp
  ultimately show ?thesis by auto
qed

lemma uint_div_zero: "limbs b \<Longrightarrow> uval b = 0 \<Longrightarrow> uint_div a b = Inl Division_by_zero"
  by (simp add: uint_div_def Let_def uint_bits_zero)

section \<open>The compact format\<close>

lemma unat_and_mantissa: "unat ((x :: u32) AND 0x007fffff) = unat x mod 8388608"
proof -
  have "(0x007fffff :: u32) = mask 23" by (simp add: mask_eq_exp_minus_1)
  then show ?thesis using unat_and_mask [of x 23] by simp
qed

lemma sign_bit_iff: "(x :: u32) AND 0x00800000 \<noteq> 0 \<longleftrightarrow> odd (unat x div 8388608)"
proof -
  have "(0x00800000 :: u32) = push_bit 23 1" by simp
  then have "x AND 0x00800000 \<noteq> 0 \<longleftrightarrow> bit x 23" by (metis bit_test_nonzero)
  also have "\<dots> \<longleftrightarrow> bit (unat x) 23" by (simp add: bit_unsigned_iff)
  also have "\<dots> \<longleftrightarrow> odd (unat x div 2 ^ 23)" by (rule bit_iff_odd)
  finally show ?thesis by simp
qed

lemma unat_or_disjoint:
  fixes x y :: u32
  assumes "unat x < 2 ^ k" "unat y = 2 ^ k * z"
  shows "unat (x OR y) = unat x + unat y"
proof -
  have "\<not> bit (unat x) n \<or> \<not> bit (unat y) n" for n
  proof -
    have "bit (unat y) n \<longleftrightarrow> k \<le> n \<and> bit z (n - k)"
      using bit_add_shifted [of 0 k z n] assms(2) by auto
    moreover have "bit (unat x) n \<Longrightarrow> n < k"
      using assms(1) by (metis bit_take_bit_iff take_bit_nat_eq_self)
    ultimately show ?thesis by auto
  qed
  then show ?thesis
    by (simp add: unsigned_or_eq disjunctive_add)
qed

lemma GetLow64_uval: "limbs a \<Longrightarrow> unat (GetLow64 a) = uval a mod 18446744073709551616"
proof -
  assume "limbs a"
  then obtain x0 x1 r where a: "a = x0 # x1 # r"
    by (auto simp: WIDTH_def numeral_eq_Suc length_Suc_conv)
  let ?x = "ucast x0 :: u64" and ?y = "push_bit 32 (ucast x1) :: u64"
  have y: "unat ?y = 4294967296 * unat x1"
  proof -
    have "unat x1 * 4294967296 < 18446744073709551616"
      using unat_lt_32 [of x1] by linarith
    then show ?thesis
      using unat_push_bit_small [of "ucast x1 :: u64" 32] by simp
  qed
  have dj: "\<not> bit (unat ?x) n \<or> \<not> bit (unat ?y) n" for n
  proof -
    have "bit (unat ?y) n \<longleftrightarrow> 32 \<le> n \<and> bit (unat x1) (n - 32)"
      using bit_add_shifted [of 0 32 "unat x1" n] y by auto
    moreover have "bit (unat ?x) n \<Longrightarrow> n < 32"
      using unat_lt_32 [of x0] bit_take_bit_iff [of 32 "unat x0" n] take_bit_nat_eq_self [of "unat x0" 32] by simp
    ultimately show ?thesis by auto
  qed
  have "unat (GetLow64 a) = unat x0 + 4294967296 * unat x1"
    using dj by (simp add: GetLow64_def a unsigned_or_eq disjunctive_add y flip: y)
  moreover have "unat x0 + 4294967296 * unat x1 < 18446744073709551616"
    using unat_lt_32 [of x0] unat_lt_32 [of x1] by linarith
  moreover have "uval a = unat x0 + 4294967296 * unat x1 + 18446744073709551616 * uval r"
    by (simp add: a)
  ultimately show ?thesis
    by (simp only: mod_mult_self2 mod_less)
qed

definition compact_bytes :: "base_uint \<Rightarrow> nat" where
  "compact_bytes a = (uint_bits a + 7) div 8"

lemma compact_bytes_bounds:
  assumes "limbs a"
  shows "uval a < 256 ^ compact_bytes a" and "compact_bytes a \<le> 32"
    and "0 < compact_bytes a \<Longrightarrow> 256 ^ (compact_bytes a - 1) \<le> uval a"
proof -
  let ?s = "compact_bytes a"
  have pow: "(256 :: nat) ^ s = 2 ^ (8 * s)" for s
    by (simp add: power_mult)
  have "uint_bits a \<le> 8 * ?s" by (simp add: compact_bytes_def)
  then have "(2 :: nat) ^ uint_bits a \<le> 2 ^ (8 * ?s)" by (intro power_increasing) auto
  with uint_bits_upper [OF assms] show "uval a < 256 ^ ?s"
    unfolding pow by linarith
  show "?s \<le> 32"
    using uint_bits_le [OF assms] by (simp add: compact_bytes_def)
  show "256 ^ (?s - 1) \<le> uval a" if "0 < ?s"
  proof -
    have "0 < uint_bits a" using that by (cases "uint_bits a") (auto simp: compact_bytes_def)
    then have nz: "uval a \<noteq> 0" and "8 * (?s - 1) \<le> uint_bits a - 1"
      using uint_bits_zero [OF assms] by (auto simp: compact_bytes_def)
    then have "(2 :: nat) ^ (8 * (?s - 1)) \<le> 2 ^ (uint_bits a - 1)" by (intro power_increasing) auto
    with uint_bits_lower [OF assms nz] show ?thesis
      unfolding pow by linarith
  qed
qed

definition mantissa :: "base_uint \<Rightarrow> nat" where
  "mantissa a = (if compact_bytes a \<le> 3 then uval a * 256 ^ (3 - compact_bytes a)
                 else uval a div 256 ^ (compact_bytes a - 3))"

lemma mantissa_bound:
  assumes "limbs a"
  shows "mantissa a < 16777216"
proof (cases "compact_bytes a \<le> 3")
  case True
  have "uval a * 256 ^ (3 - compact_bytes a) < 256 ^ compact_bytes a * 256 ^ (3 - compact_bytes a)"
    using compact_bytes_bounds(1) [OF assms] by simp
  also have "\<dots> = 256 ^ 3"
    using True by (simp flip: power_add)
  finally show ?thesis using True by (simp add: mantissa_def)
next
  case False
  then obtain s where "compact_bytes a = 3 + s"
    using le_iff_add [of 3 "compact_bytes a"] by auto
  then have "256 ^ compact_bytes a = 256 ^ 3 * (256 :: nat) ^ (compact_bytes a - 3)"
    by (simp add: power_add)
  then have "uval a < 16777216 * 256 ^ (compact_bytes a - 3)"
    using compact_bytes_bounds(1) [OF assms] by simp
  then show ?thesis
    using False by (simp add: mantissa_def div_less_iff_less_mult)
qed

lemma uval_small:
  assumes "limbs a" "compact_bytes a \<le> 3"
  shows "uval a < 16777216"
proof -
  have "(256 :: nat) ^ compact_bytes a \<le> 256 ^ 3"
    using assms by (intro power_increasing) auto
  with compact_bytes_bounds(1) [OF assms(1)] show ?thesis by simp
qed

lemma mantissa_word:
  assumes "limbs a"
  shows "unat (if compact_bytes a \<le> 3 then (ucast (push_bit (8 * (3 - compact_bytes a)) (GetLow64 a)) :: u32)
               else ucast (GetLow64 (uint_shr a (8 * (compact_bytes a - 3))))) = mantissa a"
proof (cases "compact_bytes a \<le> 3")
  case True
  have m: "mantissa a = uval a * 2 ^ (8 * (3 - compact_bytes a))"
    using True by (simp add: mantissa_def power_mult)
  have low: "unat (GetLow64 a) = uval a"
    using uval_small [OF assms True] by (simp add: GetLow64_uval [OF assms])
  have "unat (push_bit (8 * (3 - compact_bytes a)) (GetLow64 a)) = mantissa a"
    using mantissa_bound [OF assms] by (subst unat_push_bit_small) (simp_all add: low m)
  then show ?thesis
    using True mantissa_bound [OF assms] by (simp add: unat_ucast_64_32)
next
  case False
  have "uval (uint_shr a (8 * (compact_bytes a - 3))) = mantissa a"
    using False assms by (simp add: uval_uint_shr mantissa_def power_mult)
  then show ?thesis
    using False mantissa_bound [OF assms] by (simp add: unat_ucast_64_32 GetLow64_uval)
qed


definition compact_size :: "base_uint \<Rightarrow> nat" where
  "compact_size a = (if 8388608 \<le> mantissa a then compact_bytes a + 1 else compact_bytes a)"

definition compact_mant :: "base_uint \<Rightarrow> nat" where
  "compact_mant a = (if 8388608 \<le> mantissa a then mantissa a div 256 else mantissa a)"

lemma compact_mant_bound: "limbs a \<Longrightarrow> compact_mant a < 8388608"
  using mantissa_bound [of a] by (auto simp: compact_mant_def)

lemma compact_size_bound: "limbs a \<Longrightarrow> compact_size a \<le> 33"
  using compact_bytes_bounds(2) [of a] by (auto simp: compact_size_def)

lemma unat_GetCompact:
  assumes "limbs a"
  shows "unat (GetCompact a False) = compact_mant a + 16777216 * compact_size a"
proof -
  define w where "w = (if compact_bytes a \<le> 3 then (ucast (push_bit (8 * (3 - compact_bytes a)) (GetLow64 a)) :: u32)
                       else ucast (GetLow64 (uint_shr a (8 * (compact_bytes a - 3)))))"
  have w: "unat w = mantissa a"
    unfolding w_def by (rule mantissa_word [OF assms])
  have sign: "w AND 0x00800000 \<noteq> 0 \<longleftrightarrow> 8388608 \<le> mantissa a"
  proof -
    have "mantissa a div 8388608 = (if 8388608 \<le> mantissa a then 1 else 0)"
      using mantissa_bound [OF assms] by (auto intro: div_nat_eqI)
    then show ?thesis
      unfolding sign_bit_iff w by simp
  qed
  let ?m = "if w AND 0x00800000 \<noteq> 0 then drop_bit 8 w else w"
  let ?s = "push_bit 24 (of_nat (compact_size a)) :: u32"
  have m: "unat ?m = compact_mant a"
    by (simp add: sign compact_mant_def unat_drop_bit_word w)
  have sz: "unat (of_nat (compact_size a) :: u32) = compact_size a"
    using compact_size_bound [OF assms] by (simp add: unsigned_of_nat take_bit_nat_eq_self_iff)
  have s: "unat ?s = 2 ^ 24 * compact_size a"
    using unat_push_bit_small [of "of_nat (compact_size a) :: u32" 24] compact_size_bound [OF assms]
    by (simp add: sz)
  have "GetCompact a False = ?m OR ?s"
    unfolding GetCompact_def Let_def compact_bytes_def [symmetric] w_def [symmetric]
    by (simp add: compact_size_def sign)
  moreover have "unat (?m OR ?s) = unat ?m + unat ?s"
    using compact_mant_bound [OF assms] by (intro unat_or_disjoint [OF _ s]) (simp add: m)
  ultimately show ?thesis
    by (simp only: m s) simp
qed

lemma SetCompact_parts:
  assumes "unat c = m + 16777216 * s" "m < 8388608" "s < 256"
  shows "SetCompact c =
    (let w = (if s \<le> 3 then m div 256 ^ (3 - s) else m)
     in (fst (SetCompact c), False, w \<noteq> 0 \<and> (s > 34 \<or> (w > 255 \<and> s > 33) \<or> (w > 65535 \<and> s > 32))))"
    and "uval (fst (SetCompact c)) =
         (if s \<le> 3 then m div 256 ^ (3 - s) else (m * 256 ^ (s - 3)) mod 2 ^ 256)"
    and "limbs (fst (SetCompact c))"
proof -
  have size: "unat (drop_bit 24 c) = s"
    using assms by (simp add: unat_drop_bit_word)
  have mant: "unat (c AND 0x007fffff) = m"
  proof -
    have "m + 16777216 * s = m + 8388608 * (2 * s)" by simp
    with assms show ?thesis by (simp only: unat_and_mantissa mod_mult_self2 mod_less)
  qed
  have sign: "c AND 0x00800000 = 0"
  proof -
    have "m + 16777216 * s = m + 8388608 * (2 * s)" by simp
    then have "unat c div 8388608 = 2 * s"
      using assms(2) by (simp only: assms(1) div_mult_self2 div_less)
    then show ?thesis using sign_bit_iff [of c] by auto
  qed
  have pow: "(2 :: nat) ^ (8 * i) = 256 ^ i" for i by (simp add: power_mult)
  define w where "w = (if s \<le> 3 then drop_bit (8 * (3 - s)) (c AND 0x007fffff) else c AND 0x007fffff)"
  have w: "unat w = (if s \<le> 3 then m div 256 ^ (3 - s) else m)"
    by (cases "s \<le> 3") (simp_all only: w_def unat_drop_bit_word mant pow if_True if_False)
  have eq: "SetCompact c = (if s \<le> 3 then of_uint64 (ucast w) else uint_shl (of_uint64 (ucast w)) (8 * (s - 3)), False,
      w \<noteq> 0 \<and> (s > 34 \<or> (w > 0xff \<and> s > 33) \<or> (w > 0xffff \<and> s > 32)))"
    unfolding SetCompact_def Let_def size w_def [symmetric] by (simp add: sign)
  show "limbs (fst (SetCompact c))" by (simp add: eq)
  show "uval (fst (SetCompact c)) =
         (if s \<le> 3 then m div 256 ^ (3 - s) else (m * 256 ^ (s - 3)) mod 2 ^ 256)"
    unfolding eq by (simp add: uval_of_uint64 uval_uint_shl w pow WIDTH_def)
  show "SetCompact c =
    (let w = (if s \<le> 3 then m div 256 ^ (3 - s) else m)
     in (fst (SetCompact c), False, w \<noteq> 0 \<and> (s > 34 \<or> (w > 255 \<and> s > 33) \<or> (w > 65535 \<and> s > 32))))"
    unfolding eq Let_def w [symmetric] by (simp add: word_less_nat_alt unat_eq_0)
qed


text \<open>The number of low bytes the encoding drops.\<close>

definition compact_shift :: "base_uint \<Rightarrow> nat" where
  "compact_shift a = compact_size a - 3"

lemma compact_mant_value:
  assumes "limbs a"
  shows "compact_size a \<le> 3 \<Longrightarrow> compact_mant a = uval a * 256 ^ (3 - compact_size a)"
    and "3 < compact_size a \<Longrightarrow> compact_mant a = uval a div 256 ^ compact_shift a"
proof -
  show "compact_mant a = uval a * 256 ^ (3 - compact_size a)" if "compact_size a \<le> 3"
  proof (cases "8388608 \<le> mantissa a")
    case True
    then have le: "compact_bytes a \<le> 2" using that by (simp add: compact_size_def)
    then obtain d where d: "3 - compact_bytes a = Suc d" "3 - compact_size a = d"
      using True by (cases "3 - compact_bytes a") (auto simp: compact_size_def)
    then show ?thesis
      using True le by (simp add: compact_mant_def mantissa_def)
  next
    case False
    then show ?thesis using that by (simp add: compact_mant_def mantissa_def compact_size_def)
  qed
  show "compact_mant a = uval a div 256 ^ compact_shift a" if "3 < compact_size a"
  proof (cases "8388608 \<le> mantissa a")
    case True
    then have le: "3 \<le> compact_bytes a" using that by (simp add: compact_size_def)
    then obtain d where d: "compact_bytes a = 3 + d" using le_iff_add by blast
    then have "mantissa a = uval a div 256 ^ d"
      by (cases d) (auto simp: mantissa_def)
    then show ?thesis
      using True d by (simp add: compact_mant_def compact_size_def compact_shift_def mult.commute flip: div_mult2_eq)
  next
    case False
    then show ?thesis using that by (simp add: compact_mant_def mantissa_def compact_size_def compact_shift_def)
  qed
qed

lemma SetCompact_GetCompact_value:
  assumes "limbs a"
  shows "SetCompact (GetCompact a False) = (fst (SetCompact (GetCompact a False)), False, False)"
    and "uval (fst (SetCompact (GetCompact a False))) = uval a div 256 ^ compact_shift a * 256 ^ compact_shift a"
    and "limbs (fst (SetCompact (GetCompact a False)))"
proof -
  let ?c = "GetCompact a False" and ?m = "compact_mant a" and ?s = "compact_size a"
  have c: "unat ?c = ?m + 16777216 * ?s" "?m < 8388608" "?s < 256"
    using unat_GetCompact [OF assms] compact_mant_bound [OF assms] compact_size_bound [OF assms] by auto
  have shift0: "?s \<le> 3 \<Longrightarrow> compact_shift a = 0" by (simp add: compact_shift_def)
  show "limbs (fst (SetCompact ?c))" by (rule SetCompact_parts(3) [OF c])
  have small: "?m \<le> 65535" if "32 < ?s"
  proof -
    have "?s = 33" "8388608 \<le> mantissa a"
      using that compact_size_bound [OF assms] compact_bytes_bounds(2) [OF assms]
      by (auto simp: compact_size_def split: if_splits)
    then show ?thesis
      using mantissa_bound [OF assms] by (simp add: compact_mant_def)
  qed
  then have "\<not> (?s > 34 \<or> (w > 255 \<and> ?s > 33) \<or> (w > 65535 \<and> ?s > 32))"
    if "w = (if ?s \<le> 3 then ?m div 256 ^ (3 - ?s) else ?m)" for w
    using that compact_size_bound [OF assms] by auto
  then show "SetCompact ?c = (fst (SetCompact ?c), False, False)"
    using SetCompact_parts(1) [OF c] by (auto simp: Let_def)
  show "uval (fst (SetCompact ?c)) = uval a div 256 ^ compact_shift a * 256 ^ compact_shift a"
  proof (cases "?s \<le> 3")
    case True
    then show ?thesis
      using SetCompact_parts(2) [OF c] compact_mant_value(1) [OF assms True] by (simp add: shift0)
  next
    case False
    then have m: "?m = uval a div 256 ^ compact_shift a"
      using compact_mant_value(2) [OF assms] by simp
    have "?m * 256 ^ compact_shift a \<le> uval a"
      unfolding m by (rule div_times_less_eq_dividend)
    then have "?m * 256 ^ compact_shift a < 2 ^ 256"
      using uval_bound [of a] assms by (simp add: WIDTH_def)
    then show ?thesis
      using False SetCompact_parts(2) [OF c] m by (simp add: compact_shift_def)
  qed
qed

lemma compact_shift_precision:
  assumes "limbs a" "0 < compact_shift a"
  shows "32768 \<le> uval a div 256 ^ compact_shift a"
proof -
  have size: "3 < compact_size a" using assms(2) by (simp add: compact_shift_def)
  have m: "compact_mant a = uval a div 256 ^ compact_shift a"
    using compact_mant_value(2) [OF assms(1) size] .
  show ?thesis
  proof (cases "8388608 \<le> mantissa a")
    case True
    then have "32768 \<le> compact_mant a" by (simp add: compact_mant_def less_eq_div_iff_mult_less_eq)
    with m show ?thesis by simp
  next
    case False
    then obtain d where d: "compact_bytes a = 3 + d" "compact_shift a = d"
      using size le_iff_add [of 3 "compact_bytes a"] by (auto simp: compact_size_def compact_shift_def)
    have "256 ^ (2 + d) \<le> uval a"
      using compact_bytes_bounds(3) [OF assms(1)] d by simp
    then have "65536 \<le> uval a div 256 ^ d"
      by (simp add: less_eq_div_iff_mult_less_eq power_add mult.commute)
    with d show ?thesis by simp
  qed
qed

section \<open>Bytes\<close>

lemma ReadLE32_WriteLE32 [simp]: "ReadLE32 (WriteLE32 x) = x"
proof (rule bit_word_eqI)
  fix n
  assume "n < LENGTH(32)"
  then consider "n < 8" | "8 \<le> n" "n < 16" | "16 \<le> n" "n < 24" | "24 \<le> n" "n < 32" by fastforce
  then show "bit (ReadLE32 (WriteLE32 x)) n = bit x n"
    by cases (auto simp: ReadLE32_def WriteLE32_def bit_simps)
qed

lemma length_WriteLE32 [simp]: "length (WriteLE32 x) = 4"
  by (simp add: WriteLE32_def)

lemma limb_cases:
  assumes "limbs a"
  obtains x0 x1 x2 x3 x4 x5 x6 x7 where "a = [x0, x1, x2, x3, x4, x5, x6, x7]"
  using assms by (auto simp: WIDTH_def numeral_eq_Suc length_Suc_conv)

lemma UintToArith256_ArithToUint256:
  assumes "limbs a"
  shows "UintToArith256 (ArithToUint256 a) = a"
proof -
  obtain x0 x1 x2 x3 x4 x5 x6 x7 where a: "a = [x0, x1, x2, x3, x4, x5, x6, x7]"
    by (rule limb_cases [OF assms])
  show ?thesis
    by (simp add: a UintToArith256_def ArithToUint256_def WIDTH_def upt_rec)
qed

lemma length_UintToArith256 [simp]: "length (UintToArith256 b) = WIDTH"
  by (simp add: UintToArith256_def)

section \<open>The interface its clients use\<close>

text \<open>
  The difficulty code scales a target by a ratio of two time spans and compares the result
  with a limit. What it needs of the big integer is stated as a locale, over any
  representation \<open>'u\<close> with a number \<open>num\<close> behind it.
\<close>

locale uint_arith =
  fixes num :: "'u \<Rightarrow> nat"
    and ok :: "'u \<Rightarrow> bool"
    and modulus :: nat
    and lit :: "u64 \<Rightarrow> 'u"
    and mul32 :: "'u \<Rightarrow> u32 \<Rightarrow> 'u"
    and quot :: "'u \<Rightarrow> 'u \<Rightarrow> uint_error + 'u"
    and cmp :: "'u \<Rightarrow> 'u \<Rightarrow> int"
  assumes num_less: "ok a \<Longrightarrow> num a < modulus"
    and ok_lit: "ok (lit x)" and num_lit: "num (lit x) = unat x"
    and ok_mul32: "ok a \<Longrightarrow> ok (mul32 a m)"
    and num_mul32: "ok a \<Longrightarrow> num (mul32 a m) = (num a * unat m) mod modulus"
    and quot_ok: "ok a \<Longrightarrow> ok b \<Longrightarrow> num b \<noteq> 0 \<Longrightarrow>
                  \<exists>q. quot a b = Inr q \<and> ok q \<and> num q = num a div num b"
    and cmp_gt: "ok a \<Longrightarrow> ok b \<Longrightarrow> 0 < cmp a b \<longleftrightarrow> num b < num a"
begin

lemma scale_value:
  assumes "ok a" "y \<noteq> 0"
  shows "\<exists>q. quot (mul32 a x) (lit y) = Inr q \<and> ok q \<and>
             num q = ((num a * unat x) mod modulus) div unat y"
proof -
  have "num (lit y) \<noteq> 0" using assms(2) by (simp add: num_lit unat_eq_0)
  then show ?thesis
    using quot_ok [OF ok_mul32 [OF assms(1)] ok_lit, of y x] assms(1)
    by (simp add: num_mul32 num_lit)
qed

lemma scale_exact:
  assumes "ok a" "y \<noteq> 0" "num a * unat x < modulus"
  shows "\<exists>q. quot (mul32 a x) (lit y) = Inr q \<and> ok q \<and> num q = num a * unat x div unat y"
  using scale_value [OF assms(1,2), of x] assms(3) by simp

lemma capped_ok:
  assumes "ok a" "ok limit"
  shows "ok (if 0 < cmp a limit then limit else a)"
    and "num (if 0 < cmp a limit then limit else a) = min (num a) (num limit)"
  using assms by (auto simp: cmp_gt)

end

lemma limbs_mod: "limbs a \<Longrightarrow> uval a < 2 ^ 256"
  using uval_bound [of a] by (simp add: WIDTH_def)

interpretation limb: uint_arith uval "\<lambda>a. limbs a" "2 ^ 256" of_uint64 uint_mul32 uint_div CompareTo
proof (unfold_locales, goal_cases)
  case (1 a)
  then show ?case by (rule limbs_mod)
next
  case (5 a m)
  then show ?case by (simp add: uval_uint_mul32 WIDTH_def)
next
  case (6 a b)
  then show ?case by (rule uint_div_spec)
qed (simp_all add: limb_simps)

section \<open>Properties of the 256-bit integer\<close>

text \<open>
  C16. The shift-and-subtract loop of \<open>operator/=\<close> computes the integer quotient of the two 256-bit
  numbers, and reports a division by zero exactly when the divisor is zero.
\<close>

theorem division_is_quotient:
  assumes "limbs a" "limbs b"
  shows "if uval b = 0 then uint_div a b = Inl Division_by_zero
         else \<exists>q. uint_div a b = Inr q \<and> limbs q \<and> uval q = uval a div uval b"
  using uint_div_spec [OF assms] uint_div_zero [OF assms(2)] by simp

theorem division_is_quotient_witness:
  "\<exists>q. uint_div (of_uint64 1000) (of_uint64 7) = Inr q \<and> limbs q \<and> uval q = 142"
  using division_is_quotient [of "of_uint64 1000" "of_uint64 7"] by (simp add: uval_of_uint64)

text \<open>
  The limb-by-limb product of \<open>operator*=\<close>, with its 64-bit accumulator and carries, is the
  product modulo \<open>2 ^ 256\<close>.
\<close>

theorem multiplication_mod_2_256:
  assumes "limbs a" "limbs b"
  shows "limbs (uint_mul a b) \<and> uval (uint_mul a b) = (uval a * uval b) mod 2 ^ 256"
  using assms by (simp_all add: uval_uint_mul WIDTH_def)

theorem multiplication_mod_2_256_witness:
  "uval (uint_mul (of_uint64 (2 ^ 63)) (of_uint64 6)) = 3 * 2 ^ 64"
  using multiplication_mod_2_256 [of "of_uint64 (2 ^ 63)" "of_uint64 6"] by (simp add: uval_of_uint64)

text \<open>
  C18. The compact encoding loses only low-order bytes: decoding what \<open>GetCompact\<close> wrote gives a
  number with neither sign nor overflow, obtained from the original by clearing its low bytes,
  and whenever a byte is cleared the remaining mantissa has at least 15 significant bits.
\<close>

theorem compact_round_trip:
  assumes "limbs a"
  shows "\<exists>v n. SetCompact (GetCompact a False) = (v, False, False) \<and> limbs v \<and>
           uval v = uval a div 256 ^ n * 256 ^ n \<and> (n = 0 \<or> 32768 \<le> uval a div 256 ^ n)"
  using SetCompact_GetCompact_value [OF assms] compact_shift_precision [OF assms] by (metis gr0I)

theorem compact_round_trip_witness:
  "\<exists>v n. SetCompact (GetCompact (of_uint64 0x123456789a) False) = (v, False, False) \<and>
     uval v = 0x123456789a div 256 ^ n * 256 ^ n"
  using compact_round_trip [of "of_uint64 0x123456789a"] by (auto simp: uval_of_uint64)

end
