(* ===== verification/Serialize.thy ===== *)
theory Serialize
  imports Arith_Uint256 "HOL-Library.Monad_Syntax"
begin

text \<open>
  The wire format of \<^verbatim>\<open>serialize.h\<close>. Writing an object is a function to a list of bytes; reading
  is a partial function from a stream to the object and the rest of the stream, None standing for
  the exception \<open>std::ios_base::failure\<close>.
\<close>

unbundle bit_operations_syntax

type_synonym 'a reader = "bytes \<Rightarrow> ('a \<times> bytes) option"

section \<open>Fixed-width integers\<close>

definition MAX_SIZE :: nat where
  "MAX_SIZE = 0x02000000"

definition read_bytes :: "nat \<Rightarrow> bytes reader" where
  "read_bytes n s = (if length s < n then None else Some (take n s, drop n s))"

definition ser_writedata8 :: "u8 \<Rightarrow> bytes" where
  "ser_writedata8 x = [x]"

definition ser_writedata16 :: "u16 \<Rightarrow> bytes" where
  "ser_writedata16 x = [ucast x, ucast (drop_bit 8 x)]"

definition ser_writedata32 :: "u32 \<Rightarrow> bytes" where
  "ser_writedata32 x = WriteLE32 x"

definition ser_writedata64 :: "u64 \<Rightarrow> bytes" where
  "ser_writedata64 x = WriteLE32 (ucast x) @ WriteLE32 (ucast (drop_bit 32 x))"

definition ser_readdata8 :: "u8 reader" where
  "ser_readdata8 s = do { (b, s) \<leftarrow> read_bytes 1 s; Some (b ! 0, s) }"

definition ser_readdata16 :: "u16 reader" where
  "ser_readdata16 s = do { (b, s) \<leftarrow> read_bytes 2 s;
     Some (ucast (b ! 0) OR push_bit 8 (ucast (b ! 1)), s) }"

definition ser_readdata32 :: "u32 reader" where
  "ser_readdata32 s = do { (b, s) \<leftarrow> read_bytes 4 s; Some (ReadLE32 b, s) }"

definition ser_readdata64 :: "u64 reader" where
  "ser_readdata64 s = do { (b, s) \<leftarrow> read_bytes 8 s;
     Some (ucast (ReadLE32 (take 4 b)) OR push_bit 32 (ucast (ReadLE32 (drop 4 b))), s) }"

section \<open>Compact sizes\<close>

definition GetSizeOfCompactSize :: "nat \<Rightarrow> nat" where
  "GetSizeOfCompactSize nSize =
     (if nSize < 253 then 1 else if nSize \<le> 0xffff then 1 + 2
      else if nSize \<le> 0xffffffff then 1 + 4 else 1 + 8)"

definition WriteCompactSize :: "nat \<Rightarrow> bytes" where
  "WriteCompactSize nSize =
     (if nSize < 253 then ser_writedata8 (of_nat nSize)
      else if nSize \<le> 0xffff then ser_writedata8 253 @ ser_writedata16 (of_nat nSize)
      else if nSize \<le> 0xffffffff then ser_writedata8 254 @ ser_writedata32 (of_nat nSize)
      else ser_writedata8 255 @ ser_writedata64 (of_nat nSize))"

definition ReadCompactSize :: "bool \<Rightarrow> nat reader" where
  "ReadCompactSize range_check s = do {
     (chSize, s) \<leftarrow> ser_readdata8 s;
     (nSizeRet, s) \<leftarrow>
       (if chSize < 253 then Some (unat chSize, s)
        else if chSize = 253 then do { (n, s) \<leftarrow> ser_readdata16 s;
               if unat n < 253 then None else Some (unat n, s) }
        else if chSize = 254 then do { (n, s) \<leftarrow> ser_readdata32 s;
               if unat n < 0x10000 then None else Some (unat n, s) }
        else do { (n, s) \<leftarrow> ser_readdata64 s;
               if unat n < 0x100000000 then None else Some (unat n, s) });
     if range_check \<and> nSizeRet > MAX_SIZE then None else Some (nSizeRet, s) }"

section \<open>Variable-length integers\<close>

text \<open>
  \<open>varint_tmp len n\<close> is the array \<open>tmp\<close> from index \<open>len\<close> on; the digits are written in reverse.
  The type of the integer enters through its largest value \<open>maxI\<close>.
\<close>

function varint_tmp :: "nat \<Rightarrow> nat \<Rightarrow> bytes" where
  "varint_tmp len n =
     (let d = of_nat (n mod 128) OR (if len \<noteq> 0 then 0x80 else 0x00)
      in if n \<le> 0x7F then [d] else d # varint_tmp (len + 1) (n div 128 - 1))"
  by pat_completeness auto

termination varint_tmp
  by (relation "measure (\<lambda>(len, n). n)") auto

declare varint_tmp.simps [simp del]

definition WriteVarInt :: "nat \<Rightarrow> bytes" where
  "WriteVarInt n = rev (varint_tmp 0 n)"

function GetSizeOfVarInt :: "nat \<Rightarrow> nat" where
  "GetSizeOfVarInt n = (if n \<le> 0x7F then 1 else 1 + GetSizeOfVarInt (n div 128 - 1))"
  by pat_completeness auto

termination GetSizeOfVarInt
  by (relation "measure id") auto

declare GetSizeOfVarInt.simps [simp del]

fun read_varint_loop :: "nat \<Rightarrow> nat \<Rightarrow> nat reader" where
  "read_varint_loop maxI n [] = None"
| "read_varint_loop maxI n (chData # s) =
     (if n > maxI div 128 then None
      else let n1 = n * 128 + unat (chData AND 0x7F)
           in if chData AND 0x80 \<noteq> 0
              then if n1 = maxI then None else read_varint_loop maxI (n1 + 1) s
              else Some (n1, s))"

definition ReadVarInt :: "nat \<Rightarrow> nat reader" where
  "ReadVarInt maxI s = read_varint_loop maxI 0 s"

section \<open>Vectors\<close>

primrec read_list :: "'a reader \<Rightarrow> nat \<Rightarrow> 'a list reader" where
  "read_list rd 0 s = Some ([], s)"
| "read_list rd (Suc n) s = do { (x, s) \<leftarrow> rd s; (xs, s) \<leftarrow> read_list rd n s; Some (x # xs, s) }"

definition ser_vector :: "('a \<Rightarrow> bytes) \<Rightarrow> 'a list \<Rightarrow> bytes" where
  "ser_vector wr v = WriteCompactSize (length v) @ concat (map wr v)"

definition unser_vector :: "'a reader \<Rightarrow> 'a list reader" where
  "unser_vector rd s = do { (n, s) \<leftarrow> ReadCompactSize True s; read_list rd n s }"

text \<open>Vectors of bytes are blobs, read in blocks of at most 5000000 bytes.\<close>

definition ser_blob :: "bytes \<Rightarrow> bytes" where
  "ser_blob v = WriteCompactSize (length v) @ v"

function unser_blob_loop :: "nat \<Rightarrow> nat \<Rightarrow> bytes \<Rightarrow> bytes reader" where
  "unser_blob_loop nSize i v s =
     (if i < nSize
      then let blk = min (nSize - i) (1 + 4999999)
           in do { (b, s) \<leftarrow> read_bytes blk s; unser_blob_loop nSize (i + blk) (v @ b) s }
      else Some (v, s))"
  by pat_completeness auto

termination unser_blob_loop
  by (relation "measure (\<lambda>(nSize, i, v, s). nSize - i)") auto

declare unser_blob_loop.simps [simp del]

definition unser_blob :: "bytes reader" where
  "unser_blob s = do { (nSize, s) \<leftarrow> ReadCompactSize True s; unser_blob_loop nSize 0 [] s }"

section \<open>Decoders invert encoders\<close>

text \<open>
  The contract of a formatter: on the objects it can represent, reading what was written gives
  the object back and leaves the rest of the stream untouched. A canonical formatter moreover
  accepts no other bytes than the ones it writes.
\<close>

locale codec =
  fixes enc :: "'a \<Rightarrow> bytes"
    and dec :: "'a reader"
    and valid :: "'a \<Rightarrow> bool"
  assumes dec_enc: "valid x \<Longrightarrow> dec (enc x @ rest) = Some (x, rest)"
begin

lemma enc_inj:
  assumes "valid x" "valid y" "enc x @ r = enc y @ r'"
  shows "x = y \<and> r = r'"
proof -
  have "Some (x, r) = dec (enc y @ r')"
    unfolding assms(3) [symmetric] by (rule dec_enc [OF assms(1), symmetric])
  also have "\<dots> = Some (y, r')"
    by (rule dec_enc [OF assms(2)])
  finally show ?thesis by simp
qed

lemma read_list_enc:
  "list_all valid xs \<Longrightarrow> read_list dec (length xs) (concat (map enc xs) @ rest) = Some (xs, rest)"
  by (induction xs) (simp_all add: dec_enc)

end

locale canonical_codec = codec +
  assumes enc_dec: "dec s = Some (x, rest) \<Longrightarrow> s = enc x @ rest \<and> valid x"
begin

lemma dec_iff: "dec s = Some (x, rest) \<longleftrightarrow> s = enc x @ rest \<and> valid x"
  using enc_dec dec_enc by blast

lemma read_list_dec:
  "read_list dec n s = Some (xs, rest)
     \<Longrightarrow> s = concat (map enc xs) @ rest \<and> length xs = n \<and> list_all valid xs"
  by (induction n arbitrary: s xs)
     (fastforce split: prod.splits bind_splits dest: enc_dec)+

end

lemma read_bytes_append: "read_bytes (length a) (a @ rest) = Some (a, rest)"
  by (simp add: read_bytes_def)

lemma read_bytes_length: "length a = n \<Longrightarrow> read_bytes n (a @ rest) = Some (a, rest)"
  by (auto simp: read_bytes_def)

lemma read_bytes_dec: "read_bytes n s = Some (b, rest) \<Longrightarrow> s = b @ rest \<and> length b = n"
  by (auto simp: read_bytes_def split: if_splits)

section \<open>The primitive formatters are canonical\<close>

lemma WriteLE32_ReadLE32: "length b = 4 \<Longrightarrow> WriteLE32 (ReadLE32 b) = b"
proof -
  assume "length b = 4"
  then obtain a0 a1 a2 a3 where b: "b = [a0, a1, a2, a3]"
    by (auto simp: numeral_eq_Suc length_Suc_conv)
  have "ucast (ReadLE32 b) = a0" "ucast (drop_bit 8 (ReadLE32 b)) = a1"
    "ucast (drop_bit 16 (ReadLE32 b)) = a2" "ucast (drop_bit 24 (ReadLE32 b)) = a3"
    by (rule bit_word_eqI; auto simp: b ReadLE32_def bit_simps dest: bit_imp_le_length)+
  then show ?thesis
    by (simp add: WriteLE32_def b)
qed

lemma u16_split:
  "ucast (ucast (x :: u16) :: u8) OR push_bit 8 (ucast (ucast (drop_bit 8 x) :: u8)) = x" (is "?l = x")
proof (rule bit_word_eqI)
  fix n assume "n < LENGTH(16)"
  then show "bit ?l n = bit x n"
    by (cases "n < 8") (auto simp: bit_simps)
qed

lemma u16_join:
  fixes a b :: u8
  defines "x \<equiv> (ucast a OR push_bit 8 (ucast b) :: u16)"
  shows "ucast x = a" "ucast (drop_bit 8 x) = b"
  unfolding x_def by (rule bit_word_eqI; auto simp: bit_simps dest: bit_imp_le_length)+

lemma u64_split:
  "ucast (ucast (x :: u64) :: u32) OR push_bit 32 (ucast (ucast (drop_bit 32 x) :: u32)) = x" (is "?l = x")
proof (rule bit_word_eqI)
  fix n assume "n < LENGTH(64)"
  then show "bit ?l n = bit x n"
    by (cases "n < 32") (auto simp: bit_simps)
qed

lemma u64_join:
  fixes a b :: u32
  defines "x \<equiv> (ucast a OR push_bit 32 (ucast b) :: u64)"
  shows "ucast x = a" "ucast (drop_bit 32 x) = b"
  unfolding x_def by (rule bit_word_eqI; auto simp: bit_simps dest: bit_imp_le_length)+

interpretation u8: canonical_codec ser_writedata8 ser_readdata8 "\<lambda>_. True"
  by unfold_locales
     (auto simp: ser_writedata8_def ser_readdata8_def read_bytes_def take_Suc hd_conv_nth
       neq_Nil_conv numeral_eq_Suc length_Suc_conv split: bind_splits if_splits)

interpretation u16: canonical_codec ser_writedata16 ser_readdata16 "\<lambda>_. True"
proof
  show "ser_readdata16 (ser_writedata16 x @ rest) = Some (x, rest)" for x rest
    by (simp add: ser_writedata16_def ser_readdata16_def read_bytes_def u16_split)
  show "s = ser_writedata16 x @ rest \<and> True" if "ser_readdata16 s = Some (x, rest)" for s x rest
  proof -
    from that obtain b where b: "read_bytes 2 s = Some (b, rest)"
      and x: "x = ucast (b ! 0) OR push_bit 8 (ucast (b ! 1))"
      by (auto simp: ser_readdata16_def split: bind_splits)
    from read_bytes_dec [OF b] obtain p q where "b = [p, q]" "s = b @ rest"
      by (auto simp: numeral_eq_Suc length_Suc_conv)
    then show ?thesis
      unfolding ser_writedata16_def x by (simp only: nth_Cons_0 nth_Cons_Suc One_nat_def u16_join)
  qed
qed

interpretation u32: canonical_codec ser_writedata32 ser_readdata32 "\<lambda>_. True"
proof
  show "ser_readdata32 (ser_writedata32 x @ rest) = Some (x, rest)" for x rest
    by (simp add: ser_writedata32_def ser_readdata32_def read_bytes_length)
  show "s = ser_writedata32 x @ rest \<and> True" if "ser_readdata32 s = Some (x, rest)" for s x rest
    using that by (auto simp: ser_readdata32_def ser_writedata32_def WriteLE32_ReadLE32
        dest!: read_bytes_dec split: bind_splits)
qed

interpretation u64: canonical_codec ser_writedata64 ser_readdata64 "\<lambda>_. True"
proof
  show "ser_readdata64 (ser_writedata64 x @ rest) = Some (x, rest)" for x rest
    by (simp add: ser_writedata64_def ser_readdata64_def u64_split
        read_bytes_length [of "WriteLE32 (ucast x) @ WriteLE32 (ucast (drop_bit 32 x))" 8, simplified])
  show "s = ser_writedata64 x @ rest \<and> True" if "ser_readdata64 s = Some (x, rest)" for s x rest
  proof -
    from that obtain b where b: "read_bytes 8 s = Some (b, rest)"
      and x: "x = ucast (ReadLE32 (take 4 b)) OR push_bit 32 (ucast (ReadLE32 (drop 4 b)))"
      by (auto simp: ser_readdata64_def split: bind_splits)
    from read_bytes_dec [OF b] show ?thesis
      unfolding ser_writedata64_def x u64_join by (simp add: WriteLE32_ReadLE32)
  qed
qed

lemmas [wire_simps] = u8.dec_enc [OF TrueI] u16.dec_enc [OF TrueI] u32.dec_enc [OF TrueI]
  u64.dec_enc [OF TrueI] read_bytes_append


section \<open>Compact sizes are canonical\<close>

definition compact_ok :: "bool \<Rightarrow> nat \<Rightarrow> bool" where
  "compact_ok range_check n = (if range_check then n \<le> MAX_SIZE else n < 2 ^ 64)"

lemma compact_ok_64: "compact_ok rc n \<Longrightarrow> n < 18446744073709551616"
  by (auto simp: compact_ok_def MAX_SIZE_def split: if_splits)

lemma compact_ok_if: "n < 18446744073709551616 \<Longrightarrow> \<not> (rc \<and> n > MAX_SIZE) \<Longrightarrow> compact_ok rc n"
  by (auto simp: compact_ok_def)

lemma unat_of_nat_small:
  "n < 256 \<Longrightarrow> unat (of_nat n :: u8) = n"
  "n < 65536 \<Longrightarrow> unat (of_nat n :: u16) = n"
  "n < 4294967296 \<Longrightarrow> unat (of_nat n :: u32) = n"
  "n < 18446744073709551616 \<Longrightarrow> unat (of_nat n :: u64) = n"
  by (simp_all add: unat_of_nat take_bit_nat_eq_self)

lemma ReadCompactSize_Write:
  assumes "compact_ok rc n"
  shows "ReadCompactSize rc (WriteCompactSize n @ rest) = Some (n, rest)"
proof -
  have r: "\<not> (rc \<and> MAX_SIZE < n)" and b: "n < 18446744073709551616"
    using assms compact_ok_64 [OF assms] by (auto simp: compact_ok_def)
  have lt: "(of_nat n :: u8) < 253" if "n < 253"
    using that by (simp add: word_less_nat_alt unat_of_nat_small)
  consider "n < 253" | "253 \<le> n" "n \<le> 0xffff" | "0xffff < n" "n \<le> 0xffffffff" | "0xffffffff < n"
    by linarith
  then show ?thesis
    by cases (use r b lt in \<open>simp_all add: ReadCompactSize_def WriteCompactSize_def wire_simps
        unat_of_nat_small\<close>)
qed

lemma ReadCompactSize_dec:
  assumes "ReadCompactSize rc s = Some (n, rest)"
  shows "s = WriteCompactSize n @ rest \<and> compact_ok rc n"
proof -
  from assms obtain c t where s: "s = ser_writedata8 c @ t" and c: "ser_readdata8 s = Some (c, t)"
    by (auto simp: ReadCompactSize_def dest: u8.enc_dec split: bind_splits)
  have r: "\<not> (rc \<and> MAX_SIZE < n)"
    using assms by (auto simp: ReadCompactSize_def c split: bind_splits if_splits)
  consider "c < 253" | "c = 253" | "c = 254" | "c = 255"
  proof -
    have "unat c < 253 \<or> unat c = 253 \<or> unat c = 254 \<or> unat c = 255"
      using unat_lt_8 [of c] by linarith
    then show thesis
      using that by (auto simp: word_less_nat_alt word_unat_eq_iff)
  qed
  then show ?thesis
  proof cases
    case 1
    then have "n = unat c" "t = rest" "unat c < 253"
      using assms by (auto simp: ReadCompactSize_def c word_less_nat_alt split: if_splits)
    with r show ?thesis
      by (simp add: s WriteCompactSize_def compact_ok_if)
  next
    case 2
    then obtain w where w: "ser_readdata16 t = Some (w, rest)" "n = unat w" "253 \<le> unat w"
      using assms by (auto simp: ReadCompactSize_def c split: bind_splits if_splits)
    have "unat w < 65536" using unsigned_less [of w, where ?'a = nat] by simp
    with w r 2 u16.enc_dec [OF w(1)] show ?thesis
      by (auto simp: s WriteCompactSize_def intro!: compact_ok_if)
  next
    case 3
    then obtain w where w: "ser_readdata32 t = Some (w, rest)" "n = unat w" "65536 \<le> unat w"
      using assms by (auto simp: ReadCompactSize_def c split: bind_splits if_splits)
    have "unat w < 18446744073709551616" by (rule less_trans [OF unat_lt_32]) simp
    with w r 3 u32.enc_dec [OF w(1)] show ?thesis
      by (auto simp: s WriteCompactSize_def intro!: compact_ok_if)
  next
    case 4
    then obtain w where w: "ser_readdata64 t = Some (w, rest)" "n = unat w" "4294967296 \<le> unat w"
      using assms by (auto simp: ReadCompactSize_def c split: bind_splits if_splits)
    with r 4 u64.enc_dec [OF w(1)] show ?thesis
      by (auto simp: s WriteCompactSize_def intro!: compact_ok_if)
  qed
qed

interpretation compact: canonical_codec WriteCompactSize "ReadCompactSize rc" "compact_ok rc" for rc
  by unfold_locales (rule ReadCompactSize_Write ReadCompactSize_dec; assumption)+


section \<open>Variable-length integers are a bijection\<close>

text \<open>\<open>pre k\<close> are the digits written before the last one of a number whose quotient is \<open>k + 1\<close>.\<close>

definition pre :: "nat \<Rightarrow> bytes" where
  "pre k = rev (varint_tmp 1 k)"

definition cont :: "nat \<Rightarrow> u8" where
  "cont d = of_nat d OR 0x80"

lemma varint_tmp_Suc: "varint_tmp (Suc len) n = varint_tmp 1 n"
proof (induction n arbitrary: len rule: less_induct)
  case (less n)
  have "varint_tmp (Suc (Suc len)) (n div 128 - 1) = varint_tmp (Suc 1) (n div 128 - 1)"
    if "\<not> n \<le> 0x7F"
    using that less.IH [of "n div 128 - 1" "Suc len"] less.IH [of "n div 128 - 1" 1] by simp
  then show ?case
    by (simp add: varint_tmp.simps [of "Suc len" n] varint_tmp.simps [of "Suc 0" n] Let_def)
qed

lemma pre_simps:
  "pre k = (if k \<le> 0x7F then [cont (k mod 128)] else pre (k div 128 - 1) @ [cont (k mod 128)])"
  using varint_tmp_Suc [of 1] unfolding pre_def
  by (subst varint_tmp.simps) (simp add: Let_def cont_def numeral_2_eq_2)

lemma WriteVarInt_simps:
  "WriteVarInt n = (if n \<le> 0x7F then [of_nat n] else pre (n div 128 - 1) @ [of_nat (n mod 128)])"
  unfolding WriteVarInt_def pre_def by (subst varint_tmp.simps) (simp add: Let_def)

lemma and_7F: "unat ((c :: u8) AND 0x7F) = unat c mod 128"
  using unat_and_mask [of c 7] by (simp add: mask_eq_exp_minus_1)

lemma bit_7_u8: "bit (c :: u8) 7 \<longleftrightarrow> 128 \<le> unat c"
proof -
  have "bit c 7 \<longleftrightarrow> bit (unat c) 7"
    by (simp add: bit_unsigned_iff)
  also have "\<dots> \<longleftrightarrow> odd (unat c div 128)"
    by (simp add: bit_iff_odd)
  finally have "bit c 7 \<longleftrightarrow> odd (unat c div 128)" .
  moreover have "unat c div 128 = (if 128 \<le> unat c then 1 else 0)"
  proof -
    have "unat c div 128 < 2" by (rule less_mult_imp_div_less) simp
    then show ?thesis by auto
  qed
  ultimately show ?thesis by simp
qed

lemma and_80: "(c :: u8) AND 0x80 = 0 \<longleftrightarrow> unat c < 128"
  using and_exp_eq_0_iff_not_bit [of c 7] by (simp add: bit_7_u8 not_le)

lemma unat_cont: "d < 128 \<Longrightarrow> unat (cont d) = 128 + d"
proof -
  assume d: "d < 128"
  then have u: "unat (of_nat d :: u8) = d" by (simp add: unat_of_nat_small)
  have "(of_nat d :: u8) AND 0x80 = 0"
    using d u by (simp add: and_80)
  then have "cont d = of_nat d + 0x80"
    unfolding cont_def by (rule disjunctive_add_eq_or [symmetric])
  then show ?thesis
    using d u by (simp add: unat_word_ariths)
qed

lemma cont_mod:
  assumes "128 \<le> unat c"
  shows "cont (unat c mod 128) = c"
proof -
  have "unat c - 128 < 128"
    using assms unat_lt_8 [of c] by linarith
  then have "unat c mod 128 = unat c - 128"
    using assms by (simp add: le_mod_geq)
  then show ?thesis
    using assms by (simp add: word_unat_eq_iff unat_cont)
qed

lemma read_pre:
  "k < maxI \<Longrightarrow> read_varint_loop maxI 0 (pre k @ s) = read_varint_loop maxI (Suc k) s"
proof (induction k arbitrary: s rule: less_induct)
  case (less k)
  show ?case
  proof (cases "k \<le> 0x7F")
    case True
    then show ?thesis
      using less.prems by (simp add: pre_simps [of k] and_7F and_80 unat_cont Let_def)
  next
    case False
    have "k div 128 \<le> maxI div 128"
      using less.prems by (intro div_le_mono) simp
    moreover have "read_varint_loop maxI 0 (pre (k div 128 - 1) @ cont (k mod 128) # s)
        = read_varint_loop maxI (k div 128) (cont (k mod 128) # s)"
      using less.IH [of "k div 128 - 1"] less.prems False by simp
    ultimately show ?thesis
      using False less.prems
      by (simp add: pre_simps [of k] and_7F and_80 unat_cont Let_def)
  qed
qed

lemma ReadVarInt_Write:
  assumes "n \<le> maxI"
  shows "ReadVarInt maxI (WriteVarInt n @ rest) = Some (n, rest)"
proof (cases "n \<le> 0x7F")
  case True
  then show ?thesis
    by (simp add: ReadVarInt_def WriteVarInt_simps and_7F and_80 unat_of_nat_small)
next
  case False
  have "n div 128 \<le> maxI div 128"
    using assms by (intro div_le_mono)
  moreover have "read_varint_loop maxI 0 (pre (n div 128 - 1) @ of_nat (n mod 128) # rest)
      = read_varint_loop maxI (n div 128) (of_nat (n mod 128) # rest)"
    using read_pre [of "n div 128 - 1"] False assms by simp
  ultimately show ?thesis
    using False by (simp add: ReadVarInt_def WriteVarInt_simps and_7F and_80 unat_of_nat_small)
qed

text \<open>The largest value of an integer type ends in seven ones.\<close>

lemma digit_le_max:
  assumes "n \<le> maxI div 128" "maxI mod 128 = 127" "d < (128 :: nat)"
  shows "n * 128 + d \<le> maxI"
proof -
  have "n * 128 + d \<le> maxI div 128 * 128 + 127"
    using assms by (intro add_mono mult_le_mono1) auto
  then show ?thesis
    using div_mult_mod_eq [of maxI 128] assms(2) by simp
qed

lemma digit_div_mod:
  "d < 128 \<Longrightarrow> (128 + k * 128 + d) div 128 = Suc k"
  "d < 128 \<Longrightarrow> (128 + k * 128 + d) mod 128 = (d :: nat)"
  by (simp_all add: div_nat_eqI mod_nat_eqI)

lemma pre_snoc: "d < 128 \<Longrightarrow> pre (Suc k * 128 + d) = pre k @ [cont d]"
  by (subst pre_simps) (simp add: digit_div_mod)

lemma read_varint_dec:
  assumes "read_varint_loop maxI (Suc k) s = Some (x, rest)" "maxI mod 128 = 127"
  shows "pre k @ s = WriteVarInt x @ rest \<and> x \<le> maxI"
  using assms
proof (induction s arbitrary: k)
  case (Cons c s)
  let ?n = "Suc k * 128 + unat c mod 128"
  from Cons.prems(1) have k: "Suc k \<le> maxI div 128"
    by (simp split: if_splits)
  have le: "?n \<le> maxI"
    using digit_le_max [OF k Cons.prems(2), of "unat c mod 128"] by simp
  have digit: "pre ?n = pre k @ [cont (unat c mod 128)]"
    by (rule pre_snoc) simp
  show ?case
  proof (cases "unat c < 128")
    case True
    then have "x = ?n" "rest = s"
      using Cons.prems(1) k by (simp_all add: and_7F and_80 Let_def)
    then show ?thesis
      using True le by (simp add: WriteVarInt_simps digit_div_mod)
  next
    case False
    then have "read_varint_loop maxI (Suc ?n) s = Some (x, rest)"
      using Cons.prems(1) k by (simp add: and_7F and_80 Let_def split: if_splits)
    from Cons.IH [OF this Cons.prems(2)] show ?thesis
      using False unfolding digit by (simp add: cont_mod)
  qed
qed simp

lemma ReadVarInt_dec:
  assumes "ReadVarInt maxI s = Some (x, rest)" "maxI mod 128 = 127"
  shows "s = WriteVarInt x @ rest \<and> x \<le> maxI"
proof (cases s)
  case Nil
  then show ?thesis using assms by (simp add: ReadVarInt_def)
next
  case (Cons c t)
  have le: "unat c mod 128 \<le> maxI"
    using digit_le_max [of 0 maxI "unat c mod 128"] assms(2) by simp
  show ?thesis
  proof (cases "unat c < 128")
    case True
    then show ?thesis
      using assms(1) Cons le by (auto simp: ReadVarInt_def and_7F and_80 WriteVarInt_simps)
  next
    case False
    then have "read_varint_loop maxI (Suc (unat c mod 128)) t = Some (x, rest)"
      using assms(1) Cons by (simp add: ReadVarInt_def and_7F and_80 Let_def split: if_splits)
    moreover have "pre (unat c mod 128) = [c]"
      using False mod_less_divisor [of 128 "unat c"]
      by (subst pre_simps) (auto simp: cont_mod)
    ultimately show ?thesis
      using read_varint_dec [of maxI "unat c mod 128" t x rest] assms(2) Cons by simp
  qed
qed

abbreviation (input) type_max :: "nat \<Rightarrow> nat" where
  "type_max b \<equiv> 2 ^ b - 1"

lemma type_max_ends: "7 \<le> b \<Longrightarrow> type_max b mod 128 = 127"
proof -
  assume "7 \<le> b"
  then obtain c where "b = 7 + c" using le_Suc_ex by blast
  then have "(2 :: nat) ^ b = 128 * 2 ^ c" by (simp add: power_add)
  moreover have "(0 :: nat) < 2 ^ c" by simp
  ultimately have "type_max b = 128 * (2 ^ c - 1) + 127" by (simp add: algebra_simps)
  then show ?thesis by simp
qed

interpretation varint32: canonical_codec WriteVarInt "ReadVarInt (type_max 32)" "\<lambda>n. n \<le> type_max 32"
  by unfold_locales (auto intro: ReadVarInt_Write dest!: ReadVarInt_dec)

interpretation varint64: canonical_codec WriteVarInt "ReadVarInt (type_max 64)" "\<lambda>n. n \<le> type_max 64"
  by unfold_locales (auto intro: ReadVarInt_Write dest!: ReadVarInt_dec)

lemma length_varint_tmp: "n < 128 ^ k \<Longrightarrow> 0 < k \<Longrightarrow> length (varint_tmp len n) \<le> k"
proof (induction k arbitrary: n len)
  case (Suc k)
  show ?case
  proof (cases "n \<le> 0x7F")
    case True
    then show ?thesis by (subst varint_tmp.simps) (simp add: Let_def)
  next
    case False
    with Suc.prems have k: "0 < k" by (cases k) auto
    have "n div 128 < 128 ^ k"
      using Suc.prems by (intro less_mult_imp_div_less) (simp add: mult.commute)
    then have "length (varint_tmp (len + 1) (n div 128 - 1)) \<le> k"
      using k by (intro Suc.IH) auto
    with False show ?thesis by (subst varint_tmp.simps) (simp add: Let_def)
  qed
qed simp

lemma GetSizeOfVarInt_length: "length (varint_tmp len n) = GetSizeOfVarInt n"
proof (induction n arbitrary: len rule: less_induct)
  case (less n)
  then show ?case
    by (subst varint_tmp.simps, subst GetSizeOfVarInt.simps) (simp add: Let_def)
qed

section \<open>Vectors and blobs\<close>

text \<open>Reading a blob block by block reads the same bytes as reading it at once.\<close>

lemma read_bytes_add:
  "read_bytes (m + n) s = do { (b, t) \<leftarrow> read_bytes m s; (b', t) \<leftarrow> read_bytes n t; Some (b @ b', t) }"
  by (simp add: read_bytes_def take_add add.commute [of n] less_diff_conv split: bind_splits)
     (simp add: less_diff_conv2 not_less)

lemma unser_blob_loop_read:
  "unser_blob_loop nSize i v s = do { (b, s) \<leftarrow> read_bytes (nSize - i) s; Some (v @ b, s) }"
proof (induction nSize i v s rule: unser_blob_loop.induct)
  case (1 nSize i v s)
  show ?case
  proof (cases "i < nSize")
    case True
    let ?blk = "min (nSize - i) (1 + 4999999)"
    let ?r = "nSize - (i + ?blk)"
    have "unser_blob_loop nSize i v s
        = do { (b, t) \<leftarrow> read_bytes ?blk s; unser_blob_loop nSize (i + ?blk) (v @ b) t }"
      using True by (subst unser_blob_loop.simps) (simp only: Let_def if_True)
    also have "\<dots> = do { (b, t) \<leftarrow> read_bytes ?blk s; (b', t) \<leftarrow> read_bytes ?r t; Some (v @ b @ b', t) }"
    proof (cases "read_bytes ?blk s")
      case (Some p)
      then show ?thesis
        using "1.IH" [OF True refl, of p "fst p" "snd p"] by (simp add: case_prod_unfold)
    qed simp
    also have "\<dots> = do { (b, t) \<leftarrow> read_bytes (?blk + ?r) s; Some (v @ b, t) }"
      by (simp add: read_bytes_add case_prod_unfold)
    also have "?blk + ?r = nSize - i" by simp
    finally show ?thesis .
  qed (simp add: unser_blob_loop.simps read_bytes_def)
qed

lemma unser_blob_read:
  "unser_blob s = do { (n, s) \<leftarrow> ReadCompactSize True s; read_bytes n s }"
  unfolding unser_blob_def unser_blob_loop_read by (simp add: case_prod_unfold)

lemma unser_blob_ser [wire_simps]:
  "length v \<le> MAX_SIZE \<Longrightarrow> unser_blob (ser_blob v @ rest) = Some (v, rest)"
  by (simp add: unser_blob_read ser_blob_def compact.dec_enc compact_ok_def read_bytes_append)

interpretation blob: canonical_codec ser_blob unser_blob "\<lambda>v. length v \<le> MAX_SIZE"
proof
  show "s = ser_blob x @ rest \<and> length x \<le> MAX_SIZE" if "unser_blob s = Some (x, rest)" for s x rest
    using that by (auto simp: unser_blob_read ser_blob_def compact_ok_def
        dest!: compact.enc_dec read_bytes_dec split: bind_splits)
qed (rule unser_blob_ser)

context codec
begin

lemma vector_dec_enc:
  "list_all valid v \<Longrightarrow> length v \<le> MAX_SIZE
     \<Longrightarrow> unser_vector dec (ser_vector enc v @ rest) = Some (v, rest)"
  by (simp add: unser_vector_def ser_vector_def compact.dec_enc compact_ok_def read_list_enc)

end

context canonical_codec
begin

lemma vector_enc_dec:
  "unser_vector dec s = Some (v, rest)
     \<Longrightarrow> s = ser_vector enc v @ rest \<and> list_all valid v \<and> length v \<le> MAX_SIZE"
  by (auto simp: unser_vector_def ser_vector_def compact_ok_def
      dest!: compact.enc_dec read_list_dec split: bind_splits)

end

section \<open>Every number has exactly one encoding\<close>

text \<open>C23. Variable-length integers are a bijection: for an unsigned type of \<open>b\<close> bits, the reader accepts
  a stream exactly when it starts with what the writer writes for a number of that type, and then it
  returns that number and the rest of the stream.\<close>

theorem varint_one_encoding:
  assumes "7 \<le> b"
  shows "ReadVarInt (2 ^ b - 1) s = Some (n, rest) \<longleftrightarrow> s = WriteVarInt n @ rest \<and> n < 2 ^ b"
proof -
  have le: "n \<le> 2 ^ b - 1 \<longleftrightarrow> n < 2 ^ b"
    using zero_less_power [of "2 :: nat" b] by linarith
  show ?thesis
    using ReadVarInt_Write [of n "2 ^ b - 1" rest] ReadVarInt_dec [of "2 ^ b - 1" s n rest]
      type_max_ends [OF assms] unfolding le by blast
qed

theorem varint_one_encoding_witness:
  "ReadVarInt (2 ^ 32 - 1) [0x80, 0x7F, 0x01] = Some (255, [0x01])"
  using varint_one_encoding [of 32 "[0x80, 0x7F, 0x01]" 255 "[0x01]"]
  by (simp add: WriteVarInt_simps pre_simps [of 0] cont_def)

text \<open>The writer's scratch array \<open>tmp\<close> of \<open>(8 * sizeof(n) + 6) / 7\<close> bytes is never overrun: a number
  of \<open>b\<close> bits has at most \<open>(b + 6) / 7\<close> digits, and \<open>GetSizeOfVarInt\<close> returns the number of bytes that
  are written.\<close>

theorem varint_fits_buffer:
  assumes "n < 2 ^ b" "0 < b"
  shows "length (WriteVarInt n) \<le> (b + 6) div 7 \<and> length (WriteVarInt n) = GetSizeOfVarInt n"
proof -
  have "b \<le> 7 * ((b + 6) div 7)" by presburger
  then have "(2 :: nat) ^ b \<le> 2 ^ (7 * ((b + 6) div 7))" by (intro power_increasing) auto
  then have "n < 128 ^ ((b + 6) div 7)" using assms(1) by (simp add: power_mult)
  moreover have "0 < (b + 6) div 7" using assms(2) by (simp add: div_greater_zero_iff)
  ultimately show ?thesis
    unfolding WriteVarInt_def length_rev using length_varint_tmp GetSizeOfVarInt_length by blast
qed

theorem varint_fits_buffer_witness:
  "length (WriteVarInt 4294967295) \<le> (32 + 6) div 7
     \<and> length (WriteVarInt 4294967295) = GetSizeOfVarInt 4294967295"
  by (rule varint_fits_buffer) simp_all

text \<open>Compact sizes are canonical: the reader accepts a stream exactly when it starts with the
  shortest encoding of a number within the limit, which with the range check is \<open>MAX_SIZE\<close>; the
  three forms of over-long encodings are refused. The writer writes \<open>GetSizeOfCompactSize\<close> bytes.\<close>

theorem compact_size_canonical:
  "(ReadCompactSize range_check s = Some (n, rest)
      \<longleftrightarrow> s = WriteCompactSize n @ rest \<and> n \<le> (if range_check then MAX_SIZE else 2 ^ 64 - 1))
   \<and> length (WriteCompactSize n) = GetSizeOfCompactSize n"
proof
  show "ReadCompactSize range_check s = Some (n, rest)
      \<longleftrightarrow> s = WriteCompactSize n @ rest \<and> n \<le> (if range_check then MAX_SIZE else 2 ^ 64 - 1)"
    unfolding compact.dec_iff by (auto simp: compact_ok_def)
  show "length (WriteCompactSize n) = GetSizeOfCompactSize n"
    by (simp add: WriteCompactSize_def GetSizeOfCompactSize_def ser_writedata8_def
        ser_writedata16_def ser_writedata32_def ser_writedata64_def)
qed

end
