(* ===== verification/Formatters.thy ===== *)
theory Formatters
  imports Serialize
begin

text \<open>
The formatters of \<^verbatim>\<open>serialize.h\<close> beyond integers and vectors: bit sets in their fixed, dynamic,
  offset and automatic layouts, integers of one to eight bytes in either byte order, strings with
  a length limit and optional objects.
\<close>

unbundle bit_operations_syntax

section \<open>Bit sets of fixed size\<close>

definition GetSizeOfFixedBitSet :: "nat \<Rightarrow> nat" where
  "GetSizeOfFixedBitSet sz = (sz + 7) div 8"

definition WriteFixedBitSet :: "bool list \<Rightarrow> nat \<Rightarrow> bytes" where
  "WriteFixedBitSet vec sz =
     (let vBytes = replicate ((sz + 7) div 8) 0;
          ms = min sz (length vec)
      in fold (\<lambda>p vBytes. vBytes[p div 8 := vBytes ! (p div 8) OR push_bit (p mod 8) (of_bool (vec ! p))])
           [0..<ms] vBytes)"

definition ReadFixedBitSet :: "nat \<Rightarrow> bool list reader" where
  "ReadFixedBitSet sz s = do {
     (vBytes, s) \<leftarrow> read_bytes ((sz + 7) div 8) s;
     let vec = map (\<lambda>p. vBytes ! (p div 8) AND push_bit (p mod 8) 1 \<noteq> 0) [0..<sz];
     if length vBytes * 8 \<noteq> sz
     then let rem = length vBytes * 8 - sz;
              m = NOT (drop_bit rem 0xff)
          in if vBytes ! (length vBytes - 1) AND m \<noteq> 0 then None else Some (vec, s)
     else Some (vec, s) }"

fun write_varints_loop :: "bool list \<Rightarrow> nat \<Rightarrow> nat option \<Rightarrow> bytes" where
  "write_varints_loop [] i lst = []"
| "write_varints_loop (b # vec) i lst =
     (if b
      then WriteVarInt ((case lst of Some l \<Rightarrow> i - l | None \<Rightarrow> i + 1) mod 2 ^ 32)
             @ write_varints_loop vec (i + 1) (Some i)
      else write_varints_loop vec (i + 1) lst)"

definition WriteFixedVarIntsBitSet :: "bool list \<Rightarrow> nat \<Rightarrow> bytes" where
  "WriteFixedVarIntsBitSet vec sz = write_varints_loop vec 0 None @ WriteVarInt 0"

lemma read_varint_shrinks: "read_varint_loop maxI n s = Some (x, t) \<Longrightarrow> length t < length s"
  by (induction maxI n s rule: read_varint_loop.induct) (force simp: Let_def split: if_splits)+

text \<open>Indices are of type \<open>size_t\<close>, of 64 bits.\<close>

function read_varints_loop :: "nat \<Rightarrow> bool list \<Rightarrow> nat option \<Rightarrow> bool list reader" where
  "read_varints_loop sz vec lst s = do {
     (offset, s) \<leftarrow> ReadVarInt (2 ^ 32 - 1) s;
     if offset = 0 then Some (vec, s)
     else let idx = (case lst of Some l \<Rightarrow> (l + offset) mod 2 ^ 64 | None \<Rightarrow> offset - 1)
          in if idx \<ge> sz then None
             else if (case lst of Some l \<Rightarrow> idx \<le> l | None \<Rightarrow> False) then None
             else read_varints_loop sz (vec[idx := True]) (Some idx) s }"
  by pat_completeness auto

termination read_varints_loop
  by (relation "measure (\<lambda>(sz, vec, lst, s). length s)")
     (auto simp: ReadVarInt_def dest: read_varint_shrinks)

declare read_varints_loop.simps [simp del]

definition ReadFixedVarIntsBitSet :: "nat \<Rightarrow> bool list reader" where
  "ReadFixedVarIntsBitSet sz s = read_varints_loop sz (replicate sz False) None s"

text \<open>The two assertions of \<open>WriteAutoBitSet\<close> stop the program: None.\<close>

definition WriteAutoBitSet :: "bool list \<Rightarrow> nat \<Rightarrow> bytes option" where
  "WriteAutoBitSet vec sz =
     (if length vec \<noteq> sz then None
      else let size1 = length (WriteFixedBitSet vec sz);
               size2 = length (WriteFixedVarIntsBitSet vec sz)
           in if size1 \<noteq> GetSizeOfFixedBitSet sz then None
              else if size1 < size2
              then Some (ser_writedata8 0 @ WriteFixedBitSet vec (length vec))
              else Some (ser_writedata8 1 @ WriteFixedVarIntsBitSet vec (length vec)))"

definition ReadAutoBitSet :: "nat \<Rightarrow> bool list reader" where
  "ReadAutoBitSet sz s = do {
     (isVarInts, s) \<leftarrow> ser_readdata8 s;
     if isVarInts \<noteq> 0 \<and> isVarInts \<noteq> 1 then None
     else if isVarInts = 0 then ReadFixedBitSet sz s
     else ReadFixedVarIntsBitSet sz s }"

definition DynamicBitSet_Ser :: "bool list \<Rightarrow> bytes" where
  "DynamicBitSet_Ser vec = WriteCompactSize (length vec) @ WriteFixedBitSet vec (length vec)"

definition DynamicBitSet_Unser :: "bool list reader" where
  "DynamicBitSet_Unser s = do { (n, s) \<leftarrow> ReadCompactSize True s; ReadFixedBitSet n s }"

section \<open>Integers of custom width, limited strings and optional objects\<close>

text \<open>A 64-bit integer in memory: \<open>htole64\<close> keeps the order of its bytes and \<open>htobe64\<close> reverses it.\<close>

definition ReadLE64 :: "bytes \<Rightarrow> u64" where
  "ReadLE64 b = ucast (ReadLE32 (take 4 b)) OR push_bit 32 (ucast (ReadLE32 (drop 4 b)))"

definition CustomUint_MAX :: "nat \<Rightarrow> u64" where
  "CustomUint_MAX Bytes = drop_bit (8 * (8 - Bytes)) 0xffffffffffffffff"

definition CustomUint_Ser :: "nat \<Rightarrow> bool \<Rightarrow> u64 \<Rightarrow> bytes option" where
  "CustomUint_Ser Bytes BigEndian v =
     (if v > CustomUint_MAX Bytes then None
      else if BigEndian then let raw = rev (ser_writedata64 v) in Some (drop (8 - Bytes) raw)
      else let raw = ser_writedata64 v in Some (take Bytes raw))"

definition CustomUint_Unser :: "nat \<Rightarrow> bool \<Rightarrow> u64 reader" where
  "CustomUint_Unser Bytes BigEndian s = do {
     (b, s) \<leftarrow> read_bytes Bytes s;
     if BigEndian then let raw = replicate (8 - Bytes) 0 @ b in Some (ReadLE64 (rev raw), s)
     else let raw = b @ replicate (8 - Bytes) 0 in Some (ReadLE64 raw, s) }"

definition LimitedString_Unser :: "nat \<Rightarrow> bytes reader" where
  "LimitedString_Unser Limit s = do {
     (n, s) \<leftarrow> ReadCompactSize True s;
     if n > Limit then None else if n \<noteq> 0 then read_bytes n s else Some ([], s) }"

definition ser_bool :: "bool \<Rightarrow> bytes" where
  "ser_bool a = ser_writedata8 (of_bool a)"

definition unser_bool :: "bool reader" where
  "unser_bool s = do { (f, s) \<leftarrow> ser_readdata8 s; Some (f \<noteq> 0, s) }"

definition ser_optional :: "('a \<Rightarrow> bytes) \<Rightarrow> 'a option \<Rightarrow> bytes" where
  "ser_optional wr v = ser_bool (v \<noteq> None) @ (case v of Some x \<Rightarrow> wr x | None \<Rightarrow> [])"

definition unser_optional :: "'a reader \<Rightarrow> 'a option reader" where
  "unser_optional rd s = do {
     (has_value, s) \<leftarrow> unser_bool s;
     if \<not> has_value then Some (None, s) else do { (v, s) \<leftarrow> rd s; Some (Some v, s) } }"

section \<open>The formatters are inverted by their readers\<close>

lemma fixed_loop:
  fixes v0 :: bytes
    and vec :: "bool list"
  assumes "n \<le> 8 * length v0"
  defines "F \<equiv> \<lambda>n. fold (\<lambda>p v. v[p div 8 := v ! (p div 8) OR push_bit (p mod 8) (of_bool (vec ! p))])
      [0..<n] v0"
  shows "length (F n) = length v0
    \<and> (\<forall>j < length v0. \<forall>k < 8.
         bit (F n ! j :: u8) k \<longleftrightarrow> bit (v0 ! j) k \<or> (8 * j + k < n \<and> vec ! (8 * j + k)))"
  using assms(1)
proof (induction n)
  case (Suc n)
  have n: "n div 8 < length v0" using Suc.prems by (auto intro: less_mult_imp_div_less)
  have step: "F (Suc n) = (F n)[n div 8 := F n ! (n div 8) OR push_bit (n mod 8) (of_bool (vec ! n))]"
    by (simp add: F_def)
  have IH: "length (F n) = length v0"
    "\<And>j k. j < length v0 \<Longrightarrow> k < 8 \<Longrightarrow> bit (F n ! j) k \<longleftrightarrow> bit (v0 ! j) k \<or> (8 * j + k < n \<and> vec ! (8 * j + k))"
    using Suc by auto
  have pos: "8 * j + k = n \<longleftrightarrow> j = n div 8 \<and> k = n mod 8" if "k < 8" for j k
    using that by auto
  have "bit (F (Suc n) ! j) k \<longleftrightarrow> bit (v0 ! j) k \<or> (8 * j + k < Suc n \<and> vec ! (8 * j + k))"
    if jk: "j < length v0" "k < 8" for j k
    using pos [OF jk(2), of j] IH(2) [OF jk] jk IH(1) n
    by (cases "j = n div 8"; cases "k = n mod 8") (auto simp: step less_Suc_eq bit_simps)
  then show ?case using IH(1) by (simp add: step)
qed (simp add: F_def)

lemma WriteFixedBitSet_spec:
  assumes "length vec = sz"
  shows "length (WriteFixedBitSet vec sz) = (sz + 7) div 8"
    and "\<And>j k. j < (sz + 7) div 8 \<Longrightarrow> k < 8
      \<Longrightarrow> bit (WriteFixedBitSet vec sz ! j) k \<longleftrightarrow> 8 * j + k < sz \<and> vec ! (8 * j + k)"
  using fixed_loop [of sz "replicate ((sz + 7) div 8) 0" vec] assms
  by (simp_all add: WriteFixedBitSet_def Let_def)

lemma u8_nonzero: "(x :: u8) \<noteq> 0 \<longleftrightarrow> (\<exists>k < 8. bit x k)"
  by (auto simp: bit_eq_iff dest: bit_imp_le_length)

lemma bit_high_mask: "k < 8 \<Longrightarrow> bit (NOT (drop_bit r (0xff :: u8))) k \<longleftrightarrow> 8 \<le> k + r"
proof -
  assume k: "k < 8"
  have e: "(0xff :: u8) = mask 8" by (simp add: mask_eq_exp_minus_1)
  show ?thesis unfolding e using k by (auto simp: bit_simps)
qed

lemma out_of_range_bits:
  assumes "length v = (sz + 7) div 8"
  shows "(length v * 8 \<noteq> sz \<and> v ! (length v - 1) AND NOT (drop_bit (length v * 8 - sz) (0xff :: u8)) \<noteq> 0)
    \<longleftrightarrow> (\<exists>j < length v. \<exists>k < 8. sz \<le> 8 * j + k \<and> bit (v ! j) k)" (is "?A \<longleftrightarrow> ?B")
proof
  assume ?A
  then obtain k where k: "k < 8" "bit (v ! (length v - 1)) k" "8 \<le> k + (length v * 8 - sz)"
    by (auto simp: u8_nonzero bit_and_iff bit_high_mask)
  from \<open>?A\<close> assms have "sz \<noteq> 0" by (cases sz) auto
  then have "sz \<le> 8 * (length v - 1) + k" "length v - 1 < length v"
    using k(1,3) assms by auto
  then show ?B using k(1,2) by blast
next
  assume ?B
  then obtain j k where jk: "j < length v" "k < 8" "sz \<le> 8 * j + k" "bit (v ! j) k"
    by blast
  have "j = length v - 1" "8 \<le> k + (length v * 8 - sz)" "length v * 8 \<noteq> sz"
    using jk(1-3) assms by auto
  then show ?A using jk by (auto simp: u8_nonzero bit_and_iff bit_high_mask)
qed

lemma ReadFixedBitSet_iff:
  "ReadFixedBitSet sz s = Some (vec, rest) \<longleftrightarrow>
     (\<exists>v. s = v @ rest \<and> length v = (sz + 7) div 8
        \<and> vec = map (\<lambda>p. bit (v ! (p div 8)) (p mod 8)) [0..<sz]
        \<and> \<not> (\<exists>j < length v. \<exists>k < 8. sz \<le> 8 * j + k \<and> bit (v ! j) k))" (is "_ \<longleftrightarrow> ?R")
proof -
  have "ReadFixedBitSet sz s = Some (vec, rest) \<longleftrightarrow>
     (\<exists>v. read_bytes ((sz + 7) div 8) s = Some (v, rest)
        \<and> vec = map (\<lambda>p. bit (v ! (p div 8)) (p mod 8)) [0..<sz]
        \<and> \<not> (length v * 8 \<noteq> sz \<and> v ! (length v - 1) AND NOT (drop_bit (length v * 8 - sz) 0xff) \<noteq> 0))"
    by (auto simp: ReadFixedBitSet_def Let_def and_exp_eq_0_iff_not_bit split: bind_splits if_splits)
  also have "\<dots> \<longleftrightarrow> ?R"
    by (intro ex_cong1) (use out_of_range_bits read_bytes_dec read_bytes_length in blast)
  finally show ?thesis .
qed

interpretation fixedbits: canonical_codec "\<lambda>vec. WriteFixedBitSet vec sz" "ReadFixedBitSet sz"
  "\<lambda>vec. length vec = sz" for sz
proof
  fix vec :: "bool list" and rest assume l: "length vec = sz"
  note spec = WriteFixedBitSet_spec [OF l]
  have bits: "bit (WriteFixedBitSet vec sz ! (p div 8)) (p mod 8) = vec ! p" if "p < sz" for p
    using that spec(2) [of "p div 8" "p mod 8"] by auto
  show "ReadFixedBitSet sz (WriteFixedBitSet vec sz @ rest) = Some (vec, rest)"
    unfolding ReadFixedBitSet_iff
    by (rule exI [of _ "WriteFixedBitSet vec sz"])
       (use spec bits l in \<open>auto intro!: nth_equalityI\<close>)
next
  fix s vec rest assume "ReadFixedBitSet sz s = Some (vec, rest)"
  then obtain v where v: "s = v @ rest" "length v = (sz + 7) div 8"
    "vec = map (\<lambda>p. bit (v ! (p div 8)) (p mod 8)) [0..<sz]"
    "\<And>j k. j < length v \<Longrightarrow> k < 8 \<Longrightarrow> sz \<le> 8 * j + k \<Longrightarrow> \<not> bit (v ! j) k"
    unfolding ReadFixedBitSet_iff by blast
  have l: "length vec = sz" by (simp add: v(3))
  note spec = WriteFixedBitSet_spec [OF l]
  have "WriteFixedBitSet vec sz = v"
  proof (rule nth_equalityI)
    fix j assume j: "j < length (WriteFixedBitSet vec sz)"
    have "bit (WriteFixedBitSet vec sz ! j) k = bit (v ! j) k" if "k < 8" for k
    proof (cases "8 * j + k < sz")
      case True
      then have "vec ! (8 * j + k) = bit (v ! j) k" using that by (simp add: v(3))
      with True show ?thesis using spec(2) [of j k] j that spec(1) by simp
    next
      case False
      then show ?thesis using spec(2) [of j k] v(4) [of j k] j that spec(1) v(2) by simp
    qed
    then show "WriteFixedBitSet vec sz ! j = v ! j"
      by (intro bit_word_eqI) simp
  qed (simp add: spec v(2))
  then show "s = WriteFixedBitSet vec sz @ rest \<and> length vec = sz"
    using v(1) l by simp
qed

section \<open>Bit sets as sequences of offsets\<close>

lemma read_varints_write:
  assumes "length (done @ todo) < 2 ^ 32" "\<forall>l. lst = Some l \<longrightarrow> l < length done"
  shows "read_varints_loop (length (done @ todo)) (done @ replicate (length todo) False) lst
      (write_varints_loop todo (length done) lst @ WriteVarInt 0 @ rest) = Some (done @ todo, rest)"
  using assms
proof (induction todo arbitrary: "done" lst)
  case Nil
  then show ?case
    by (subst read_varints_loop.simps) (simp add: ReadVarInt_Write)
next
  case (Cons b todo)
  note IH = Cons.IH [of "done @ [b]"]
  show ?case
  proof (cases b)
    case False
    then show ?thesis using IH [of lst] Cons.prems by (auto simp: less_Suc_eq)
  next
    case True
    let ?i = "length done"
    define off where "off = (case lst of Some l \<Rightarrow> ?i - l | None \<Rightarrow> ?i + 1)"
    have off: "0 < off" "off < 2 ^ 32" "off mod 2 ^ 32 = off"
      using Cons.prems by (auto simp: off_def split: option.splits)
    have idx: "(case lst of Some l \<Rightarrow> (l + off) mod 2 ^ 64 | None \<Rightarrow> off - 1) = ?i"
      using Cons.prems by (auto simp: off_def split: option.splits)
    have upd: "(done @ replicate (length (b # todo)) False)[?i := True]
        = (done @ [b]) @ replicate (length todo) False"
      using True by (simp add: list_update_append)
    have "read_varints_loop (length (done @ b # todo)) (done @ replicate (length (b # todo)) False) lst
        (WriteVarInt off @ write_varints_loop todo (?i + 1) (Some ?i) @ WriteVarInt 0 @ rest)
      = read_varints_loop (length (done @ b # todo)) ((done @ [b]) @ replicate (length todo) False)
          (Some ?i) (write_varints_loop todo (?i + 1) (Some ?i) @ WriteVarInt 0 @ rest)"
      using off idx Cons.prems
      by (subst read_varints_loop.simps)
         (simp add: ReadVarInt_Write Let_def upd [simplified] split: option.splits)
    also have "\<dots> = Some (done @ b # todo, rest)"
      using IH [of "Some ?i"] Cons.prems by simp
    finally show ?thesis
      using True off by (simp add: off_def)
  qed
qed

lemma varints_round_trip:
  "length vec < 2 ^ 32 \<Longrightarrow>
   ReadFixedVarIntsBitSet (length vec) (WriteFixedVarIntsBitSet vec (length vec) @ rest) = Some (vec, rest)"
  using read_varints_write [of "[]" vec None rest]
  by (simp add: ReadFixedVarIntsBitSet_def WriteFixedVarIntsBitSet_def)

lemma dynamic_round_trip:
  "length vec \<le> MAX_SIZE \<Longrightarrow> DynamicBitSet_Unser (DynamicBitSet_Ser vec @ rest) = Some (vec, rest)"
  by (simp add: DynamicBitSet_Unser_def DynamicBitSet_Ser_def compact.dec_enc compact_ok_def
      fixedbits.dec_enc)

lemma nth_ser_writedata64:
  assumes "j < 8"
  shows "ser_writedata64 v ! j = ucast (drop_bit (8 * j) v)"
proof -
  have "j \<in> {0, 1, 2, 3, 4, 5, 6, 7}" using assms by auto
  then show ?thesis
    by (elim insertE emptyE)
       (auto simp: ser_writedata64_def WriteLE32_def nth_append intro!: bit_word_eqI simp: bit_simps)
qed

lemma custom_uint_max:
  assumes "v \<le> CustomUint_MAX Bytes" "Bytes \<le> 8"
  shows "unat v < 2 ^ (8 * Bytes)"
proof -
  have e: "(0xffffffffffffffff :: u64) = mask 64" by (simp add: mask_eq_exp_minus_1)
  have "CustomUint_MAX Bytes = mask (8 * Bytes)"
    unfolding CustomUint_MAX_def e using assms(2) by (auto intro!: bit_word_eqI simp: bit_simps)
  then have "unat v \<le> unat (mask (8 * Bytes) :: u64)"
    using assms(1) by (simp add: word_le_nat_alt)
  also have "\<dots> = unat (-1 :: u64) mod 2 ^ (8 * Bytes)"
    using unat_and_mask [of "-1 :: u64" "8 * Bytes"] by simp
  finally show ?thesis
    by (rule le_less_trans) simp
qed

lemma custom_uint_bytes:
  assumes "v \<le> CustomUint_MAX Bytes" "Bytes \<le> 8"
  shows "take Bytes (ser_writedata64 v) @ replicate (8 - Bytes) 0 = ser_writedata64 v"
proof (rule nth_equalityI)
  have l: "length (ser_writedata64 v) = 8" by (simp add: ser_writedata64_def)
  then show "length (take Bytes (ser_writedata64 v) @ replicate (8 - Bytes) 0) = length (ser_writedata64 v)"
    using assms(2) by simp
  fix j assume "j < length (take Bytes (ser_writedata64 v) @ replicate (8 - Bytes) 0)"
  then have j: "j < 8" using l assms(2) by simp
  have "ser_writedata64 v ! j = 0" if "Bytes \<le> j"
  proof -
    have "(2 :: nat) ^ (8 * Bytes) \<le> 2 ^ (8 * j)" using that by (intro power_increasing) auto
    with custom_uint_max [OF assms] have "unat v < 2 ^ (8 * j)" by (rule less_le_trans)
    then have "unat (drop_bit (8 * j) v) = 0" by (simp add: unat_drop_bit_word)
    then show ?thesis using j by (simp add: nth_ser_writedata64 unat_eq_0)
  qed
  then show "(take Bytes (ser_writedata64 v) @ replicate (8 - Bytes) 0) ! j = ser_writedata64 v ! j"
    using l j assms(2) by (simp add: nth_append)
qed

lemma ReadLE64_write: "ReadLE64 (ser_writedata64 v) = v"
  by (simp add: ReadLE64_def ser_writedata64_def u64_split)

lemma custom_uint_round_trip:
  assumes "v \<le> CustomUint_MAX Bytes" "Bytes \<le> 8"
  shows "\<exists>b. CustomUint_Ser Bytes BigEndian v = Some b
    \<and> CustomUint_Unser Bytes BigEndian (b @ rest) = Some (v, rest) \<and> length b = Bytes"
proof -
  have l: "length (ser_writedata64 v) = 8" by (simp add: ser_writedata64_def)
  have d: "drop (8 - Bytes) (rev (ser_writedata64 v)) = rev (take Bytes (ser_writedata64 v))"
    using l assms(2) by (simp add: rev_take)
  show ?thesis
    using assms l
    by (auto simp: CustomUint_Ser_def CustomUint_Unser_def d Let_def read_bytes_length
        custom_uint_bytes ReadLE64_write)
qed

lemma limited_string_round_trip:
  "length v \<le> min Limit MAX_SIZE \<Longrightarrow> LimitedString_Unser Limit (ser_blob v @ rest) = Some (v, rest)"
  by (simp add: LimitedString_Unser_def ser_blob_def compact.dec_enc compact_ok_def read_bytes_append)

lemma unser_bool_ser [wire_simps]: "unser_bool (ser_bool a @ rest) = Some (a, rest)"
  by (simp add: unser_bool_def ser_bool_def wire_simps)

context codec
begin

lemma optional_dec_enc:
  "pred_option valid v \<Longrightarrow> unser_optional dec (ser_optional enc v @ rest) = Some (v, rest)"
  by (cases v) (simp_all add: unser_optional_def ser_optional_def wire_simps dec_enc)

end

text \<open>A bit set survives \<open>WriteAutoBitSet\<close> and \<open>ReadAutoBitSet\<close> whichever of the two layouts is
  chosen, neither assertion of the writer fires, and the layout chosen is the shorter one.\<close>

theorem autobitset_round_trip:
  assumes "length vec < 2 ^ 32"
  shows "\<exists>out. WriteAutoBitSet vec (length vec) = Some out
    \<and> ReadAutoBitSet (length vec) (out @ rest) = Some (vec, rest)
    \<and> length out = 1 + min (GetSizeOfFixedBitSet (length vec))
                            (length (WriteFixedVarIntsBitSet vec (length vec)))"
  using assms WriteFixedBitSet_spec(1) [of vec "length vec"]
  by (auto simp: WriteAutoBitSet_def ReadAutoBitSet_def GetSizeOfFixedBitSet_def wire_simps
      fixedbits.dec_enc varints_round_trip ser_writedata8_def [of 0] ser_writedata8_def [of 1]
      u8.dec_enc [OF TrueI, unfolded ser_writedata8_def, simplified])

theorem autobitset_round_trip_witness:
  "\<exists>out. WriteAutoBitSet [True, False, True] (length [True, False, True]) = Some out
    \<and> ReadAutoBitSet (length [True, False, True]) (out @ [7]) = Some ([True, False, True], [7])
    \<and> length out = 1 + min (GetSizeOfFixedBitSet (length [True, False, True]))
                  (length (WriteFixedVarIntsBitSet [True, False, True] (length [True, False, True])))"
  by (rule autobitset_round_trip) simp

end
