(* ===== verification/Consensus_Params.thy ===== *)
theory Consensus_Params
  imports Arith_Uint256
begin

text \<open>
  The amounts of \<^verbatim>\<open>consensus/amount.h\<close>, the parameter structure of \<^verbatim>\<open>consensus/params.h\<close> with its
  height-dependent accessors, the buried-deployment tests of \<^verbatim>\<open>deploymentstatus.h\<close>, and the
  values \<^verbatim>\<open>chainparams.cpp\<close> gives the main and the test network. Heights, times and amounts are
  the C++ types int and int64\_t; the values that occur stay far inside those ranges, and the
  theories that rely on it state the bound.
\<close>

section \<open>Amounts\<close>

type_synonym CAmount = int

definition COIN :: CAmount where
  "COIN = 100000000"

definition MAX_MONEY :: CAmount where
  "MAX_MONEY = 10000000 * COIN"

definition MoneyRange :: "CAmount \<Rightarrow> bool" where
  "MoneyRange nValue \<longleftrightarrow> nValue \<ge> 0 \<and> nValue \<le> MAX_MONEY"

definition INT_MAX :: int where
  "INT_MAX = 2147483647"

definition INT64_MAX :: int where
  "INT64_MAX = 9223372036854775807"

section \<open>Deployments\<close>

datatype BuriedDeployment =
    DEPLOYMENT_HEIGHTINCB | DEPLOYMENT_DERSIG | DEPLOYMENT_CLTV | DEPLOYMENT_BIP147
  | DEPLOYMENT_CSV | DEPLOYMENT_DIP0001 | DEPLOYMENT_DIP0003 | DEPLOYMENT_DIP0008
  | DEPLOYMENT_DIP0020 | DEPLOYMENT_DIP0024 | DEPLOYMENT_BRR | DEPLOYMENT_V19
  | DEPLOYMENT_V20 | DEPLOYMENT_MN_RR | DEPLOYMENT_KSH_SHIELD | DEPLOYMENT_WITHDRAWALS

datatype DeploymentPos = DEPLOYMENT_TESTDUMMY | DEPLOYMENT_V24

definition ALWAYS_ACTIVE :: int where
  "ALWAYS_ACTIVE = - 1"

definition NEVER_ACTIVE :: int where
  "NEVER_ACTIVE = - 2"

definition NO_TIMEOUT :: int where
  "NO_TIMEOUT = INT64_MAX"

record BIP9Deployment =
  bip9_bit :: int
  nStartTime :: int
  nTimeout :: int
  min_activation_height :: int
  nWindowSize :: int
  nThresholdStart :: int
  nThresholdMin :: int
  nFalloffCoeff :: int
  useEHF :: bool

definition BIP9Deployment_default :: BIP9Deployment where
  "BIP9Deployment_default = \<lparr>bip9_bit = 28, nStartTime = NEVER_ACTIVE, nTimeout = NEVER_ACTIVE,
     min_activation_height = 0, nWindowSize = 0, nThresholdStart = 0, nThresholdMin = 0,
     nFalloffCoeff = 0, useEHF = False\<rparr>"

section \<open>The parameter structure\<close>

datatype network = MAIN | TESTNET | DEVNET | REGTEST

record Params =
  NetworkID :: network
  nMaxMoney :: CAmount
  nSubsidyHalvingInterval :: int
  nMasternodePaymentsStartBlock :: int
  nMasternodePaymentsIncreaseBlock :: int
  nMasternodePaymentsIncreasePeriod :: int
  nInstantSendConfirmationsRequired :: int
  nInstantSendKeepLock :: int
  nBudgetPaymentsStartBlock :: int
  nBudgetPaymentsCycleBlocks :: int
  nBudgetPaymentsWindowBlocks :: int
  nSuperblockStartBlock :: int
  nSuperblockCycle :: int
  nSuperblockMaturityWindow :: int
  nGovernanceMinQuorum :: int
  nGovernanceFilterElements :: int
  nMasternodeMinimumConfirmations :: int
  BIP34Height :: int
  BIP65Height :: int
  BIP66Height :: int
  BIP147Height :: int
  CSVHeight :: int
  DIP0001Height :: int
  DIP0003Height :: int
  DIP0003EnforcementHeight :: int
  DIP0008Height :: int
  BRRHeight :: int
  nBRRFixHeight :: int
  DIP0020Height :: int
  DIP0024Height :: int
  DIP0024QuorumsHeight :: int
  V19Height :: int
  V20Height :: int
  MN_RRHeight :: int
  nKSHv014Height :: int
  nKorshEvoActivationHeight :: int
  nKSHv030Height :: int
  nKSHShieldHeight :: int
  nKSHv040Height :: int
  nKSHv040HalvingInterval :: int
  nKSHv040PowTargetSpacing :: int
  nKSHv040SuperblockCycle :: int
  nKSHv005ForkHeight :: int
  WithdrawalsHeight :: int
  MinBIP9WarningHeight :: int
  nRuleChangeActivationThreshold :: int
  nMinerConfirmationWindow :: int
  vDeployments :: "DeploymentPos \<Rightarrow> BIP9Deployment"
  powLimit :: uint256
  fPowAllowMinDifficultyBlocks :: bool
  fPowNoRetargeting :: bool
  nPowTargetSpacing :: int
  nPowTargetTimespan :: int
  nPowKGWHeight :: int
  nPowDGWHeight :: int
  nMinimumDifficultyBlocks :: int
  nHighSubsidyBlocks :: int
  nHighSubsidyFactor :: int

definition DifficultyAdjustmentInterval :: "Params \<Rightarrow> int" where
  "DifficultyAdjustmentInterval p = cdiv (nPowTargetTimespan p) (nPowTargetSpacing p)"

definition IsKSHv040Active :: "Params \<Rightarrow> int \<Rightarrow> bool" where
  "IsKSHv040Active p nHeight \<longleftrightarrow> nHeight \<ge> nKSHv040Height p"

definition SubsidyHalvingInterval :: "Params \<Rightarrow> int \<Rightarrow> int" where
  "SubsidyHalvingInterval p nHeight =
     (if IsKSHv040Active p nHeight then nKSHv040HalvingInterval p else nSubsidyHalvingInterval p)"

definition PowTargetSpacing :: "Params \<Rightarrow> int \<Rightarrow> int" where
  "PowTargetSpacing p nHeight =
     (if IsKSHv040Active p nHeight then nKSHv040PowTargetSpacing p else nPowTargetSpacing p)"

definition SuperblockCycle :: "Params \<Rightarrow> int \<Rightarrow> int" where
  "SuperblockCycle p nHeight =
     (if IsKSHv040Active p nHeight then nKSHv040SuperblockCycle p else nSuperblockCycle p)"

definition SuperblockBudgetCycle :: "Params \<Rightarrow> int \<Rightarrow> int" where
  "SuperblockBudgetCycle p nHeight =
     (if nHeight > nKSHv040Height p then nKSHv040SuperblockCycle p else nSuperblockCycle p)"

fun DeploymentHeight :: "Params \<Rightarrow> BuriedDeployment \<Rightarrow> int" where
  "DeploymentHeight p DEPLOYMENT_HEIGHTINCB = BIP34Height p"
| "DeploymentHeight p DEPLOYMENT_DERSIG = BIP66Height p"
| "DeploymentHeight p DEPLOYMENT_CLTV = BIP65Height p"
| "DeploymentHeight p DEPLOYMENT_BIP147 = BIP147Height p"
| "DeploymentHeight p DEPLOYMENT_CSV = CSVHeight p"
| "DeploymentHeight p DEPLOYMENT_DIP0001 = DIP0001Height p"
| "DeploymentHeight p DEPLOYMENT_DIP0003 = DIP0003Height p"
| "DeploymentHeight p DEPLOYMENT_DIP0008 = DIP0008Height p"
| "DeploymentHeight p DEPLOYMENT_DIP0020 = DIP0020Height p"
| "DeploymentHeight p DEPLOYMENT_DIP0024 = DIP0024Height p"
| "DeploymentHeight p DEPLOYMENT_BRR = BRRHeight p"
| "DeploymentHeight p DEPLOYMENT_V19 = V19Height p"
| "DeploymentHeight p DEPLOYMENT_V20 = V20Height p"
| "DeploymentHeight p DEPLOYMENT_MN_RR = MN_RRHeight p"
| "DeploymentHeight p DEPLOYMENT_KSH_SHIELD = nKSHShieldHeight p"
| "DeploymentHeight p DEPLOYMENT_WITHDRAWALS = WithdrawalsHeight p"

text \<open>
  \<open>DeploymentActiveAfter\<close> takes the previous block; only its height matters, and the missing
  previous block of genesis counts as height 0.
\<close>

definition DeploymentActiveAfter :: "int option \<Rightarrow> Params \<Rightarrow> BuriedDeployment \<Rightarrow> bool" where
  "DeploymentActiveAfter prevHeight p dep \<longleftrightarrow>
     (case prevHeight of None \<Rightarrow> 0 | Some h \<Rightarrow> h + 1) \<ge> DeploymentHeight p dep"

definition DeploymentActiveAt :: "int \<Rightarrow> Params \<Rightarrow> BuriedDeployment \<Rightarrow> bool" where
  "DeploymentActiveAt nHeight p dep \<longleftrightarrow> nHeight \<ge> DeploymentHeight p dep"

definition DeploymentEnabled :: "Params \<Rightarrow> BuriedDeployment \<Rightarrow> bool" where
  "DeploymentEnabled p dep \<longleftrightarrow> DeploymentHeight p dep \<noteq> INT_MAX"

definition DeploymentEnabled_BIP9 :: "Params \<Rightarrow> DeploymentPos \<Rightarrow> bool" where
  "DeploymentEnabled_BIP9 p dep \<longleftrightarrow> nStartTime (vDeployments p dep) \<noteq> NEVER_ACTIVE"

definition DeploymentDIP0003Enforced :: "int \<Rightarrow> Params \<Rightarrow> bool" where
  "DeploymentDIP0003Enforced nHeight p \<longleftrightarrow> nHeight \<ge> DIP0003EnforcementHeight p"

text \<open>
  \<open>IsValidMNActivation\<close> scans the deployments in the order of the enum; a deployment on the bit
  whose window excludes the time is passed over, the first other one decides, and a bit no
  deployment uses is accepted. The assertion on the bit number is the None branch.
\<close>

definition VERSIONBITS_NUM_BITS :: int where
  "VERSIONBITS_NUM_BITS = 29"

fun mn_activation_loop :: "BIP9Deployment list \<Rightarrow> int \<Rightarrow> int \<Rightarrow> bool" where
  "mn_activation_loop [] nBit timePast = True"
| "mn_activation_loop (d # ds) nBit timePast =
     (if bip9_bit d = nBit
      then if timePast > nTimeout d \<or> timePast < nStartTime d
           then mn_activation_loop ds nBit timePast
           else useEHF d
      else mn_activation_loop ds nBit timePast)"

definition IsValidMNActivation :: "Params \<Rightarrow> int \<Rightarrow> int \<Rightarrow> bool option" where
  "IsValidMNActivation p nBit timePast =
     (if \<not> nBit < VERSIONBITS_NUM_BITS then None
      else Some (mn_activation_loop (map (vDeployments p) [DEPLOYMENT_TESTDUMMY, DEPLOYMENT_V24])
                   nBit timePast))"

section \<open>The networks\<close>

text \<open>
  The integer fields are those the constructors of \<^verbatim>\<open>chainparams.cpp\<close> assign; block hashes,
  seeds, address prefixes and the quorum tables are not part of the record.
\<close>

text \<open>\<open>uint256S\<close> of the literal \<open>00ffffffff\<close> followed by 54 zero digits: the blob is little endian.\<close>

definition korsh_powLimit :: uint256 where
  "korsh_powLimit = replicate 27 0 @ [0xff, 0xff, 0xff, 0xff, 0x00]"

definition korsh_vDeployments :: "DeploymentPos \<Rightarrow> BIP9Deployment" where
  "korsh_vDeployments pos = (case pos of
     DEPLOYMENT_TESTDUMMY \<Rightarrow> BIP9Deployment_default\<lparr>bip9_bit := 28, nStartTime := NEVER_ACTIVE,
        nTimeout := NO_TIMEOUT, min_activation_height := 0\<rparr>
   | DEPLOYMENT_V24 \<Rightarrow> BIP9Deployment_default\<lparr>bip9_bit := 12, nStartTime := NEVER_ACTIVE,
        nTimeout := NO_TIMEOUT, nWindowSize := 4032, nThresholdStart := 3226,
        nThresholdMin := 2420, nFalloffCoeff := 5, useEHF := True\<rparr>)"

definition CMainParams :: Params where
  "CMainParams = \<lparr>
     NetworkID = MAIN, nMaxMoney = 10000000 * COIN, nSubsidyHalvingInterval = 2500000,
     nMasternodePaymentsStartBlock = 2, nMasternodePaymentsIncreaseBlock = 999999999,
     nMasternodePaymentsIncreasePeriod = 262800, nInstantSendConfirmationsRequired = 2,
     nInstantSendKeepLock = 24, nBudgetPaymentsStartBlock = 999999999,
     nBudgetPaymentsCycleBlocks = 21600, nBudgetPaymentsWindowBlocks = 100,
     nSuperblockStartBlock = 999999999, nSuperblockCycle = 21600,
     nSuperblockMaturityWindow = 1662, nGovernanceMinQuorum = 2,
     nGovernanceFilterElements = 15000, nMasternodeMinimumConfirmations = 15,
     BIP34Height = 0, BIP65Height = 0, BIP66Height = 0, BIP147Height = 0, CSVHeight = 0,
     DIP0001Height = 2, DIP0003Height = 2, DIP0003EnforcementHeight = 50,
     DIP0008Height = 999999999, BRRHeight = 999999999, nBRRFixHeight = 999999999,
     DIP0020Height = 999999999, DIP0024Height = 999999999, DIP0024QuorumsHeight = 999999999,
     V19Height = 14000, V20Height = 999999999, MN_RRHeight = 999999999, nKSHv014Height = 1,
     nKorshEvoActivationHeight = 999999999, nKSHv030Height = 999999999,
     nKSHShieldHeight = 999999999, nKSHv040Height = 999999999,
     nKSHv040HalvingInterval = 1000000, nKSHv040PowTargetSpacing = 60,
     nKSHv040SuperblockCycle = 10800, nKSHv005ForkHeight = 999999999,
     WithdrawalsHeight = 999999999, MinBIP9WarningHeight = 0,
     nRuleChangeActivationThreshold = 54, nMinerConfirmationWindow = 60,
     vDeployments = korsh_vDeployments, powLimit = korsh_powLimit,
     fPowAllowMinDifficultyBlocks = False, fPowNoRetargeting = False,
     nPowTargetSpacing = 60, nPowTargetTimespan = 60 * 60, nPowKGWHeight = 0,
     nPowDGWHeight = 0, nMinimumDifficultyBlocks = 0, nHighSubsidyBlocks = 0,
     nHighSubsidyFactor = 1\<rparr>"

definition CTestNetParams :: Params where
  "CTestNetParams = \<lparr>
     NetworkID = TESTNET, nMaxMoney = 10000000 * COIN, nSubsidyHalvingInterval = 1030596,
     nMasternodePaymentsStartBlock = 50, nMasternodePaymentsIncreaseBlock = 101,
     nMasternodePaymentsIncreasePeriod = 262800, nInstantSendConfirmationsRequired = 2,
     nInstantSendKeepLock = 6, nBudgetPaymentsStartBlock = 27600,
     nBudgetPaymentsCycleBlocks = 21600, nBudgetPaymentsWindowBlocks = 10,
     nSuperblockStartBlock = 27700, nSuperblockCycle = 21600,
     nSuperblockMaturityWindow = 1662, nGovernanceMinQuorum = 1,
     nGovernanceFilterElements = 500, nMasternodeMinimumConfirmations = 1, BIP34Height = 0,
     BIP65Height = 0, BIP66Height = 0, BIP147Height = 0, CSVHeight = 0, DIP0001Height = 2,
     DIP0003Height = 2, DIP0003EnforcementHeight = 50, DIP0008Height = 2, BRRHeight = 20000,
     nBRRFixHeight = 27700, DIP0020Height = 20000, DIP0024Height = 20000,
     DIP0024QuorumsHeight = 20000, V19Height = 20000, V20Height = 20000,
     MN_RRHeight = 999999999, nKSHv014Height = 40000, nKorshEvoActivationHeight = 999999999,
     nKSHv030Height = 90000, nKSHShieldHeight = 999999999, nKSHv040Height = 172800,
     nKSHv040HalvingInterval = 1000000, nKSHv040PowTargetSpacing = 120,
     nKSHv040SuperblockCycle = 10800, nKSHv005ForkHeight = 1, WithdrawalsHeight = 999999999,
     MinBIP9WarningHeight = 0, nRuleChangeActivationThreshold = 54,
     nMinerConfirmationWindow = 60, vDeployments = korsh_vDeployments,
     powLimit = korsh_powLimit, fPowAllowMinDifficultyBlocks = True,
     fPowNoRetargeting = False, nPowTargetSpacing = 60, nPowTargetTimespan = 60 * 60,
     nPowKGWHeight = 0, nPowDGWHeight = 0, nMinimumDifficultyBlocks = 0,
     nHighSubsidyBlocks = 0, nHighSubsidyFactor = 1\<rparr>"

end
