(* ===== verification/Block_Index.thy ===== *)
theory Block_Index
  imports Consensus_Params
begin

text \<open>
  The tree of block headers: \<^verbatim>\<open>chain.h\<close>, \<^verbatim>\<open>chain.cpp\<close> and the operations of
  \<^verbatim>\<open>node/blockstorage.cpp\<close> that grow it. The block map of the node owns its entries by hash, so
  a pointer to an entry is modelled by the hash that owns it, and the memory behind the pointers
  is the block map itself. A null pointer is None; following a pointer that owns nothing, and a
  failed assertion, are errors of the result.
\<close>

unbundle bit_operations_syntax

section \<open>Block files and block status\<close>

record CBlockFileInfo =
  nBlocks :: u32
  nSize :: u32
  nUndoSize :: u32
  nHeightFirst :: u32
  nHeightLast :: u32
  nTimeFirst :: u64
  nTimeLast :: u64

definition AddBlock :: "u32 \<Rightarrow> u64 \<Rightarrow> CBlockFileInfo \<Rightarrow> CBlockFileInfo" where
  "AddBlock nHeightIn nTimeIn f =
     (let f1 = (if nBlocks f = 0 \<or> nHeightFirst f > nHeightIn then f\<lparr>nHeightFirst := nHeightIn\<rparr> else f);
          f2 = (if nBlocks f1 = 0 \<or> nTimeFirst f1 > nTimeIn then f1\<lparr>nTimeFirst := nTimeIn\<rparr> else f1);
          f3 = f2\<lparr>nBlocks := nBlocks f2 + 1\<rparr>;
          f4 = (if nHeightIn > nHeightLast f3 then f3\<lparr>nHeightLast := nHeightIn\<rparr> else f3)
      in if nTimeIn > nTimeLast f4 then f4\<lparr>nTimeLast := nTimeIn\<rparr> else f4)"

definition BLOCK_VALID_UNKNOWN :: u32 where "BLOCK_VALID_UNKNOWN = 0"
definition BLOCK_VALID_RESERVED :: u32 where "BLOCK_VALID_RESERVED = 1"
definition BLOCK_VALID_TREE :: u32 where "BLOCK_VALID_TREE = 2"
definition BLOCK_VALID_TRANSACTIONS :: u32 where "BLOCK_VALID_TRANSACTIONS = 3"
definition BLOCK_VALID_CHAIN :: u32 where "BLOCK_VALID_CHAIN = 4"
definition BLOCK_VALID_SCRIPTS :: u32 where "BLOCK_VALID_SCRIPTS = 5"
definition BLOCK_VALID_MASK :: u32 where
  "BLOCK_VALID_MASK = BLOCK_VALID_RESERVED OR BLOCK_VALID_TREE OR BLOCK_VALID_TRANSACTIONS OR
                      BLOCK_VALID_CHAIN OR BLOCK_VALID_SCRIPTS"
definition BLOCK_HAVE_DATA :: u32 where "BLOCK_HAVE_DATA = 8"
definition BLOCK_HAVE_UNDO :: u32 where "BLOCK_HAVE_UNDO = 16"
definition BLOCK_HAVE_MASK :: u32 where "BLOCK_HAVE_MASK = BLOCK_HAVE_DATA OR BLOCK_HAVE_UNDO"
definition BLOCK_FAILED_VALID :: u32 where "BLOCK_FAILED_VALID = 32"
definition BLOCK_FAILED_CHILD :: u32 where "BLOCK_FAILED_CHILD = 64"
definition BLOCK_FAILED_MASK :: u32 where
  "BLOCK_FAILED_MASK = BLOCK_FAILED_VALID OR BLOCK_FAILED_CHILD"
definition BLOCK_CONFLICT_CHAINLOCK :: u32 where "BLOCK_CONFLICT_CHAINLOCK = 128"
definition BLOCK_ASSUMED_VALID :: u32 where "BLOCK_ASSUMED_VALID = 256"

lemmas block_status_defs =
  BLOCK_VALID_UNKNOWN_def BLOCK_VALID_RESERVED_def BLOCK_VALID_TREE_def BLOCK_VALID_TRANSACTIONS_def
  BLOCK_VALID_CHAIN_def BLOCK_VALID_SCRIPTS_def BLOCK_VALID_MASK_def BLOCK_HAVE_DATA_def
  BLOCK_HAVE_UNDO_def BLOCK_HAVE_MASK_def BLOCK_FAILED_VALID_def BLOCK_FAILED_CHILD_def
  BLOCK_FAILED_MASK_def BLOCK_CONFLICT_CHAINLOCK_def BLOCK_ASSUMED_VALID_def

section \<open>Headers and index entries\<close>

record CBlockHeader =
  hdr_nVersion :: u32
  hashPrevBlock :: uint256
  hdr_hashMerkleRoot :: uint256
  hdr_nTime :: u32
  hdr_nBits :: u32
  hdr_nNonce :: u32

type_synonym ptr = uint256

record CBlockIndex =
  phashBlock :: "uint256 option"
  pprev :: "ptr option"
  pskip :: "ptr option"
  nHeight :: int
  nFile :: int
  nDataPos :: u32
  nUndoPos :: u32
  nChainWork :: base_uint
  nTx :: u32
  nChainTx :: u32
  nStatus :: u32
  nVersion :: u32
  hashMerkleRoot :: uint256
  nTime :: u32
  nBits :: u32
  nNonce :: u32
  nSequenceId :: int
  nTimeMax :: u32

type_synonym BlockMap = "uint256 \<rightharpoonup> CBlockIndex"

datatype chain_error = Null_deref | Out_of_range | Assertion_failed | Fuel_exhausted | Arith_error uint_error

definition new_CBlockIndex :: "CBlockHeader \<Rightarrow> CBlockIndex" where
  "new_CBlockIndex block = \<lparr>phashBlock = None, pprev = None, pskip = None, nHeight = 0, nFile = 0,
     nDataPos = 0, nUndoPos = 0, nChainWork = uint_zero, nTx = 0, nChainTx = 0, nStatus = 0,
     nVersion = hdr_nVersion block, hashMerkleRoot = hdr_hashMerkleRoot block,
     nTime = hdr_nTime block, nBits = hdr_nBits block, nNonce = hdr_nNonce block,
     nSequenceId = 0, nTimeMax = 0\<rparr>"

definition deref :: "BlockMap \<Rightarrow> ptr \<Rightarrow> chain_error + CBlockIndex" where
  "deref bm p = (case bm p of None \<Rightarrow> Inl Null_deref | Some b \<Rightarrow> Inr b)"

definition GetBlockHash :: "CBlockIndex \<Rightarrow> chain_error + uint256" where
  "GetBlockHash b = (case phashBlock b of None \<Rightarrow> Inl Assertion_failed | Some h \<Rightarrow> Inr h)"

record FlatFilePos =
  pos_nFile :: int
  pos_nPos :: u32

definition FlatFilePos_null :: FlatFilePos where
  "FlatFilePos_null = \<lparr>pos_nFile = - 1, pos_nPos = 0\<rparr>"

definition GetBlockPos :: "CBlockIndex \<Rightarrow> FlatFilePos" where
  "GetBlockPos b = (if nStatus b AND BLOCK_HAVE_DATA \<noteq> 0
                    then \<lparr>pos_nFile = nFile b, pos_nPos = nDataPos b\<rparr> else FlatFilePos_null)"

definition GetUndoPos :: "CBlockIndex \<Rightarrow> FlatFilePos" where
  "GetUndoPos b = (if nStatus b AND BLOCK_HAVE_UNDO \<noteq> 0
                   then \<lparr>pos_nFile = nFile b, pos_nPos = nUndoPos b\<rparr> else FlatFilePos_null)"

definition GetBlockHeader :: "BlockMap \<Rightarrow> CBlockIndex \<Rightarrow> chain_error + CBlockHeader" where
  "GetBlockHeader bm b =
     bind_sum (case pprev b of None \<Rightarrow> Inr (replicate 32 0)
               | Some p \<Rightarrow> bind_sum (deref bm p) GetBlockHash)
       (\<lambda>prev. Inr \<lparr>hdr_nVersion = nVersion b, hashPrevBlock = prev,
          hdr_hashMerkleRoot = hashMerkleRoot b, hdr_nTime = nTime b, hdr_nBits = nBits b,
          hdr_nNonce = nNonce b\<rparr>)"

definition HaveTxsDownloaded :: "CBlockIndex \<Rightarrow> bool" where
  "HaveTxsDownloaded b \<longleftrightarrow> nChainTx b \<noteq> 0"

definition GetBlockTime :: "CBlockIndex \<Rightarrow> int" where
  "GetBlockTime b = uint (nTime b)"

definition GetBlockTimeMax :: "CBlockIndex \<Rightarrow> int" where
  "GetBlockTimeMax b = uint (nTimeMax b)"

definition nMedianTimeSpan :: nat where
  "nMedianTimeSpan = 11"

primrec past_times :: "BlockMap \<Rightarrow> nat \<Rightarrow> ptr option \<Rightarrow> chain_error + int list" where
  "past_times bm 0 pindex = Inr []"
| "past_times bm (Suc i) pindex = (case pindex of None \<Rightarrow> Inr []
     | Some p \<Rightarrow> bind_sum (deref bm p) (\<lambda>b.
         bind_sum (past_times bm i (pprev b)) (\<lambda>ts. Inr (GetBlockTime b # ts))))"

definition GetMedianTimePast :: "BlockMap \<Rightarrow> ptr \<Rightarrow> chain_error + int" where
  "GetMedianTimePast bm this =
     bind_sum (past_times bm nMedianTimeSpan (Some this)) (\<lambda>ts.
       let pmedian = sort (rev ts) in Inr (pmedian ! (length pmedian div 2)))"

definition IsValid :: "u32 \<Rightarrow> CBlockIndex \<Rightarrow> chain_error + bool" where
  "IsValid nUpTo b =
     (if nUpTo AND NOT BLOCK_VALID_MASK \<noteq> 0 then Inl Assertion_failed
      else if nStatus b AND BLOCK_FAILED_MASK \<noteq> 0 then Inr False
      else Inr (nStatus b AND BLOCK_VALID_MASK \<ge> nUpTo))"

definition IsAssumedValid :: "CBlockIndex \<Rightarrow> bool" where
  "IsAssumedValid b \<longleftrightarrow> nStatus b AND BLOCK_ASSUMED_VALID \<noteq> 0"

definition RaiseValidity :: "u32 \<Rightarrow> CBlockIndex \<Rightarrow> chain_error + (bool \<times> CBlockIndex)" where
  "RaiseValidity nUpTo b =
     (if nUpTo AND NOT BLOCK_VALID_MASK \<noteq> 0 then Inl Assertion_failed
      else if nStatus b AND BLOCK_FAILED_MASK \<noteq> 0 then Inr (False, b)
      else if nStatus b AND BLOCK_VALID_MASK < nUpTo
           then let s = (if nStatus b AND BLOCK_ASSUMED_VALID \<noteq> 0 \<and> nUpTo \<ge> BLOCK_VALID_SCRIPTS
                         then nStatus b AND NOT BLOCK_ASSUMED_VALID else nStatus b)
                in Inr (True, b\<lparr>nStatus := (s AND NOT BLOCK_VALID_MASK) OR nUpTo\<rparr>)
           else Inr (False, b))"

section \<open>The skip list\<close>

definition InvertLowestOne :: "int \<Rightarrow> int" where
  "InvertLowestOne n = n AND (n - 1)"

definition GetSkipHeight :: "int \<Rightarrow> int" where
  "GetSkipHeight height =
     (if height < 2 then 0
      else if height AND 1 \<noteq> 0 then InvertLowestOne (InvertLowestOne (height - 1)) + 1
      else InvertLowestOne height)"

lemma InvertLowestOne_bounds: "0 \<le> n \<Longrightarrow> 0 \<le> InvertLowestOne n \<and> InvertLowestOne n \<le> max 0 (n - 1)"
  by (cases "n = 0") (auto simp: InvertLowestOne_def intro: AND_upper2)

lemma GetSkipHeight_nonneg: "0 \<le> GetSkipHeight h"
  using InvertLowestOne_bounds [of h] InvertLowestOne_bounds [of "h - 1"]
    InvertLowestOne_bounds [of "InvertLowestOne (h - 1)"]
  by (auto simp: GetSkipHeight_def)

lemma GetSkipHeight_less: "1 \<le> h \<Longrightarrow> GetSkipHeight h < h"
  using InvertLowestOne_bounds [of h] InvertLowestOne_bounds [of "h - 1"]
    InvertLowestOne_bounds [of "InvertLowestOne (h - 1)"]
  by (auto simp: GetSkipHeight_def)

text \<open>
  The walk of \<open>GetAncestor\<close>. The target height is a natural number because the function returns
  a null pointer for a negative one before it walks, so the loop ends on every store.
\<close>

function ancestor_loop :: "BlockMap \<Rightarrow> nat \<Rightarrow> ptr \<Rightarrow> int \<Rightarrow> chain_error + ptr" where
  "ancestor_loop bm height pindexWalk heightWalk =
     (if heightWalk > int height
      then let heightSkip = GetSkipHeight heightWalk;
               heightSkipPrev = GetSkipHeight (heightWalk - 1)
           in bind_sum (deref bm pindexWalk) (\<lambda>b. case pskip b of
                Some q \<Rightarrow>
                  if heightSkip = int height \<or>
                     (heightSkip > int height \<and>
                      \<not> (heightSkipPrev < heightSkip - 2 \<and> heightSkipPrev \<ge> int height))
                  then ancestor_loop bm height q heightSkip
                  else (case pprev b of None \<Rightarrow> Inl Assertion_failed
                        | Some p \<Rightarrow> ancestor_loop bm height p (heightWalk - 1))
              | None \<Rightarrow> (case pprev b of None \<Rightarrow> Inl Assertion_failed
                         | Some p \<Rightarrow> ancestor_loop bm height p (heightWalk - 1)))
      else Inr pindexWalk)"
  by pat_completeness auto

termination ancestor_loop
  by (relation "measure (\<lambda>(bm, height, p, hw). nat hw)")
     (use GetSkipHeight_less in \<open>force+\<close>)

declare ancestor_loop.simps [simp del]

definition GetAncestor :: "BlockMap \<Rightarrow> ptr \<Rightarrow> int \<Rightarrow> chain_error + ptr option" where
  "GetAncestor bm this height =
     bind_sum (deref bm this) (\<lambda>b.
       if height > nHeight b \<or> height < 0 then Inr None
       else bind_sum (ancestor_loop bm (nat height) this (nHeight b)) (\<lambda>p. Inr (Some p)))"

definition BuildSkip :: "BlockMap \<Rightarrow> CBlockIndex \<Rightarrow> chain_error + CBlockIndex" where
  "BuildSkip bm b = (case pprev b of None \<Rightarrow> Inr b
     | Some p \<Rightarrow> bind_sum (GetAncestor bm p (GetSkipHeight (nHeight b))) (\<lambda>a. Inr (b\<lparr>pskip := a\<rparr>)))"

section \<open>Proof of work of an entry\<close>

definition GetBlockProof :: "CBlockIndex \<Rightarrow> uint_error + base_uint" where
  "GetBlockProof block =
     (let (bnTarget, fNegative, fOverflow) = SetCompact (nBits block)
      in if fNegative \<or> fOverflow \<or> EqualTo bnTarget 0 then Inr (of_uint64 0)
         else bind_sum (uint_div (uint_not bnTarget) (uint_add bnTarget (of_uint64 1)))
                (\<lambda>q. Inr (uint_add q (of_uint64 1))))"

definition GetBlockProofEquivalentTime ::
    "CBlockIndex \<Rightarrow> CBlockIndex \<Rightarrow> CBlockIndex \<Rightarrow> Params \<Rightarrow> uint_error + int" where
  "GetBlockProofEquivalentTime dest from tip params =
     (let (r, sign) = (if CompareTo (nChainWork dest) (nChainWork from) > 0
                       then (uint_sub (nChainWork dest) (nChainWork from), 1)
                       else (uint_sub (nChainWork from) (nChainWork dest), - 1))
      in bind_sum (GetBlockProof tip) (\<lambda>proof_tip.
         bind_sum (uint_div (uint_mul r (of_uint64 (word_of_int (PowTargetSpacing params (nHeight tip))))) proof_tip)
           (\<lambda>q. Inr (if uint_bits q > 63 then sign * INT64_MAX else sign * uint (GetLow64 q)))))"

section \<open>The active chain\<close>

text \<open>\<open>vChain\<close> is a vector of pointers; \<open>resize\<close> truncates it or appends null pointers.\<close>

type_synonym CChain = "ptr option list"

definition Genesis :: "CChain \<Rightarrow> ptr option" where
  "Genesis vChain = (if length vChain > 0 then vChain ! 0 else None)"

definition Tip :: "CChain \<Rightarrow> ptr option" where
  "Tip vChain = (if length vChain > 0 then vChain ! (length vChain - 1) else None)"

definition chain_at :: "CChain \<Rightarrow> int \<Rightarrow> ptr option" where
  "chain_at vChain h = (if h < 0 \<or> h \<ge> int (length vChain) then None else vChain ! nat h)"

definition Contains :: "BlockMap \<Rightarrow> CChain \<Rightarrow> ptr \<Rightarrow> chain_error + bool" where
  "Contains bm vChain pindex =
     bind_sum (deref bm pindex) (\<lambda>b. Inr (chain_at vChain (nHeight b) = Some pindex))"

definition Next :: "BlockMap \<Rightarrow> CChain \<Rightarrow> ptr \<Rightarrow> chain_error + ptr option" where
  "Next bm vChain pindex =
     bind_sum (Contains bm vChain pindex) (\<lambda>c.
       if c then bind_sum (deref bm pindex) (\<lambda>b. Inr (chain_at vChain (nHeight b + 1))) else Inr None)"

definition Height :: "CChain \<Rightarrow> int" where
  "Height vChain = int (length vChain) - 1"

definition chain_resize :: "nat \<Rightarrow> CChain \<Rightarrow> CChain" where
  "chain_resize n vChain = take n vChain @ replicate (n - length vChain) None"

text \<open>The loops along \<open>pprev\<close> carry fuel; the height of the starting block plus two is enough.\<close>

primrec set_tip_loop :: "nat \<Rightarrow> BlockMap \<Rightarrow> ptr option \<Rightarrow> CChain \<Rightarrow> chain_error + CChain" where
  "set_tip_loop 0 bm pindex vChain = Inl Fuel_exhausted"
| "set_tip_loop (Suc fuel) bm pindex vChain = (case pindex of None \<Rightarrow> Inr vChain
     | Some p \<Rightarrow> bind_sum (deref bm p) (\<lambda>b.
         if nHeight b < 0 \<or> nHeight b \<ge> int (length vChain) then Inl Out_of_range
         else if vChain ! nat (nHeight b) \<noteq> Some p
         then set_tip_loop fuel bm (pprev b) (vChain[nat (nHeight b) := Some p])
         else Inr vChain))"

definition SetTip :: "BlockMap \<Rightarrow> CChain \<Rightarrow> ptr \<Rightarrow> chain_error + CChain" where
  "SetTip bm vChain block = bind_sum (deref bm block) (\<lambda>b.
     set_tip_loop (nat (nHeight b) + 2) bm (Some block) (chain_resize (nat (nHeight b + 1)) vChain))"

primrec find_fork_loop :: "nat \<Rightarrow> BlockMap \<Rightarrow> CChain \<Rightarrow> ptr option \<Rightarrow> chain_error + ptr option" where
  "find_fork_loop 0 bm vChain pindex = Inl Fuel_exhausted"
| "find_fork_loop (Suc fuel) bm vChain pindex = (case pindex of None \<Rightarrow> Inr None
     | Some p \<Rightarrow> bind_sum (Contains bm vChain p) (\<lambda>c.
         if c then Inr (Some p)
         else bind_sum (deref bm p) (\<lambda>b. find_fork_loop fuel bm vChain (pprev b))))"

definition FindFork :: "BlockMap \<Rightarrow> CChain \<Rightarrow> ptr option \<Rightarrow> chain_error + ptr option" where
  "FindFork bm vChain pindex = (case pindex of None \<Rightarrow> Inr None
     | Some p \<Rightarrow> bind_sum (deref bm p) (\<lambda>b.
         bind_sum (if nHeight b > Height vChain then GetAncestor bm p (Height vChain) else Inr (Some p))
           (find_fork_loop (nat (nHeight b) + 2) bm vChain)))"

primrec lca_loop :: "nat \<Rightarrow> BlockMap \<Rightarrow> ptr option \<Rightarrow> ptr option \<Rightarrow> chain_error + ptr option" where
  "lca_loop 0 bm pa pb = Inl Fuel_exhausted"
| "lca_loop (Suc fuel) bm pa pb =
     (case (pa, pb) of
        (Some a, Some b) \<Rightarrow>
          if a \<noteq> b
          then bind_sum (deref bm a) (\<lambda>ba. bind_sum (deref bm b) (\<lambda>bb.
                 lca_loop fuel bm (pprev ba) (pprev bb)))
          else Inr (Some a)
      | (None, None) \<Rightarrow> Inr None
      | _ \<Rightarrow> Inl Assertion_failed)"

definition LastCommonAncestor :: "BlockMap \<Rightarrow> ptr \<Rightarrow> ptr \<Rightarrow> chain_error + ptr option" where
  "LastCommonAncestor bm pa pb =
     bind_sum (deref bm pa) (\<lambda>a. bind_sum (deref bm pb) (\<lambda>b.
       bind_sum (if nHeight a > nHeight b then GetAncestor bm pa (nHeight b) else Inr (Some pa)) (\<lambda>qa.
       bind_sum (if nHeight a > nHeight b then Inr (Some pb)
                 else if nHeight b > nHeight a then GetAncestor bm pb (nHeight a) else Inr (Some pb)) (\<lambda>qb.
         lca_loop (nat (min (nHeight a) (nHeight b)) + 2) bm qa qb))))"

primrec locator_loop ::
    "nat \<Rightarrow> BlockMap \<Rightarrow> CChain \<Rightarrow> ptr option \<Rightarrow> int \<Rightarrow> uint256 list \<Rightarrow> chain_error + uint256 list" where
  "locator_loop 0 bm vChain pindex nStep vHave = Inl Fuel_exhausted"
| "locator_loop (Suc fuel) bm vChain pindex nStep vHave = (case pindex of None \<Rightarrow> Inr vHave
     | Some p \<Rightarrow> bind_sum (deref bm p) (\<lambda>b. bind_sum (GetBlockHash b) (\<lambda>h.
         let vHave' = vHave @ [h]
         in if nHeight b = 0 then Inr vHave'
            else let height = max (nHeight b - nStep) 0
                 in bind_sum (Contains bm vChain p) (\<lambda>c.
                    bind_sum (if c then Inr (chain_at vChain height) else GetAncestor bm p height) (\<lambda>q.
                      locator_loop fuel bm vChain q
                        (if length vHave' > 10 then nStep * 2 else nStep) vHave')))))"

definition GetLocator :: "BlockMap \<Rightarrow> CChain \<Rightarrow> ptr option \<Rightarrow> chain_error + uint256 list" where
  "GetLocator bm vChain pindex =
     (let start = (if pindex = None then Tip vChain else pindex)
      in case start of None \<Rightarrow> Inr []
         | Some p \<Rightarrow> bind_sum (deref bm p) (\<lambda>b.
             locator_loop (nat (nHeight b) + 2) bm vChain start 1 []))"

text \<open>
  \<open>std::lower_bound\<close> halves the range: \<open>first\<close> and \<open>count\<close> are its two variables.
\<close>

function lower_bound :: "('a \<Rightarrow> chain_error + bool) \<Rightarrow> 'a list \<Rightarrow> nat \<Rightarrow> nat \<Rightarrow> chain_error + nat" where
  "lower_bound cmp xs first count =
     (if count > 0
      then let step = count div 2
           in bind_sum (cmp (xs ! (first + step))) (\<lambda>l.
                if l then lower_bound cmp xs (first + step + 1) (count - (step + 1))
                else lower_bound cmp xs first step)
      else Inr first)"
  by pat_completeness auto

termination lower_bound
  by (relation "measure (\<lambda>(cmp, xs, first, count). count)") auto

declare lower_bound.simps [simp del]

definition earlier_than :: "BlockMap \<Rightarrow> int \<Rightarrow> int \<Rightarrow> ptr option \<Rightarrow> chain_error + bool" where
  "earlier_than bm t height pBlock = (case pBlock of None \<Rightarrow> Inl Null_deref
     | Some p \<Rightarrow> bind_sum (deref bm p) (\<lambda>b. Inr (GetBlockTimeMax b < t \<or> nHeight b < height)))"

definition FindEarliestAtLeast :: "BlockMap \<Rightarrow> CChain \<Rightarrow> int \<Rightarrow> int \<Rightarrow> chain_error + ptr option" where
  "FindEarliestAtLeast bm vChain t height =
     bind_sum (lower_bound (earlier_than bm t height) vChain 0 (length vChain))
       (\<lambda>i. Inr (if i = length vChain then None else vChain ! i))"

section \<open>Growing the tree\<close>

record BlockManager =
  m_block_index :: BlockMap
  m_prev_block_index :: "(uint256 \<times> ptr) list"
  m_dirty_blockindex :: "ptr set"
  best_header :: "ptr option"

definition LookupBlockIndex :: "BlockManager \<Rightarrow> uint256 \<Rightarrow> ptr option" where
  "LookupBlockIndex bman hash = (if m_block_index bman hash = None then None else Some hash)"

text \<open>
  The sum of the work below an entry and the running maximum of the times, as \<open>AddToBlockIndex\<close>
  and \<open>LoadBlockIndex\<close> both compute them from the predecessor.
\<close>

definition set_totals :: "BlockMap \<Rightarrow> CBlockIndex \<Rightarrow> chain_error + CBlockIndex" where
  "set_totals bm b =
     bind_sum (case pprev b of None \<Rightarrow> Inr (uint_zero, nTime b)
               | Some p \<Rightarrow> bind_sum (deref bm p) (\<lambda>c. Inr (nChainWork c, max (nTimeMax c) (nTime b))))
       (\<lambda>(work, timeMax). case GetBlockProof b of Inl e \<Rightarrow> Inl (Arith_error e)
          | Inr pow \<Rightarrow> Inr (b\<lparr>nTimeMax := timeMax, nChainWork := uint_add work pow\<rparr>))"

definition link_header :: "BlockMap \<Rightarrow> CBlockHeader \<Rightarrow> uint256 \<Rightarrow> chain_error + CBlockIndex" where
  "link_header bm block hash =
     (let b0 = (new_CBlockIndex block)\<lparr>nSequenceId := 0, phashBlock := Some hash\<rparr>
      in case (bm(hash \<mapsto> b0)) (hashPrevBlock block) of None \<Rightarrow> Inr b0
         | Some c \<Rightarrow> let b1 = b0\<lparr>pprev := Some (hashPrevBlock block), nHeight := nHeight c + 1\<rparr>
                     in BuildSkip (bm(hash \<mapsto> b1)) b1)"

definition raise_new ::
    "BlockMap \<Rightarrow> uint256 \<Rightarrow> u32 \<Rightarrow> ptr option \<Rightarrow> CBlockIndex \<Rightarrow> chain_error + (CBlockIndex \<times> ptr option)" where
  "raise_new bm hash status best b =
     (if status AND BLOCK_VALID_MASK \<noteq> 0
      then bind_sum (RaiseValidity status b) (\<lambda>(_, b1).
             case best of None \<Rightarrow> Inr (b1, Some hash)
             | Some p \<Rightarrow> bind_sum (deref (bm(hash \<mapsto> b1)) p) (\<lambda>h.
                 Inr (b1, if CompareTo (nChainWork h) (nChainWork b1) < 0 then Some hash else best)))
      else bind_sum (RaiseValidity BLOCK_VALID_TREE b) (\<lambda>(_, b1).
             Inr (b1\<lparr>nStatus := nStatus b1 OR status\<rparr>, best)))"

definition track_prev ::
    "BlockMap \<Rightarrow> uint256 \<Rightarrow> CBlockIndex \<Rightarrow> (uint256 \<times> ptr) list \<Rightarrow> chain_error + (uint256 \<times> ptr) list" where
  "track_prev bm hash b prevs = (case pprev b of None \<Rightarrow> Inr prevs
     | Some p \<Rightarrow> bind_sum (deref bm p) (\<lambda>c. bind_sum (GetBlockHash c) (\<lambda>h. Inr (prevs @ [(h, hash)]))))"

definition AddToBlockIndex ::
    "CBlockHeader \<Rightarrow> uint256 \<Rightarrow> u32 \<Rightarrow> BlockManager \<Rightarrow> chain_error + (ptr \<times> BlockManager)" where
  "AddToBlockIndex block hash status bman =
     (let bm = m_block_index bman
      in if status AND BLOCK_FAILED_MASK \<noteq> 0 then Inl Assertion_failed
         else if bm hash \<noteq> None then Inr (hash, bman)
         else bind_sum (link_header bm block hash) (\<lambda>b2.
              bind_sum (set_totals (bm(hash \<mapsto> b2)) b2) (\<lambda>b3.
              bind_sum (raise_new bm hash status (best_header bman) b3) (\<lambda>(b5, best).
              bind_sum (track_prev (bm(hash \<mapsto> b5)) hash b5 (m_prev_block_index bman)) (\<lambda>prevs.
                Inr (hash, bman\<lparr>m_block_index := bm(hash \<mapsto> b5), m_prev_block_index := prevs,
                       m_dirty_blockindex := insert hash (m_dirty_blockindex bman),
                       best_header := best\<rparr>))))))"

text \<open>
  The order of block candidates. Addresses of equal-work entries with equal sequence numbers are
  compared as pointers; the address of an entry is the parameter \<open>addr\<close>.
\<close>

definition CBlockIndexWorkComparator ::
    "(ptr \<Rightarrow> nat) \<Rightarrow> (ptr \<times> CBlockIndex) \<Rightarrow> (ptr \<times> CBlockIndex) \<Rightarrow> bool" where
  "CBlockIndexWorkComparator addr x y =
     (let (pa, a) = x; (pb, b) = y
      in if CompareTo (nChainWork a) (nChainWork b) > 0 then False
         else if CompareTo (nChainWork a) (nChainWork b) < 0 then True
         else if nSequenceId a < nSequenceId b then False
         else if nSequenceId a > nSequenceId b then True
         else if addr pa < addr pb then False
         else if addr pa > addr pb then True
         else False)"

definition CBlockIndexHeightOnlyComparator :: "CBlockIndex \<Rightarrow> CBlockIndex \<Rightarrow> bool" where
  "CBlockIndexHeightOnlyComparator a b \<longleftrightarrow> nHeight a < nHeight b"

section \<open>Specification\<close>

primrec prev_iter :: "BlockMap \<Rightarrow> nat \<Rightarrow> ptr \<Rightarrow> ptr option" where
  "prev_iter bm 0 p = Some p"
| "prev_iter bm (Suc n) p = (case bm p of None \<Rightarrow> None
     | Some b \<Rightarrow> (case pprev b of None \<Rightarrow> None | Some q \<Rightarrow> prev_iter bm n q))"

definition height_of :: "BlockMap \<Rightarrow> ptr \<Rightarrow> int option" where
  "height_of bm p = map_option nHeight (bm p)"

definition ancestor_at :: "BlockMap \<Rightarrow> ptr \<Rightarrow> int \<Rightarrow> ptr option" where
  "ancestor_at bm p h = (case bm p of None \<Rightarrow> None
     | Some b \<Rightarrow> if h < 0 \<or> nHeight b < h then None else prev_iter bm (nat (nHeight b - h)) p)"

definition bits_proof :: "u32 \<Rightarrow> nat" where
  "bits_proof c = (let (t, neg, ovf) = SetCompact c
     in if neg \<or> ovf \<or> uval t = 0 then 0 else 2 ^ 256 div (uval t + 1))"

abbreviation block_proof :: "CBlockIndex \<Rightarrow> nat" where
  "block_proof b \<equiv> bits_proof (nBits b)"

definition linked :: "BlockMap \<Rightarrow> bool" where
  "linked bm \<longleftrightarrow> (\<forall>p b. bm p = Some b \<longrightarrow> phashBlock b = Some p \<and> 0 \<le> nHeight b \<and>
     (case pprev b of None \<Rightarrow> nHeight b = 0
      | Some q \<Rightarrow> height_of bm q = Some (nHeight b - 1)))"

definition skips_ok :: "BlockMap \<Rightarrow> bool" where
  "skips_ok bm \<longleftrightarrow> (\<forall>p b q. bm p = Some b \<longrightarrow> pskip b = Some q \<longrightarrow>
     ancestor_at bm p (GetSkipHeight (nHeight b)) = Some q)"

definition totals_ok :: "BlockMap \<Rightarrow> bool" where
  "totals_ok bm \<longleftrightarrow> (\<forall>p b. bm p = Some b \<longrightarrow> limbs (nChainWork b) \<and>
     (case pprev b of
        None \<Rightarrow> uval (nChainWork b) = block_proof b mod 2 ^ 256 \<and> nTimeMax b = nTime b
      | Some q \<Rightarrow> (case bm q of None \<Rightarrow> False
          | Some c \<Rightarrow> uval (nChainWork b) = (uval (nChainWork c) + block_proof b) mod 2 ^ 256 \<and>
                      nTimeMax b = max (nTimeMax c) (nTime b))))"

definition index_ok :: "BlockMap \<Rightarrow> bool" where
  "index_ok bm \<longleftrightarrow> linked bm \<and> skips_ok bm \<and> totals_ok bm"

text \<open>
  What the users of a header tree rely on: every block has one ancestor at each height up to its
  own, and ancestors compose.
\<close>

locale ancestry =
  fixes ok :: "'s \<Rightarrow> bool"
    and height :: "'s \<Rightarrow> 'p \<Rightarrow> int option"
    and anc :: "'s \<Rightarrow> 'p \<Rightarrow> int \<Rightarrow> 'p option"
  assumes height_nonneg: "ok s \<Longrightarrow> height s p = Some h \<Longrightarrow> 0 \<le> h"
    and anc_self: "ok s \<Longrightarrow> height s p = Some h \<Longrightarrow> anc s p h = Some p"
    and anc_height: "ok s \<Longrightarrow> height s p = Some h \<Longrightarrow> 0 \<le> k \<Longrightarrow> k \<le> h \<Longrightarrow>
                     \<exists>q. anc s p k = Some q \<and> height s q = Some k"
    and anc_trans: "ok s \<Longrightarrow> anc s p k = Some q \<Longrightarrow> 0 \<le> j \<Longrightarrow> j \<le> k \<Longrightarrow> anc s q j = anc s p j"
    and anc_range: "anc s p k = Some q \<Longrightarrow> 0 \<le> k \<and> (\<exists>h\<ge>k. height s p = Some h)"
begin

lemma anc_height_eq: "ok s \<Longrightarrow> anc s p k = Some q \<Longrightarrow> height s q = Some k"
  using anc_range [of s p k q] anc_height [of s p _ k] by fastforce

lemma agree_below:
  assumes "ok s" "anc s p k = Some r" "anc s q k = Some r" "0 \<le> j" "j \<le> k"
  shows "anc s p j = anc s q j"
  using anc_trans [OF assms(1,2,4,5)] anc_trans [OF assms(1,3,4,5)] by simp

lemma differ_above:
  assumes "ok s" "anc s p j \<noteq> anc s q j" "0 \<le> j" "j \<le> k" "anc s p k = Some r"
  shows "anc s q k \<noteq> Some r"
  using agree_below [OF assms(1,5) _ assms(3,4)] assms(2) by blast

lemma anc_at_own_height:
  assumes "ok s" "anc s p k = Some q" "height s p = Some k"
  shows "q = p"
  using anc_self [OF assms(1,3)] assms(2) by simp

end

lemma prev_iter_add:
  "prev_iter bm (m + n) p = (case prev_iter bm m p of None \<Rightarrow> None | Some q \<Rightarrow> prev_iter bm n q)"
  by (induction m arbitrary: p) (auto split: option.splits)

lemma linkedD:
  assumes "linked bm" "bm p = Some b"
  shows "phashBlock b = Some p" "0 \<le> nHeight b" "pprev b = None \<Longrightarrow> nHeight b = 0"
    and "pprev b = Some q \<Longrightarrow> \<exists>c. bm q = Some c \<and> nHeight c = nHeight b - 1"
  using assms unfolding linked_def height_of_def by (fastforce split: option.splits)+

lemma linked_prev_exists:
  assumes "linked bm" "bm p = Some b" "0 < nHeight b"
  obtains q c where "pprev b = Some q" "bm q = Some c" "nHeight c = nHeight b - 1"
  using linkedD [OF assms(1,2)] assms(3) by (cases "pprev b") auto

lemma prev_iter_linked:
  assumes "linked bm" "bm p = Some b" "int n \<le> nHeight b"
  shows "\<exists>q c. prev_iter bm n p = Some q \<and> bm q = Some c \<and> nHeight c = nHeight b - int n"
  using assms(2,3)
proof (induction n arbitrary: p b)
  case (Suc n)
  then have "0 < nHeight b" by simp
  then obtain q c where "pprev b = Some q" "bm q = Some c" "nHeight c = nHeight b - 1"
    by (rule linked_prev_exists [OF assms(1) Suc.prems(1)])
  with Suc show ?case by fastforce
qed simp

lemma ancestor_at_exists:
  assumes "linked bm" "bm p = Some b" "0 \<le> k" "k \<le> nHeight b"
  shows "\<exists>q c. ancestor_at bm p k = Some q \<and> bm q = Some c \<and> nHeight c = k"
  using prev_iter_linked [OF assms(1,2), of "nat (nHeight b - k)"] assms(3,4)
  by (auto simp: ancestor_at_def assms(2))

lemma ancestor_at_SomeD:
  assumes "ancestor_at bm p k = Some q"
  obtains b where "bm p = Some b" "0 \<le> k" "k \<le> nHeight b" "prev_iter bm (nat (nHeight b - k)) p = Some q"
  using assms by (auto simp: ancestor_at_def split: option.splits if_splits)

interpretation tree: ancestry linked height_of ancestor_at
proof (unfold_locales, goal_cases)
  case (1 s p h)
  then show ?case by (auto simp: height_of_def dest: linkedD(2))
next
  case (2 s p h)
  then show ?case by (auto simp: height_of_def ancestor_at_def dest: linkedD(2))
next
  case (3 s p h k)
  then show ?case using ancestor_at_exists [of s p] by (fastforce simp: height_of_def)
next
  case (4 s p k q j)
  then obtain b where b: "s p = Some b" "k \<le> nHeight b" "prev_iter s (nat (nHeight b - k)) p = Some q"
    by (auto elim: ancestor_at_SomeD)
  obtain c where c: "s q = Some c" "nHeight c = k"
    using prev_iter_linked [OF 4(1) b(1), of "nat (nHeight b - k)"] b 4(3,4) by auto
  have "nat (nHeight b - j) = nat (nHeight b - k) + nat (k - j)"
    using b(2) 4(3,4) by simp
  then show ?case
    using b c 4(3,4) by (simp add: ancestor_at_def prev_iter_add)
next
  case (5 s p k q)
  then show ?case by (elim ancestor_at_SomeD) (auto simp: height_of_def)
qed

section \<open>The skip list finds the ancestor\<close>

lemma ancestor_at_self: "linked bm \<Longrightarrow> bm p = Some b \<Longrightarrow> ancestor_at bm p (nHeight b) = Some p"
  by (auto simp: ancestor_at_def dest: linkedD(2))

lemma ancestor_at_prev:
  assumes "linked bm" "bm p = Some b" "pprev b = Some q" "h < nHeight b"
  shows "ancestor_at bm p h = ancestor_at bm q h"
proof -
  obtain c where c: "bm q = Some c" "nHeight c = nHeight b - 1"
    using linkedD(4) [OF assms(1-3)] by auto
  show ?thesis
  proof (cases "h < 0")
    case False
    then have "nat (nHeight b - h) = Suc (nat (nHeight c - h))" using assms(4) c by simp
    then show ?thesis using assms c False by (simp add: ancestor_at_def)
  qed (simp add: ancestor_at_def assms c)
qed

lemma ancestor_loop_correct:
  assumes "linked bm" "skips_ok bm" "bm p = Some b" "int h \<le> nHeight b"
  shows "\<exists>q. ancestor_loop bm h p (nHeight b) = Inr q \<and> ancestor_at bm p (int h) = Some q"
  using assms(3,4)
proof (induction "nat (nHeight b)" arbitrary: p b rule: less_induct)
  case less
  show ?case
  proof (cases "int h < nHeight b")
    case False
    then show ?thesis
      using less.prems ancestor_at_self [OF assms(1) less.prems(1)]
      by (subst ancestor_loop.simps) auto
  next
    case True
    then have pos: "0 < nHeight b" by simp
    obtain q c where q: "pprev b = Some q" "bm q = Some c" "nHeight c = nHeight b - 1"
      by (rule linked_prev_exists [OF assms(1) less.prems(1) pos])
    have step: "\<exists>r. ancestor_loop bm h q (nHeight b - 1) = Inr r \<and> ancestor_at bm p (int h) = Some r"
      using less.hyps [OF _ q(2)] True q pos ancestor_at_prev [OF assms(1) less.prems(1) q(1) True] by simp
    have skip: "\<exists>r. ancestor_loop bm h s (GetSkipHeight (nHeight b)) = Inr r \<and>
                    ancestor_at bm p (int h) = Some r"
      if s: "pskip b = Some s" "int h \<le> GetSkipHeight (nHeight b)" for s
    proof -
      have a: "ancestor_at bm p (GetSkipHeight (nHeight b)) = Some s"
        using assms(2) less.prems(1) s(1) by (simp add: skips_ok_def)
      obtain d where d: "bm s = Some d" "nHeight d = GetSkipHeight (nHeight b)"
        using tree.anc_height_eq [OF assms(1) a] by (auto simp: height_of_def)
      show ?thesis
        using less.hyps [OF _ d(1)] d s(2) pos GetSkipHeight_less [of "nHeight b"]
          tree.anc_trans [OF assms(1) a _ s(2)] by simp
    qed
    show ?thesis
      by (subst ancestor_loop.simps)
         (use True less.prems(1) q(1) step skip in \<open>auto simp: deref_def Let_def split: option.splits\<close>)
  qed
qed

lemma GetAncestor_correct:
  assumes "linked bm" "skips_ok bm" "bm p = Some b"
  shows "GetAncestor bm p h = Inr (ancestor_at bm p h)"
proof (cases "h < 0 \<or> nHeight b < h")
  case False
  then show ?thesis
    using ancestor_loop_correct [OF assms, of "nat h"] by (auto simp: GetAncestor_def deref_def assms(3))
qed (auto simp: GetAncestor_def ancestor_at_def deref_def assms(3))

section \<open>Proof of work of an entry is the expected number of hashes\<close>

lemma SetCompact_value:
  "fst (SetCompact c) = (let s = unat (drop_bit 24 c);
       w = (if s \<le> 3 then drop_bit (8 * (3 - s)) (c AND 0x007fffff) else c AND 0x007fffff)
     in if s \<le> 3 then of_uint64 (ucast w) else uint_shl (of_uint64 (ucast w)) (8 * (s - 3)))"
  by (simp add: SetCompact_def Let_def)

lemma limbs_SetCompact [simp]: "limbs (fst (SetCompact c))"
  by (simp add: SetCompact_value Let_def)

lemma even_mod_256: "even (x :: nat) \<Longrightarrow> even (x mod 2 ^ 256)"
  by (rule dvd_mod) simp_all

lemma SetCompact_not_max: "uval (fst (SetCompact c)) + 1 < 2 ^ 256"
proof (cases "unat (drop_bit 24 c) \<le> 3")
  case True
  show ?thesis
    using True by (simp add: SetCompact_value Let_def uval_of_uint64) (rule less_trans [OF unat_lt_32], simp)
next
  case False
  let ?n = "8 * (unat (drop_bit 24 c) - 3)"
  have v: "uval (fst (SetCompact c)) = (unat (c AND 0x007fffff) * 2 ^ ?n) mod 2 ^ 256"
    using False by (simp add: SetCompact_value Let_def uval_uint_shl uval_of_uint64 WIDTH_def)
  have "even (unat (c AND 0x007fffff) * 2 ^ ?n)" using False by simp
  then have "even (uval (fst (SetCompact c)))" unfolding v by (rule even_mod_256)
  moreover have "uval (fst (SetCompact c)) < 2 ^ 256" by (intro limbs_mod) simp
  moreover have "odd ((2::nat) ^ 256 - 1)" by simp
  ultimately show ?thesis by (metis Suc_eq_plus1 Suc_lessI diff_Suc_1)
qed

lemma proof_quotient:
  fixes t m :: nat
  assumes "t < m"
  shows "(m - 1 - t) div (t + 1) + 1 = m div (t + 1)"
proof -
  have "m = (m - 1 - t) + (t + 1)" using assms by simp
  then show ?thesis by (metis Suc_eq_plus1 add_eq_0_iff_both_eq_0 div_add_self2 zero_neq_one)
qed

lemma GetBlockProof_correct:
  "\<exists>w. GetBlockProof b = Inr w \<and> limbs w \<and> uval w = block_proof b"
proof -
  obtain t neg ovf where t: "SetCompact (nBits b) = (t, neg, ovf)" by (metis prod_cases3)
  have lt: "limbs t" and max: "uval t + 1 < 2 ^ 256"
    using limbs_SetCompact [of "nBits b"] SetCompact_not_max [of "nBits b"] by (simp_all add: t)
  show ?thesis
  proof (cases "neg \<or> ovf \<or> uval t = 0")
    case True
    then have "neg \<or> ovf \<or> EqualTo t 0" using lt by (auto simp: EqualTo_uval)
    then show ?thesis using True by (auto simp: GetBlockProof_def bits_proof_def t uval_of_uint64)
  next
    case False
    have one: "uval (uint_add t (of_uint64 1)) = uval t + 1"
      using max lt by (simp add: limb_simps WIDTH_def)
    obtain q where q: "uint_div (uint_not t) (uint_add t (of_uint64 1)) = Inr q" "limbs q"
      "uval q = (2 ^ 256 - 1 - uval t) div (uval t + 1)"
      using uint_div_spec [of "uint_not t" "uint_add t (of_uint64 1)"] lt one
      by (auto simp: uval_uint_not WIDTH_def)
    have quot: "uval q + 1 = 2 ^ 256 div (uval t + 1)"
      unfolding q(3) using max by (intro proof_quotient) simp
    have "(2::nat) ^ 256 div (uval t + 1) < 2 ^ 256"
      using False by (intro div_less_dividend) auto
    then have "uval (uint_add q (of_uint64 1)) = 2 ^ 256 div (uval t + 1)"
      using q(2) quot by (simp add: limb_simps WIDTH_def)
    then show ?thesis
      using False q lt by (auto simp: GetBlockProof_def bits_proof_def t EqualTo_uval)
  qed
qed

lemma block_proof_bound: "block_proof b < 2 ^ 256"
proof -
  obtain w where "limbs w" "uval w = block_proof b" using GetBlockProof_correct [of b] by blast
  then show ?thesis using limbs_mod [of w] by simp
qed

section \<open>Adding a header keeps the tree well formed\<close>

lemma prev_iter_extend:
  assumes "linked bm" "bm hash = None" "bm p \<noteq> None"
  shows "prev_iter (bm(hash \<mapsto> x)) n p = prev_iter bm n p"
  using assms(3)
proof (induction n arbitrary: p)
  case (Suc n)
  then obtain b where b: "bm p = Some b" by auto
  then have "p \<noteq> hash" using assms(2) by auto
  then show ?case
    using b Suc.IH linkedD(4) [OF assms(1) b] by (cases "pprev b") auto
qed simp

lemma ancestor_at_extend:
  assumes "linked bm" "bm hash = None" "bm p \<noteq> None"
  shows "ancestor_at (bm(hash \<mapsto> x)) p h = ancestor_at bm p h"
proof -
  obtain b where b: "bm p = Some b" using assms(3) by auto
  then have "p \<noteq> hash" using assms(2) by auto
  then show ?thesis
    by (simp add: ancestor_at_def b prev_iter_extend [OF assms])
qed

lemma linked_extend:
  assumes "linked bm" "bm hash = None" "phashBlock b = Some hash"
    and "case pprev b of None \<Rightarrow> nHeight b = 0
         | Some q \<Rightarrow> (\<exists>c. bm q = Some c \<and> nHeight b = nHeight c + 1)"
  shows "linked (bm(hash \<mapsto> b))"
  unfolding linked_def
proof (intro allI impI)
  fix p c assume c: "(bm(hash \<mapsto> b)) p = Some c"
  show "phashBlock c = Some p \<and> 0 \<le> nHeight c \<and>
    (case pprev c of None \<Rightarrow> nHeight c = 0
     | Some q \<Rightarrow> height_of (bm(hash \<mapsto> b)) q = Some (nHeight c - 1))"
  proof (cases "p = hash")
    case True
    then show ?thesis
      using c assms by (auto simp: height_of_def split: option.splits dest: linkedD(2))
  next
    case False
    then show ?thesis
      using c assms(2) linkedD [OF assms(1), of p c]
      by (auto simp: height_of_def split: option.splits)
  qed
qed

lemma skips_extend:
  assumes "linked bm" "skips_ok bm" "bm hash = None" "linked (bm(hash \<mapsto> b))"
    and "\<And>q. pprev b = Some q \<Longrightarrow> pskip b = ancestor_at bm q (GetSkipHeight (nHeight b))"
    and "pprev b = None \<Longrightarrow> pskip b = None"
  shows "skips_ok (bm(hash \<mapsto> b))"
  unfolding skips_ok_def
proof (intro allI impI)
  fix p c s assume c: "(bm(hash \<mapsto> b)) p = Some c" and s: "pskip c = Some s"
  show "ancestor_at (bm(hash \<mapsto> b)) p (GetSkipHeight (nHeight c)) = Some s"
  proof (cases "p = hash")
    case False
    then show ?thesis
      using c s assms(2) ancestor_at_extend [OF assms(1,3)] by (auto simp: skips_ok_def)
  next
    case True
    then have cb: "c = b" using c by simp
    then obtain q where q: "pprev b = Some q" using s assms(6) by (cases "pprev b") auto
    then obtain d where d: "(bm(hash \<mapsto> b)) q = Some d" "nHeight d = nHeight b - 1"
      using linkedD(4) [OF assms(4), of hash b q] by auto
    have dq: "bm q \<noteq> None" using assms(5) [OF q] s cb by (auto simp: ancestor_at_def split: option.splits)
    have "0 \<le> nHeight d" using linkedD(2) [OF assms(4) d(1)] .
    then have "GetSkipHeight (nHeight b) < nHeight b"
      using d(2) GetSkipHeight_less [of "nHeight b"] by simp
    then show ?thesis
      using ancestor_at_prev [OF assms(4), of hash b q] q assms(5) [OF q] s cb True
        ancestor_at_extend [OF assms(1,3) dq] by simp
  qed
qed

definition total_of :: "BlockMap \<Rightarrow> CBlockIndex \<Rightarrow> bool" where
  "total_of bm b \<longleftrightarrow> limbs (nChainWork b) \<and>
     (case pprev b of
        None \<Rightarrow> uval (nChainWork b) = block_proof b mod 2 ^ 256 \<and> nTimeMax b = nTime b
      | Some q \<Rightarrow> (case bm q of None \<Rightarrow> False
          | Some c \<Rightarrow> uval (nChainWork b) = (uval (nChainWork c) + block_proof b) mod 2 ^ 256 \<and>
                      nTimeMax b = max (nTimeMax c) (nTime b)))"

lemma totals_ok_total_of: "totals_ok bm \<longleftrightarrow> (\<forall>p b. bm p = Some b \<longrightarrow> total_of bm b)"
  by (simp add: totals_ok_def total_of_def)

lemma totals_extend:
  assumes "totals_ok bm" "bm hash = None" "total_of bm b"
  shows "totals_ok (bm(hash \<mapsto> b))"
proof -
  have "total_of (bm(hash \<mapsto> b)) c" if c: "total_of bm c" for c
  proof (cases "pprev c")
    case (Some q)
    then have "bm q \<noteq> None" using c by (cases "bm q") (simp_all add: total_of_def)
    then have "q \<noteq> hash" using assms(2) by auto
    then show ?thesis using c Some by (simp add: total_of_def)
  qed (use c in \<open>simp add: total_of_def\<close>)
  then show ?thesis using assms by (auto simp: totals_ok_total_of)
qed

lemma index_ok_extend:
  assumes "index_ok bm" "bm hash = None" "phashBlock b = Some hash"
    and "case pprev b of None \<Rightarrow> nHeight b = 0 \<and> pskip b = None
         | Some q \<Rightarrow> (\<exists>c. bm q = Some c \<and> nHeight b = nHeight c + 1) \<and>
                      pskip b = ancestor_at bm q (GetSkipHeight (nHeight b))"
    and "total_of bm b"
  shows "index_ok (bm(hash \<mapsto> b))"
proof -
  have ok: "linked bm" "skips_ok bm" "totals_ok bm" using assms(1) by (simp_all add: index_ok_def)
  have l: "linked (bm(hash \<mapsto> b))"
    using assms(4) by (intro linked_extend [OF ok(1) assms(2,3)]) (cases "pprev b"; simp)
  moreover have "skips_ok (bm(hash \<mapsto> b))"
    using assms(4) by (intro skips_extend [OF ok(1,2) assms(2) l]) (cases "pprev b"; simp)+
  moreover have "totals_ok (bm(hash \<mapsto> b))"
    by (rule totals_extend [OF ok(3) assms(2,5)])
  ultimately show ?thesis by (simp add: index_ok_def)
qed

definition manager_ok :: "BlockManager \<Rightarrow> bool" where
  "manager_ok bman \<longleftrightarrow> index_ok (m_block_index bman) \<and>
     (case best_header bman of None \<Rightarrow> True | Some p \<Rightarrow> m_block_index bman p \<noteq> None)"

lemma set_totals_total_of:
  assumes "case pprev b of None \<Rightarrow> True | Some q \<Rightarrow> (\<exists>c. bm q = Some c \<and> limbs (nChainWork c))"
  shows "\<exists>w m. set_totals bm b = Inr (b\<lparr>nTimeMax := m, nChainWork := w\<rparr>) \<and>
               total_of bm (b\<lparr>nTimeMax := m, nChainWork := w\<rparr>)"
proof -
  obtain w where w: "GetBlockProof b = Inr w" "limbs w" "uval w = block_proof b"
    using GetBlockProof_correct [of b] by blast
  show ?thesis
  proof (cases "pprev b")
    case None
    have "set_totals bm b = Inr (b\<lparr>nTimeMax := nTime b, nChainWork := uint_add uint_zero w\<rparr>)"
      using w(1) None by (simp add: set_totals_def)
    moreover have "total_of bm (b\<lparr>nTimeMax := nTime b, nChainWork := uint_add uint_zero w\<rparr>)"
      unfolding total_of_def using w(2,3) None by (simp add: uval_uint_add WIDTH_def)
    ultimately show ?thesis by blast
  next
    case (Some q)
    then obtain c where c: "bm q = Some c" "limbs (nChainWork c)" using assms by auto
    let ?b = "b\<lparr>nTimeMax := max (nTimeMax c) (nTime b), nChainWork := uint_add (nChainWork c) w\<rparr>"
    have "set_totals bm b = Inr ?b"
      using w(1) Some c by (simp add: set_totals_def deref_def)
    moreover have "total_of bm ?b"
      unfolding total_of_def using w(2,3) Some c by (simp add: uval_uint_add WIDTH_def)
    ultimately show ?thesis by blast
  qed
qed

lemma RaiseValidity_frame:
  assumes "RaiseValidity s b = Inr (c, b')"
  shows "\<exists>st. b' = b\<lparr>nStatus := st\<rparr>"
proof -
  have "\<exists>st. b = b\<lparr>nStatus := st\<rparr>" by (rule exI [of _ "nStatus b"]) simp
  with assms show ?thesis by (auto simp: RaiseValidity_def Let_def split: if_splits)
qed

lemma RaiseValidity_total:
  "s AND NOT BLOCK_VALID_MASK = 0 \<Longrightarrow> \<exists>c b'. RaiseValidity s b = Inr (c, b')"
  by (auto simp: RaiseValidity_def Let_def)

lemma raise_new_spec:
  assumes "status AND BLOCK_VALID_MASK = 0 \<or> status AND NOT BLOCK_VALID_MASK = 0"
    and "case best of None \<Rightarrow> True | Some p \<Rightarrow> bm p \<noteq> None"
  shows "\<exists>st best'. raise_new bm hash status best b = Inr (b\<lparr>nStatus := st\<rparr>, best') \<and>
           (best' = best \<or> best' = Some hash)"
proof -
  have "(if status AND BLOCK_VALID_MASK \<noteq> 0 then status else BLOCK_VALID_TREE) AND NOT BLOCK_VALID_MASK = 0"
    using assms(1) by (auto simp: block_status_defs)
  then obtain c st where rv: "RaiseValidity (if status AND BLOCK_VALID_MASK \<noteq> 0 then status else BLOCK_VALID_TREE) b
                      = Inr (c, b\<lparr>nStatus := st\<rparr>)"
    using RaiseValidity_total [of _ b] RaiseValidity_frame by blast
  show ?thesis
  proof (cases "status AND BLOCK_VALID_MASK = 0")
    case True
    with rv show ?thesis by (simp add: raise_new_def) blast
  next
    case False
    show ?thesis
    proof (cases best)
      case None
      with rv False show ?thesis by (auto simp: raise_new_def)
    next
      case (Some p)
      then obtain h where h: "(bm(hash \<mapsto> b\<lparr>nStatus := st\<rparr>)) p = Some h" using assms(2) by (cases "p = hash") auto
      have "raise_new bm hash status best b =
          Inr (b\<lparr>nStatus := st\<rparr>, if CompareTo (nChainWork h) (nChainWork b) < 0 then Some hash else best)"
        using rv False h Some by (simp add: raise_new_def deref_def del: fun_upd_apply)
      then show ?thesis by (cases "CompareTo (nChainWork h) (nChainWork b) < 0") auto
    qed
  qed
qed

lemma total_of_status [simp]: "total_of bm (b\<lparr>nStatus := st\<rparr>) = total_of bm b"
  by (cases "pprev b") (simp_all add: total_of_def split: option.splits)

lemma total_of_extend:
  assumes "total_of (bm(hash \<mapsto> x)) b" "pprev b \<noteq> Some hash"
  shows "total_of bm b"
  using assms by (cases "pprev b") (simp_all add: total_of_def)

text \<open>The entry a new header gets, up to the totals and the status.\<close>

definition header_entry :: "BlockMap \<Rightarrow> CBlockHeader \<Rightarrow> uint256 \<Rightarrow> CBlockIndex" where
  "header_entry bm block hash =
     (case bm (hashPrevBlock block) of
        None \<Rightarrow> (new_CBlockIndex block)\<lparr>nSequenceId := 0, phashBlock := Some hash\<rparr>
      | Some c \<Rightarrow> (new_CBlockIndex block)\<lparr>nSequenceId := 0, phashBlock := Some hash,
          pprev := Some (hashPrevBlock block), nHeight := nHeight c + 1,
          pskip := ancestor_at bm (hashPrevBlock block) (GetSkipHeight (nHeight c + 1))\<rparr>)"

lemma index_ok_parts: "index_ok bm \<Longrightarrow> linked bm" "index_ok bm \<Longrightarrow> skips_ok bm" "index_ok bm \<Longrightarrow> totals_ok bm"
  by (simp_all add: index_ok_def)

lemma index_ok_limbs: "index_ok bm \<Longrightarrow> bm p = Some b \<Longrightarrow> limbs (nChainWork b)"
  by (auto simp: index_ok_def totals_ok_def)

lemma GetAncestor_extend:
  assumes "index_ok bm" "bm hash = None" "bm p \<noteq> None" "linked (bm(hash \<mapsto> b))" "pskip b = None"
  shows "GetAncestor (bm(hash \<mapsto> b)) p h = Inr (ancestor_at bm p h)"
proof -
  have "skips_ok (bm(hash \<mapsto> b))"
    using assms ancestor_at_extend [OF index_ok_parts(1) [OF assms(1)] assms(2)]
    by (auto simp: skips_ok_def index_ok_def)
  moreover obtain c where "(bm(hash \<mapsto> b)) p = Some c" using assms(3) by (cases "p = hash") auto
  ultimately show ?thesis
    using GetAncestor_correct [OF assms(4)] ancestor_at_extend [OF index_ok_parts(1) [OF assms(1)] assms(2,3)]
    by simp
qed

lemma linking_header:
  assumes "index_ok bm" "bm hash = None" "hashPrevBlock block \<noteq> hash"
  shows "link_header bm block hash = Inr (header_entry bm block hash)"
proof (cases "bm (hashPrevBlock block)")
  case None
  then show ?thesis using assms(3) by (simp add: link_header_def header_entry_def)
next
  case (Some c)
  let ?b1 = "(new_CBlockIndex block)\<lparr>nSequenceId := 0, phashBlock := Some hash,
               pprev := Some (hashPrevBlock block), nHeight := nHeight c + 1\<rparr>"
  have "linked (bm(hash \<mapsto> ?b1))"
    using Some by (intro linked_extend [OF index_ok_parts(1) [OF assms(1)] assms(2)]) simp_all
  then have "GetAncestor (bm(hash \<mapsto> ?b1)) (hashPrevBlock block) h =
             Inr (ancestor_at bm (hashPrevBlock block) h)" for h
    using Some by (intro GetAncestor_extend [OF assms(1,2)]) (simp_all add: new_CBlockIndex_def)
  then show ?thesis using assms(3) Some by (simp add: link_header_def header_entry_def BuildSkip_def)
qed

lemma header_entry_links:
  shows "phashBlock (header_entry bm block hash) = Some hash"
    and "case pprev (header_entry bm block hash) of
           None \<Rightarrow> nHeight (header_entry bm block hash) = 0 \<and> pskip (header_entry bm block hash) = None
         | Some q \<Rightarrow> (\<exists>c. bm q = Some c \<and> nHeight (header_entry bm block hash) = nHeight c + 1) \<and>
              pskip (header_entry bm block hash) =
                ancestor_at bm q (GetSkipHeight (nHeight (header_entry bm block hash)))"
    and "bm hash = None \<Longrightarrow> pprev (header_entry bm block hash) \<noteq> Some hash"
  by (auto simp: header_entry_def new_CBlockIndex_def split: option.splits)

lemma header_entry_bits: "nBits (header_entry bm block hash) = hdr_nBits block"
  by (simp add: header_entry_def new_CBlockIndex_def split: option.splits)

text \<open>
  A new header is linked under its predecessor with the skip pointer, the work and the maximal
  time the tree prescribes; entries already present stay as they are.
\<close>

text \<open>The entry a header must get: its own fields, the link to the entry of its predecessor if there is one, and the skip pointer.\<close>

definition entry_of :: "BlockMap \<Rightarrow> CBlockHeader \<Rightarrow> uint256 \<Rightarrow> CBlockIndex \<Rightarrow> bool" where
  "entry_of bm block hash b \<longleftrightarrow>
     phashBlock b = Some hash \<and> nVersion b = hdr_nVersion block \<and> hashMerkleRoot b = hdr_hashMerkleRoot block
     \<and> nTime b = hdr_nTime block \<and> nBits b = hdr_nBits block \<and> nNonce b = hdr_nNonce block
     \<and> (case bm (hashPrevBlock block) of
          None \<Rightarrow> pprev b = None \<and> nHeight b = 0 \<and> pskip b = None
        | Some c \<Rightarrow> pprev b = Some (hashPrevBlock block) \<and> nHeight b = nHeight c + 1
            \<and> pskip b = ancestor_at bm (hashPrevBlock block) (GetSkipHeight (nHeight b)) \<and> pskip b \<noteq> None)"

lemma entry_of_header_entry:
  assumes "linked bm"
  shows "entry_of bm block hash ((header_entry bm block hash)\<lparr>nTimeMax := m, nChainWork := w, nStatus := st\<rparr>)"
proof (cases "bm (hashPrevBlock block)")
  case (Some c)
  have "0 \<le> nHeight c" by (rule linkedD(2) [OF assms Some])
  then have "ancestor_at bm (hashPrevBlock block) (GetSkipHeight (nHeight c + 1)) \<noteq> None"
    using ancestor_at_exists [OF assms Some, of "GetSkipHeight (nHeight c + 1)"] GetSkipHeight_nonneg [of "nHeight c + 1"] GetSkipHeight_less [of "nHeight c + 1"] by auto
  then show ?thesis using Some by (simp add: entry_of_def header_entry_def new_CBlockIndex_def)
qed (simp add: entry_of_def header_entry_def new_CBlockIndex_def)

lemma raise_new_best:
  assumes "raise_new bm hash status best b = Inr (b', best')" "status AND BLOCK_VALID_MASK \<noteq> 0" "limbs (nChainWork b)"
    and "\<And>p c. bm p = Some c \<Longrightarrow> limbs (nChainWork c)"
  shows "\<exists>p h. best' = Some p \<and> (bm(hash \<mapsto> b')) p = Some h \<and> uval (nChainWork b) \<le> uval (nChainWork h)"
proof -
  obtain c b1 where r: "RaiseValidity status b = Inr (c, b1)" using assms(1,2) by (auto simp: raise_new_def)
  then have w: "nChainWork b1 = nChainWork b" using RaiseValidity_frame [OF r] by auto
  show ?thesis
    using assms r w by (auto simp: raise_new_def deref_def CompareTo_uval split: option.splits if_splits)
qed

lemma AddToBlockIndex_entry:
  assumes ok: "manager_ok bman" and new: "m_block_index bman hash = None"
    and prev: "hashPrevBlock block \<noteq> hash"
    and status: "status AND BLOCK_FAILED_MASK = 0"
      "status AND BLOCK_VALID_MASK = 0 \<or> status AND NOT BLOCK_VALID_MASK = 0"
  shows "\<exists>bman' b. AddToBlockIndex block hash status bman = Inr (hash, bman') \<and>
           m_block_index bman' = (m_block_index bman)(hash \<mapsto> b) \<and> manager_ok bman' \<and>
           entry_of (m_block_index bman) block hash b \<and> hash \<in> m_dirty_blockindex bman' \<and>
           m_prev_block_index bman' = m_prev_block_index bman
             @ (if pprev b = None then [] else [(hashPrevBlock block, hash)]) \<and>
           (status AND BLOCK_VALID_MASK \<noteq> 0 \<longrightarrow>
             (\<exists>p h. best_header bman' = Some p \<and> m_block_index bman' p = Some h \<and> uval (nChainWork b) \<le> uval (nChainWork h)))"
proof -
  let ?bm = "m_block_index bman" and ?e = "header_entry (m_block_index bman) block hash"
  note e = header_entry_links [where bm = ?bm and block = block and hash = hash]
  have iok: "index_ok ?bm" and best: "case best_header bman of None \<Rightarrow> True | Some p \<Rightarrow> ?bm p \<noteq> None"
    using ok by (simp_all add: manager_ok_def)
  have "case pprev ?e of None \<Rightarrow> True
    | Some q \<Rightarrow> \<exists>c. (?bm(hash \<mapsto> ?e)) q = Some c \<and> limbs (nChainWork c)"
    using e(2) e(3) [OF new] index_ok_limbs [OF iok] by (cases "pprev ?e") auto
  then obtain w m where tot: "set_totals (?bm(hash \<mapsto> ?e)) ?e = Inr (?e\<lparr>nTimeMax := m, nChainWork := w\<rparr>)"
    "total_of (?bm(hash \<mapsto> ?e)) (?e\<lparr>nTimeMax := m, nChainWork := w\<rparr>)"
    using set_totals_total_of by blast
  let ?b3 = "?e\<lparr>nTimeMax := m, nChainWork := w\<rparr>"
  obtain st best' where rv: "raise_new ?bm hash status (best_header bman) ?b3 = Inr (?b3\<lparr>nStatus := st\<rparr>, best')"
    "best' = best_header bman \<or> best' = Some hash"
    using raise_new_spec [OF status(2) best] by metis
  let ?b5 = "?b3\<lparr>nStatus := st\<rparr>"
  have "total_of ?bm ?b3"
    using total_of_extend [OF tot(2)] e(3) [OF new] by simp
  then have final: "index_ok (?bm(hash \<mapsto> ?b5))"
    using e(1,2) by (intro index_ok_extend [OF iok new]) (cases "pprev ?e"; simp)+
  have ent: "entry_of ?bm block hash ?b5" by (rule entry_of_header_entry [OF index_ok_parts(1) [OF iok]])
  then have prv: "pprev ?b5 = None \<or> pprev ?b5 = Some (hashPrevBlock block)" by (auto simp: entry_of_def split: option.splits)
  define pr where "pr = m_prev_block_index bman @ (if pprev ?b5 = None then [] else [(hashPrevBlock block, hash)])"
  have pr: "track_prev (?bm(hash \<mapsto> ?b5)) hash ?b5 (m_prev_block_index bman) = Inr pr"
    using e(2) e(3) [OF new] linkedD(1) [OF index_ok_parts(1) [OF iok]] prv
    by (cases "pprev ?e") (auto simp: track_prev_def deref_def GetBlockHash_def pr_def)
  define bman' where "bman' = bman\<lparr>m_block_index := ?bm(hash \<mapsto> ?b5), m_prev_block_index := pr,
      m_dirty_blockindex := insert hash (m_dirty_blockindex bman), best_header := best'\<rparr>"
  have "AddToBlockIndex block hash status bman = Inr (hash, bman')"
    using status(1) new linking_header [OF iok new prev] tot(1) rv(1) pr
    by (simp add: AddToBlockIndex_def Let_def bman'_def)
  moreover have "manager_ok bman'"
    using final rv(2) best by (auto simp: manager_ok_def bman'_def split: option.splits)
  moreover have "\<exists>p h. best_header bman' = Some p \<and> m_block_index bman' p = Some h \<and> uval (nChainWork ?b5) \<le> uval (nChainWork h)"
    if "status AND BLOCK_VALID_MASK \<noteq> 0"
    using raise_new_best [OF rv(1) that] tot(2) index_ok_limbs [OF iok] by (auto simp: bman'_def total_of_def)
  ultimately show ?thesis
    using ent by (intro exI [of _ bman'] exI [of _ ?b5] conjI) (simp_all add: bman'_def pr_def)
qed

lemma AddToBlockIndex_new:
  assumes "manager_ok bman" "m_block_index bman hash = None" "hashPrevBlock block \<noteq> hash"
    and "status AND BLOCK_FAILED_MASK = 0" "status AND BLOCK_VALID_MASK = 0 \<or> status AND NOT BLOCK_VALID_MASK = 0"
  shows "\<exists>bman' b. AddToBlockIndex block hash status bman = Inr (hash, bman') \<and>
           m_block_index bman' = (m_block_index bman)(hash \<mapsto> b) \<and> manager_ok bman' \<and> entry_of (m_block_index bman) block hash b"
  using AddToBlockIndex_entry [OF assms] by blast

section \<open>The active chain is the path to its tip\<close>

definition chain_to :: "BlockMap \<Rightarrow> ptr \<Rightarrow> CChain" where
  "chain_to bm p = (case bm p of None \<Rightarrow> []
     | Some b \<Rightarrow> map (\<lambda>i. ancestor_at bm p (int i)) [0..<nat (nHeight b) + 1])"

definition chain_ok :: "BlockMap \<Rightarrow> CChain \<Rightarrow> bool" where
  "chain_ok bm c \<longleftrightarrow> c = [] \<or> (\<exists>p b. bm p = Some b \<and> c = chain_to bm p)"

lemma ancestor_step:
  assumes "linked bm" "ancestor_at bm p k = Some r"
  shows "\<exists>c. bm r = Some c \<and> nHeight c = k \<and> pprev c = ancestor_at bm p (k - 1)"
proof -
  obtain c where c: "bm r = Some c" "nHeight c = k"
    using tree.anc_height_eq [OF assms] by (auto simp: height_of_def)
  have "pprev c = ancestor_at bm r (k - 1)"
  proof (cases "pprev c")
    case None
    then show ?thesis using linkedD(3) [OF assms(1) c(1)] c by (simp add: ancestor_at_def)
  next
    case (Some q)
    then obtain d where "bm q = Some d" "nHeight d = k - 1" using linkedD(4) [OF assms(1) c(1)] c by auto
    then show ?thesis
      using ancestor_at_prev [OF assms(1) c(1) Some, of "k - 1"] c ancestor_at_self [OF assms(1), of q] Some by simp
  qed
  moreover have "ancestor_at bm r (k - 1) = ancestor_at bm p (k - 1)"
  proof (cases "0 \<le> k - 1")
    case True
    then show ?thesis using tree.anc_trans [OF assms] by simp
  next
    case False
    then show ?thesis using assms(2) c by (auto simp: ancestor_at_def split: option.splits)
  qed
  ultimately show ?thesis using c by simp
qed

lemma chain_at_to:
  assumes "linked bm" "bm t = Some b"
  shows "chain_at (chain_to bm t) k = ancestor_at bm t k"
proof (cases "k < 0 \<or> nHeight b < k")
  case True
  then show ?thesis using linkedD(2) [OF assms] by (auto simp: chain_at_def chain_to_def ancestor_at_def assms(2))
next
  case False
  then have "nat k < nat (nHeight b) + 1" using nat_mono [of k "nHeight b"] by simp
  then show ?thesis
    using False by (simp add: chain_at_def chain_to_def assms(2) del: upt_Suc)
qed

lemma length_chain_to: "bm t = Some b \<Longrightarrow> length (chain_to bm t) = nat (nHeight b) + 1"
  by (simp add: chain_to_def)

lemma set_tip_loop_correct:
  assumes "linked bm" "bm p = Some b" "length v = nat (nHeight b) + 1" "m \<le> nat (nHeight b) + 1" "m < fuel"
    and "\<And>i. m \<le> i \<Longrightarrow> i \<le> nat (nHeight b) \<Longrightarrow> v ! i = ancestor_at bm p (int i)"
    and "\<And>i. i < m \<Longrightarrow> v ! i = (if i < t then ancestor_at bm q (int i) else None)"
  shows "set_tip_loop fuel bm (ancestor_at bm p (int m - 1)) v = Inr (chain_to bm p)"
  using assms(3-7)
proof (induction m arbitrary: v fuel)
  case 0
  then obtain f where "fuel = Suc f" by (cases fuel) auto
  moreover have "ancestor_at bm p (- 1) = None" by (simp add: ancestor_at_def split: option.splits)
  moreover have "v = chain_to bm p"
    using 0 by (intro nth_equalityI) (auto simp: chain_to_def assms(2) simp del: upt_Suc)
  ultimately show ?case by simp
next
  case (Suc m)
  then obtain f where f: "fuel = Suc f" by (cases fuel) auto
  have h: "0 \<le> nHeight b" by (rule linkedD(2) [OF assms(1,2)])
  have mh: "int m \<le> nHeight b" using Suc.prems(2) h by (simp add: le_nat_iff)
  then obtain r where r: "ancestor_at bm p (int m) = Some r"
    using ancestor_at_exists [OF assms(1,2), of "int m"] by auto
  obtain c where c: "bm r = Some c" "nHeight c = int m" "pprev c = ancestor_at bm p (int m - 1)"
    using ancestor_step [OF assms(1) r] by auto
  have len: "\<not> int (length v) \<le> int m" using Suc.prems(1) mh h by simp
  show ?case
  proof (cases "v ! m = Some r")
    case True
    then have old: "m < t" "ancestor_at bm q (int m) = Some r"
      using Suc.prems(5) [of m] by (auto split: if_splits)
    have "v ! i = ancestor_at bm p (int i)" if "i \<le> nat (nHeight b)" for i
    proof (cases "i \<le> m")
      case True
      then show ?thesis
        using Suc.prems(5) [of i] old tree.agree_below [OF assms(1) r old(2), of "int i"] by simp
    next
      case False
      then show ?thesis using Suc.prems(4) [of i] that by simp
    qed
    then have "v = chain_to bm p"
      using Suc.prems(1) by (intro nth_equalityI) (auto simp: chain_to_def assms(2) simp del: upt_Suc)
    then show ?thesis using True r c len f by (simp add: deref_def)
  next
    case False
    have "set_tip_loop f bm (ancestor_at bm p (int m - 1)) (v[m := Some r]) = Inr (chain_to bm p)"
    proof (rule Suc.IH)
      show "v[m := Some r] ! i = ancestor_at bm p (int i)" if "m \<le> i" "i \<le> nat (nHeight b)" for i
        using that r Suc.prems(1,4) by (cases "i = m") auto
      show "v[m := Some r] ! i = (if i < t then ancestor_at bm q (int i) else None)" if "i < m" for i
        using that Suc.prems(5) [of i] by simp
    qed (use Suc.prems f in simp_all)
    then show ?thesis using False r c len f by (simp add: deref_def)
  qed
qed

lemma SetTip_correct:
  assumes "linked bm" "bm p = Some b" "chain_ok bm c"
  shows "SetTip bm c p = Inr (chain_to bm p)"
proof -
  have h: "0 \<le> nHeight b" by (rule linkedD(2) [OF assms(1,2)])
  let ?n = "nat (nHeight b) + 1"
  obtain q where q: "\<And>i. i < length c \<Longrightarrow> c ! i = ancestor_at bm q (int i)"
    using assms(3) by (auto simp: chain_ok_def chain_to_def simp del: upt_Suc)
  have "chain_resize ?n c ! i = (if i < length c then ancestor_at bm q (int i) else None)" if "i < ?n" for i
    using that q by (auto simp: chain_resize_def nth_append min_def)
  moreover have "length (chain_resize ?n c) = ?n" by (auto simp: chain_resize_def)
  ultimately have "set_tip_loop (nat (nHeight b) + 2) bm (ancestor_at bm p (int ?n - 1)) (chain_resize ?n c)
      = Inr (chain_to bm p)"
    by (intro set_tip_loop_correct [OF assms(1,2)]) simp_all
  moreover have "nat (nHeight b + 1) = ?n" "int ?n - 1 = nHeight b" using h by simp_all
  ultimately show ?thesis
    using ancestor_at_self [OF assms(1,2)] by (simp add: SetTip_def deref_def assms(2) del: set_tip_loop.simps)
qed

section \<open>Fork points\<close>

definition common_at :: "BlockMap \<Rightarrow> ptr \<Rightarrow> ptr \<Rightarrow> int \<Rightarrow> bool" where
  "common_at bm p q k \<longleftrightarrow> ancestor_at bm p k \<noteq> None \<and> ancestor_at bm p k = ancestor_at bm q k"

definition is_fork :: "BlockMap \<Rightarrow> ptr \<Rightarrow> ptr \<Rightarrow> ptr option \<Rightarrow> bool" where
  "is_fork bm p q r \<longleftrightarrow> (case r of
     None \<Rightarrow> (\<forall>k. \<not> common_at bm p q k)
   | Some x \<Rightarrow> (\<exists>k. ancestor_at bm p k = Some x \<and> common_at bm p q k \<and> (\<forall>j>k. \<not> common_at bm p q j)))"

lemma deref_Some [simp]: "bm p = Some b \<Longrightarrow> deref bm p = Inr b"
  by (simp add: deref_def)

lemma ancestor_at_negative [simp]: "k < 0 \<Longrightarrow> ancestor_at bm p k = None"
  by (simp add: ancestor_at_def split: option.splits)

lemma ancestor_at_above [simp]: "bm p = Some b \<Longrightarrow> nHeight b < k \<Longrightarrow> ancestor_at bm p k = None"
  by (simp add: ancestor_at_def)

lemma is_fork_None:
  assumes "\<And>j. 0 \<le> j \<Longrightarrow> \<not> common_at bm p q j"
  shows "is_fork bm p q None"
  unfolding is_fork_def
proof (simp, intro allI)
  fix k show "\<not> common_at bm p q k"
    using assms [of k] by (cases "0 \<le> k") (auto simp: common_at_def)
qed

lemma find_fork_loop_correct:
  assumes "linked bm" "bm t = Some bt" "bm p = Some b" "m < fuel"
    and "\<And>j. int m \<le> j \<Longrightarrow> \<not> common_at bm p t j" "int m \<le> nHeight b + 1"
  shows "\<exists>r. find_fork_loop fuel bm (chain_to bm t) (ancestor_at bm p (int m - 1)) = Inr r \<and> is_fork bm p t r"
  using assms(4-6)
proof (induction m arbitrary: fuel)
  case 0
  then obtain f where "fuel = Suc f" by (cases fuel) auto
  moreover have "is_fork bm p t None" using 0(2) by (intro is_fork_None) simp
  ultimately show ?case by simp
next
  case (Suc m)
  then obtain f where f: "fuel = Suc f" by (cases fuel) auto
  obtain r where r: "ancestor_at bm p (int m) = Some r"
    using ancestor_at_exists [OF assms(1,3), of "int m"] Suc.prems(3) by auto
  obtain c where c: "bm r = Some c" "nHeight c = int m" "pprev c = ancestor_at bm p (int m - 1)"
    using ancestor_step [OF assms(1) r] by auto
  have cont: "Contains bm (chain_to bm t) r = Inr (common_at bm p t (int m))"
    using c r by (auto simp: Contains_def chain_at_to [OF assms(1,2)] common_at_def)
  show ?case
  proof (cases "common_at bm p t (int m)")
    case True
    have "\<not> common_at bm p t j" if "int m < j" for j using Suc.prems(2) [of j] that by simp
    then have "is_fork bm p t (Some r)" using True r by (auto simp: is_fork_def)
    then show ?thesis using True r cont f by simp
  next
    case False
    have "\<not> common_at bm p t j" if "int m \<le> j" for j
      using Suc.prems(2) [of j] False that by (cases "j = int m") auto
    then have "\<exists>s. find_fork_loop f bm (chain_to bm t) (ancestor_at bm p (int m - 1)) = Inr s \<and> is_fork bm p t s"
      using Suc.prems f by (intro Suc.IH) auto
    then show ?thesis using False r c cont f by simp
  qed
qed

lemma FindFork_correct:
  assumes "linked bm" "skips_ok bm" "bm t = Some bt" "bm p = Some b"
  shows "\<exists>r. FindFork bm (chain_to bm t) (Some p) = Inr r \<and> is_fork bm p t r"
proof -
  have h: "0 \<le> nHeight b" "0 \<le> nHeight bt" using linkedD(2) [OF assms(1)] assms(3,4) by auto
  have H: "Height (chain_to bm t) = nHeight bt" using h(2) by (simp add: Height_def length_chain_to [of bm t, OF assms(3)])
  define m where "m = nat (min (nHeight b) (nHeight bt)) + 1"
  have im: "int m - 1 = min (nHeight b) (nHeight bt)" using h by (simp add: m_def)
  have start: "(if nHeight b > nHeight bt then GetAncestor bm p (nHeight bt) else Inr (Some p))
               = Inr (ancestor_at bm p (int m - 1))"
    unfolding im using GetAncestor_correct [OF assms(1,2,4)] ancestor_at_self [OF assms(1,4)]
    by (auto simp: min_def)
  have "\<not> common_at bm p t j" if "int m \<le> j" for j
    using that im assms(3,4) by (cases "nHeight b < j") (auto simp: common_at_def)
  then have "\<exists>r. find_fork_loop (nat (nHeight b) + 2) bm (chain_to bm t) (ancestor_at bm p (int m - 1)) = Inr r \<and>
                 is_fork bm p t r"
    using h by (intro find_fork_loop_correct [OF assms(1,3,4)]) (auto simp: m_def nat_le_eq_zle)
  then show ?thesis
    by (simp only: FindFork_def option.case deref_Some [of bm p, OF assms(4)] bind_sum.simps H start)
qed

lemma lca_loop_correct:
  assumes "linked bm" "bm p = Some b" "bm q = Some c" "m < fuel"
    and "\<And>j. int m \<le> j \<Longrightarrow> \<not> common_at bm p q j" "int m \<le> nHeight b + 1" "int m \<le> nHeight c + 1"
  shows "\<exists>r. lca_loop fuel bm (ancestor_at bm p (int m - 1)) (ancestor_at bm q (int m - 1)) = Inr r \<and> is_fork bm p q r"
  using assms(4-7)
proof (induction m arbitrary: fuel)
  case 0
  then obtain f where "fuel = Suc f" by (cases fuel) auto
  moreover have "is_fork bm p q None" using 0(2) by (intro is_fork_None) simp
  ultimately show ?case by simp
next
  case (Suc m)
  then obtain f where f: "fuel = Suc f" by (cases fuel) auto
  obtain r s where r: "ancestor_at bm p (int m) = Some r" and s: "ancestor_at bm q (int m) = Some s"
    using ancestor_at_exists [OF assms(1,2), of "int m"] ancestor_at_exists [OF assms(1,3), of "int m"] Suc.prems(3,4)
    by auto
  obtain x y where x: "bm r = Some x" "pprev x = ancestor_at bm p (int m - 1)"
    and y: "bm s = Some y" "pprev y = ancestor_at bm q (int m - 1)"
    using ancestor_step [OF assms(1) r] ancestor_step [OF assms(1) s] by auto
  have com: "common_at bm p q (int m) \<longleftrightarrow> r = s" by (auto simp: common_at_def r s)
  show ?case
  proof (cases "r = s")
    case True
    have "\<not> common_at bm p q j" if "int m < j" for j using Suc.prems(2) [of j] that by simp
    then have "is_fork bm p q (Some r)" using True r com by (auto simp: is_fork_def)
    then show ?thesis using True r s f by simp
  next
    case False
    have "\<not> common_at bm p q j" if "int m \<le> j" for j
      using Suc.prems(2) [of j] False com that by (cases "j = int m") auto
    then have "\<exists>s. lca_loop f bm (ancestor_at bm p (int m - 1)) (ancestor_at bm q (int m - 1)) = Inr s \<and> is_fork bm p q s"
      using Suc.prems f by (intro Suc.IH) auto
    then show ?thesis using False r s x y f by simp
  qed
qed

lemma LastCommonAncestor_correct:
  assumes "linked bm" "skips_ok bm" "bm p = Some b" "bm q = Some c"
  shows "\<exists>r. LastCommonAncestor bm p q = Inr r \<and> is_fork bm p q r"
proof -
  have h: "0 \<le> nHeight b" "0 \<le> nHeight c" using linkedD(2) [OF assms(1)] assms(3,4) by auto
  define m where "m = nat (min (nHeight b) (nHeight c)) + 1"
  have im: "int m - 1 = min (nHeight b) (nHeight c)" using h by (simp add: m_def)
  have start: "(if nHeight b > nHeight c then GetAncestor bm p (nHeight c) else Inr (Some p))
               = Inr (ancestor_at bm p (int m - 1))"
      "(if nHeight b > nHeight c then Inr (Some q)
        else if nHeight c > nHeight b then GetAncestor bm q (nHeight b) else Inr (Some q))
               = Inr (ancestor_at bm q (int m - 1))"
    unfolding im using GetAncestor_correct [OF assms(1,2)] assms(3,4)
      ancestor_at_self [OF assms(1,3)] ancestor_at_self [OF assms(1,4)]
    by (auto simp: min_def)
  have "\<not> common_at bm p q j" if "int m \<le> j" for j
    using that im assms(3,4) by (cases "nHeight b < j") (auto simp: common_at_def)
  then have "\<exists>r. lca_loop (nat (min (nHeight b) (nHeight c)) + 2) bm (ancestor_at bm p (int m - 1))
                 (ancestor_at bm q (int m - 1)) = Inr r \<and> is_fork bm p q r"
    using im by (intro lca_loop_correct [OF assms(1,3,4)]) (auto simp: m_def)
  then show ?thesis
    using start by (simp add: LastCommonAncestor_def assms(3,4) del: lca_loop.simps)
qed

section \<open>Binary search along the chain\<close>

lemma lower_bound_correct:
  assumes "\<And>i. i < length xs \<Longrightarrow> cmp (xs ! i) = Inr (P i)"
    and "\<And>i j. i \<le> j \<Longrightarrow> j < length xs \<Longrightarrow> P j \<Longrightarrow> P i"
    and "first + count \<le> length xs" "\<And>i. i < first \<Longrightarrow> P i"
    and "\<And>i. first + count \<le> i \<Longrightarrow> i < length xs \<Longrightarrow> \<not> P i"
  shows "\<exists>n\<le>length xs. lower_bound cmp xs first count = Inr n \<and> (\<forall>i<n. P i) \<and> (\<forall>i. n \<le> i \<longrightarrow> i < length xs \<longrightarrow> \<not> P i)"
  using assms(3-5)
proof (induction count arbitrary: first rule: less_induct)
  case (less count)
  show ?case
  proof (cases "count = 0")
    case True
    then show ?thesis using less.prems by (subst lower_bound.simps) auto
  next
    case False
    let ?s = "count div 2" and ?m = "first + count div 2"
    have m: "?m < length xs" "?s < count" using False less.prems(1) by auto
    show ?thesis
    proof (cases "P ?m")
      case True
      have "\<exists>n\<le>length xs. lower_bound cmp xs (?m + 1) (count - (?s + 1)) = Inr n \<and>
              (\<forall>i<n. P i) \<and> (\<forall>i. n \<le> i \<longrightarrow> i < length xs \<longrightarrow> \<not> P i)"
        using less.prems m False assms(2) [OF _ m(1) True] by (intro less.IH) auto
      then show ?thesis
        using False True assms(1) [OF m(1)] by (subst lower_bound.simps) (simp add: Let_def)
    next
      case notP: False
      have "\<not> P i" if "?m \<le> i" "i < length xs" for i using assms(2) [OF that] notP by blast
      then have "\<exists>n\<le>length xs. lower_bound cmp xs first ?s = Inr n \<and>
              (\<forall>i<n. P i) \<and> (\<forall>i. n \<le> i \<longrightarrow> i < length xs \<longrightarrow> \<not> P i)"
        using less.prems m by (intro less.IH) auto
      then show ?thesis
        using False notP assms(1) [OF m(1)] by (subst lower_bound.simps) (simp add: Let_def)
    qed
  qed
qed

lemma timeMax_mono:
  assumes "index_ok bm" "ancestor_at bm t (int i) = Some p" "ancestor_at bm t (int j) = Some q" "i \<le> j"
    and "bm p = Some b" "bm q = Some c"
  shows "nTimeMax b \<le> nTimeMax c"
  using assms(4,3,6)
proof (induction arbitrary: q c rule: dec_induct)
  case base
  then show ?case using assms(2,5) by simp
next
  case (step n)
  obtain d where d: "bm q = Some d" "pprev d = ancestor_at bm t (int n)"
    using ancestor_step [OF index_ok_parts(1) [OF assms(1)] step.prems(1)] by auto
  obtain h where h: "bm t = Some h" "int (Suc n) \<le> nHeight h"
    using step.prems(1) by (elim ancestor_at_SomeD) auto
  obtain r e where r: "ancestor_at bm t (int n) = Some r" "bm r = Some e"
    using ancestor_at_exists [OF index_ok_parts(1) [OF assms(1)] h(1), of "int n"] h(2) by auto
  have "nTimeMax c = max (nTimeMax e) (nTime c)"
    using assms(1) d r step.prems(2) by (fastforce simp: index_ok_def totals_ok_total_of total_of_def)
  then show ?case using step.IH [OF r] by (simp add: max.coboundedI1)
qed

definition late_enough :: "BlockMap \<Rightarrow> ptr \<Rightarrow> int \<Rightarrow> int \<Rightarrow> int \<Rightarrow> bool" where
  "late_enough bm t tm h k \<longleftrightarrow> (\<forall>p b. ancestor_at bm t k = Some p \<longrightarrow> bm p = Some b \<longrightarrow>
     tm \<le> GetBlockTimeMax b \<and> h \<le> k)"

lemma FindEarliestAtLeast_correct:
  assumes "index_ok bm" "bm t = Some bt"
  shows "\<exists>n\<le>nHeight bt + 1. FindEarliestAtLeast bm (chain_to bm t) tm h = Inr (ancestor_at bm t n) \<and>
           0 \<le> n \<and> (\<forall>k. 0 \<le> k \<longrightarrow> k < n \<longrightarrow> \<not> late_enough bm t tm h k) \<and> (\<forall>k. n \<le> k \<longrightarrow> k \<le> nHeight bt \<longrightarrow> late_enough bm t tm h k)"
proof -
  note l = index_ok_parts(1) [OF assms(1)]
  let ?c = "chain_to bm t" and ?P = "\<lambda>i. \<not> late_enough bm t tm h (int i)"
  have h0: "0 \<le> nHeight bt" by (rule linkedD(2) [OF l assms(2)])
  have len: "length ?c = nat (nHeight bt) + 1" by (rule length_chain_to) (rule assms(2))
  have at: "\<exists>p b. ?c ! i = Some p \<and> ancestor_at bm t (int i) = Some p \<and> bm p = Some b \<and> nHeight b = int i"
    if i: "i < length ?c" for i
  proof -
    have "int i \<le> nHeight bt" using i h0 by (simp add: len less_Suc_eq_le le_nat_iff)
    then show ?thesis
      using i ancestor_at_exists [OF l assms(2), of "int i"] chain_at_to [OF l assms(2), of "int i"]
      by (auto simp: chain_at_def)
  qed
  have cmp: "earlier_than bm tm h (?c ! i) = Inr (?P i)" if "i < length ?c" for i
    using at [OF that] by (auto simp: earlier_than_def late_enough_def)
  have mono: "?P i" if ij: "i \<le> j" "j < length ?c" "?P j" for i j
  proof -
    obtain p b q c where "ancestor_at bm t (int i) = Some p" "bm p = Some b"
      "ancestor_at bm t (int j) = Some q" "bm q = Some c" using at [of i] at [of j] ij(1,2) by auto
    then show ?thesis
      using timeMax_mono [OF assms(1), of t i p j q b c] ij
      by (fastforce simp: late_enough_def GetBlockTimeMax_def word_le_def)
  qed
  have "\<exists>n\<le>length ?c. lower_bound (earlier_than bm tm h) ?c 0 (length ?c) = Inr n \<and>
          (\<forall>i<n. ?P i) \<and> (\<forall>i. n \<le> i \<longrightarrow> i < length ?c \<longrightarrow> \<not> ?P i)"
    by (rule lower_bound_correct [where P = ?P]) (fact cmp, erule (2) mono, simp_all)
  then obtain n where n: "n \<le> length ?c" "lower_bound (earlier_than bm tm h) ?c 0 (length ?c) = Inr n"
    "\<And>i. i < n \<Longrightarrow> ?P i" "\<And>i. n \<le> i \<Longrightarrow> i < length ?c \<Longrightarrow> \<not> ?P i" by auto
  have "FindEarliestAtLeast bm ?c tm h = Inr (ancestor_at bm t (int n))"
    using n(1,2) at [of n] assms(2) len h0 by (cases "n = length ?c") (auto simp: FindEarliestAtLeast_def)
  moreover have "\<not> late_enough bm t tm h k" if "0 \<le> k" "k < int n" for k using n(3) [of "nat k"] that by auto
  moreover have "late_enough bm t tm h k" if "int n \<le> k" "k \<le> nHeight bt" for k using n(4) [of "nat k"] that len by auto
  ultimately show ?thesis using n(1) len h0 by (intro exI [of _ "int n"]) auto
qed

section \<open>Median time past\<close>

lemma sorted_nth_count:
  "sorted (ys :: 'a::linorder list) \<Longrightarrow> i < length ys \<Longrightarrow> m \<le> ys ! i \<longleftrightarrow> length (filter (\<lambda>x. x < m) ys) \<le> i"
proof (induction ys arbitrary: i)
  case (Cons y ys)
  show ?case
  proof (cases "y < m")
    case True
    then show ?thesis using Cons by (cases i) auto
  next
    case False
    then have "filter (\<lambda>x. x < m) (y # ys) = []" using Cons.prems(1) by (auto simp: filter_empty_conv)
    moreover have "m \<le> (y # ys) ! i"
      using False Cons.prems by (cases i) (auto intro: order_trans [of m y])
    ultimately show ?thesis by simp
  qed
qed simp

lemma length_filter_sort: "length (filter P (sort xs)) = length (filter P xs)"
  by (simp add: filter_sort)

lemma median_ge_iff:
  "xs \<noteq> [] \<Longrightarrow> (m :: int) \<le> sort (rev xs) ! (length xs div 2) \<longleftrightarrow> length (filter (\<lambda>x. x < m) xs) \<le> length xs div 2"
  using sorted_nth_count [of "sort (rev xs)" "length xs div 2" m]
  by (simp add: length_filter_sort flip: rev_filter)

lemma past_times_take:
  "past_times bm (Suc n) po = Inr ts \<Longrightarrow> past_times bm n po = Inr (take n ts)"
proof (induction n arbitrary: po ts)
  case (Suc n)
  show ?case
  proof (cases po)
    case (Some p)
    then obtain b rest where b: "deref bm p = Inr b" "past_times bm (Suc n) (pprev b) = Inr rest"
      "ts = GetBlockTime b # rest" using Suc.prems by auto
    then show ?thesis using Suc.IH [OF b(2)] Some by simp
  qed (use Suc.prems in simp)
qed (simp split: option.splits)

lemma past_times_total:
  assumes "linked bm" "bm p = Some b"
  shows "\<exists>ts. past_times bm n (Some p) = Inr ts \<and> length ts = min n (nat (nHeight b) + 1)"
  using assms(2)
proof (induction n arbitrary: p b)
  case (Suc n)
  have h: "0 \<le> nHeight b" by (rule linkedD(2) [OF assms(1) Suc.prems])
  show ?case
  proof (cases "pprev b")
    case None
    then show ?thesis using Suc.prems linkedD(3) [OF assms(1) Suc.prems] by (cases n) auto
  next
    case (Some q)
    then obtain c where c: "bm q = Some c" "nHeight c = nHeight b - 1"
      using linkedD(4) [OF assms(1) Suc.prems] by auto
    have "0 \<le> nHeight c" by (rule linkedD(2) [OF assms(1) c(1)])
    then have "nat (nHeight b) = nat (nHeight c) + 1" using c by simp
    then show ?thesis using Suc.IH [OF c(1)] Suc.prems Some by auto
  qed
qed simp

lemma GetMedianTimePast_total:
  assumes "linked bm" "bm p = Some b"
  shows "\<exists>ts. past_times bm nMedianTimeSpan (Some p) = Inr ts \<and> ts \<noteq> [] \<and>
           GetMedianTimePast bm p = Inr (sort (rev ts) ! (length ts div 2))"
  using past_times_total [OF assms, of nMedianTimeSpan]
  by (auto simp: GetMedianTimePast_def nMedianTimeSpan_def Let_def simp del: past_times.simps)

lemma GetMedianTimePast_mono:
  assumes "linked bm" "bm p = Some b" "pprev b = Some q"
    and "GetMedianTimePast bm q = Inr m" "m \<le> GetBlockTime b"
  shows "\<exists>m'\<ge>m. GetMedianTimePast bm p = Inr m'"
proof -
  obtain c where c: "bm q = Some c" using linkedD(4) [OF assms(1-3)] by auto
  obtain ts where ts: "past_times bm (Suc 10) (Some q) = Inr ts" "ts \<noteq> []"
      "m = sort (rev ts) ! (length ts div 2)"
    using GetMedianTimePast_total [OF assms(1) c] assms(4) by (auto simp: nMedianTimeSpan_def numeral_eq_Suc)
  have len: "length ts \<le> 11" using past_times_total [OF assms(1) c, of "Suc 10"] ts(1) by auto
  have cnt: "length (filter (\<lambda>x. x < m) ts) \<le> length ts div 2"
    using median_ge_iff [OF ts(2), of m] ts(3) by simp
  have le: "length (filter (\<lambda>x. x < m) (take 10 ts)) \<le> length (filter (\<lambda>x. x < m) ts)"
    by (metis append_take_drop_id filter_append length_append le_add1)
  let ?us = "GetBlockTime b # take 10 ts"
  have us: "past_times bm nMedianTimeSpan (Some p) = Inr ?us"
    using past_times_take [OF ts(1)] assms(2,3) by (simp add: nMedianTimeSpan_def numeral_eq_Suc)
  have "length (filter (\<lambda>x. x < m) ?us) \<le> length ?us div 2"
    using cnt le len assms(5) by (auto simp: min_def)
  then have "m \<le> sort (rev ?us) ! (length ?us div 2)" by (subst median_ge_iff) simp_all
  then show ?thesis
    using us by (auto simp: GetMedianTimePast_def Let_def simp del: past_times.simps)
qed

section \<open>Locators\<close>

text \<open>A locator names ancestors at strictly falling heights, from a block down to its root.\<close>

definition is_locator :: "BlockMap \<Rightarrow> ptr \<Rightarrow> uint256 list \<Rightarrow> bool" where
  "is_locator bm p hs \<longleftrightarrow> (\<exists>ks. ks \<noteq> [] \<and> map Some hs = map (ancestor_at bm p) ks \<and>
     sorted_wrt (>) ks \<and> ancestor_at bm p (hd ks) = Some p \<and> last ks = 0)"

lemma is_locator_Cons:
  assumes "linked bm" "bm p = Some b" "0 \<le> k" "k < nHeight b" "ancestor_at bm p k = Some q" "is_locator bm q hs"
  shows "is_locator bm p (p # hs)"
proof -
  obtain ks where ks: "ks \<noteq> []" "map Some hs = map (ancestor_at bm q) ks" "sorted_wrt (>) ks"
    "ancestor_at bm q (hd ks) = Some q" "last ks = 0" using assms(6) by (auto simp: is_locator_def)
  have hq: "height_of bm q = Some k" by (rule tree.anc_height_eq [OF assms(1,5)])
  have hd: "hd ks = k"
    using tree.anc_height_eq [OF assms(1) ks(4)] hq by simp
  have range: "0 \<le> j \<and> j \<le> k" if "j \<in> set ks" for j
  proof -
    have "ancestor_at bm q j \<in> set (map (ancestor_at bm q) ks)" using that by simp
    then obtain h where "ancestor_at bm q j = Some h" unfolding ks(2) [symmetric] by auto
    then show ?thesis using hq by (elim ancestor_at_SomeD) (auto simp: height_of_def)
  qed
  have "map (ancestor_at bm q) ks = map (ancestor_at bm p) ks"
    using tree.anc_trans [OF assms(1,5)] range by auto
  moreover have "sorted_wrt (>) (nHeight b # ks)"
    using ks(3) range assms(4) by fastforce
  ultimately show ?thesis
    using ks ancestor_at_self [OF assms(1,2)] unfolding is_locator_def
    by (intro exI [of _ "nHeight b # ks"]) simp
qed

lemma locator_loop_correct:
  assumes "linked bm" "skips_ok bm" "bm t = Some bt" "v = chain_to bm t"
    and "bm p = Some b" "nat (nHeight b) < fuel" "1 \<le> nStep"
  shows "\<exists>hs. locator_loop fuel bm v (Some p) nStep vHave = Inr (vHave @ hs) \<and> is_locator bm p hs"
  using assms(5-7)
proof (induction fuel arbitrary: p b nStep vHave)
  case (Suc fuel)
  note p = Suc.prems(1)
  have hash: "GetBlockHash b = Inr p" using linkedD(1) [OF assms(1) p] by (simp add: GetBlockHash_def)
  show ?case
  proof (cases "nHeight b = 0")
    case True
    then have "is_locator bm p [p]"
      using ancestor_at_self [OF assms(1) p] unfolding is_locator_def by (intro exI [of _ "[0]"]) simp
    then show ?thesis using p hash True by (simp add: Let_def)
  next
    case False
    let ?k = "max (nHeight b - nStep) 0"
    have h: "0 < nHeight b" using False linkedD(2) [OF assms(1) p] by simp
    then have k: "0 \<le> ?k" "?k < nHeight b" using Suc.prems(3) by auto
    obtain q c where q: "ancestor_at bm p ?k = Some q" "bm q = Some c" "nHeight c = ?k"
      using ancestor_at_exists [OF assms(1) p, of ?k] k by auto
    obtain cont where cont: "Contains bm v p = Inr cont" using p by (simp add: Contains_def)
    have "chain_at v ?k = ancestor_at bm p ?k" if cont
    proof -
      have "ancestor_at bm t (nHeight b) = Some p"
        using that cont p chain_at_to [OF assms(1,3)] assms(4) by (simp add: Contains_def)
      from tree.anc_trans [OF assms(1) this k(1)] show ?thesis
        using chain_at_to [OF assms(1,3)] assms(4) k(2) by simp
    qed
    then have nxt: "(if cont then Inr (chain_at v ?k) else GetAncestor bm p ?k) = Inr (Some q)"
      using GetAncestor_correct [OF assms(1,2) p] q(1) by simp
    let ?h = "vHave @ [p]"
    let ?st = "if length ?h > 10 then nStep * 2 else nStep"
    have st: "1 \<le> ?st" and f: "nat (nHeight c) < fuel"
      using Suc.prems(2,3) q(3) k by auto
    obtain hs where hs: "locator_loop fuel bm v (Some q) ?st ?h = Inr (?h @ hs)" "is_locator bm q hs"
      using Suc.IH [OF q(2) f st, of ?h] by blast
    have "locator_loop (Suc fuel) bm v (Some p) nStep vHave = Inr (vHave @ p # hs)"
      using p hash False cont nxt hs(1) by (simp add: Let_def)
    then show ?thesis using is_locator_Cons [OF assms(1) p k q(1) hs(2)] by blast
  qed
qed simp

lemma GetLocator_correct:
  assumes "linked bm" "skips_ok bm" "bm t = Some bt" "bm p = Some b"
  shows "\<exists>hs. GetLocator bm (chain_to bm t) (Some p) = Inr hs \<and> is_locator bm p hs"
  using locator_loop_correct [OF assms(1-3) refl assms(4), of "nat (nHeight b) + 2" 1 "[]"] assms(4)
  by (auto simp: GetLocator_def simp del: locator_loop.simps)

section \<open>Validity levels\<close>

lemma valid_mask: "BLOCK_VALID_MASK = mask 3"
  by (simp add: block_status_defs mask_eq_exp_minus_1)

lemma set_level:
  assumes "u AND NOT (mask 3) = (0 :: u32)"
  shows "((s AND NOT (mask 3)) OR u) AND mask 3 = u"
proof (rule bit_word_eqI)
  fix n
  have "bit u n \<Longrightarrow> n < 3"
    using arg_cong [OF assms, of "\<lambda>w. bit w n"] bit_imp_le_length [of u n] by (auto simp: bit_simps)
  then show "bit (((s AND NOT (mask 3)) OR u) AND mask 3) n = bit u n" by (auto simp: bit_simps)
qed

lemma RaiseValidity_level:
  assumes "RaiseValidity u b = Inr (changed, b')" "nStatus b AND BLOCK_FAILED_MASK = 0"
  shows "u \<le> nStatus b' AND BLOCK_VALID_MASK" "nStatus b AND BLOCK_VALID_MASK \<le> nStatus b' AND BLOCK_VALID_MASK"
    and "changed \<longleftrightarrow> nStatus b AND BLOCK_VALID_MASK < u"
proof -
  have u: "u AND NOT (mask 3) = 0" using assms(1) by (auto simp: RaiseValidity_def valid_mask split: if_splits)
  show "changed \<longleftrightarrow> nStatus b AND BLOCK_VALID_MASK < u"
    using assms by (auto simp: RaiseValidity_def Let_def split: if_splits)
  then show "u \<le> nStatus b' AND BLOCK_VALID_MASK" "nStatus b AND BLOCK_VALID_MASK \<le> nStatus b' AND BLOCK_VALID_MASK"
    using assms u by (auto simp: RaiseValidity_def Let_def valid_mask set_level split: if_splits)
qed

section \<open>A straight chain, for the examples\<close>

text \<open>\<open>line_map n tm bits\<close> holds \<open>n\<close> blocks in one line; block \<open>i\<close> has time \<open>tm i\<close> and lives at \<open>line_ptr i\<close>.\<close>

definition line_ptr :: "nat \<Rightarrow> ptr" where
  "line_ptr i = [of_nat i]"

definition line_entry :: "(nat \<Rightarrow> u32) \<Rightarrow> u32 \<Rightarrow> nat \<Rightarrow> CBlockIndex" where
  "line_entry tm bits i = \<lparr>phashBlock = Some (line_ptr i),
     pprev = (if i = 0 then None else Some (line_ptr (i - 1))),
     pskip = None, nHeight = int i, nFile = 0, nDataPos = 0, nUndoPos = 0, nChainWork = uint_zero,
     nTx = 1, nChainTx = of_nat (i + 1), nStatus = BLOCK_VALID_TREE, nVersion = 1,
     hashMerkleRoot = [], nTime = tm i, nBits = bits, nNonce = 0, nSequenceId = 0, nTimeMax = tm i\<rparr>"

definition line_map :: "nat \<Rightarrow> (nat \<Rightarrow> u32) \<Rightarrow> u32 \<Rightarrow> BlockMap" where
  "line_map n tm bits p = (case p of [x] \<Rightarrow> if unat x < n then Some (line_entry tm bits (unat x)) else None
     | _ \<Rightarrow> None)"

lemma line_map_SomeD:
  assumes "line_map n tm bits p = Some b"
  obtains i where "i < n" "i < 256" "p = line_ptr i" "b = line_entry tm bits i"
proof -
  obtain x where "p = [x]" "unat x < n" "b = line_entry tm bits (unat x)"
    using assms by (auto simp: line_map_def split: list.splits if_splits)
  moreover have "unat x < 256" for x :: u8 by simp
  ultimately show ?thesis using that [of "unat x"] by (simp add: line_ptr_def)
qed

lemma line_map_ptr: "i < n \<Longrightarrow> i < 256 \<Longrightarrow> line_map n tm bits (line_ptr i) = Some (line_entry tm bits i)"
  by (simp add: line_map_def line_ptr_def unsigned_of_nat take_bit_nat_eq_self)

lemma linked_line_map: "n \<le> 256 \<Longrightarrow> linked (line_map n tm bits)"
  unfolding linked_def
proof (intro allI impI)
  fix p b assume n: "n \<le> 256" and "line_map n tm bits p = Some b"
  then obtain i where i: "i < n" "i < 256" "p = line_ptr i" "b = line_entry tm bits i"
    by (elim line_map_SomeD)
  then have "i \<noteq> 0 \<Longrightarrow> line_map n tm bits (line_ptr (i - 1)) = Some (line_entry tm bits (i - 1))"
    by (intro line_map_ptr) auto
  then show "phashBlock b = Some p \<and> 0 \<le> nHeight b \<and> (case pprev b of None \<Rightarrow> nHeight b = 0
      | Some q \<Rightarrow> height_of (line_map n tm bits) q = Some (nHeight b - 1))"
    using i by (auto simp: line_entry_def height_of_def)
qed

lemma skips_ok_line_map: "skips_ok (line_map n tm bits)"
  by (auto simp: skips_ok_def line_entry_def elim!: line_map_SomeD)

lemma line_prev_iter: "j \<le> i \<Longrightarrow> i < n \<Longrightarrow> n \<le> 256 \<Longrightarrow> prev_iter (line_map n tm bits) j (line_ptr i) = Some (line_ptr (i - j))"
  by (induction j arbitrary: i) (auto simp: line_map_ptr line_entry_def)

lemma line_ancestor:
  assumes "0 \<le> k" "k \<le> int i" "i < n" "n \<le> 256"
  shows "ancestor_at (line_map n tm bits) (line_ptr i) k = Some (line_ptr (nat k))"
proof -
  have "i - nat (int i - k) = nat k" using assms(1,2) by simp
  then show ?thesis
    using assms line_prev_iter [of "nat (int i - k)" i n tm bits]
    by (simp add: ancestor_at_def line_map_ptr) (simp add: line_entry_def)
qed

lemma past_times_numeral:
  "past_times bm (numeral k) pindex = (case pindex of None \<Rightarrow> Inr []
     | Some p \<Rightarrow> bind_sum (deref bm p) (\<lambda>b.
         bind_sum (past_times bm (pred_numeral k) (pprev b)) (\<lambda>ts. Inr (GetBlockTime b # ts))))"
  by (simp add: numeral_eq_Suc)

section \<open>Properties of the header tree\<close>

text \<open>
  C9. The skip list is transparent: on every well-linked tree \<open>GetAncestor\<close> neither fails nor loops
  and returns exactly the block reached by following \<open>pprev\<close> down to the height asked for, and a
  null pointer for a height below 0 or above the block.
\<close>

theorem GetAncestor_walks_back:
  assumes "linked bm" "skips_ok bm" "bm p = Some b"
  shows "GetAncestor bm p h =
    Inr (if h < 0 \<or> nHeight b < h then None else prev_iter bm (nat (nHeight b - h)) p)"
  using GetAncestor_correct [OF assms, of h] by (simp add: ancestor_at_def assms(3))

theorem GetAncestor_walks_back_witness:
  "GetAncestor (line_map 8 (\<lambda>_. 0) 0) (line_ptr 7) 5 = Inr (Some (line_ptr 5))"
proof -
  have "line_map 8 (\<lambda>_. 0) 0 (line_ptr 7) = Some (line_entry (\<lambda>_. 0) 0 7)" by (rule line_map_ptr) auto
  from GetAncestor_walks_back [OF linked_line_map skips_ok_line_map this, of 5]
  have "GetAncestor (line_map 8 (\<lambda>_. 0) 0) (line_ptr 7) 5 =
    Inr (prev_iter (line_map 8 (\<lambda>_. 0) 0) 2 (line_ptr 7))" by (simp add: line_entry_def)
  then show ?thesis by (simp add: numeral_2_eq_2 line_map_ptr line_entry_def)
qed

text \<open>
  C3. \<open>AddToBlockIndex\<close> puts a header into the tree: given a tree whose links, skip pointers, cumulative work and maximal
  times are right, adding a header never fails (for the status values the callers pass) and keeps all of that right. A hash
  that is already known changes nothing. A new one gets an entry with the fields of the header; if its predecessor is known the
  entry points to it, is one higher and has the skip pointer to the ancestor at the skip height, otherwise it is a root; no
  other entry changes, the link is recorded in the index by predecessor, the entry is to be written, and with a valid status the
  best header afterwards has at least its work.
\<close>

theorem AddToBlockIndex_keeps_tree:
  assumes "manager_ok bman" "hashPrevBlock block \<noteq> hash" "status AND BLOCK_FAILED_MASK = 0"
    and "status AND BLOCK_VALID_MASK = 0 \<or> status AND NOT BLOCK_VALID_MASK = 0"
  shows "\<exists>bman'. AddToBlockIndex block hash status bman = Inr (hash, bman') \<and> manager_ok bman' \<and>
    (m_block_index bman hash \<noteq> None \<longrightarrow> bman' = bman) \<and>
    (m_block_index bman hash = None \<longrightarrow> (\<exists>b. m_block_index bman' = (m_block_index bman)(hash \<mapsto> b) \<and> entry_of (m_block_index bman) block hash b \<and>
       hash \<in> m_dirty_blockindex bman' \<and>
       m_prev_block_index bman' = m_prev_block_index bman @ (if pprev b = None then [] else [(hashPrevBlock block, hash)]) \<and>
       (status AND BLOCK_VALID_MASK \<noteq> 0 \<longrightarrow>
         (\<exists>p h. best_header bman' = Some p \<and> m_block_index bman' p = Some h \<and> uval (nChainWork b) \<le> uval (nChainWork h)))))"
proof (cases "m_block_index bman hash")
  case None
  then show ?thesis using AddToBlockIndex_entry [OF assms(1) None assms(2-4)] by blast
next
  case (Some b)
  then show ?thesis using assms(1,3) by (simp add: AddToBlockIndex_def Let_def)
qed

definition empty_manager :: BlockManager where
  "empty_manager = \<lparr>m_block_index = Map.empty, m_prev_block_index = [], m_dirty_blockindex = {},
     best_header = None\<rparr>"

lemma manager_ok_empty: "manager_ok empty_manager"
  by (simp add: manager_ok_def empty_manager_def index_ok_def linked_def skips_ok_def totals_ok_def)

definition example_header :: CBlockHeader where
  "example_header = \<lparr>hdr_nVersion = 1, hashPrevBlock = replicate 32 0, hdr_hashMerkleRoot = replicate 32 1,
     hdr_nTime = 1789885960, hdr_nBits = 0x1e3fffff, hdr_nNonce = 26429\<rparr>"

lemma example_header_ok:
  "hashPrevBlock example_header \<noteq> [7]" "BLOCK_VALID_TREE AND BLOCK_FAILED_MASK = 0"
  "BLOCK_VALID_TREE AND BLOCK_VALID_MASK = 0 \<or> BLOCK_VALID_TREE AND NOT BLOCK_VALID_MASK = 0"
  by (auto simp: example_header_def block_status_defs dest: arg_cong [of _ _ length])

text \<open>A second header on top of the first.\<close>

definition child_header :: CBlockHeader where
  "child_header = example_header\<lparr>hashPrevBlock := [7], hdr_nTime := 1789886020\<rparr>"

theorem AddToBlockIndex_keeps_tree_witness:
  "\<exists>bman bman' b. AddToBlockIndex example_header [7] BLOCK_VALID_TREE empty_manager = Inr ([7], bman)
     \<and> AddToBlockIndex child_header [8] BLOCK_VALID_TREE bman = Inr ([8], bman') \<and> manager_ok bman'
     \<and> m_block_index bman' [8] = Some b \<and> pprev b = Some [7] \<and> pskip b = Some [7] \<and> nHeight b = 1
     \<and> m_prev_block_index bman' = [([7], [8])]"
proof -
  obtain bman g where g: "AddToBlockIndex example_header [7] BLOCK_VALID_TREE empty_manager = Inr ([7], bman)" "manager_ok bman"
    "m_block_index bman = [[7] \<mapsto> g]" "entry_of Map.empty example_header [7] g" "m_prev_block_index bman = []"
  proof -
    have n: "m_block_index empty_manager = Map.empty" "m_prev_block_index empty_manager = []" by (simp_all add: empty_manager_def)
    obtain bman g where "AddToBlockIndex example_header [7] BLOCK_VALID_TREE empty_manager = Inr ([7], bman)" "manager_ok bman"
      "m_block_index bman = [[7] \<mapsto> g]" "entry_of Map.empty example_header [7] g"
      "m_prev_block_index bman = (if pprev g = None then [] else [(hashPrevBlock example_header, [7])])"
      using AddToBlockIndex_keeps_tree [OF manager_ok_empty example_header_ok] unfolding n append_Nil by blast
    then show thesis by (intro that [of bman g]) (simp_all add: entry_of_def)
  qed
  have h: "nHeight g = 0" "phashBlock g = Some [7]" "pprev g = None" using g(4) by (simp_all add: entry_of_def)
  have "linked (m_block_index bman)" using g(2) by (simp add: manager_ok_def index_ok_def)
  then have anc: "ancestor_at [[7] \<mapsto> g] [7] 0 = Some [7]" using ancestor_at_self [of "[[7] \<mapsto> g]" "[7]" g] h(1) g(3) by simp
  have ok: "hashPrevBlock child_header \<noteq> [8]" by (simp add: child_header_def)
  obtain bman' b where b: "AddToBlockIndex child_header [8] BLOCK_VALID_TREE bman = Inr ([8], bman')" "manager_ok bman'"
    "m_block_index bman' [8] = Some b" "entry_of [[7] \<mapsto> g] child_header [8] b"
    "m_prev_block_index bman' = (if pprev b = None then [] else [([7], [8])])"
  proof -
    have n: "[[7 :: u8] \<mapsto> g] [8] = None" "hashPrevBlock child_header = [7]" by (simp_all add: child_header_def)
    obtain bman' b where "AddToBlockIndex child_header [8] BLOCK_VALID_TREE bman = Inr ([8], bman')" "manager_ok bman'"
      "m_block_index bman' = [[7] \<mapsto> g, [8] \<mapsto> b]" "entry_of [[7] \<mapsto> g] child_header [8] b"
      "m_prev_block_index bman' = (if pprev b = None then [] else [([7], [8])])"
      using AddToBlockIndex_keeps_tree [OF g(2) ok example_header_ok(2,3)] n(1) unfolding g(3,5) n(2) append_Nil by blast
    then show thesis by (intro that [of bman' b]) simp_all
  qed
  have "pprev b = Some [7]" "nHeight b = 1" "pskip b = Some [7]"
    using b(4) h(1) anc by (auto simp: entry_of_def child_header_def GetSkipHeight_def)
  then show ?thesis using g(1) b by auto
qed

text \<open>
  The work credited to a block is the expected number of hashes: for bits that encode a
  positive target \<open>t\<close> without sign or overflow, \<open>GetBlockProof\<close> returns \<open>2 ^ 256 div (t + 1)\<close>, although
  it computes with 256-bit integers; for all other bits it returns 0. It never fails.
\<close>

theorem GetBlockProof_is_expected_work:
  "\<exists>w. GetBlockProof b = Inr w \<and> limbs w \<and>
     uval w = (let (t, neg, ovf) = SetCompact (nBits b)
               in if neg \<or> ovf \<or> uval t = 0 then 0 else 2 ^ 256 div (uval t + 1))"
  using GetBlockProof_correct [of b] by (simp add: bits_proof_def)

text \<open>
  \<open>SetTip\<close> makes the active chain the path from the root to the new tip, whatever path it
  held before; the early exit at the first block already in place loses nothing.
\<close>

theorem SetTip_gives_path:
  assumes "linked bm" "bm p = Some b" "chain_ok bm c"
  shows "SetTip bm c p = Inr (map (\<lambda>i. ancestor_at bm p (int i)) [0..<nat (nHeight b) + 1])"
  using SetTip_correct [OF assms] by (simp add: chain_to_def assms(2))

theorem SetTip_gives_path_witness:
  "SetTip (line_map 4 (\<lambda>_. 0) 0) [] (line_ptr 2) =
     Inr (map (\<lambda>i. ancestor_at (line_map 4 (\<lambda>_. 0) 0) (line_ptr 2) (int i)) [0..<3])"
  using SetTip_gives_path [OF linked_line_map line_map_ptr, of 4 2 "\<lambda>_. 0" 0 "[]"]
  by (simp add: chain_ok_def line_entry_def numeral_3_eq_3)

text \<open>
  C19. \<open>FindFork\<close> returns the highest block of the active chain that is an ancestor of the given
  block, and a null pointer exactly when there is none.
\<close>

theorem FindFork_is_highest_common:
  assumes "linked bm" "skips_ok bm" "bm t = Some bt" "bm p = Some b"
  shows "\<exists>r. FindFork bm (chain_to bm t) (Some p) = Inr r \<and> is_fork bm p t r"
  by (rule FindFork_correct [OF assms])

theorem FindFork_is_highest_common_witness:
  "\<exists>r. FindFork (line_map 4 (\<lambda>_. 0) 0) (chain_to (line_map 4 (\<lambda>_. 0) 0) (line_ptr 1)) (Some (line_ptr 3)) = Inr r \<and>
     is_fork (line_map 4 (\<lambda>_. 0) 0) (line_ptr 3) (line_ptr 1) r"
  by (rule FindFork_is_highest_common [OF linked_line_map skips_ok_line_map line_map_ptr line_map_ptr]) simp_all

text \<open>
  \<open>LastCommonAncestor\<close> never fails its final assertion on a well-linked tree and returns the
  highest common ancestor of the two blocks.
\<close>

theorem LastCommonAncestor_is_highest_common:
  assumes "linked bm" "skips_ok bm" "bm p = Some b" "bm q = Some c"
  shows "\<exists>r. LastCommonAncestor bm p q = Inr r \<and> is_fork bm p q r"
  by (rule LastCommonAncestor_correct [OF assms])

theorem LastCommonAncestor_is_highest_common_witness:
  "\<exists>r. LastCommonAncestor (line_map 4 (\<lambda>_. 0) 0) (line_ptr 3) (line_ptr 1) = Inr r \<and>
     is_fork (line_map 4 (\<lambda>_. 0) 0) (line_ptr 3) (line_ptr 1) r"
  by (rule LastCommonAncestor_is_highest_common [OF linked_line_map skips_ok_line_map line_map_ptr line_map_ptr]) simp_all

text \<open>
  The median time past never runs backwards: a block whose time is at least the median time
  past of its predecessor has a median time past at least as large.
\<close>

theorem median_time_past_monotone:
  assumes "linked bm" "bm p = Some b" "pprev b = Some q"
    and "GetMedianTimePast bm q = Inr m" "m \<le> GetBlockTime b"
  shows "\<exists>m'\<ge>m. GetMedianTimePast bm p = Inr m'"
  by (rule GetMedianTimePast_mono [OF assms])

theorem median_time_past_monotone_witness:
  "\<exists>m'\<ge>100. GetMedianTimePast (line_map 3 (\<lambda>i. 100 * of_nat i) 0) (line_ptr 2) = Inr m'"
proof -
  let ?bm = "line_map 3 (\<lambda>i. 100 * of_nat i) 0"
  have "past_times ?bm nMedianTimeSpan (Some (line_ptr 1)) = Inr [100, 0]"
    by (simp add: nMedianTimeSpan_def past_times_numeral line_map_ptr line_entry_def GetBlockTime_def)
  then have m: "GetMedianTimePast ?bm (line_ptr 1) = Inr 100" by (simp add: GetMedianTimePast_def)
  show ?thesis
    by (rule median_time_past_monotone [OF linked_line_map line_map_ptr _ m])
       (simp_all add: line_entry_def GetBlockTime_def)
qed

text \<open>
  \<open>FindEarliestAtLeast\<close> finds the first block of the active chain from which on every block
  has both the maximal time and the height asked for; the binary search relies on the maximal
  times the tree keeps, not on the block times, which may run backwards.
\<close>

theorem FindEarliestAtLeast_finds_first:
  assumes "index_ok bm" "bm t = Some bt"
  shows "\<exists>n\<ge>0. FindEarliestAtLeast bm (chain_to bm t) tm h = Inr (ancestor_at bm t n) \<and>
           (\<forall>k. 0 \<le> k \<longrightarrow> k < n \<longrightarrow> \<not> late_enough bm t tm h k) \<and>
           (\<forall>k. n \<le> k \<longrightarrow> k \<le> nHeight bt \<longrightarrow> late_enough bm t tm h k)"
  using FindEarliestAtLeast_correct [OF assms] by blast

theorem FindEarliestAtLeast_finds_first_witness:
  "\<exists>bman r. AddToBlockIndex example_header [7] BLOCK_VALID_TREE empty_manager = Inr ([7], bman) \<and>
     FindEarliestAtLeast (m_block_index bman) (chain_to (m_block_index bman) [7]) 5 0 = Inr r"
proof -
  obtain bman b where b: "AddToBlockIndex example_header [7] BLOCK_VALID_TREE empty_manager = Inr ([7], bman)"
    "m_block_index bman = (m_block_index empty_manager)([7] \<mapsto> b)" "manager_ok bman"
    using AddToBlockIndex_new [OF manager_ok_empty _ example_header_ok] by (auto simp: empty_manager_def)
  then have "index_ok (m_block_index bman)" "m_block_index bman [7] = Some b" by (simp_all add: manager_ok_def)
  from FindEarliestAtLeast_finds_first [OF this, of 5 0] b(1) show ?thesis by blast
qed

text \<open>
  A locator names ancestors of the block at strictly falling heights, starts with the block
  itself, ends with the root, and the loop that builds it ends.
\<close>

theorem GetLocator_spans_chain:
  assumes "linked bm" "skips_ok bm" "bm t = Some bt" "bm p = Some b"
  shows "\<exists>hs. GetLocator bm (chain_to bm t) (Some p) = Inr hs \<and> is_locator bm p hs"
  by (rule GetLocator_correct [OF assms])

theorem GetLocator_spans_chain_witness:
  "\<exists>hs. GetLocator (line_map 4 (\<lambda>_. 0) 0) (chain_to (line_map 4 (\<lambda>_. 0) 0) (line_ptr 1)) (Some (line_ptr 3)) = Inr hs \<and>
     is_locator (line_map 4 (\<lambda>_. 0) 0) (line_ptr 3) hs"
  by (rule GetLocator_spans_chain [OF linked_line_map skips_ok_line_map line_map_ptr line_map_ptr]) simp_all

end
