(* ===== verification/Transactions.thy ===== *)
theory Transactions
  imports Formatters Block_Index
begin

text \<open>
Transactions: \<^verbatim>\<open>primitives/transaction.h\<close> with the shielded data of
  \<^verbatim>\<open>sapling/sapling_transaction.h\<close>, their wire format, the context-free checks of
  \<^verbatim>\<open>consensus/tx_check.cpp\<close> and \<^verbatim>\<open>sapling/sapling_validation.cpp\<close>, and the lock times of
  \<^verbatim>\<open>consensus/tx_verify.cpp\<close>.
\<close>

unbundle bit_operations_syntax

section \<open>Transaction types and data\<close>

definition TRANSACTION_NORMAL :: u16 where "TRANSACTION_NORMAL = 0"
definition TRANSACTION_PROVIDER_REGISTER :: u16 where "TRANSACTION_PROVIDER_REGISTER = 1"
definition TRANSACTION_PROVIDER_UPDATE_SERVICE :: u16 where "TRANSACTION_PROVIDER_UPDATE_SERVICE = 2"
definition TRANSACTION_PROVIDER_UPDATE_REGISTRAR :: u16 where "TRANSACTION_PROVIDER_UPDATE_REGISTRAR = 3"
definition TRANSACTION_PROVIDER_UPDATE_REVOKE :: u16 where "TRANSACTION_PROVIDER_UPDATE_REVOKE = 4"
definition TRANSACTION_COINBASE :: u16 where "TRANSACTION_COINBASE = 5"
definition TRANSACTION_QUORUM_COMMITMENT :: u16 where "TRANSACTION_QUORUM_COMMITMENT = 6"
definition TRANSACTION_MNHF_SIGNAL :: u16 where "TRANSACTION_MNHF_SIGNAL = 7"
definition TRANSACTION_ASSET_LOCK :: u16 where "TRANSACTION_ASSET_LOCK = 8"
definition TRANSACTION_ASSET_UNLOCK :: u16 where "TRANSACTION_ASSET_UNLOCK = 9"

lemmas tx_type_defs = TRANSACTION_NORMAL_def TRANSACTION_PROVIDER_REGISTER_def
  TRANSACTION_PROVIDER_UPDATE_SERVICE_def TRANSACTION_PROVIDER_UPDATE_REGISTRAR_def
  TRANSACTION_PROVIDER_UPDATE_REVOKE_def TRANSACTION_COINBASE_def TRANSACTION_QUORUM_COMMITMENT_def
  TRANSACTION_MNHF_SIGNAL_def TRANSACTION_ASSET_LOCK_def TRANSACTION_ASSET_UNLOCK_def

type_synonym CScript = bytes

record COutPoint =
  op_hash :: uint256
  op_n :: u32

definition NULL_INDEX :: u32 where
  "NULL_INDEX = 0xffffffff"

definition COutPoint_IsNull :: "COutPoint \<Rightarrow> bool" where
  "COutPoint_IsNull p \<longleftrightarrow> op_hash p = replicate 32 0 \<and> op_n p = NULL_INDEX"

record CTxIn =
  prevout :: COutPoint
  scriptSig :: CScript
  nSequence :: u32

definition SEQUENCE_FINAL :: u32 where "SEQUENCE_FINAL = 0xffffffff"
definition SEQUENCE_LOCKTIME_DISABLE_FLAG :: u32 where "SEQUENCE_LOCKTIME_DISABLE_FLAG = push_bit 31 1"
definition SEQUENCE_LOCKTIME_TYPE_FLAG :: u32 where "SEQUENCE_LOCKTIME_TYPE_FLAG = push_bit 22 1"
definition SEQUENCE_LOCKTIME_MASK :: u32 where "SEQUENCE_LOCKTIME_MASK = 0x0000ffff"
definition SEQUENCE_LOCKTIME_GRANULARITY :: nat where "SEQUENCE_LOCKTIME_GRANULARITY = 9"

record CTxOut =
  nValue :: CAmount
  scriptPubKey :: CScript

definition CTxOut_null :: CTxOut where
  "CTxOut_null = \<lparr>nValue = - 1, scriptPubKey = []\<rparr>"

definition CTxOut_IsNull :: "CTxOut \<Rightarrow> bool" where
  "CTxOut_IsNull out \<longleftrightarrow> nValue out = - 1"

record SpendDescription =
  spend_cv :: uint256
  spend_anchor :: uint256
  nullifier :: uint256
  rk :: uint256
  spend_zkproof :: bytes
  spendAuthSig :: bytes

record OutputDescription =
  output_cv :: uint256
  cmu :: uint256
  ephemeralKey :: uint256
  encCiphertext :: bytes
  outCiphertext :: bytes
  output_zkproof :: bytes

record SaplingTxData =
  valueBalance :: CAmount
  vShieldedSpend :: "SpendDescription list"
  vShieldedOutput :: "OutputDescription list"
  bindingSig :: bytes

definition BINDINGSIG_SIZE :: nat where "BINDINGSIG_SIZE = 64"
definition GROTH_PROOF_SIZE :: nat where "GROTH_PROOF_SIZE = 48 + 96 + 48"
definition ZC_SAPLING_ENCCIPHERTEXT_SIZE :: nat where
  "ZC_SAPLING_ENCCIPHERTEXT_SIZE = 1 + 11 + 8 + 32 + 512 + 16"
definition ZC_SAPLING_OUTCIPHERTEXT_SIZE :: nat where
  "ZC_SAPLING_OUTCIPHERTEXT_SIZE = 32 + 32 + 16"
definition SPENDDESCRIPTION_SIZE :: nat where "SPENDDESCRIPTION_SIZE = 384"
definition OUTPUTDESCRIPTION_SIZE :: nat where "OUTPUTDESCRIPTION_SIZE = 948"

definition SaplingTxData_default :: SaplingTxData where
  "SaplingTxData_default = \<lparr>valueBalance = 0, vShieldedSpend = [], vShieldedOutput = [],
     bindingSig = replicate BINDINGSIG_SIZE 0\<rparr>"

definition hasBindingSig :: "SaplingTxData \<Rightarrow> bool" where
  "hasBindingSig d \<longleftrightarrow> (\<exists>c \<in> set (bindingSig d). c \<noteq> 0)"

definition SaplingTxData_IsEmpty :: "SaplingTxData \<Rightarrow> bool" where
  "SaplingTxData_IsEmpty d \<longleftrightarrow>
     valueBalance d = 0 \<and> vShieldedSpend d = [] \<and> vShieldedOutput d = [] \<and> \<not> hasBindingSig d"

text \<open>
  \<open>CTransaction\<close> and \<open>CMutableTransaction\<close> have the same data; the hash a \<open>CTransaction\<close> caches is
  a function of its serialisation. The version is a signed 16-bit number.
\<close>

record CTransaction =
  vin :: "CTxIn list"
  vout :: "CTxOut list"
  tx_nVersion :: int
  nType :: u16
  nLockTime :: u32
  sapData :: SaplingTxData
  vExtraPayload :: bytes

definition CURRENT_VERSION :: int where "CURRENT_VERSION = 2"
definition SPECIAL_VERSION :: int where "SPECIAL_VERSION = 3"
definition SHIELDED_VERSION :: int where "SHIELDED_VERSION = 4"

lemmas tx_version_defs = CURRENT_VERSION_def SPECIAL_VERSION_def SHIELDED_VERSION_def

definition CMutableTransaction_default :: CTransaction where
  "CMutableTransaction_default = \<lparr>vin = [], vout = [], tx_nVersion = CURRENT_VERSION,
     nType = TRANSACTION_NORMAL, nLockTime = 0, sapData = SaplingTxData_default, vExtraPayload = []\<rparr>"

definition IsSpecialTxVersion :: "CTransaction \<Rightarrow> bool" where
  "IsSpecialTxVersion tx \<longleftrightarrow> tx_nVersion tx \<ge> SPECIAL_VERSION"

definition IsShieldedTxVersion :: "CTransaction \<Rightarrow> bool" where
  "IsShieldedTxVersion tx \<longleftrightarrow> tx_nVersion tx \<ge> SHIELDED_VERSION"

definition HasShieldedPayloadField :: "CTransaction \<Rightarrow> bool" where
  "HasShieldedPayloadField tx = IsShieldedTxVersion tx"

definition HasShieldedPayload :: "CTransaction \<Rightarrow> bool" where
  "HasShieldedPayload tx \<longleftrightarrow> HasShieldedPayloadField tx \<and> \<not> SaplingTxData_IsEmpty (sapData tx)"

definition IsPlatformTransfer :: "CTransaction \<Rightarrow> bool" where
  "IsPlatformTransfer tx \<longleftrightarrow> IsSpecialTxVersion tx \<and> nType tx = TRANSACTION_ASSET_UNLOCK"

definition HasExtraPayloadField :: "CTransaction \<Rightarrow> bool" where
  "HasExtraPayloadField tx \<longleftrightarrow> IsSpecialTxVersion tx \<and> nType tx \<noteq> TRANSACTION_NORMAL"

definition IsNull_tx :: "CTransaction \<Rightarrow> bool" where
  "IsNull_tx tx \<longleftrightarrow> vin tx = [] \<and> vout tx = [] \<and> \<not> HasShieldedPayload tx"

definition IsCoinBase_tx :: "CTransaction \<Rightarrow> bool" where
  "IsCoinBase_tx tx \<longleftrightarrow> length (vin tx) = 1 \<and> COutPoint_IsNull (prevout (vin tx ! 0))"

section \<open>Serialisation of transactions\<close>

definition ser_int64 :: "int \<Rightarrow> bytes" where
  "ser_int64 a = ser_writedata64 (word_of_int a)"

definition unser_int64 :: "int reader" where
  "unser_int64 s = do { (w, s) \<leftarrow> ser_readdata64 s; Some (sint w, s) }"

definition ser_outpoint :: "COutPoint \<Rightarrow> bytes" where
  "ser_outpoint p = op_hash p @ ser_writedata32 (op_n p)"

definition unser_outpoint :: "COutPoint reader" where
  "unser_outpoint s = do {
     (h, s) \<leftarrow> read_bytes 32 s;
     (n, s) \<leftarrow> ser_readdata32 s;
     Some (\<lparr>op_hash = h, op_n = n\<rparr>, s) }"

definition ser_txin :: "CTxIn \<Rightarrow> bytes" where
  "ser_txin i = ser_outpoint (prevout i) @ ser_blob (scriptSig i) @ ser_writedata32 (nSequence i)"

definition unser_txin :: "CTxIn reader" where
  "unser_txin s = do {
     (p, s) \<leftarrow> unser_outpoint s;
     (g, s) \<leftarrow> unser_blob s;
     (q, s) \<leftarrow> ser_readdata32 s;
     Some (\<lparr>prevout = p, scriptSig = g, nSequence = q\<rparr>, s) }"

definition ser_txout :: "CTxOut \<Rightarrow> bytes" where
  "ser_txout out = ser_int64 (nValue out) @ ser_blob (scriptPubKey out)"

definition unser_txout :: "CTxOut reader" where
  "unser_txout s = do {
     (v, s) \<leftarrow> unser_int64 s;
     (g, s) \<leftarrow> unser_blob s;
     Some (\<lparr>nValue = v, scriptPubKey = g\<rparr>, s) }"

definition ser_spend :: "SpendDescription \<Rightarrow> bytes" where
  "ser_spend d = spend_cv d @ spend_anchor d @ nullifier d @ rk d @ spend_zkproof d @ spendAuthSig d"

definition unser_spend :: "SpendDescription reader" where
  "unser_spend s = do {
     (a, s) \<leftarrow> read_bytes 32 s;
     (b, s) \<leftarrow> read_bytes 32 s;
     (c, s) \<leftarrow> read_bytes 32 s;
     (d, s) \<leftarrow> read_bytes 32 s;
     (e, s) \<leftarrow> read_bytes GROTH_PROOF_SIZE s;
     (f, s) \<leftarrow> read_bytes 64 s;
     Some (\<lparr>spend_cv = a, spend_anchor = b, nullifier = c, rk = d, spend_zkproof = e, spendAuthSig = f\<rparr>, s) }"

definition ser_output :: "OutputDescription \<Rightarrow> bytes" where
  "ser_output d = output_cv d @ cmu d @ ephemeralKey d @ encCiphertext d @ outCiphertext d @ output_zkproof d"

definition unser_output :: "OutputDescription reader" where
  "unser_output s = do {
     (a, s) \<leftarrow> read_bytes 32 s;
     (b, s) \<leftarrow> read_bytes 32 s;
     (c, s) \<leftarrow> read_bytes 32 s;
     (d, s) \<leftarrow> read_bytes ZC_SAPLING_ENCCIPHERTEXT_SIZE s;
     (e, s) \<leftarrow> read_bytes ZC_SAPLING_OUTCIPHERTEXT_SIZE s;
     (f, s) \<leftarrow> read_bytes GROTH_PROOF_SIZE s;
     Some (\<lparr>output_cv = a, cmu = b, ephemeralKey = c, encCiphertext = d, outCiphertext = e,
             output_zkproof = f\<rparr>, s) }"

definition ser_sapling :: "SaplingTxData \<Rightarrow> bytes" where
  "ser_sapling d = ser_int64 (valueBalance d) @ ser_vector ser_spend (vShieldedSpend d)
     @ ser_vector ser_output (vShieldedOutput d) @ bindingSig d"

definition unser_sapling :: "SaplingTxData reader" where
  "unser_sapling s = do {
     (v, s) \<leftarrow> unser_int64 s;
     (sp, s) \<leftarrow> unser_vector unser_spend s;
     (os, s) \<leftarrow> unser_vector unser_output s;
     (g, s) \<leftarrow> read_bytes BINDINGSIG_SIZE s;
     Some (\<lparr>valueBalance = v, vShieldedSpend = sp, vShieldedOutput = os, bindingSig = g\<rparr>, s) }"

definition n32bitVersion :: "CTransaction \<Rightarrow> u32" where
  "n32bitVersion tx = word_of_int (tx_nVersion tx) OR push_bit 16 (ucast (nType tx))"

definition ser_tx :: "CTransaction \<Rightarrow> bytes" where
  "ser_tx tx = ser_writedata32 (n32bitVersion tx) @ ser_vector ser_txin (vin tx)
     @ ser_vector ser_txout (vout tx) @ ser_writedata32 (nLockTime tx)
     @ (if HasShieldedPayloadField tx then ser_sapling (sapData tx) else [])
     @ (if HasExtraPayloadField tx then ser_blob (vExtraPayload tx) else [])"

definition unser_tx :: "CTransaction reader" where
  "unser_tx s = do {
     (n32, s) \<leftarrow> ser_readdata32 s;
     let ver = sint (ucast (n32 AND 0xffff) :: u16);
     let ty = ucast (drop_bit 16 n32 AND 0xffff);
     (ins, s) \<leftarrow> unser_vector unser_txin s;
     (outs, s) \<leftarrow> unser_vector unser_txout s;
     (lock, s) \<leftarrow> ser_readdata32 s;
     (sd, s) \<leftarrow> (if ver \<ge> SHIELDED_VERSION then unser_sapling s else Some (SaplingTxData_default, s));
     (pl, s) \<leftarrow> (if ver \<ge> SPECIAL_VERSION \<and> ty \<noteq> TRANSACTION_NORMAL then unser_blob s else Some ([], s));
     Some (\<lparr>vin = ins, vout = outs, tx_nVersion = ver, nType = ty, nLockTime = lock, sapData = sd,
             vExtraPayload = pl\<rparr>, s) }"

text \<open>\<open>GetSerializeSize\<close> counts the bytes that serialisation writes.\<close>

definition GetTotalSize :: "CTransaction \<Rightarrow> nat" where
  "GetTotalSize tx = length (ser_tx tx)"

section \<open>Value of the outputs\<close>

text \<open>The exception of \<open>GetValueOut\<close> and its assertion are None.\<close>

fun sum_outputs :: "CTxOut list \<Rightarrow> CAmount \<Rightarrow> CAmount option" where
  "sum_outputs [] nValueOut = Some nValueOut"
| "sum_outputs (tx_out # outs) nValueOut =
     (if \<not> MoneyRange (nValue tx_out) \<or> \<not> MoneyRange (nValueOut + nValue tx_out) then None
      else sum_outputs outs (nValueOut + nValue tx_out))"

definition GetValueOut :: "CTransaction \<Rightarrow> CAmount option" where
  "GetValueOut tx = do {
     nValueOut \<leftarrow> sum_outputs (vout tx) 0;
     nValueOut \<leftarrow>
       (if HasShieldedPayloadField tx \<and> valueBalance (sapData tx) < 0
        then let shieldedValueOut = - valueBalance (sapData tx)
             in if \<not> MoneyRange shieldedValueOut \<or> \<not> MoneyRange (nValueOut + shieldedValueOut) then None
                else Some (nValueOut + shieldedValueOut)
        else Some nValueOut);
     if \<not> MoneyRange nValueOut then None else Some nValueOut }"

section \<open>Context-free checks\<close>

datatype TxValidationResult =
  TX_RESULT_UNSET | TX_CONSENSUS | TX_RECENT_CONSENSUS_CHANGE | TX_INPUTS_NOT_STANDARD
| TX_NOT_STANDARD | TX_MISSING_INPUTS | TX_PREMATURE_SPEND | TX_BAD_SPECIAL | TX_CONFLICT
| TX_CONFLICT_LOCK | TX_MEMPOOL_POLICY | TX_NO_MEMPOOL

text \<open>A check fails with the result and the reason it leaves in the validation state.\<close>

type_synonym 'a tx_check = "(TxValidationResult \<times> string) + 'a"

abbreviation (input) invalid :: "string \<Rightarrow> 'a tx_check" where
  "invalid reason \<equiv> Inl (TX_CONSENSUS, reason)"

definition MAX_LEGACY_BLOCK_SIZE :: nat where "MAX_LEGACY_BLOCK_SIZE = 1000000"
definition MAX_DIP0001_BLOCK_SIZE :: nat where "MAX_DIP0001_BLOCK_SIZE = 2000000"
definition MAX_TX_EXTRA_PAYLOAD :: nat where "MAX_TX_EXTRA_PAYLOAD = 10000"
definition COINBASE_MATURITY :: int where "COINBASE_MATURITY = 100"

definition MaxBlockSize :: "bool \<Rightarrow> nat" where
  "MaxBlockSize fDIP0001Active = (if fDIP0001Active then MAX_DIP0001_BLOCK_SIZE else MAX_LEGACY_BLOCK_SIZE)"

definition MaxBlockSigOps :: "bool \<Rightarrow> nat" where
  "MaxBlockSigOps fDIP0001Active = MaxBlockSize fDIP0001Active div 50"

fun insert_all :: "'a list \<Rightarrow> 'a set \<Rightarrow> bool" where
  "insert_all [] seen = True"
| "insert_all (x # xs) seen = (if x \<in> seen then False else insert_all xs (insert x seen))"

definition CheckTransactionWithoutProofVerification :: "CTransaction \<Rightarrow> CAmount \<Rightarrow> CAmount tx_check" where
  "CheckTransactionWithoutProofVerification tx nValueOut =
     (let d = sapData tx in
      if vShieldedSpend d = [] \<and> vShieldedOutput d = [] \<and> valueBalance d \<noteq> 0
      then invalid ''bad-txns-valuebalance-nonzero''
      else if valueBalance d > MAX_MONEY \<or> valueBalance d < - MAX_MONEY
      then invalid ''bad-txns-valuebalance-toolarge''
      else bind_sum
        (if valueBalance d < 0
         then let nValueOut = nValueOut + - valueBalance d
              in if \<not> MoneyRange nValueOut then invalid ''bad-txns-txouttotal-toolarge'' else Inr nValueOut
         else Inr nValueOut)
        (\<lambda>nValueOut.
           if valueBalance d > 0 \<and> \<not> MoneyRange (valueBalance d) then invalid ''bad-txns-txintotal-toolarge''
           else if \<not> insert_all (map nullifier (vShieldedSpend d)) {}
           then invalid ''bad-spend-description-nullifiers-duplicate''
           else Inr nValueOut))"

definition Sapling_CheckTransaction :: "CTransaction \<Rightarrow> CAmount \<Rightarrow> CAmount tx_check" where
  "Sapling_CheckTransaction tx nValueOut =
     (if \<not> HasShieldedPayload tx then Inr nValueOut
      else if \<not> IsShieldedTxVersion tx then invalid ''bad-txns-form-not-sapling''
      else if IsCoinBase_tx tx then invalid ''bad-cb-has-shielded-data''
      else CheckTransactionWithoutProofVerification tx nValueOut)"

fun check_outputs :: "CTxOut list \<Rightarrow> CAmount \<Rightarrow> CAmount tx_check" where
  "check_outputs [] nValueOut = Inr nValueOut"
| "check_outputs (txout # outs) nValueOut =
     (if nValue txout < 0 then invalid ''bad-txns-vout-negative''
      else if nValue txout > MAX_MONEY then invalid ''bad-txns-vout-toolarge''
      else if \<not> MoneyRange (nValueOut + nValue txout) then invalid ''bad-txns-txouttotal-toolarge''
      else check_outputs outs (nValueOut + nValue txout))"

definition CheckTransaction :: "CTransaction \<Rightarrow> unit tx_check" where
  "CheckTransaction tx =
     (let special = nType tx = TRANSACTION_QUORUM_COMMITMENT \<or> nType tx = TRANSACTION_MNHF_SIGNAL;
          allowEmptyTxIn = special \<or> nType tx = TRANSACTION_ASSET_UNLOCK \<or> HasShieldedPayload tx;
          allowEmptyTxOut = special \<or> HasShieldedPayload tx in
      if vin tx = [] \<and> vout tx = [] \<and> (\<not> allowEmptyTxIn \<or> \<not> allowEmptyTxOut) then invalid ''bad-txns-empty''
      else if \<not> allowEmptyTxIn \<and> vin tx = [] then invalid ''bad-txns-vin-empty''
      else if \<not> allowEmptyTxOut \<and> vout tx = [] then invalid ''bad-txns-vout-empty''
      else if GetTotalSize tx > MAX_LEGACY_BLOCK_SIZE then invalid ''bad-txns-oversize''
      else if length (vExtraPayload tx) > MAX_TX_EXTRA_PAYLOAD then invalid ''bad-txns-payload-oversize''
      else bind_sum (check_outputs (vout tx) 0) (\<lambda>nValueOut.
        bind_sum (Sapling_CheckTransaction tx nValueOut) (\<lambda>_.
          if \<not> insert_all (map prevout (vin tx)) {} then invalid ''bad-txns-inputs-duplicate''
          else if IsCoinBase_tx tx
          then let minCbSize = (if nType tx = TRANSACTION_COINBASE then 1 else 2);
                   n = length (scriptSig (vin tx ! 0))
               in if n < minCbSize \<or> n > 100 then invalid ''bad-cb-length'' else Inr ()
          else if list_ex (\<lambda>txin. COutPoint_IsNull (prevout txin)) (vin tx)
          then invalid ''bad-txns-prevout-null''
          else Inr ())))"

text \<open>
  The contextual check of shielded data. The hash to be signed, None when it throws, and the Rust
  library's verification of spends, outputs and the binding signature over a context are
  parameters; the context is freed on every path.
\<close>

fun check_all :: "('c \<Rightarrow> 'a \<Rightarrow> 'c option) \<Rightarrow> string \<Rightarrow> 'a list \<Rightarrow> 'c \<Rightarrow> 'c tx_check" where
  "check_all chk reason [] ctx = Inr ctx"
| "check_all chk reason (x # xs) ctx =
     (case chk ctx x of None \<Rightarrow> invalid reason | Some ctx \<Rightarrow> check_all chk reason xs ctx)"

definition Sapling_ContextualCheckTransaction ::
  "(CTransaction \<Rightarrow> uint256 option) \<Rightarrow> 'c \<Rightarrow> (uint256 \<Rightarrow> 'c \<Rightarrow> SpendDescription \<Rightarrow> 'c option) \<Rightarrow>
   ('c \<Rightarrow> OutputDescription \<Rightarrow> 'c option) \<Rightarrow> ('c \<Rightarrow> CAmount \<Rightarrow> bytes \<Rightarrow> uint256 \<Rightarrow> bool) \<Rightarrow>
   Params \<Rightarrow> int option \<Rightarrow> CTransaction \<Rightarrow> unit tx_check" where
  "Sapling_ContextualCheckTransaction sighash ctx_init check_spend check_output final_check
     consensusParams pindexPrev_height tx =
     (let shieldActive = DeploymentActiveAfter pindexPrev_height consensusParams DEPLOYMENT_KSH_SHIELD in
      if IsShieldedTxVersion tx \<and> \<not> shieldActive then invalid ''bad-txns-shield-not-active''
      else if \<not> HasShieldedPayload tx then Inr ()
      else if IsCoinBase_tx tx then invalid ''bad-cb-has-shielded-data''
      else case sighash tx of
        None \<Rightarrow> invalid ''error-computing-sapling-signature-hash''
      | Some dataToBeSigned \<Rightarrow>
          bind_sum (check_all (check_spend dataToBeSigned) ''bad-txns-sapling-spend-description-invalid''
                      (vShieldedSpend (sapData tx)) ctx_init) (\<lambda>ctx.
          bind_sum (check_all check_output ''bad-txns-sapling-output-description-invalid''
                      (vShieldedOutput (sapData tx)) ctx) (\<lambda>ctx.
            if \<not> final_check ctx (valueBalance (sapData tx)) (bindingSig (sapData tx)) dataToBeSigned
            then invalid ''bad-txns-sapling-binding-signature-invalid''
            else Inr ())))"

section \<open>Lock times\<close>

definition LOCKTIME_THRESHOLD :: int where "LOCKTIME_THRESHOLD = 500000000"
definition LOCKTIME_VERIFY_SEQUENCE :: u32 where "LOCKTIME_VERIFY_SEQUENCE = push_bit 0 1"

definition IsFinalTx :: "CTransaction \<Rightarrow> int \<Rightarrow> int \<Rightarrow> bool" where
  "IsFinalTx tx nBlockHeight nBlockTime =
     (if nLockTime tx = 0 then True
      else if uint (nLockTime tx) < (if uint (nLockTime tx) < LOCKTIME_THRESHOLD then nBlockHeight else nBlockTime)
      then True
      else list_all (\<lambda>txin. nSequence txin = SEQUENCE_FINAL) (vin tx))"

text \<open>\<open>prevHeights\<close> is changed in place: the heights of inputs without a lock become 0.\<close>

fun sequence_loop :: "BlockMap \<Rightarrow> ptr \<Rightarrow> CTxIn list \<Rightarrow> int list \<Rightarrow> int \<Rightarrow> int \<Rightarrow>
    chain_error + (int \<times> int) \<times> int list" where
  "sequence_loop bm block (txin # ins) (nCoinHeight # heights) nMinHeight nMinTime =
     (if nSequence txin AND SEQUENCE_LOCKTIME_DISABLE_FLAG \<noteq> 0
      then bind_sum (sequence_loop bm block ins heights nMinHeight nMinTime)
             (\<lambda>(l, hs). Inr (l, 0 # hs))
      else let lock = uint (nSequence txin AND SEQUENCE_LOCKTIME_MASK) in
        if nSequence txin AND SEQUENCE_LOCKTIME_TYPE_FLAG \<noteq> 0
        then bind_sum (GetAncestor bm block (max (nCoinHeight - 1) 0)) (\<lambda>a.
             case a of None \<Rightarrow> Inl Assertion_failed
             | Some a \<Rightarrow> bind_sum (GetMedianTimePast bm a) (\<lambda>nCoinTime.
                 bind_sum (sequence_loop bm block ins heights nMinHeight
                   (max nMinTime (nCoinTime + lock * 2 ^ SEQUENCE_LOCKTIME_GRANULARITY - 1)))
                   (\<lambda>(l, hs). Inr (l, nCoinHeight # hs))))
        else bind_sum (sequence_loop bm block ins heights (max nMinHeight (nCoinHeight + lock - 1)) nMinTime)
               (\<lambda>(l, hs). Inr (l, nCoinHeight # hs)))"
| "sequence_loop bm block ins heights nMinHeight nMinTime = Inr ((nMinHeight, nMinTime), heights)"

definition CalculateSequenceLocks ::
  "BlockMap \<Rightarrow> CTransaction \<Rightarrow> u32 \<Rightarrow> int list \<Rightarrow> ptr \<Rightarrow> chain_error + (int \<times> int) \<times> int list" where
  "CalculateSequenceLocks bm tx flags prevHeights block =
     (if length prevHeights \<noteq> length (vin tx) then Inl Assertion_failed
      else if \<not> (uint (word_of_int (tx_nVersion tx) :: u32) \<ge> 2 \<and> flags AND LOCKTIME_VERIFY_SEQUENCE \<noteq> 0)
      then Inr ((- 1, - 1), prevHeights)
      else sequence_loop bm block (vin tx) prevHeights (- 1) (- 1))"

definition EvaluateSequenceLocks :: "BlockMap \<Rightarrow> ptr \<Rightarrow> int \<times> int \<Rightarrow> chain_error + bool" where
  "EvaluateSequenceLocks bm block lockPair =
     bind_sum (deref bm block) (\<lambda>b.
       case pprev b of None \<Rightarrow> Inl Assertion_failed
       | Some p \<Rightarrow> bind_sum (GetMedianTimePast bm p) (\<lambda>nBlockTime.
           if fst lockPair \<ge> nHeight b \<or> snd lockPair \<ge> nBlockTime then Inr False else Inr True))"

definition SequenceLocks :: "BlockMap \<Rightarrow> CTransaction \<Rightarrow> u32 \<Rightarrow> int list \<Rightarrow> ptr \<Rightarrow> chain_error + bool \<times> int list" where
  "SequenceLocks bm tx flags prevHeights block =
     bind_sum (CalculateSequenceLocks bm tx flags prevHeights block) (\<lambda>(lockPair, prevHeights).
       bind_sum (EvaluateSequenceLocks bm block lockPair) (\<lambda>r. Inr (r, prevHeights)))"

section \<open>What the formats can represent\<close>

definition int64_ok :: "int \<Rightarrow> bool" where
  "int64_ok a \<longleftrightarrow> - (2 ^ 63) \<le> a \<and> a < 2 ^ 63"

definition outpoint_ok :: "COutPoint \<Rightarrow> bool" where
  "outpoint_ok p \<longleftrightarrow> length (op_hash p) = 32"

definition txin_ok :: "CTxIn \<Rightarrow> bool" where
  "txin_ok i \<longleftrightarrow> outpoint_ok (prevout i) \<and> length (scriptSig i) \<le> MAX_SIZE"

definition txout_ok :: "CTxOut \<Rightarrow> bool" where
  "txout_ok out \<longleftrightarrow> int64_ok (nValue out) \<and> length (scriptPubKey out) \<le> MAX_SIZE"

definition spend_ok :: "SpendDescription \<Rightarrow> bool" where
  "spend_ok d \<longleftrightarrow> length (spend_cv d) = 32 \<and> length (spend_anchor d) = 32 \<and> length (nullifier d) = 32
     \<and> length (rk d) = 32 \<and> length (spend_zkproof d) = GROTH_PROOF_SIZE \<and> length (spendAuthSig d) = 64"

definition output_ok :: "OutputDescription \<Rightarrow> bool" where
  "output_ok d \<longleftrightarrow> length (output_cv d) = 32 \<and> length (cmu d) = 32 \<and> length (ephemeralKey d) = 32
     \<and> length (encCiphertext d) = ZC_SAPLING_ENCCIPHERTEXT_SIZE
     \<and> length (outCiphertext d) = ZC_SAPLING_OUTCIPHERTEXT_SIZE
     \<and> length (output_zkproof d) = GROTH_PROOF_SIZE"

definition sapling_ok :: "SaplingTxData \<Rightarrow> bool" where
  "sapling_ok d \<longleftrightarrow> int64_ok (valueBalance d) \<and> list_all spend_ok (vShieldedSpend d)
     \<and> length (vShieldedSpend d) \<le> MAX_SIZE \<and> list_all output_ok (vShieldedOutput d)
     \<and> length (vShieldedOutput d) \<le> MAX_SIZE \<and> length (bindingSig d) = BINDINGSIG_SIZE"

definition tx_ok :: "CTransaction \<Rightarrow> bool" where
  "tx_ok tx \<longleftrightarrow> list_all txin_ok (vin tx) \<and> length (vin tx) \<le> MAX_SIZE
     \<and> list_all txout_ok (vout tx) \<and> length (vout tx) \<le> MAX_SIZE
     \<and> 0 \<le> tx_nVersion tx \<and> tx_nVersion tx < 2 ^ 15
     \<and> (if HasShieldedPayloadField tx then sapling_ok (sapData tx) else sapData tx = SaplingTxData_default)
     \<and> (if HasExtraPayloadField tx then length (vExtraPayload tx) \<le> MAX_SIZE else vExtraPayload tx = [])"

lemma unser_int64_ser:
  assumes "int64_ok a"
  shows "unser_int64 (ser_int64 a @ rest) = Some (a, rest)"
proof -
  have "sint (word_of_int a :: u64) = a"
    using assms by (simp add: int64_ok_def signed_of_int signed_take_bit_int_eq_self)
  then show ?thesis
    by (simp add: unser_int64_def ser_int64_def wire_simps)
qed

lemma int64_dec:
  "unser_int64 s = Some (a, rest) \<Longrightarrow> s = ser_int64 a @ rest \<and> int64_ok a"
  using sint_ge [where ?'a = 64] sint_lt [where ?'a = 64]
  by (auto simp: unser_int64_def ser_int64_def int64_ok_def dest!: u64.enc_dec split: bind_splits)

lemmas byte_reads = read_bytes_length

interpretation int64: canonical_codec ser_int64 unser_int64 int64_ok
  by unfold_locales (rule unser_int64_ser int64_dec; assumption)+

interpretation outpoint: canonical_codec ser_outpoint unser_outpoint outpoint_ok
  by unfold_locales
     (auto simp: ser_outpoint_def unser_outpoint_def outpoint_ok_def byte_reads wire_simps
       dest!: u32.enc_dec read_bytes_dec split: bind_splits)

interpretation txin: canonical_codec ser_txin unser_txin txin_ok
  by unfold_locales
     (auto simp: ser_txin_def unser_txin_def txin_ok_def outpoint.dec_enc wire_simps
       dest!: outpoint.enc_dec blob.enc_dec u32.enc_dec split: bind_splits)

interpretation txout: canonical_codec ser_txout unser_txout txout_ok
  by unfold_locales
     (auto simp: ser_txout_def unser_txout_def txout_ok_def int64.dec_enc wire_simps
       dest!: int64.enc_dec blob.enc_dec split: bind_splits)

interpretation spend: canonical_codec ser_spend unser_spend spend_ok
  by unfold_locales
     (auto simp: ser_spend_def unser_spend_def spend_ok_def byte_reads
       dest!: read_bytes_dec split: bind_splits)

interpretation outdesc: canonical_codec ser_output unser_output output_ok
  by unfold_locales
     (auto simp: ser_output_def unser_output_def output_ok_def byte_reads
       dest!: read_bytes_dec split: bind_splits)

interpretation sapling: canonical_codec ser_sapling unser_sapling sapling_ok
  by unfold_locales
     (auto simp: ser_sapling_def unser_sapling_def sapling_ok_def byte_reads int64.dec_enc
       spend.vector_dec_enc outdesc.vector_dec_enc
       dest!: int64.enc_dec spend.vector_enc_dec outdesc.vector_enc_dec read_bytes_dec split: bind_splits)


lemma version_fields:
  assumes "0 \<le> tx_nVersion tx" "tx_nVersion tx < 2 ^ 15"
  shows "sint (ucast (n32bitVersion tx AND 0xffff) :: u16) = tx_nVersion tx"
    and "ucast (drop_bit 16 (n32bitVersion tx) AND 0xffff) = nType tx"
proof -
  have m: "(0xffff :: u32) = mask 16" by (simp add: mask_eq_exp_minus_1)
  have hi: "\<not> bit (tx_nVersion tx) n" if "16 \<le> n" for n
  proof -
    have "take_bit 16 (tx_nVersion tx) = tx_nVersion tx"
      using assms by (simp add: take_bit_int_eq_self)
    then show ?thesis
      using that by (metis bit_take_bit_iff not_less)
  qed
  have "(ucast (n32bitVersion tx AND 0xffff) :: u16) = word_of_int (tx_nVersion tx)"
    unfolding m n32bitVersion_def by (rule bit_word_eqI) (auto simp: bit_simps)
  then show "sint (ucast (n32bitVersion tx AND 0xffff) :: u16) = tx_nVersion tx"
    using assms by (simp add: signed_of_int signed_take_bit_int_eq_self)
  show "ucast (drop_bit 16 (n32bitVersion tx) AND 0xffff) = nType tx"
    unfolding m n32bitVersion_def by (rule bit_word_eqI) (auto simp: bit_simps hi)
qed

lemma unser_tx_ser: "tx_ok tx \<Longrightarrow> unser_tx (ser_tx tx @ rest) = Some (tx, rest)"
  unfolding unser_tx_def ser_tx_def tx_ok_def HasShieldedPayloadField_def IsShieldedTxVersion_def
    HasExtraPayloadField_def IsSpecialTxVersion_def
  by (cases "SHIELDED_VERSION \<le> tx_nVersion tx";
      cases "SPECIAL_VERSION \<le> tx_nVersion tx \<and> nType tx \<noteq> TRANSACTION_NORMAL")
     (auto simp: version_fields wire_simps Let_def txin.vector_dec_enc txout.vector_dec_enc
       sapling.dec_enc)

interpretation tx: codec ser_tx unser_tx tx_ok
  by unfold_locales (rule unser_tx_ser)

section \<open>Checked transactions have a value\<close>

lemma insert_all_distinct: "insert_all xs seen \<longleftrightarrow> distinct xs \<and> set xs \<inter> seen = {}"
  by (induction xs arbitrary: seen) auto

lemma check_outputs_sum:
  "check_outputs outs n = Inr m \<Longrightarrow> MoneyRange n
     \<Longrightarrow> sum_outputs outs n = Some m \<and> m = n + (\<Sum>out\<leftarrow>outs. nValue out) \<and> MoneyRange m"
  by (induction outs n rule: check_outputs.induct) (auto simp: MoneyRange_def split: if_splits)

lemma CheckTransactionWithoutProofVerification_value:
  assumes "CheckTransactionWithoutProofVerification tx n = Inr m"
  shows "m = n + max 0 (- valueBalance (sapData tx)) \<and> (valueBalance (sapData tx) < 0 \<longrightarrow> MoneyRange m)
    \<and> \<bar>valueBalance (sapData tx)\<bar> \<le> MAX_MONEY \<and> distinct (map nullifier (vShieldedSpend (sapData tx)))"
  using assms
  by (auto simp: CheckTransactionWithoutProofVerification_def Let_def insert_all_distinct split: if_splits)

lemma CheckTransaction_parts:
  assumes "CheckTransaction tx = Inr ()"
  obtains n m where "check_outputs (vout tx) 0 = Inr n" "Sapling_CheckTransaction tx n = Inr m"
    "distinct (map prevout (vin tx))"
    "IsCoinBase_tx tx \<or> list_all (\<lambda>i. \<not> COutPoint_IsNull (prevout i)) (vin tx)"
    "GetTotalSize tx \<le> MAX_LEGACY_BLOCK_SIZE"
  using assms
  by (fastforce simp: CheckTransaction_def Let_def insert_all_distinct list_all_iff list_ex_iff split: if_splits)

lemma CheckTransaction_GetValueOut:
  assumes "CheckTransaction tx = Inr ()"
  shows "GetValueOut tx = Some ((\<Sum>out\<leftarrow>vout tx. nValue out)
      + (if HasShieldedPayloadField tx then max 0 (- valueBalance (sapData tx)) else 0))"
    and "MoneyRange (the (GetValueOut tx))"
proof -
  obtain n m where n: "check_outputs (vout tx) 0 = Inr n" "Sapling_CheckTransaction tx n = Inr m"
    using assms by (rule CheckTransaction_parts)
  have out: "sum_outputs (vout tx) 0 = Some n" "n = (\<Sum>out\<leftarrow>vout tx. nValue out)" "MoneyRange n"
    using check_outputs_sum [OF n(1)] by (auto simp: MoneyRange_def MAX_MONEY_def COIN_def)
  have bal: "valueBalance (sapData tx) < 0 \<Longrightarrow> HasShieldedPayloadField tx
      \<Longrightarrow> MoneyRange (n - valueBalance (sapData tx)) \<and> MoneyRange (- valueBalance (sapData tx))"
    using n(2) CheckTransactionWithoutProofVerification_value [of tx n m]
    by (auto simp: Sapling_CheckTransaction_def HasShieldedPayload_def SaplingTxData_IsEmpty_def
        MoneyRange_def split: if_splits)
  show "GetValueOut tx = Some ((\<Sum>out\<leftarrow>vout tx. nValue out)
      + (if HasShieldedPayloadField tx then max 0 (- valueBalance (sapData tx)) else 0))"
    using bal out by (auto simp: GetValueOut_def Let_def)
  then show "MoneyRange (the (GetValueOut tx))"
    using bal out by (cases "valueBalance (sapData tx) < 0") auto
qed

section \<open>Relative lock times\<close>

definition mtp :: "BlockMap \<Rightarrow> ptr \<Rightarrow> int" where
  "mtp bm p = (case GetMedianTimePast bm p of Inr m \<Rightarrow> m | Inl _ \<Rightarrow> 0)"

text \<open>The rule of BIP 68 for one input that spends a coin of height \<open>ch\<close>.\<close>

definition input_unlocked :: "BlockMap \<Rightarrow> ptr \<Rightarrow> CTxIn \<Rightarrow> int \<Rightarrow> bool" where
  "input_unlocked bm block txin ch \<longleftrightarrow>
     nSequence txin AND SEQUENCE_LOCKTIME_DISABLE_FLAG \<noteq> 0 \<or>
     (let lock = uint (nSequence txin AND SEQUENCE_LOCKTIME_MASK); b = the (bm block) in
      if nSequence txin AND SEQUENCE_LOCKTIME_TYPE_FLAG \<noteq> 0
      then mtp bm (the (ancestor_at bm block (max (ch - 1) 0))) + lock * 512 \<le> mtp bm (the (pprev b))
      else ch + lock \<le> nHeight b)"

lemma GetMedianTimePast_mtp:
  assumes "linked bm" "bm p = Some b"
  shows "GetMedianTimePast bm p = Inr (mtp bm p)"
  using GetMedianTimePast_total [OF assms] by (auto simp: mtp_def)

lemma past_times_nonneg: "past_times bm n p = Inr ts \<Longrightarrow> t \<in> set ts \<Longrightarrow> 0 \<le> t"
  by (induction n arbitrary: p ts) (auto simp: GetBlockTime_def split: option.splits)

lemma mtp_nonneg:
  assumes "linked bm" "bm p = Some b"
  shows "0 \<le> mtp bm p"
proof -
  obtain ts where ts: "past_times bm nMedianTimeSpan (Some p) = Inr ts" "ts \<noteq> []"
    "GetMedianTimePast bm p = Inr (sort (rev ts) ! (length ts div 2))"
    using GetMedianTimePast_total [OF assms] by auto
  have "sort (rev ts) ! (length ts div 2) \<in> set (sort (rev ts))"
    using ts(2) by (intro nth_mem) simp
  then have "sort (rev ts) ! (length ts div 2) \<in> set ts" by simp
  then show ?thesis
    using past_times_nonneg [OF ts(1)] ts(3) by (simp add: mtp_def)
qed

lemma sequence_loop_spec:
  assumes "linked bm" "skips_ok bm" "bm block = Some b" "pprev b = Some p"
    and "length hts = length ins" "\<forall>h \<in> set hts. h \<le> nHeight b + 1"
  shows "\<exists>mh' mt' hs. sequence_loop bm block ins hts mh mt = Inr ((mh', mt'), hs) \<and>
     (mh' < nHeight b \<and> mt' < mtp bm p \<longleftrightarrow>
      mh < nHeight b \<and> mt < mtp bm p \<and> list_all2 (input_unlocked bm block) ins hts)"
  using assms(5,6)
proof (induction ins hts arbitrary: mh mt rule: list_induct2')
  case (4 txin ins ch hts)
  have h0: "0 \<le> nHeight b" by (rule linkedD(2) [OF assms(1,3)])
  let ?k = "max (ch - 1) 0"
  obtain a where a: "ancestor_at bm block ?k = Some a"
    using ancestor_at_exists [OF assms(1,3), of ?k] "4.prems" h0 by auto
  then obtain ba where ba: "bm a = Some ba"
    using tree.anc_height_eq [OF assms(1) a] by (auto simp: height_of_def)
  have IH: "\<exists>mh' mt' hs. sequence_loop bm block ins hts mh mt = Inr ((mh', mt'), hs) \<and>
     (mh' < nHeight b \<and> mt' < mtp bm p \<longleftrightarrow>
      mh < nHeight b \<and> mt < mtp bm p \<and> list_all2 (input_unlocked bm block) ins hts)" for mh mt
    using 4 by auto
  let ?lock = "uint (nSequence txin AND SEQUENCE_LOCKTIME_MASK)"
  consider (off) "nSequence txin AND SEQUENCE_LOCKTIME_DISABLE_FLAG \<noteq> 0"
    | (time) "nSequence txin AND SEQUENCE_LOCKTIME_DISABLE_FLAG = 0"
        "nSequence txin AND SEQUENCE_LOCKTIME_TYPE_FLAG \<noteq> 0"
    | (height) "nSequence txin AND SEQUENCE_LOCKTIME_DISABLE_FLAG = 0"
        "nSequence txin AND SEQUENCE_LOCKTIME_TYPE_FLAG = 0"
    by blast
  then show ?case
  proof cases
    case off
    then show ?thesis using IH [of mh mt] by (auto simp: input_unlocked_def [of bm block txin ch])
  next
    case time
    then show ?thesis
      using IH [of mh "max mt (mtp bm a + ?lock * 512 - 1)"] a
      by (auto simp: input_unlocked_def [of bm block txin ch] GetAncestor_correct [OF assms(1-3)]
          GetMedianTimePast_mtp [OF assms(1) ba] assms(3,4) SEQUENCE_LOCKTIME_GRANULARITY_def Let_def)
  next
    case height
    then show ?thesis
      using IH [of "max mh (ch + ?lock - 1)" mt]
      by (auto simp: input_unlocked_def [of bm block txin ch] assms(3) Let_def)
  qed
qed auto

lemma SequenceLocks_spec:
  assumes "linked bm" "skips_ok bm" "bm block = Some b" "pprev b = Some p"
    and "length prevHeights = length (vin tx)" "\<forall>h \<in> set prevHeights. h \<le> nHeight b + 1"
    and "2 \<le> uint (word_of_int (tx_nVersion tx) :: u32)" "flags AND LOCKTIME_VERIFY_SEQUENCE \<noteq> 0"
  shows "\<exists>hs. SequenceLocks bm tx flags prevHeights block
      = Inr (list_all2 (input_unlocked bm block) (vin tx) prevHeights, hs)"
proof -
  obtain q where q: "bm p = Some q" using linkedD(4) [OF assms(1,3,4)] by auto
  have "-1 < nHeight b" "-1 < mtp bm p"
    using linkedD(2) [OF assms(1,3)] mtp_nonneg [OF assms(1) q] by linarith+
  then obtain mh' mt' hs where l: "sequence_loop bm block (vin tx) prevHeights (-1) (-1) = Inr ((mh', mt'), hs)"
    and u: "list_all2 (input_unlocked bm block) (vin tx) prevHeights \<longleftrightarrow> mh' < nHeight b \<and> mt' < mtp bm p"
    using sequence_loop_spec [OF assms(1-6), of "-1" "-1"] by auto
  have "SequenceLocks bm tx flags prevHeights block = Inr (mh' < nHeight b \<and> mt' < mtp bm p, hs)"
    unfolding SequenceLocks_def CalculateSequenceLocks_def EvaluateSequenceLocks_def
    using l assms(5,7,8) by (simp add: assms(3,4) GetMedianTimePast_mtp [OF assms(1) q] not_le)
  then show ?thesis unfolding u by blast
qed

section \<open>Negative versions\<close>

lemma negative_version_bits:
  fixes v :: int
  assumes "- (2 ^ 15) \<le> v" "v < 0" "15 \<le> n"
  shows "bit v n"
proof -
  have "take_bit 15 (NOT v) = NOT v"
    using assms by (simp add: take_bit_int_eq_self not_int_def)
  then have "\<not> bit (NOT v) n"
    using assms(3) by (metis bit_take_bit_iff not_less)
  then show ?thesis by (simp add: bit_not_iff)
qed

lemma n32bitVersion_negative:
  assumes "- (2 ^ 15) \<le> tx_nVersion tx" "tx_nVersion tx < 0"
  shows "n32bitVersion tx = word_of_int (tx_nVersion tx)"
  unfolding n32bitVersion_def
  by (rule bit_word_eqI) (auto simp: bit_simps negative_version_bits [OF assms])

section \<open>Properties of transactions\<close>

definition example_tx :: CTransaction where
  "example_tx = CMutableTransaction_default
     \<lparr>vin := [\<lparr>prevout = \<lparr>op_hash = replicate 32 1, op_n = 0\<rparr>, scriptSig = [], nSequence = 3\<rparr>],
      vout := [\<lparr>nValue = 5, scriptPubKey = [0x51]\<rparr>]\<rparr>"

lemmas example_tx_defs = example_tx_def CMutableTransaction_default_def SaplingTxData_default_def
  tx_version_defs tx_type_defs

lemma example_tx_ok: "tx_ok example_tx"
  by (simp add: example_tx_defs tx_ok_def txin_ok_def outpoint_ok_def txout_ok_def int64_ok_def
      MAX_SIZE_def HasShieldedPayloadField_def IsShieldedTxVersion_def HasExtraPayloadField_def
      IsSpecialTxVersion_def)

lemma example_tx_checks: "CheckTransaction example_tx = Inr ()"
  by (simp add: example_tx_defs CheckTransaction_def GetTotalSize_def ser_tx_def ser_vector_def ser_txin_def
      ser_outpoint_def ser_txout_def ser_int64_def ser_blob_def WriteCompactSize_def ser_writedata8_def
      ser_writedata32_def ser_writedata64_def MAX_LEGACY_BLOCK_SIZE_def MAX_TX_EXTRA_PAYLOAD_def
      HasShieldedPayload_def HasShieldedPayloadField_def IsShieldedTxVersion_def HasExtraPayloadField_def
      IsSpecialTxVersion_def MAX_MONEY_def COIN_def MoneyRange_def Sapling_CheckTransaction_def
      IsCoinBase_tx_def COutPoint_IsNull_def NULL_INDEX_def)

text \<open>C24. Reading a serialised transaction gives the transaction back and leaves the rest of the stream:
  no field is lost, for every transaction with a non-negative version whose optional fields are
  present exactly when its version and type say so.\<close>

theorem transaction_round_trip:
  assumes "tx_ok tx"
  shows "unser_tx (ser_tx tx @ rest) = Some (tx, rest)"
  by (rule tx.dec_enc [OF assms])

theorem transaction_round_trip_witness:
  "unser_tx (ser_tx example_tx @ [1, 2]) = Some (example_tx, [1, 2])"
  by (rule transaction_round_trip [OF example_tx_ok])

text \<open>C25. For a negative version the sign bits cover the type in the combined 32-bit version: two
  transactions that differ only in their type have the same serialisation, and so the same hash,
  and the type that was set is not the one that is read back.\<close>

theorem negative_version_hides_type:
  assumes "- (2 ^ 15) \<le> tx_nVersion tx" "tx_nVersion tx < 0"
  shows "ser_tx (tx\<lparr>nType := t\<rparr>) = ser_tx tx"
  using assms n32bitVersion_negative [of tx] n32bitVersion_negative [of "tx\<lparr>nType := t\<rparr>"]
  by (simp add: ser_tx_def HasShieldedPayloadField_def IsShieldedTxVersion_def HasExtraPayloadField_def
      IsSpecialTxVersion_def tx_version_defs)

theorem negative_version_hides_type_witness:
  "ser_tx (example_tx\<lparr>tx_nVersion := - 1, nType := TRANSACTION_COINBASE\<rparr>)
     = ser_tx (example_tx\<lparr>tx_nVersion := - 1\<rparr>)"
  using negative_version_hides_type [of "example_tx\<lparr>tx_nVersion := - 1\<rparr>" TRANSACTION_COINBASE] by simp

text \<open>C26. A transaction that passes \<open>CheckTransaction\<close> has a value: \<open>GetValueOut\<close> does not throw, its result
  is the sum of the outputs plus the value that enters the shielded pool, it is in the money range,
  no two inputs spend the same output, and only a coinbase has a null input.\<close>

theorem checked_transaction_has_value:
  assumes "CheckTransaction tx = Inr ()"
  shows "\<exists>v. GetValueOut tx = Some v \<and> MoneyRange v
    \<and> v = (\<Sum>out\<leftarrow>vout tx. nValue out)
        + (if HasShieldedPayloadField tx then max 0 (- valueBalance (sapData tx)) else 0)
    \<and> distinct (map prevout (vin tx))
    \<and> (if IsCoinBase_tx tx then length (vin tx) = 1
       else list_all (\<lambda>i. \<not> COutPoint_IsNull (prevout i)) (vin tx))"
  using CheckTransaction_GetValueOut [OF assms] CheckTransaction_parts [OF assms]
  by (auto simp: IsCoinBase_tx_def)

theorem checked_transaction_has_value_witness:
  "\<exists>v. GetValueOut example_tx = Some v \<and> MoneyRange v \<and> v = 5 + 0
    \<and> distinct (map prevout (vin example_tx))"
  using checked_transaction_has_value [OF example_tx_checks]
  by (auto simp: example_tx_defs HasShieldedPayloadField_def IsShieldedTxVersion_def)

text \<open>C27. Relative lock times follow BIP 68: on a linked header tree, with the flag set and a version
  that is at least 2 when read as unsigned, \<open>SequenceLocks\<close> fails no assertion and holds exactly when
  every input is unlocked, by height or by the median time past of the block before its coin.\<close>

theorem sequence_locks_follow_bip68:
  assumes "linked bm" "skips_ok bm" "bm block = Some b" "pprev b = Some p"
    and "length prevHeights = length (vin tx)" "\<forall>h \<in> set prevHeights. h \<le> nHeight b + 1"
    and "2 \<le> uint (word_of_int (tx_nVersion tx) :: u32)" "flags AND LOCKTIME_VERIFY_SEQUENCE \<noteq> 0"
  shows "\<exists>hs. SequenceLocks bm tx flags prevHeights block
      = Inr (list_all2 (input_unlocked bm block) (vin tx) prevHeights, hs)"
  by (rule SequenceLocks_spec [OF assms])

theorem sequence_locks_follow_bip68_witness:
  "\<exists>hs. SequenceLocks (line_map 8 (\<lambda>_. 0) 0) example_tx 1 [4] (line_ptr 7) = Inr (True, hs)"
proof -
  let ?bm = "line_map 8 (\<lambda>_. 0) 0"
  have b: "?bm (line_ptr 7) = Some (line_entry (\<lambda>_. 0) 0 7)" by (rule line_map_ptr) auto
  have "\<exists>hs. SequenceLocks ?bm example_tx 1 [4] (line_ptr 7)
      = Inr (list_all2 (input_unlocked ?bm (line_ptr 7)) (vin example_tx) [4], hs)"
    by (rule sequence_locks_follow_bip68 [OF linked_line_map skips_ok_line_map b, of "line_ptr 6"])
       (simp_all add: line_entry_def example_tx_defs LOCKTIME_VERIFY_SEQUENCE_def)
  then show ?thesis
    by (simp add: example_tx_defs input_unlocked_def b line_entry_def SEQUENCE_LOCKTIME_DISABLE_FLAG_def
        SEQUENCE_LOCKTIME_TYPE_FLAG_def SEQUENCE_LOCKTIME_MASK_def)
qed

end
