(* ===== verification/Subsidy.thy ===== *)
theory Subsidy
  imports Transactions
begin

text \<open>
Emission: the block subsidy with its halvings, cap and superblock part, and the masternode share
  of a block, from \<^verbatim>\<open>validation.cpp\<close>.
\<close>


section \<open>Block subsidy\<close>

definition kBaseSubsidy :: CAmount where "kBaseSubsidy = 2 * COIN"
definition kNewHalvingInterval :: int where "kNewHalvingInterval = 2500000"
definition kKSHv040MinSubsidy :: CAmount where "kKSHv040MinSubsidy = COIN"

definition halving_interval :: "Params \<Rightarrow> int \<Rightarrow> int" where
  "halving_interval p nPrevHeight =
     (if IsKSHv040Active p (nPrevHeight + 1) \<or> nPrevHeight \<ge> nKSHv014Height p
      then kNewHalvingInterval else nSubsidyHalvingInterval p)"

function issued_loop :: "int \<Rightarrow> int \<Rightarrow> CAmount \<Rightarrow> CAmount \<Rightarrow> CAmount" where
  "issued_loop nHalvingInterval nRemainingRewardedBlocks nEraSubsidy nIssued =
     (if nRemainingRewardedBlocks > 0 \<and> nEraSubsidy > 0
      then let nEraBlocks = min nRemainingRewardedBlocks nHalvingInterval
           in issued_loop nHalvingInterval (nRemainingRewardedBlocks - nEraBlocks) (nEraSubsidy div 2)
                (nIssued + nEraBlocks * nEraSubsidy)
      else nIssued)"
  by pat_completeness auto

termination issued_loop
  by (relation "measure (\<lambda>(_, _, e, _). nat e)") auto

declare issued_loop.simps [simp del]

definition scheduled_subsidy :: "Params \<Rightarrow> int \<Rightarrow> CAmount" where
  "scheduled_subsidy p nPrevHeight =
     (let nSubsidyShift = cdiv nPrevHeight (halving_interval p nPrevHeight);
          nSubsidy = (if nSubsidyShift \<ge> 64 then 0 else kBaseSubsidy div 2 ^ nat nSubsidyShift)
      in if IsKSHv040Active p (nPrevHeight + 1) \<and> nSubsidy < kKSHv040MinSubsidy
         then kKSHv040MinSubsidy else nSubsidy)"

definition capped_subsidy :: "Params \<Rightarrow> int \<Rightarrow> CAmount" where
  "capped_subsidy p nPrevHeight =
     (let nSubsidy = scheduled_subsidy p nPrevHeight;
          nIssued = issued_loop (halving_interval p nPrevHeight) nPrevHeight kBaseSubsidy 0
      in if nIssued \<ge> nMaxMoney p then 0
         else if nSubsidy > nMaxMoney p - nIssued then nMaxMoney p - nIssued
         else nSubsidy)"

text \<open>
  The yearly decline of the development networks. The loop does not end for an interval that is not
  positive, which is None.
\<close>

partial_function (option) decline_loop :: "int \<Rightarrow> int \<Rightarrow> int \<Rightarrow> CAmount \<Rightarrow> CAmount option" where
  "decline_loop interval nPrevHeight i nSubsidy =
     (if i \<le> nPrevHeight
      then decline_loop interval nPrevHeight (i + interval) (nSubsidy - cdiv nSubsidy 14)
      else Some nSubsidy)"

text \<open>
  On development networks the base subsidy before V20 is a formula in double precision over the
  previous bits and the height; it is the parameter \<open>nSubsidyBase\<close>. The result is the block part
  and the superblock part; None is the failed assertion on the network.
\<close>

definition GetBlockSubsidyHelper ::
  "(u32 \<Rightarrow> int \<Rightarrow> CAmount) \<Rightarrow> u32 \<Rightarrow> int \<Rightarrow> Params \<Rightarrow> bool \<Rightarrow> (CAmount \<times> CAmount) option" where
  "GetBlockSubsidyHelper nSubsidyBase nPrevBits nPrevHeight p fV20Active =
     (if NetworkID p = MAIN \<or> NetworkID p = TESTNET
      then let nSubsidy = capped_subsidy p nPrevHeight;
               nSuperblockPart = (if nPrevHeight > nBudgetPaymentsStartBlock p then cdiv nSubsidy 10 else 0)
           in Some (nSubsidy - nSuperblockPart, nSuperblockPart)
      else do {
        let isDevnet = (NetworkID p = DEVNET);
        let base = (if fV20Active \<or> (isDevnet \<and> nPrevHeight \<ge> nHighSubsidyBlocks p) then 5
                    else nSubsidyBase nPrevBits nPrevHeight);
        nSubsidy \<leftarrow> decline_loop (nSubsidyHalvingInterval p) nPrevHeight (nSubsidyHalvingInterval p) (base * COIN);
        nSubsidy \<leftarrow> (if nPrevHeight < nHighSubsidyBlocks p
                     then if \<not> isDevnet then None else Some (nSubsidy * nHighSubsidyFactor p)
                     else Some nSubsidy);
        let nSuperblockPart = (if nPrevHeight > nBudgetPaymentsStartBlock p
                               then cdiv nSubsidy (if fV20Active then 5 else 10) else 0);
        Some (nSubsidy - nSuperblockPart, nSuperblockPart) })"

definition GetSuperblockSubsidyInner ::
  "(u32 \<Rightarrow> int \<Rightarrow> CAmount) \<Rightarrow> u32 \<Rightarrow> int \<Rightarrow> Params \<Rightarrow> bool \<Rightarrow> CAmount option" where
  "GetSuperblockSubsidyInner nSubsidyBase nPrevBits nPrevHeight p fV20Active =
     map_option snd (GetBlockSubsidyHelper nSubsidyBase nPrevBits nPrevHeight p fV20Active)"

definition GetBlockSubsidyInner ::
  "(u32 \<Rightarrow> int \<Rightarrow> CAmount) \<Rightarrow> u32 \<Rightarrow> int \<Rightarrow> Params \<Rightarrow> bool \<Rightarrow> CAmount option" where
  "GetBlockSubsidyInner nSubsidyBase nPrevBits nPrevHeight p fV20Active =
     map_option fst (GetBlockSubsidyHelper nSubsidyBase nPrevBits nPrevHeight p fV20Active)"

definition GetBlockSubsidy ::
  "(u32 \<Rightarrow> int \<Rightarrow> CAmount) \<Rightarrow> CTransaction \<Rightarrow> BlockMap \<Rightarrow> CBlockIndex \<Rightarrow> Params \<Rightarrow> CAmount option" where
  "GetBlockSubsidy nSubsidyBase genesis_tx bm pindex p = (case pprev pindex of
     None \<Rightarrow> GetValueOut genesis_tx
   | Some q \<Rightarrow> (case bm q of None \<Rightarrow> None
       | Some prev \<Rightarrow> GetBlockSubsidyInner nSubsidyBase (nBits prev) (nHeight prev) p
                         (DeploymentActiveAt (nHeight pindex) p DEPLOYMENT_V20)))"

section \<open>The masternode share\<close>

definition vecPeriods :: "int list" where
  "vecPeriods = [513, 526, 533, 540, 546, 552, 557, 562, 567, 572, 577, 582, 585, 588, 591, 594, 597, 599, 600]"

text \<open>The increments of the old schedule: after how many periods, and the divisor of the block value.\<close>

definition share_increments :: "(int \<times> int) list" where
  "share_increments = [(0, 20), (1, 20), (2, 20), (3, 40), (4, 40), (5, 40), (6, 40), (7, 40), (9, 40)]"

definition legacy_share :: "Params \<Rightarrow> int \<Rightarrow> CAmount \<Rightarrow> CAmount" where
  "legacy_share p height blockValue =
     fold (\<lambda>(k, d) ret. if height > nMasternodePaymentsIncreaseBlock p + nMasternodePaymentsIncreasePeriod p * k
                         then ret + cdiv blockValue d else ret)
       share_increments (cdiv blockValue 5)"

definition GetMasternodePayment :: "Params \<Rightarrow> int \<Rightarrow> CAmount \<Rightarrow> bool \<Rightarrow> CAmount" where
  "GetMasternodePayment p height blockValue fV20Active =
     (if height \<ge> nKSHv030Height p then cdiv (blockValue * 4) 5
      else if height \<ge> nKSHv014Height p then cdiv (blockValue * 3) 10
      else
        let ret = legacy_share p height blockValue;
            nReallocActivationHeight = BRRHeight p;
            nReallocStart = nReallocActivationHeight - cmod nReallocActivationHeight (nSuperblockCycle p)
                              + nSuperblockCycle p
        in if height \<ge> nBRRFixHeight p then ret
           else if height < nReallocActivationHeight then ret
           else if height < nReallocStart then ret
           else if fV20Active then cdiv (blockValue * 3) 4
           else
             let nReallocCycle = nSuperblockCycle p * 3;
                 nCurrentPeriod = min (cdiv (height - nReallocStart) nReallocCycle) (int (length vecPeriods) - 1)
             in cdiv (blockValue * vecPeriods ! nat nCurrentPeriod) 1000)"

section \<open>The share lies within the block value\<close>

lemma vecPeriods_range:
  assumes "i < length vecPeriods"
  shows "0 \<le> vecPeriods ! i" "vecPeriods ! i \<le> 1000"
proof -
  have "list_all (\<lambda>x. 0 \<le> x \<and> x \<le> 1000) vecPeriods" by (simp add: vecPeriods_def)
  then have "0 \<le> vecPeriods ! i \<and> vecPeriods ! i \<le> 1000" using assms by (simp add: list_all_length)
  then show "0 \<le> vecPeriods ! i" "vecPeriods ! i \<le> 1000" by simp_all
qed

lemma realloc_period:
  assumes "nSuperblockCycle p > 0" "start \<le> height"
  shows "nat (min (cdiv (height - start) (nSuperblockCycle p * 3)) (int (length vecPeriods) - 1)) < length vecPeriods"
  using assms by (auto simp: vecPeriods_def min_def pos_imp_zdiv_nonneg_iff)

text \<open>Whatever the height, the share is one non-decreasing function of the block value.\<close>

lemma share_fold:
  fixes c :: "int \<Rightarrow> bool" and ds :: "(int \<times> int) list"
  assumes "\<forall>(k, d) \<in> set ds. 0 < d" "0 \<le> a" "a \<le> b" "0 \<le> r" "r \<le> r'"
  defines "F \<equiv> \<lambda>v. fold (\<lambda>(k, d) ret. if c k then ret + cdiv v d else ret) ds"
  shows "0 \<le> F a r \<and> F a r \<le> F b r' \<and> F a r \<le> r + (\<Sum>(k, d)\<leftarrow>ds. a div d)"
  using assms(1,4,5) unfolding F_def
proof (induction ds arbitrary: r r')
  case (Cons kd ds)
  obtain k d where kd: "kd = (k, d)" by fastforce
  have d: "0 < d" "0 \<le> a div d" "a div d \<le> b div d"
    using Cons.prems assms(2,3) by (auto simp: kd zdiv_mono1 pos_imp_zdiv_nonneg_iff)
  have c: "cdiv a d = a div d" "cdiv b d = b div d" using d assms(2,3) by simp_all
  show ?case
    using Cons.IH [of "if c k then r + a div d else r" "if c k then r' + b div d else r'"] Cons.prems d
    by (auto simp: kd c split: if_splits)
qed simp

lemma legacy_share_mono:
  assumes "0 \<le> a" "a \<le> b"
  shows "0 \<le> legacy_share p height a \<and> legacy_share p height a \<le> legacy_share p height b
    \<and> legacy_share p height a \<le> a"
proof -
  have "a div 5 \<le> b div 5" "0 \<le> a div 5" using assms by (simp_all add: zdiv_mono1)
  note f = share_fold [of share_increments a b "a div 5" "b div 5"
      "\<lambda>k. height > nMasternodePaymentsIncreaseBlock p + nMasternodePaymentsIncreasePeriod p * k", OF _ assms this(2,1)]
  have "(\<Sum>(k, d)\<leftarrow>share_increments. a div d) = 3 * (a div 20) + 6 * (a div 40)"
    by (simp add: share_increments_def)
  moreover have "a div 5 + 3 * (a div 20) + 6 * (a div 40) \<le> a" using assms by linarith
  ultimately show ?thesis
    using f assms unfolding legacy_share_def by (simp add: share_increments_def)
qed

lemma div_share_mono:
  fixes a b :: int
  assumes "0 \<le> a" "a \<le> b" "0 \<le> m" "m \<le> n" "0 < n"
  shows "0 \<le> a * m div n \<and> a * m div n \<le> b * m div n \<and> a * m div n \<le> a"
proof -
  have "a * m \<le> b * m" using assms by (simp add: mult_right_mono)
  then have 1: "a * m div n \<le> b * m div n" using assms(5) by (rule zdiv_mono1)
  have "a * m \<le> a * n" using assms by (simp add: mult_left_mono)
  then have "a * m div n \<le> a * n div n" using assms(5) by (rule zdiv_mono1)
  also have "\<dots> = a" using assms(5) by simp
  finally show ?thesis using assms 1 by (simp add: pos_imp_zdiv_nonneg_iff)
qed

lemma GetMasternodePayment_form:
  assumes "0 < nSuperblockCycle p"
  shows "(\<exists>m n. 0 \<le> m \<and> m \<le> n \<and> 0 < n \<and> (\<forall>v \<ge> 0. GetMasternodePayment p height v v20 = v * m div n))
    \<or> (\<forall>v. GetMasternodePayment p height v v20 = legacy_share p height v)"
proof -
  let ?start = "BRRHeight p - cmod (BRRHeight p) (nSuperblockCycle p) + nSuperblockCycle p"
  let ?i = "nat (min (cdiv (height - ?start) (nSuperblockCycle p * 3)) (int (length vecPeriods) - 1))"
  have frac: ?thesis if "\<And>v. GetMasternodePayment p height v v20 = cdiv (v * m) n" "0 \<le> m" "m \<le> n" "0 < n" for m n
    using that by (intro disjI1 exI [of _ m] exI [of _ n]) simp
  consider "height \<ge> nKSHv030Height p" | "height < nKSHv030Height p" "height \<ge> nKSHv014Height p"
    | "height < nKSHv030Height p" "height < nKSHv014Height p"
        "height \<ge> nBRRFixHeight p \<or> height < BRRHeight p \<or> height < ?start"
    | "height < nKSHv030Height p" "height < nKSHv014Height p"
        "\<not> (height \<ge> nBRRFixHeight p \<or> height < BRRHeight p \<or> height < ?start)" v20
    | "height < nKSHv030Height p" "height < nKSHv014Height p"
        "\<not> (height \<ge> nBRRFixHeight p \<or> height < BRRHeight p \<or> height < ?start)" "\<not> v20"
    by linarith
  then show ?thesis
  proof cases
    case 1
    then show ?thesis by (intro frac [of 4 5]) (simp_all add: GetMasternodePayment_def)
  next
    case 2
    then show ?thesis by (intro frac [of 3 10]) (simp_all add: GetMasternodePayment_def)
  next
    case 3
    then show ?thesis by (auto simp: GetMasternodePayment_def Let_def)
  next
    case 4
    then show ?thesis by (intro frac [of 3 4]) (simp_all add: GetMasternodePayment_def Let_def)
  next
    case 5
    have "?i < length vecPeriods" using 5 by (intro realloc_period [OF assms]) simp
    from vecPeriods_range [OF this] 5 show ?thesis
      by (intro frac [of "vecPeriods ! ?i" 1000]) (simp_all only: GetMasternodePayment_def Let_def, simp_all)
  qed
qed

lemma GetMasternodePayment_mono:
  assumes "0 \<le> a" "a \<le> b" "0 < nSuperblockCycle p"
  shows "0 \<le> GetMasternodePayment p height a v20
    \<and> GetMasternodePayment p height a v20 \<le> GetMasternodePayment p height b v20
    \<and> GetMasternodePayment p height a v20 \<le> a"
  using GetMasternodePayment_form [OF assms(3), of height v20]
proof
  assume "\<exists>m n. 0 \<le> m \<and> m \<le> n \<and> 0 < n \<and> (\<forall>v \<ge> 0. GetMasternodePayment p height v v20 = v * m div n)"
  then obtain m n where "0 \<le> m" "m \<le> n" "0 < n" "\<forall>v \<ge> 0. GetMasternodePayment p height v v20 = v * m div n"
    by blast
  then show ?thesis using div_share_mono [OF assms(1,2), of m n] assms(1,2) by simp
next
  assume "\<forall>v. GetMasternodePayment p height v v20 = legacy_share p height v"
  then show ?thesis using legacy_share_mono [OF assms(1,2), of p height] by simp
qed

section \<open>Emission\<close>

definition emission :: "nat \<Rightarrow> CAmount \<Rightarrow> nat \<Rightarrow> CAmount" where
  "emission I s n = (\<Sum>i<n. s div 2 ^ (i div I))"

lemma emission_rec:
  assumes "0 < I" "I \<le> n"
  shows "emission I s n = int I * s + emission I (s div 2) (n - I)"
proof -
  have "emission I s n = (\<Sum>i<I. s div 2 ^ (i div I)) + (\<Sum>i\<in>{I..<n}. s div 2 ^ (i div I))"
    unfolding emission_def using assms(2) by (subst sum.union_disjoint [symmetric]) (auto intro!: sum.cong)
  also have "(\<Sum>i<I. s div 2 ^ (i div I)) = (\<Sum>i<I. s)"
    by (rule sum.cong) auto
  also have "(\<Sum>i\<in>{I..<n}. s div 2 ^ (i div I)) = (\<Sum>i<n - I. s div 2 ^ ((i + I) div I))"
    using assms(2) by (intro sum.reindex_bij_witness [of _ "\<lambda>i. i + I" "\<lambda>i. i - I"]) auto
  also have "\<dots> = (\<Sum>i<n - I. s div 2 div 2 ^ (i div I))"
    using assms(1) by (intro sum.cong) (auto simp: div_add_self2 zdiv_zmult2_eq)
  finally show ?thesis by (simp add: emission_def)
qed

lemma emission_short: "n \<le> I \<Longrightarrow> emission I s n = int n * s"
  unfolding emission_def by (simp add: sum.cong [of "{..<n}" _ "\<lambda>i. s div 2 ^ (i div I)" "\<lambda>_. s"])

lemma emission_zero [simp]: "emission I 0 n = 0"
  by (simp add: emission_def)

lemma issued_loop_emission:
  assumes "0 < I" "0 \<le> s"
  shows "issued_loop (int I) (int n) s acc = acc + emission I s n"
  using assms(2)
proof (induction "nat s" arbitrary: s n acc rule: less_induct)
  case less
  show ?case
  proof (cases "0 < n \<and> 0 < s")
    case True
    show ?thesis
    proof (cases "I \<le> n")
      case le: True
      have "issued_loop (int I) (int (n - I)) (s div 2) (acc + int I * s)
          = acc + int I * s + emission I (s div 2) (n - I)"
        using True by (intro less.hyps) auto
      then show ?thesis
        using True le by (subst issued_loop.simps) (simp add: Let_def min_absorb2 of_nat_diff emission_rec [OF assms(1) le])
    next
      case False
      then show ?thesis
        using True by (subst issued_loop.simps) (simp add: Let_def min_def emission_short issued_loop.simps)
    qed
  next
    case False
    then show ?thesis
      using less.prems by (subst issued_loop.simps) (auto simp: emission_def)
  qed
qed

lemma emission_bound:
  assumes "0 < I" "0 \<le> s"
  shows "emission I s n \<le> 2 * int I * s"
  using assms(2)
proof (induction "nat s" arbitrary: s n rule: less_induct)
  case less
  show ?case
  proof (cases "I \<le> n \<and> 0 < s")
    case True
    then have "emission I (s div 2) (n - I) \<le> 2 * int I * (s div 2)"
      by (intro less.hyps) auto
    also have "\<dots> = int I * (2 * (s div 2))" by simp
    also have "\<dots> \<le> int I * s" by (intro mult_left_mono) auto
    finally show ?thesis using True by (simp add: emission_rec [OF assms(1)] mult.commute)
  next
    case False
    then consider "n < I" | "s = 0" using less.prems by linarith
    then show ?thesis
      by cases (use less.prems in \<open>auto simp: emission_short intro!: mult_right_mono\<close>)
  qed
qed

lemma emission_mono: "n \<le> m \<Longrightarrow> 0 \<le> s \<Longrightarrow> emission I s n \<le> emission I s m"
  unfolding emission_def by (intro sum_mono2) (auto simp: pos_imp_zdiv_nonneg_iff)

lemma emission_Suc: "emission I s (Suc n) = emission I s n + s div 2 ^ (n div I)"
  by (simp add: emission_def)

lemma base_shift: "(if (k :: int) \<ge> 64 then 0 else kBaseSubsidy div 2 ^ nat k) = kBaseSubsidy div 2 ^ nat k"
proof -
  have "kBaseSubsidy div 2 ^ nat k = 0" if "64 \<le> k"
  proof -
    have "(2 :: int) ^ 64 \<le> 2 ^ nat k" using that by (intro power_increasing) auto
    moreover have "kBaseSubsidy < 2 ^ 64" by (simp add: kBaseSubsidy_def COIN_def)
    ultimately have "kBaseSubsidy < 2 ^ nat k" by linarith
    then show ?thesis by (simp add: kBaseSubsidy_def COIN_def)
  qed
  then show ?thesis by simp
qed

definition minted :: "Params \<Rightarrow> nat \<Rightarrow> CAmount" where
  "minted p n = (\<Sum>i<n. capped_subsidy p (int i))"

lemma helper_total:
  assumes "NetworkID p = MAIN \<or> NetworkID p = TESTNET"
  shows "\<exists>a b. GetBlockSubsidyHelper f bits h p v20 = Some (a, b) \<and> a + b = capped_subsidy p h"
  using assms by (simp add: GetBlockSubsidyHelper_def Let_def)

lemma kBase_nonneg: "0 \<le> kBaseSubsidy" by (simp add: kBaseSubsidy_def COIN_def)

lemma issued_korsh:
  "issued_loop kNewHalvingInterval (int n) kBaseSubsidy 0 = emission 2500000 kBaseSubsidy n"
  using issued_loop_emission [of 2500000 kBaseSubsidy n 0] kBase_nonneg by (simp add: kNewHalvingInterval_def)

lemma emission_below_cap: "emission 2500000 kBaseSubsidy n \<le> 10000000 * COIN"
  using emission_bound [of 2500000 kBaseSubsidy n] kBase_nonneg by (simp add: kBaseSubsidy_def COIN_def)

text \<open>Below the placeholder heights of the main network the schedule alone respects the cap.\<close>

lemma mainnet_subsidy:
  assumes "i < 999999998"
  shows "capped_subsidy CMainParams (int i) = kBaseSubsidy div 2 ^ (i div 2500000)"
proof -
  have hi: "halving_interval CMainParams (int i) = kNewHalvingInterval"
    by (simp add: halving_interval_def CMainParams_def kNewHalvingInterval_def)
  have v: "\<not> IsKSHv040Active CMainParams (int i + 1)"
    using assms by (simp add: IsKSHv040Active_def CMainParams_def)
  have "cdiv (int i) kNewHalvingInterval = int (i div 2500000)"
    by (simp add: kNewHalvingInterval_def zdiv_int)
  then have s: "scheduled_subsidy CMainParams (int i) = kBaseSubsidy div 2 ^ (i div 2500000)"
    unfolding scheduled_subsidy_def hi Let_def base_shift using v by simp
  have "emission 2500000 kBaseSubsidy i + kBaseSubsidy div 2 ^ (i div 2500000) \<le> nMaxMoney CMainParams"
    using emission_below_cap [of "Suc i"] by (simp add: emission_Suc CMainParams_def)
  moreover have "0 \<le> kBaseSubsidy div 2 ^ (i div 2500000)"
    using kBase_nonneg by (simp add: pos_imp_zdiv_nonneg_iff)
  ultimately show ?thesis
    unfolding capped_subsidy_def hi s issued_korsh Let_def by auto
qed

lemma mainnet_minted: "n \<le> 999999998 \<Longrightarrow> minted CMainParams n = emission 2500000 kBaseSubsidy n"
  unfolding minted_def emission_def by (intro sum.cong) (auto simp: mainnet_subsidy)

text \<open>On the test network the floor of one coin per block is not part of what counts as issued.\<close>

lemma testnet_subsidy:
  assumes "i \<le> 7500000"
  shows "capped_subsidy CTestNetParams (int i) = (if i < 2500000 then 2 * COIN else COIN)"
proof -
  have e: "emission I kBaseSubsidy i + 2 * COIN \<le> nMaxMoney CTestNetParams" if "I = 2500000 \<or> i < 40000 \<and> I = 1030596" for I
  proof -
    have "emission 2500000 kBaseSubsidy 7500000 = 8750000 * COIN"
      by (simp add: emission_rec [of 2500000] emission_short kBaseSubsidy_def COIN_def)
    then have "I = 2500000 \<Longrightarrow> ?thesis"
      using emission_mono [OF assms kBase_nonneg, of 2500000] by (simp add: CTestNetParams_def COIN_def)
    then show ?thesis
      using that by (auto simp: emission_short kBaseSubsidy_def CTestNetParams_def COIN_def)
  qed
  let ?I = "if i < 40000 then 1030596 else 2500000 :: nat"
  have hi: "halving_interval CTestNetParams (int i) = int ?I"
    by (simp add: halving_interval_def CTestNetParams_def kNewHalvingInterval_def IsKSHv040Active_def)
  have cd: "cdiv (int i) (int ?I) = int (i div ?I)"
    by (simp add: zdiv_int)
  have d: "i div ?I = (if i < 2500000 then 0 else if i < 5000000 then 1 else if i < 7500000 then 2 else 3)"
    using assms by (auto intro!: div_nat_eqI)
  have s: "scheduled_subsidy CTestNetParams (int i) = (if i < 2500000 then 2 * COIN else COIN)"
    unfolding scheduled_subsidy_def hi cd Let_def base_shift d
    by (auto simp: kBaseSubsidy_def kKSHv040MinSubsidy_def COIN_def IsKSHv040Active_def CTestNetParams_def)
  have "issued_loop (int ?I) (int i) kBaseSubsidy 0 = emission ?I kBaseSubsidy i"
    using issued_loop_emission [of ?I kBaseSubsidy i 0] kBase_nonneg by simp
  then show ?thesis
    unfolding capped_subsidy_def hi s Let_def using e [of ?I] by (auto simp: COIN_def)
qed

lemma testnet_minted: "minted CTestNetParams 7500001 = 10000001 * COIN"
proof -
  let ?f = "\<lambda>i :: nat. if i < 2500000 then 2 * COIN else COIN"
  have "minted CTestNetParams 7500001 = (\<Sum>i\<in>{..<7500001}. ?f i)"
    unfolding minted_def by (intro sum.cong) (auto simp: testnet_subsidy)
  also have "\<dots> = (\<Sum>i\<in>{..<2500000}. ?f i) + (\<Sum>i\<in>{2500000..<7500001}. ?f i)"
    by (subst sum.union_disjoint [symmetric]) (auto intro!: sum.cong)
  also have "\<dots> = (\<Sum>i\<in>{..<2500000 :: nat}. 2 * COIN) + (\<Sum>i\<in>{2500000..<7500001 :: nat}. COIN)"
    by (intro arg_cong2 [where f = "(+)"] sum.cong) auto
  finally show ?thesis by simp
qed

lemma helper_sum:
  assumes "NetworkID p = MAIN \<or> NetworkID p = TESTNET"
  shows "(\<Sum>i<n. case GetBlockSubsidyHelper f (bits i) (int i) p (v20 i) of Some (a, b) \<Rightarrow> a + b | None \<Rightarrow> 0)
    = minted p n"
  unfolding minted_def
proof (rule sum.cong)
  fix i
  show "(case GetBlockSubsidyHelper f (bits i) (int i) p (v20 i) of Some (a, b) \<Rightarrow> a + b | None \<Rightarrow> 0)
      = capped_subsidy p (int i)"
    using helper_total [OF assms, of f "bits i" "int i" "v20 i"] by auto
qed simp

lemma decline_loop_returns:
  assumes "0 < I"
  shows "\<exists>v'. decline_loop I h i v = Some v'"
proof (induction "nat (h - i + 1)" arbitrary: i v rule: less_induct)
  case less
  show ?case
  proof (cases "i \<le> h")
    case True
    then have "\<exists>v'. decline_loop I h (i + I) (v - cdiv v 14) = Some v'"
      using assms by (intro less.hyps) simp
    then show ?thesis using True by (subst decline_loop.simps) simp
  next
    case False
    then show ?thesis by (subst decline_loop.simps) simp
  qed
qed

lemma GetBlockSubsidyHelper_returns:
  assumes "0 < nSubsidyHalvingInterval p" "NetworkID p = DEVNET \<or> nHighSubsidyBlocks p \<le> h"
  shows "\<exists>r. GetBlockSubsidyHelper f bits h p v20 = Some r"
proof -
  obtain D where "\<And>i v. decline_loop (nSubsidyHalvingInterval p) h i v = Some (D i v)"
    using decline_loop_returns [OF assms(1)] by metis
  then show ?thesis using assms(2) by (auto simp: GetBlockSubsidyHelper_def Let_def)
qed

section \<open>Properties of the emission\<close>

text \<open>C29. On the main network the blocks up to any height below the placeholder heights are paid, in
  their block and superblock parts together, exactly what the subsidy routine counts as issued, and
  that never exceeds the cap of ten million coins.\<close>

theorem mainnet_emission_capped:
  assumes "n \<le> 999999998"
  shows "(\<Sum>i<n. case GetBlockSubsidyHelper base (bits i) (int i) CMainParams (v20 i) of
            Some (blockPart, superblockPart) \<Rightarrow> blockPart + superblockPart | None \<Rightarrow> 0)
      = issued_loop kNewHalvingInterval (int n) kBaseSubsidy 0
    \<and> issued_loop kNewHalvingInterval (int n) kBaseSubsidy 0 \<le> nMaxMoney CMainParams"
  using emission_below_cap [of n] mainnet_minted [OF assms]
  by (simp add: helper_sum issued_korsh CMainParams_def)

theorem mainnet_emission_capped_witness:
  "(\<Sum>i<5000000. case GetBlockSubsidyHelper (\<lambda>_ _. 5) 0 (int i) CMainParams False of
            Some (blockPart, superblockPart) \<Rightarrow> blockPart + superblockPart | None \<Rightarrow> 0)
      = issued_loop kNewHalvingInterval (int 5000000) kBaseSubsidy 0
    \<and> issued_loop kNewHalvingInterval (int 5000000) kBaseSubsidy 0 \<le> nMaxMoney CMainParams"
  by (rule mainnet_emission_capped) simp

text \<open>C30. On the test network the minimum subsidy of one coin that starts at the v0.4.0 height is not
  counted as issued, so the cap does not hold: the first 7500001 blocks are paid one coin more than
  \<open>nMaxMoney\<close>.\<close>

theorem testnet_emission_exceeds_cap:
  "(\<Sum>i<7500001. case GetBlockSubsidyHelper base (bits i) (int i) CTestNetParams (v20 i) of
      Some (blockPart, superblockPart) \<Rightarrow> blockPart + superblockPart | None \<Rightarrow> 0)
    = nMaxMoney CTestNetParams + COIN"
  using testnet_minted by (simp add: helper_sum CTestNetParams_def COIN_def)

text \<open>The masternode payment lies between nothing and the block value and does not fall when the
  block value rises, at every height and whatever the fork heights are, and for values in the money
  range the products it forms stay within 64 bits.\<close>

theorem masternode_payment_bounds:
  assumes "0 \<le> a" "a \<le> b" "b \<le> MAX_MONEY" "0 < nSuperblockCycle p"
  shows "0 \<le> GetMasternodePayment p height a fV20Active
    \<and> GetMasternodePayment p height a fV20Active \<le> GetMasternodePayment p height b fV20Active
    \<and> GetMasternodePayment p height b fV20Active \<le> b \<and> b * 600 \<le> INT64_MAX"
  using GetMasternodePayment_mono [OF assms(1,2,4), of height fV20Active]
    GetMasternodePayment_mono [of b b p height fV20Active] assms
  by (auto simp: MAX_MONEY_def COIN_def INT64_MAX_def)

theorem masternode_payment_bounds_witness:
  "0 \<le> GetMasternodePayment CMainParams 100 COIN False
    \<and> GetMasternodePayment CMainParams 100 COIN False \<le> GetMasternodePayment CMainParams 100 (2 * COIN) False
    \<and> GetMasternodePayment CMainParams 100 (2 * COIN) False \<le> 2 * COIN \<and> 2 * COIN * 600 \<le> INT64_MAX"
  by (rule masternode_payment_bounds) (simp_all add: COIN_def MAX_MONEY_def CMainParams_def)

end
