(* ===== verification/Headers.thy ===== *)
theory Headers
  imports Transactions
begin

text \<open>
Block headers and blocks on the wire, and the compressed headers of \<^verbatim>\<open>primitives/block.cpp\<close> with
  the senders and the receiver of \<open>HEADERS2\<close> messages in \<^verbatim>\<open>net_processing.cpp\<close>. The hash of a
  header (X11 over its 80 bytes) is a parameter.
\<close>

unbundle bit_operations_syntax

section \<open>Block headers and blocks on the wire\<close>

definition ser_header :: "CBlockHeader \<Rightarrow> bytes" where
  "ser_header h = ser_writedata32 (hdr_nVersion h) @ hashPrevBlock h @ hdr_hashMerkleRoot h
     @ ser_writedata32 (hdr_nTime h) @ ser_writedata32 (hdr_nBits h) @ ser_writedata32 (hdr_nNonce h)"

definition unser_header :: "CBlockHeader reader" where
  "unser_header s = do {
     (v, s) \<leftarrow> ser_readdata32 s;
     (p, s) \<leftarrow> read_bytes 32 s;
     (m, s) \<leftarrow> read_bytes 32 s;
     (t, s) \<leftarrow> ser_readdata32 s;
     (b, s) \<leftarrow> ser_readdata32 s;
     (n, s) \<leftarrow> ser_readdata32 s;
     Some (\<lparr>hdr_nVersion = v, hashPrevBlock = p, hdr_hashMerkleRoot = m, hdr_nTime = t, hdr_nBits = b,
             hdr_nNonce = n\<rparr>, s) }"

definition CBlockHeader_null :: CBlockHeader where
  "CBlockHeader_null = \<lparr>hdr_nVersion = 0, hashPrevBlock = replicate 32 0,
     hdr_hashMerkleRoot = replicate 32 0, hdr_nTime = 0, hdr_nBits = 0, hdr_nNonce = 0\<rparr>"

text \<open>A block adds its transactions to its header; \<open>fChecked\<close> is memory only.\<close>

record CBlock = CBlockHeader +
  vtx :: "CTransaction list"

definition ser_block :: "CBlock \<Rightarrow> bytes" where
  "ser_block blk = ser_header (CBlockHeader.truncate blk) @ ser_vector ser_tx (vtx blk)"

definition unser_block :: "CBlock reader" where
  "unser_block s = do {
     (h, s) \<leftarrow> unser_header s;
     (ts, s) \<leftarrow> unser_vector unser_tx s;
     Some (CBlockHeader.extend h (CBlock.fields ts), s) }"

section \<open>Compressed headers\<close>

datatype Flag = PREV_BLOCK_HASH | TIMESTAMP | NBITS

fun to_byte :: "Flag \<Rightarrow> u8" where
  "to_byte PREV_BLOCK_HASH = push_bit 3 1"
| "to_byte TIMESTAMP = push_bit 4 1"
| "to_byte NBITS = push_bit 5 1"

definition VERSION_BIT_MASK :: u8 where
  "VERSION_BIT_MASK = push_bit 0 1 OR push_bit 1 1 OR push_bit 2 1"

definition IsCompressed :: "Flag \<Rightarrow> u8 \<Rightarrow> bool" where
  "IsCompressed flag bits \<longleftrightarrow> bits AND to_byte flag = 0"

definition MarkAsUncompressed :: "Flag \<Rightarrow> u8 \<Rightarrow> u8" where
  "MarkAsUncompressed flag bits = bits OR to_byte flag"

definition MarkAsCompressed :: "Flag \<Rightarrow> u8 \<Rightarrow> u8" where
  "MarkAsCompressed flag bits = bits AND NOT (to_byte flag)"

definition GetVersionOffset :: "u8 \<Rightarrow> u8" where
  "GetVersionOffset bits = bits AND VERSION_BIT_MASK"

definition IsVersionCompressed :: "u8 \<Rightarrow> bool" where
  "IsVersionCompressed bits \<longleftrightarrow> GetVersionOffset bits \<noteq> 0"

definition SetVersionOffset :: "u8 \<Rightarrow> u8 \<Rightarrow> u8" where
  "SetVersionOffset version bits = (bits AND NOT VERSION_BIT_MASK) OR (version AND VERSION_BIT_MASK)"

text \<open>The time offset is a signed 16-bit number, kept as a word.\<close>

record CompressibleBlockHeader = CBlockHeader +
  bit_field :: u8
  time_offset :: u16

definition CompressibleBlockHeader_default :: CompressibleBlockHeader where
  "CompressibleBlockHeader_default =
     CBlockHeader.extend CBlockHeader_null (CompressibleBlockHeader.fields 0 0)"

definition compressible :: "CBlockHeader \<Rightarrow> CompressibleBlockHeader" where
  "compressible block_header = CBlockHeader.extend block_header (CompressibleBlockHeader.fields
     (MarkAsUncompressed NBITS (MarkAsUncompressed TIMESTAMP (MarkAsUncompressed PREV_BLOCK_HASH
       (SetVersionOffset 0 0)))) 0)"

definition ser_compressible :: "CompressibleBlockHeader \<Rightarrow> bytes" where
  "ser_compressible h = ser_writedata8 (bit_field h)
     @ (if \<not> IsVersionCompressed (bit_field h) then ser_writedata32 (hdr_nVersion h) else [])
     @ (if \<not> IsCompressed PREV_BLOCK_HASH (bit_field h) then hashPrevBlock h else [])
     @ hdr_hashMerkleRoot h
     @ (if \<not> IsCompressed TIMESTAMP (bit_field h) then ser_writedata32 (hdr_nTime h)
        else ser_writedata16 (time_offset h))
     @ (if \<not> IsCompressed NBITS (bit_field h) then ser_writedata32 (hdr_nBits h) else [])
     @ ser_writedata32 (hdr_nNonce h)"

definition unser_compressible :: "CompressibleBlockHeader reader" where
  "unser_compressible s = do {
     let h = CompressibleBlockHeader_default;
     (bits, s) \<leftarrow> ser_readdata8 s;
     (v, s) \<leftarrow> (if \<not> IsVersionCompressed bits then ser_readdata32 s else Some (hdr_nVersion h, s));
     (p, s) \<leftarrow> (if \<not> IsCompressed PREV_BLOCK_HASH bits then read_bytes 32 s else Some (hashPrevBlock h, s));
     (m, s) \<leftarrow> read_bytes 32 s;
     (t, off, s) \<leftarrow> (if \<not> IsCompressed TIMESTAMP bits
        then do { (t, s) \<leftarrow> ser_readdata32 s; Some (t, time_offset h, s) }
        else do { (off, s) \<leftarrow> ser_readdata16 s; Some (hdr_nTime h, off, s) });
     (b, s) \<leftarrow> (if \<not> IsCompressed NBITS bits then ser_readdata32 s else Some (hdr_nBits h, s));
     (n, s) \<leftarrow> ser_readdata32 s;
     Some (\<lparr>hdr_nVersion = v, hashPrevBlock = p, hdr_hashMerkleRoot = m, hdr_nTime = t, hdr_nBits = b,
             hdr_nNonce = n, bit_field = bits, time_offset = off\<rparr>, s) }"

definition MarkVersionAsMostRecent :: "nat \<Rightarrow> u32 list \<Rightarrow> u32 list" where
  "MarkVersionAsMostRecent version_it vs =
     (if version_it \<noteq> 0 then vs ! version_it # take version_it vs @ drop (Suc version_it) vs else vs)"

definition SaveVersionAsMostRecent :: "u32 \<Rightarrow> u32 list \<Rightarrow> u32 list" where
  "SaveVersionAsMostRecent version vs =
     (let vs = version # vs in if length vs > 7 then butlast vs else vs)"

fun find_version :: "u32 \<Rightarrow> u32 list \<Rightarrow> nat option" where
  "find_version v [] = None"
| "find_version v (x # xs) = (if x = v then Some 0 else map_option Suc (find_version v xs))"

text \<open>Times are unsigned, so their difference is taken modulo 2^32 before it becomes a signed number.\<close>

definition Compress :: "CompressibleBlockHeader list \<Rightarrow> CompressibleBlockHeader \<Rightarrow> u32 list
    \<Rightarrow> CompressibleBlockHeader \<times> u32 list" where
  "Compress previous_blocks h vs =
     (if previous_blocks = [] then (h, SaveVersionAsMostRecent (hdr_nVersion h) vs)
      else
        let (h, vs) = (case find_version (hdr_nVersion h) vs of
              Some version_it \<Rightarrow> (h\<lparr>bit_field := SetVersionOffset (of_nat (version_it + 1)) (bit_field h)\<rparr>,
                                  MarkVersionAsMostRecent version_it vs)
            | None \<Rightarrow> (h, SaveVersionAsMostRecent (hdr_nVersion h) vs));
            last_block = last previous_blocks;
            h = h\<lparr>bit_field := MarkAsCompressed PREV_BLOCK_HASH (bit_field h)\<rparr>;
            time_diff = uint (hdr_nTime h - hdr_nTime last_block);
            h = (if time_diff \<le> 32767 \<and> time_diff \<ge> - 32768
                 then h\<lparr>time_offset := word_of_int time_diff,
                        bit_field := MarkAsCompressed TIMESTAMP (bit_field h)\<rparr> else h);
            h = (if hdr_nBits h = hdr_nBits last_block
                 then h\<lparr>bit_field := MarkAsCompressed NBITS (bit_field h)\<rparr> else h)
        in (h, vs))"

definition Uncompress :: "(CBlockHeader \<Rightarrow> uint256) \<Rightarrow> CBlockHeader list \<Rightarrow> CompressibleBlockHeader \<Rightarrow> u32 list
    \<Rightarrow> CompressibleBlockHeader \<times> u32 list" where
  "Uncompress GetHash previous_blocks h vs =
     (if previous_blocks = [] then (h, SaveVersionAsMostRecent (hdr_nVersion h) vs)
      else
        let last_block = last previous_blocks;
            (h, vs) = (if IsVersionCompressed (bit_field h)
              then let version_offset = unat (GetVersionOffset (bit_field h))
                   in if version_offset \<le> length vs
                      then (h\<lparr>hdr_nVersion := vs ! (version_offset - 1)\<rparr>,
                            MarkVersionAsMostRecent (version_offset - 1) vs)
                      else (h, vs)
              else (h, SaveVersionAsMostRecent (hdr_nVersion h) vs));
            h = (if IsCompressed PREV_BLOCK_HASH (bit_field h) then h\<lparr>hashPrevBlock := GetHash last_block\<rparr> else h);
            h = (if IsCompressed TIMESTAMP (bit_field h)
                 then h\<lparr>hdr_nTime := hdr_nTime last_block + scast (time_offset h)\<rparr> else h);
            h = (if IsCompressed NBITS (bit_field h) then h\<lparr>hdr_nBits := hdr_nBits last_block\<rparr> else h)
        in (h, vs))"

text \<open>
  The two senders of \<open>HEADERS2\<close> messages: an announcement compresses every header, an answer to
  \<open>getheaders2\<close> leaves out the call for the first one.
\<close>

fun send_headers :: "bool \<Rightarrow> CBlockHeader list \<Rightarrow> CompressibleBlockHeader list \<Rightarrow> u32 list
    \<Rightarrow> CompressibleBlockHeader list" where
  "send_headers skip_first [] v_headers vs = v_headers"
| "send_headers skip_first (b # bs) v_headers vs =
     (let (h, vs) = (if skip_first \<and> v_headers = [] then (compressible b, vs)
                     else Compress v_headers (compressible b) vs)
      in send_headers skip_first bs (v_headers @ [h]) vs)"

definition headers2_message :: "bool \<Rightarrow> CBlockHeader list \<Rightarrow> bytes" where
  "headers2_message skip_first bs = ser_vector ser_compressible (send_headers skip_first bs [] [])"

fun receive_headers :: "(CBlockHeader \<Rightarrow> uint256) \<Rightarrow> nat \<Rightarrow> CBlockHeader list \<Rightarrow> u32 list
    \<Rightarrow> CBlockHeader list reader" where
  "receive_headers GetHash 0 headers vs s = Some (headers, s)"
| "receive_headers GetHash (Suc n) headers vs s = do {
     (c, s) \<leftarrow> unser_compressible s;
     let (h, vs) = Uncompress GetHash headers c vs;
     receive_headers GetHash n (headers @ [CBlockHeader.truncate h]) vs s }"

definition MAX_HEADERS_UNCOMPRESSED_RESULT :: nat where "MAX_HEADERS_UNCOMPRESSED_RESULT = 2000"
definition MAX_HEADERS_COMPRESSED_RESULT :: nat where "MAX_HEADERS_COMPRESSED_RESULT = 8000"
definition INCREASE_MAX_HEADERS2_VERSION :: int where "INCREASE_MAX_HEADERS2_VERSION = 70235"

definition GetHeadersLimit :: "int \<Rightarrow> bool \<Rightarrow> nat" where
  "GetHeadersLimit common_version compressed =
     (if common_version \<ge> INCREASE_MAX_HEADERS2_VERSION \<and> compressed
      then MAX_HEADERS_COMPRESSED_RESULT else MAX_HEADERS_UNCOMPRESSED_RESULT)"

definition receive_headers2 :: "(CBlockHeader \<Rightarrow> uint256) \<Rightarrow> int \<Rightarrow> CBlockHeader list reader" where
  "receive_headers2 GetHash common_version s = do {
     (nCount, s) \<leftarrow> ReadCompactSize True s;
     if nCount > GetHeadersLimit common_version True then None
     else receive_headers GetHash nCount [] [] s }"

section \<open>The receiver follows the sender\<close>

definition header_ok :: "'a CBlockHeader_scheme \<Rightarrow> bool" where
  "header_ok h \<longleftrightarrow> length (hashPrevBlock h) = 32 \<and> length (hdr_hashMerkleRoot h) = 32"

lemma unser_header_ser: "header_ok h \<Longrightarrow> unser_header (ser_header h @ rest) = Some (h, rest)"
  by (simp add: unser_header_def ser_header_def header_ok_def wire_simps read_bytes_length)

lemma header_dec:
  "unser_header s = Some (h, rest) \<Longrightarrow> s = ser_header h @ rest \<and> header_ok h"
  by (auto simp: unser_header_def ser_header_def header_ok_def
      dest!: u32.enc_dec read_bytes_dec split: bind_splits)

interpretation header: canonical_codec ser_header unser_header header_ok
  by unfold_locales (rule unser_header_ser header_dec; assumption)+

definition block_ok :: "CBlock \<Rightarrow> bool" where
  "block_ok blk \<longleftrightarrow> header_ok blk \<and> list_all tx_ok (vtx blk) \<and> length (vtx blk) \<le> MAX_SIZE"

interpretation blk: codec ser_block unser_block block_ok
proof
  show "unser_block (ser_block x @ rest) = Some (x, rest)" if "block_ok x" for x rest
    using that
    by (simp add: unser_block_def ser_block_def block_ok_def header_ok_def header.dec_enc tx.vector_dec_enc
        CBlock.defs CBlockHeader.defs)
qed

text \<open>The flags of a header with version offset \<open>k\<close>: \<open>p\<close>, \<open>t\<close> and \<open>n\<close> say which fields are left out.\<close>

definition hbits :: "bool \<Rightarrow> nat \<Rightarrow> bool \<Rightarrow> bool \<Rightarrow> u8" where
  "hbits p k t n = of_nat k + (if p then 0 else 8) + (if t then 0 else 16) + (if n then 0 else 32)"

lemmas bit_field_defs = hbits_def VERSION_BIT_MASK_def IsCompressed_def MarkAsUncompressed_def
  MarkAsCompressed_def GetVersionOffset_def SetVersionOffset_def

lemma less_8_cases: "k < 8 \<Longrightarrow> k \<in> {0, 1, 2, 3, 4, 5, 6, 7 :: nat}"
  by auto

lemma hbits_read:
  assumes "k < 8"
  shows "GetVersionOffset (hbits p k t n) = of_nat k" "IsCompressed PREV_BLOCK_HASH (hbits p k t n) = p"
    "IsCompressed TIMESTAMP (hbits p k t n) = t" "IsCompressed NBITS (hbits p k t n) = n"
  using less_8_cases [OF assms] by (auto simp: bit_field_defs)

lemma hbits_write:
  assumes "k < 8"
  shows "SetVersionOffset (of_nat k) (hbits p 0 t n) = hbits p k t n"
    "MarkAsCompressed PREV_BLOCK_HASH (hbits p k t n) = hbits True k t n"
    "MarkAsCompressed TIMESTAMP (hbits p k t n) = hbits p k True n"
    "MarkAsCompressed NBITS (hbits p k t n) = hbits p k t True"
  using less_8_cases [OF assms] by (auto simp: bit_field_defs)

lemma hbits_initial:
  "MarkAsUncompressed NBITS (MarkAsUncompressed TIMESTAMP (MarkAsUncompressed PREV_BLOCK_HASH
     (SetVersionOffset 0 0))) = hbits False 0 False False"
  by (simp add: bit_field_defs)

lemma IsVersionCompressed_hbits: "k < 8 \<Longrightarrow> IsVersionCompressed (hbits p k t n) \<longleftrightarrow> k \<noteq> 0"
  using less_8_cases [of k] by (auto simp: IsVersionCompressed_def hbits_read)

text \<open>What arrives of a header: the fields that were left out keep their initial values.\<close>

definition received :: "CompressibleBlockHeader \<Rightarrow> CompressibleBlockHeader" where
  "received h = h
     \<lparr>hdr_nVersion := (if IsVersionCompressed (bit_field h) then 0 else hdr_nVersion h),
      hashPrevBlock := (if IsCompressed PREV_BLOCK_HASH (bit_field h) then replicate 32 0 else hashPrevBlock h),
      hdr_nTime := (if IsCompressed TIMESTAMP (bit_field h) then 0 else hdr_nTime h),
      hdr_nBits := (if IsCompressed NBITS (bit_field h) then 0 else hdr_nBits h),
      time_offset := (if IsCompressed TIMESTAMP (bit_field h) then time_offset h else 0)\<rparr>"

lemma unser_compressible_ser:
  "header_ok h \<Longrightarrow> unser_compressible (ser_compressible h @ rest) = Some (received h, rest)"
  by (simp add: unser_compressible_def ser_compressible_def received_def header_ok_def wire_simps
      read_bytes_length CompressibleBlockHeader_default_def CBlockHeader_null_def
      CompressibleBlockHeader.defs CBlockHeader.defs Let_def)

lemma Save_take: "length vs \<le> 7 \<Longrightarrow> SaveVersionAsMostRecent v vs = take 7 (v # vs)"
  by (cases "length vs = 7") (auto simp: SaveVersionAsMostRecent_def butlast_conv_take Let_def take_Cons')

text \<open>The receiver may remember one more version than the sender, behind the ones they share.\<close>

definition follows :: "u32 list \<Rightarrow> u32 list \<Rightarrow> u32 list \<Rightarrow> bool" where
  "follows extra vs ws \<longleftrightarrow> length vs \<le> 7 \<and> ws = vs @ take (7 - length vs) extra"

lemma follows_Save: "follows extra vs ws \<Longrightarrow> follows extra (SaveVersionAsMostRecent v vs) (SaveVersionAsMostRecent v ws)"
proof -
  assume f: "follows extra vs ws"
  then have "length vs \<le> 7" "length ws \<le> 7" "ws = vs @ take (7 - length vs) extra"
    by (auto simp: follows_def)
  then show ?thesis
    by (cases "length vs = 7") (auto simp: follows_def Save_take)
qed

lemma follows_Mark:
  assumes "follows extra vs ws" "i < length vs"
  shows "follows extra (MarkVersionAsMostRecent i vs) (MarkVersionAsMostRecent i ws)"
  using assms by (auto simp: follows_def MarkVersionAsMostRecent_def nth_append)

lemma find_version_Some: "find_version v vs = Some i \<Longrightarrow> i < length vs \<and> vs ! i = v"
  by (induction vs arbitrary: i) (auto split: if_splits)

text \<open>The header that \<open>Compress\<close> produces when there is a previous one.\<close>

definition compressed_by :: "CBlockHeader \<Rightarrow> CompressibleBlockHeader \<Rightarrow> nat \<Rightarrow> CompressibleBlockHeader" where
  "compressed_by b prev k =
     (let d = hdr_nTime b - hdr_nTime prev; t = uint d \<le> 32767 in
      CBlockHeader.extend b (CompressibleBlockHeader.fields (hbits True k t (hdr_nBits b = hdr_nBits prev))
        (if t then ucast d else 0)))"

lemma Compress_eq:
  assumes "prevs \<noteq> []" "length vs \<le> 7"
  shows "Compress prevs (compressible b) vs = (case find_version (hdr_nVersion b) vs of
      Some i \<Rightarrow> (compressed_by b (last prevs) (Suc i), MarkVersionAsMostRecent i vs)
    | None \<Rightarrow> (compressed_by b (last prevs) 0, SaveVersionAsMostRecent (hdr_nVersion b) vs))"
proof -
  have k: "Suc i < 8" if "find_version (hdr_nVersion b) vs = Some i" for i
    using find_version_Some [OF that] assms(2) by simp
  have d: "- 32768 \<le> uint (x :: u32)" for x
    by (rule order_trans [OF _ uint_ge_0]) simp
  show ?thesis
    using assms(1) k hbits_write(1) [of _ False False False] hbits_write(2,3,4)
    by (auto simp: Compress_def compressible_def compressed_by_def hbits_initial d Let_def
        CompressibleBlockHeader.defs CBlockHeader.defs split: option.splits
        simp del: of_nat_Suc simp flip: of_nat_Suc)
qed

lemma time_offset_restores:
  fixes d :: u32
  assumes "uint d \<le> 32767"
  shows "x - d + scast (ucast d :: u16) = x"
proof -
  have "- (2 ^ 15) \<le> uint d" by (rule order_trans [OF _ uint_ge_0]) simp
  then have "signed_take_bit 15 (uint d) = uint d"
    using assms by (intro signed_take_bit_int_eq_self) simp_all
  then have "sint (ucast d :: u16) = uint d"
    by (simp add: signed_ucast_eq)
  then have "scast (ucast d :: u16) = d"
    by (metis scast_eq word_of_int_uint)
  then show ?thesis by simp
qed


lemma Uncompress_compressed:
  assumes "headers \<noteq> []" "k < 8" "hashPrevBlock b = GetHash (last headers)"
    and "hdr_nTime prev = hdr_nTime (last headers)" "hdr_nBits prev = hdr_nBits (last headers)"
    and "k = 0 \<or> k \<le> length ws \<and> ws ! (k - 1) = hdr_nVersion b"
  shows "\<exists>h. Uncompress GetHash headers (received (compressed_by b prev k)) ws
      = (h, if k = 0 then SaveVersionAsMostRecent (hdr_nVersion b) ws else MarkVersionAsMostRecent (k - 1) ws)
    \<and> CBlockHeader.truncate h = b"
proof -
  let ?d = "hdr_nTime b - hdr_nTime (last headers)"
  have t: "hdr_nTime (last headers) + scast (ucast ?d :: u16) = hdr_nTime b" if "uint ?d \<le> 32767"
    using time_offset_restores [OF that, of "hdr_nTime b"] by simp
  have k: "unat (of_nat k :: u8) = k" using assms(2) by (simp add: unat_of_nat_small)
  show ?thesis
    using assms t k
    by (cases b; cases "k = 0") (auto simp: Uncompress_def received_def compressed_by_def hbits_read
        IsVersionCompressed_hbits Let_def CompressibleBlockHeader.defs CBlockHeader.defs)
qed

fun header_chain :: "(CBlockHeader \<Rightarrow> uint256) \<Rightarrow> CBlockHeader list \<Rightarrow> bool" where
  "header_chain GetHash (a # b # bs) \<longleftrightarrow> hashPrevBlock b = GetHash a \<and> header_chain GetHash (b # bs)"
| "header_chain GetHash _ \<longleftrightarrow> True"

lemma compressed_by_ok: "header_ok b \<Longrightarrow> header_ok (compressed_by b prev k)"
  by (simp add: header_ok_def compressed_by_def Let_def CBlockHeader.defs)

lemma compressed_by_fields [simp]:
  "hdr_nTime (compressed_by b prev k) = hdr_nTime b" "hdr_nBits (compressed_by b prev k) = hdr_nBits b"
  by (simp_all add: compressed_by_def Let_def CBlockHeader.defs)

lemma step_follows:
  assumes "prevs \<noteq> []" "headers \<noteq> []" "hashPrevBlock b = GetHash (last headers)" "header_ok b"
    and "hdr_nTime (last prevs) = hdr_nTime (last headers)" "hdr_nBits (last prevs) = hdr_nBits (last headers)"
    and "follows extra vs ws" "Compress prevs (compressible b) vs = (h, vs')"
  shows "\<exists>h' ws'. Uncompress GetHash headers (received h) ws = (h', ws') \<and> CBlockHeader.truncate h' = b
    \<and> follows extra vs' ws' \<and> header_ok h \<and> hdr_nTime h = hdr_nTime b \<and> hdr_nBits h = hdr_nBits b"
proof -
  have l: "length vs \<le> 7" using assms(7) by (simp add: follows_def)
  show ?thesis
  proof (cases "find_version (hdr_nVersion b) vs")
    case None
    then have h: "h = compressed_by b (last prevs) 0" "vs' = SaveVersionAsMostRecent (hdr_nVersion b) vs"
      using assms(8) by (simp_all add: Compress_eq [OF assms(1) l])
    have f: "follows extra vs' (SaveVersionAsMostRecent (hdr_nVersion b) ws)"
      unfolding h by (rule follows_Save [OF assms(7)])
    from Uncompress_compressed [of headers 0 b GetHash "last prevs" ws] assms f show ?thesis
      unfolding h using compressed_by_ok [OF assms(4)] by auto
  next
    case (Some i)
    then have h: "h = compressed_by b (last prevs) (Suc i)" "vs' = MarkVersionAsMostRecent i vs"
      using assms(8) by (simp_all add: Compress_eq [OF assms(1) l])
    have i: "i < length vs" "Suc i < 8" "Suc i \<le> length ws" "ws ! i = hdr_nVersion b"
      using find_version_Some [OF Some] l assms(7) by (auto simp: follows_def nth_append)
    have f: "follows extra vs' (MarkVersionAsMostRecent i ws)"
      unfolding h by (rule follows_Mark [OF assms(7) i(1)])
    from Uncompress_compressed [of headers "Suc i" b GetHash "last prevs" ws] assms f i show ?thesis
      unfolding h using compressed_by_ok [OF assms(4)] by auto
  qed
qed

lemma send_headers_append:
  "\<exists>new. send_headers sf bs vh vs = vh @ new \<and> length new = length bs"
proof (induction bs arbitrary: vh vs)
  case (Cons b bs)
  obtain h vs' where hv: "(if sf \<and> vh = [] then (compressible b, vs) else Compress vh (compressible b) vs) = (h, vs')"
    by (meson surj_pair)
  obtain new where "send_headers sf bs (vh @ [h]) vs' = (vh @ [h]) @ new" "length new = length bs"
    using Cons.IH by blast
  then show ?case using hv by (intro exI [of _ "h # new"]) (simp only: send_headers.simps Let_def prod.case, simp)
qed simp

lemma receive_follows:
  assumes "vh \<noteq> []" "headers \<noteq> []"
    and "hdr_nTime (last vh) = hdr_nTime (last headers)" "hdr_nBits (last vh) = hdr_nBits (last headers)"
    and "follows extra vs ws" "header_chain GetHash (last headers # bs)" "list_all header_ok bs"
    and "send_headers sf bs vh vs = vh @ new"
  shows "receive_headers GetHash (length bs) headers ws (concat (map ser_compressible new) @ rest)
     = Some (headers @ bs, rest)"
  using assms
proof (induction bs arbitrary: vh headers vs ws new)
  case (Cons b bs)
  obtain h vs' where c: "Compress vh (compressible b) vs = (h, vs')" by (meson surj_pair)
  obtain new' where new': "send_headers sf bs (vh @ [h]) vs' = (vh @ [h]) @ new'"
    using send_headers_append by blast
  have new: "new = h # new'"
    using Cons.prems(1,8) new' c by simp
  from step_follows [OF Cons.prems(1,2) _ _ Cons.prems(3,4,5) c, of GetHash]
  obtain h' ws' where s: "Uncompress GetHash headers (received h) ws = (h', ws')" "CBlockHeader.truncate h' = b"
    "follows extra vs' ws'" "header_ok h" "hdr_nTime h = hdr_nTime b" "hdr_nBits h = hdr_nBits b"
    using Cons.prems(6,7) by auto
  have "receive_headers GetHash (length bs) (headers @ [b]) ws' (concat (map ser_compressible new') @ rest)
     = Some ((headers @ [b]) @ bs, rest)"
    using Cons.prems(6,7) s new' by (intro Cons.IH [of "vh @ [h]" _ vs']) auto
  then show ?case
    by (simp add: new unser_compressible_ser [OF s(4)] s(1,2))
qed simp


lemma length_send_headers: "length (send_headers sf bs [] vs) = length bs"
  using send_headers_append [of sf bs "[]" vs] by auto

lemma first_header:
  "header_ok b \<Longrightarrow> header_ok (compressible b) \<and> received (compressible b) = compressible b
     \<and> CBlockHeader.truncate (compressible b) = b \<and> hdr_nTime (compressible b) = hdr_nTime b
     \<and> hdr_nBits (compressible b) = hdr_nBits b \<and> hdr_nVersion (compressible b) = hdr_nVersion b"
  using hbits_read [of 0 False False False] IsVersionCompressed_hbits [of 0 False False False]
  by (cases b) (simp add: compressible_def received_def hbits_initial header_ok_def
      CompressibleBlockHeader.defs CBlockHeader.defs)

lemma headers2_received:
  assumes "header_chain GetHash bs" "list_all header_ok bs"
  shows "receive_headers GetHash (length bs) [] [] (concat (map ser_compressible (send_headers sf bs [] [])) @ rest)
    = Some (bs, rest)"
proof (cases bs)
  case (Cons b cs)
  have b: "header_ok b" using assms(2) Cons by simp
  note f = first_header [OF b]
  let ?v = "hdr_nVersion b" and ?vs = "if sf then [] else [hdr_nVersion b]"
  have s1: "SaveVersionAsMostRecent ?v [] = [?v]" by (simp add: SaveVersionAsMostRecent_def)
  have send: "send_headers sf bs [] [] = send_headers sf cs [compressible b] ?vs"
    using f by (simp add: Cons Compress_def s1)
  obtain new where new: "send_headers sf cs [compressible b] ?vs = [compressible b] @ new"
    using send_headers_append by blast
  have "receive_headers GetHash (length cs) [b] [?v] (concat (map ser_compressible new) @ rest) = Some ([b] @ cs, rest)"
    using assms Cons f
    by (intro receive_follows [OF _ _ _ _ _ _ _ new, of "[b]" "if sf then [?v] else []"])
       (auto simp: follows_def)
  then show ?thesis
    unfolding send new using f by (simp add: Cons unser_compressible_ser Uncompress_def s1)
qed simp

section \<open>Properties of the header messages\<close>

text \<open>C28. A peer that reads a \<open>HEADERS2\<close> message gets exactly the headers that were sent, whichever of
  the two senders compressed them: with linked headers, any hash function and no more headers than
  the limit, the flags, the version list, the time offsets and the omitted previous hashes all
  restore the original fields.\<close>

theorem headers2_round_trip:
  assumes "header_chain GetHash bs" "list_all header_ok bs" "length bs \<le> GetHeadersLimit common_version True"
  shows "receive_headers2 GetHash common_version (headers2_message skip_first bs @ rest) = Some (bs, rest)"
proof -
  have "length bs \<le> MAX_SIZE"
    using assms(3) by (simp add: GetHeadersLimit_def MAX_HEADERS_COMPRESSED_RESULT_def
        MAX_HEADERS_UNCOMPRESSED_RESULT_def MAX_SIZE_def split: if_splits)
  then show ?thesis
    using assms(3) headers2_received [OF assms(1,2)]
    by (simp add: receive_headers2_def headers2_message_def ser_vector_def length_send_headers
        compact.dec_enc compact_ok_def)
qed

definition example_headers :: "CBlockHeader list" where
  "example_headers = (let h = CBlockHeader_null in
     [h\<lparr>hdr_nVersion := 1, hdr_nTime := 100\<rparr>, h\<lparr>hdr_nVersion := 2, hdr_nTime := 90\<rparr>,
      h\<lparr>hdr_nVersion := 1, hdr_nTime := 150\<rparr>])"

theorem headers2_round_trip_witness:
  "receive_headers2 (\<lambda>h. replicate 32 0) 70235 (headers2_message True example_headers @ []) = Some (example_headers, [])"
  by (rule headers2_round_trip)
     (simp_all add: example_headers_def CBlockHeader_null_def header_ok_def GetHeadersLimit_def
       INCREASE_MAX_HEADERS2_VERSION_def MAX_HEADERS_COMPRESSED_RESULT_def)

end
