(* ===== verification/Payments.thy ===== *)
theory Payments
  imports Subsidy Headers
begin

text \<open>
Block payments (\<open>masternode/payments.cpp\<close>) and superblock heights and limits (\<open>governance/classes.cpp\<close>):
  which outputs a block has to pay to masternodes, operators and the credit pool, how a new coinbase is
  filled with them, and which coinbase values and payees are accepted. The masternode list, the
  synchronisation state and the governance triggers are read through a record of their answers.
  \<open>IsBlockValueValid\<close> accepts no more than the reward and the superblock limit, \<open>FillBlockPayments\<close> only
  moves value, and the nearest superblock heights are the neighbours \<open>IsValidBlockHeight\<close> accepts.
\<close>

unbundle bit_operations_syntax

section \<open>Superblock heights and limits\<close>

definition IsValidBlockHeight :: "Params \<Rightarrow> int \<Rightarrow> bool" where
  "IsValidBlockHeight p nBlockHeight =
     (if nBlockHeight < nSuperblockStartBlock p then False
      else if nBlockHeight < nKSHv040Height p then cmod nBlockHeight (nSuperblockCycle p) = 0
      else if nBlockHeight = nKSHv040Height p then cmod nBlockHeight (nSuperblockCycle p) = 0
      else cmod (nBlockHeight - nKSHv040Height p) (nKSHv040SuperblockCycle p) = 0)"

definition GetPaymentCycle :: "Params \<Rightarrow> int \<Rightarrow> int" where
  "GetPaymentCycle p nBlockHeight = SuperblockCycle p nBlockHeight"

definition nFirstSuperblock :: "Params \<Rightarrow> int" where
  "nFirstSuperblock p = nSuperblockStartBlock p
     + cmod (nSuperblockCycle p - cmod (nSuperblockStartBlock p) (nSuperblockCycle p)) (nSuperblockCycle p)"

definition GetNearestSuperblocksHeights :: "Params \<Rightarrow> int \<Rightarrow> int \<times> int" where
  "GetNearestSuperblocksHeights p nBlockHeight =
     (if nBlockHeight < nFirstSuperblock p then (0, nFirstSuperblock p)
      else if nBlockHeight < nKSHv040Height p
      then let nLastSuperblockRet = nBlockHeight - cmod nBlockHeight (nSuperblockCycle p)
           in (nLastSuperblockRet, nLastSuperblockRet + nSuperblockCycle p)
      else let nForkSuperblock = nKSHv040Height p; nForkCycle = nKSHv040SuperblockCycle p;
               nLastSuperblockRet = nForkSuperblock + cdiv (nBlockHeight - nForkSuperblock) nForkCycle * nForkCycle
           in (nLastSuperblockRet, nLastSuperblockRet + nForkCycle))"

definition GetPaymentsLimit :: "(u32 \<Rightarrow> int \<Rightarrow> CAmount) \<Rightarrow> Params \<Rightarrow> int \<Rightarrow> CAmount option" where
  "GetPaymentsLimit nSubsidyBase p nBlockHeight =
     (if \<not> IsValidBlockHeight p nBlockHeight then Some 0
      else do {
        let fV20Active = (nBlockHeight \<ge> V20Height p);
        let bits = (if fPowAllowMinDifficultyBlocks p then GetCompact (UintToArith256 (powLimit p)) False else 1);
        nSuperblockPartOfSubsidy \<leftarrow> GetSuperblockSubsidyInner nSubsidyBase bits (nBlockHeight - 1) p fV20Active;
        Some (nSuperblockPartOfSubsidy * SuperblockBudgetCycle p nBlockHeight) })"

section \<open>Masternode payments\<close>

text \<open>What the payment rules ask of the masternode list, of synchronisation and of governance.\<close>

record Payee =
  nOperatorReward :: u16
  scriptPayout :: CScript
  scriptOperatorPayout :: CScript

record PaymentContext =
  AllMNsCount :: nat
  MNPayee :: "Payee option"
  IsSynced :: bool
  govman_IsValid :: bool
  SuperblocksEnabled :: bool
  IsSuperblockTriggered :: "int \<Rightarrow> bool"
  IsValidSuperblock :: "CTransaction \<Rightarrow> int \<Rightarrow> CAmount \<Rightarrow> bool"
  SuperblockPayments :: "int \<Rightarrow> CTxOut list"

definition OP_RETURN_script :: CScript where
  "OP_RETURN_script = [0x6a]"

definition PlatformShare :: "CAmount \<Rightarrow> CAmount option" where
  "PlatformShare reward =
     (let platformReward = cdiv (reward * 375) 1000
      in if \<not> MoneyRange platformReward then None else Some platformReward)"

definition block_height_after :: "int option \<Rightarrow> int" where
  "block_height_after prev = (case prev of None \<Rightarrow> 0 | Some h \<Rightarrow> h + 1)"

text \<open>Part of the masternode reward goes to the credit pool once it exists and reallocation is active.\<close>

definition to_credit_pool :: "bool \<Rightarrow> CAmount \<Rightarrow> CAmount \<Rightarrow> (CAmount \<times> CTxOut list) option" where
  "to_credit_pool active masternodeReward masternodeSubsidyReward =
     (if active
      then do {
        platformReward \<leftarrow> PlatformShare masternodeSubsidyReward;
        let masternodeReward = masternodeReward - platformReward;
        if \<not> MoneyRange masternodeReward then None
        else Some (masternodeReward, [\<lparr>nValue = platformReward, scriptPubKey = OP_RETURN_script\<rparr>]) }
      else Some (masternodeReward, []))"

definition pay_masternode :: "Payee \<Rightarrow> CAmount \<Rightarrow> CTxOut list" where
  "pay_masternode dmnPayee masternodeReward =
     (let operatorReward = (if nOperatorReward dmnPayee \<noteq> 0 \<and> scriptOperatorPayout dmnPayee \<noteq> []
            then cdiv (masternodeReward * uint (nOperatorReward dmnPayee)) 10000 else 0);
          masternodeReward = masternodeReward - operatorReward
      in (if masternodeReward > 0 then [\<lparr>nValue = masternodeReward, scriptPubKey = scriptPayout dmnPayee\<rparr>] else [])
       @ (if operatorReward > 0 then [\<lparr>nValue = operatorReward, scriptPubKey = scriptOperatorPayout dmnPayee\<rparr>] else []))"

definition GetBlockTxOuts :: "PaymentContext \<Rightarrow> Params \<Rightarrow> int option \<Rightarrow> CAmount \<Rightarrow> CAmount
    \<Rightarrow> (bool \<times> CTxOut list) option" where
  "GetBlockTxOuts ctx p prev blockSubsidy feeReward = do {
     let nBlockHeight = block_height_after prev;
     let fV20Active = DeploymentActiveAfter prev p DEPLOYMENT_V20;
     (masternodeReward, outs) \<leftarrow>
       to_credit_pool (fV20Active \<and> DeploymentActiveAfter prev p DEPLOYMENT_MN_RR)
         (GetMasternodePayment p nBlockHeight (blockSubsidy + feeReward) fV20Active)
         (GetMasternodePayment p nBlockHeight blockSubsidy fV20Active);
     if AllMNsCount ctx = 0 then Some (True, outs)
     else case MNPayee ctx of
       None \<Rightarrow> Some (False, outs)
     | Some dmnPayee \<Rightarrow> Some (True, outs @ pay_masternode dmnPayee masternodeReward) }"

text \<open>\<open>GetMasternodeTxOuts\<close> adds only logging; on failure the outputs already made stay.\<close>

definition GetMasternodeTxOuts :: "PaymentContext \<Rightarrow> Params \<Rightarrow> int option \<Rightarrow> CAmount \<Rightarrow> CAmount
    \<Rightarrow> (bool \<times> CTxOut list) option" where
  "GetMasternodeTxOuts ctx p prev blockSubsidy feeReward = GetBlockTxOuts ctx p prev blockSubsidy feeReward"

definition IsTransactionValid :: "PaymentContext \<Rightarrow> Params \<Rightarrow> CTransaction \<Rightarrow> int option \<Rightarrow> CAmount \<Rightarrow> CAmount
    \<Rightarrow> bool option" where
  "IsTransactionValid ctx p txNew prev blockSubsidy feeReward =
     (if \<not> DeploymentDIP0003Enforced (block_height_after prev) p then Some True
      else do {
        (ok, voutMasternodePayments) \<leftarrow> GetBlockTxOuts ctx p prev blockSubsidy feeReward;
        if \<not> ok then Some True
        else Some (list_all (\<lambda>txout. txout \<in> set (vout txNew)) voutMasternodePayments) })"

section \<open>The value of a block\<close>

datatype block_value_error =
  Old_budgets_not_activated | Old_budgets_no_longer_active | Exceeded_old_budgets_disabled
| Exceeded_not_in_budget_window | Exceeded_budgets_not_activated | Exceeded_only_regular_allowed
| Exceeded_superblock_max | Exceeded_superblocks_disabled | Exceeded_no_triggered_superblock
| Invalid_superblock_detected

text \<open>
  A block value is accepted (\<open>Inr ()\<close>) or refused with the reason the function reports; None is the
  exception of \<open>GetValueOut\<close> or a failed assertion. \<open>coinbase\<close> is \<open>block.vtx[0]\<close>.
\<close>

definition accept_if :: "bool \<Rightarrow> block_value_error \<Rightarrow> (block_value_error + unit) option" where
  "accept_if met e = Some (if met then Inr () else Inl e)"

definition IsOldBudgetBlockValueValid :: "PaymentContext \<Rightarrow> Params \<Rightarrow> CTransaction \<Rightarrow> int \<Rightarrow> CAmount
    \<Rightarrow> (block_value_error + unit) option" where
  "IsOldBudgetBlockValueValid ctx p coinbase nBlockHeight blockReward = do {
     v \<leftarrow> GetValueOut coinbase;
     let isBlockRewardValueMet = (v \<le> blockReward);
     if nBlockHeight < nBudgetPaymentsStartBlock p then Some (Inl Old_budgets_not_activated)
     else if nBlockHeight \<ge> nSuperblockStartBlock p then Some (Inl Old_budgets_no_longer_active)
     else let nOffset = cmod nBlockHeight (nBudgetPaymentsCycleBlocks p) in
       if nOffset < nBudgetPaymentsWindowBlocks p
       then if IsSynced ctx then accept_if isBlockRewardValueMet Exceeded_old_budgets_disabled
            else Some (Inr ())
       else accept_if isBlockRewardValueMet Exceeded_not_in_budget_window }"

definition IsBlockValueValid :: "(u32 \<Rightarrow> int \<Rightarrow> CAmount) \<Rightarrow> PaymentContext \<Rightarrow> Params \<Rightarrow> CTransaction \<Rightarrow> int
    \<Rightarrow> CAmount \<Rightarrow> bool \<Rightarrow> (block_value_error + unit) option" where
  "IsBlockValueValid nSubsidyBase ctx p coinbase nBlockHeight blockReward check_superblock = do {
     v \<leftarrow> GetValueOut coinbase;
     let isBlockRewardValueMet = (v \<le> blockReward);
     if nBlockHeight < nBudgetPaymentsStartBlock p
     then accept_if isBlockRewardValueMet Exceeded_budgets_not_activated
     else if nBlockHeight < nSuperblockStartBlock p
     then IsOldBudgetBlockValueValid ctx p coinbase nBlockHeight blockReward
     else do {
       limit \<leftarrow> GetPaymentsLimit nSubsidyBase p nBlockHeight;
       let nSuperblockMaxValue = blockReward + limit;
       if \<not> IsValidBlockHeight p nBlockHeight
       then accept_if isBlockRewardValueMet Exceeded_only_regular_allowed
       else if \<not> v \<le> nSuperblockMaxValue then Some (Inl Exceeded_superblock_max)
       else if \<not> IsSynced ctx \<or> \<not> govman_IsValid ctx then Some (Inr ())
       else if \<not> SuperblocksEnabled ctx then accept_if isBlockRewardValueMet Exceeded_superblocks_disabled
       else if \<not> check_superblock then Some (Inr ())
       else if \<not> IsSuperblockTriggered ctx nBlockHeight
       then accept_if isBlockRewardValueMet Exceeded_no_triggered_superblock
       else if \<not> IsValidSuperblock ctx coinbase nBlockHeight blockReward
       then Some (Inl Invalid_superblock_detected)
       else Some (Inr ()) } }"

definition IsBlockPayeeValid :: "PaymentContext \<Rightarrow> Params \<Rightarrow> CTransaction \<Rightarrow> int option \<Rightarrow> CAmount \<Rightarrow> CAmount
    \<Rightarrow> bool \<Rightarrow> bool option" where
  "IsBlockPayeeValid ctx p txNew prev blockSubsidy feeReward check_superblock = do {
     let nBlockHeight = block_height_after prev;
     ok \<leftarrow> IsTransactionValid ctx p txNew prev blockSubsidy feeReward;
     if \<not> ok then Some False
     else if \<not> IsSynced ctx \<or> \<not> govman_IsValid ctx then Some True
     else if nBlockHeight < nSuperblockStartBlock p then Some True
     else if SuperblocksEnabled ctx
     then if \<not> check_superblock then Some True
          else if IsSuperblockTriggered ctx nBlockHeight
          then Some (IsValidSuperblock ctx txNew nBlockHeight (blockSubsidy + feeReward))
          else Some True
     else Some True }"

text \<open>The payments are appended to the outputs and then charged to the first output, one by one.\<close>

definition charge_first :: "CTxOut \<Rightarrow> CTxOut list \<Rightarrow> CTxOut list" where
  "charge_first txout outs = outs[0 := (outs ! 0)\<lparr>nValue := nValue (outs ! 0) - nValue txout\<rparr>]"

definition FillBlockPayments :: "PaymentContext \<Rightarrow> Params \<Rightarrow> CTransaction \<Rightarrow> int option \<Rightarrow> CAmount \<Rightarrow> CAmount
    \<Rightarrow> (CTransaction \<times> CTxOut list \<times> CTxOut list) option" where
  "FillBlockPayments ctx p txNew prev blockSubsidy feeReward = do {
     let nBlockHeight = block_height_after prev;
     let voutSuperblockPayments = (if SuperblocksEnabled ctx \<and> IsSuperblockTriggered ctx nBlockHeight
                                   then SuperblockPayments ctx nBlockHeight else []);
     (_, voutMasternodePayments) \<leftarrow> GetMasternodeTxOuts ctx p prev blockSubsidy feeReward;
     let outs = vout txNew @ voutMasternodePayments @ voutSuperblockPayments;
     Some (txNew\<lparr>vout := fold charge_first voutMasternodePayments outs\<rparr>,
           voutMasternodePayments, voutSuperblockPayments) }"

section \<open>Payments stay within the reward\<close>

definition payments_ok :: "PaymentContext \<Rightarrow> Params \<Rightarrow> CAmount \<Rightarrow> CAmount \<Rightarrow> bool" where
  "payments_ok ctx p blockSubsidy feeReward \<longleftrightarrow>
     0 \<le> blockSubsidy \<and> 0 \<le> feeReward \<and> blockSubsidy + feeReward \<le> MAX_MONEY \<and> 0 < nSuperblockCycle p
     \<and> (blockSubsidy + feeReward) * 10000 < 2 ^ 63
     \<and> pred_option (\<lambda>d. uint (nOperatorReward d) \<le> 10000) (MNPayee ctx)"

lemma PlatformShare_bounds:
  assumes "0 \<le> r" "r \<le> MAX_MONEY"
  shows "\<exists>q. PlatformShare r = Some q \<and> 0 \<le> q \<and> q \<le> r"
  using div_share_mono [of r r 375 1000] assms by (simp add: PlatformShare_def Let_def MoneyRange_def)

lemma to_credit_pool_bounds:
  assumes "0 \<le> sub" "sub \<le> r" "r \<le> MAX_MONEY"
  shows "\<exists>r' outs. to_credit_pool active r sub = Some (r', outs) \<and> 0 \<le> r'
    \<and> r' + (\<Sum>out\<leftarrow>outs. nValue out) = r \<and> list_all (\<lambda>out. 0 \<le> nValue out) outs"
proof (cases active)
  case True
  obtain q where q: "PlatformShare sub = Some q" "0 \<le> q" "q \<le> sub"
    using PlatformShare_bounds [of sub] assms by auto
  then have "MoneyRange (r - q)" using assms by (simp add: MoneyRange_def)
  then show ?thesis using True q assms by (simp add: to_credit_pool_def)
qed (use assms in \<open>simp add: to_credit_pool_def\<close>)

lemma pay_masternode_bounds:
  assumes "0 \<le> r" "uint (nOperatorReward d) \<le> 10000"
  shows "(\<Sum>out\<leftarrow>pay_masternode d r. nValue out) = r \<and> list_all (\<lambda>out. 0 \<le> nValue out) (pay_masternode d r)"
proof -
  define o_r where "o_r = (if nOperatorReward d \<noteq> 0 \<and> scriptOperatorPayout d \<noteq> []
      then cdiv (r * uint (nOperatorReward d)) 10000 else 0)"
  have "0 \<le> o_r" "o_r \<le> r"
    using div_share_mono [of r r "uint (nOperatorReward d)" 10000] assms by (simp_all add: o_r_def)
  then show ?thesis
    unfolding pay_masternode_def Let_def o_r_def [symmetric] by simp
qed

lemma GetBlockTxOuts_bounds:
  assumes "payments_ok ctx p s f"
  shows "\<exists>ok outs. GetBlockTxOuts ctx p prev s f = Some (ok, outs)
    \<and> list_all (\<lambda>out. 0 \<le> nValue out) outs \<and> (\<Sum>out\<leftarrow>outs. nValue out) \<le> s + f"
proof -
  let ?h = "block_height_after prev"
  let ?v = "DeploymentActiveAfter prev p DEPLOYMENT_V20"
  let ?R = "GetMasternodePayment p ?h (s + f) ?v" and ?S = "GetMasternodePayment p ?h s ?v"
  have R: "?R \<le> s + f" "0 \<le> ?S" "?S \<le> ?R" "?R \<le> MAX_MONEY"
    using GetMasternodePayment_mono [of s "s + f" p ?h ?v] GetMasternodePayment_mono [of "s + f" "s + f" p ?h ?v] assms
    by (auto simp: payments_ok_def)
  obtain r outs where r: "to_credit_pool (?v \<and> DeploymentActiveAfter prev p DEPLOYMENT_MN_RR) ?R ?S = Some (r, outs)"
    "0 \<le> r" "r + (\<Sum>out\<leftarrow>outs. nValue out) = ?R" "list_all (\<lambda>out. 0 \<le> nValue out) outs"
    using to_credit_pool_bounds [OF R(2-4)] by blast
  have op: "(\<Sum>out\<leftarrow>pay_masternode d r. nValue out) = r \<and> list_all (\<lambda>out. 0 \<le> nValue out) (pay_masternode d r)"
    if "MNPayee ctx = Some d" for d
    using pay_masternode_bounds [OF r(2)] assms that by (simp add: payments_ok_def)
  show ?thesis
    unfolding GetBlockTxOuts_def Let_def using r R(1) op by (cases "MNPayee ctx") auto
qed

lemma charge_first_Cons [simp]:
  "charge_first txout (out # outs) = out\<lparr>nValue := nValue out - nValue txout\<rparr> # outs"
  by (simp add: charge_first_def)

lemma fold_charge_first:
  "fold charge_first ps (out # outs) = out\<lparr>nValue := nValue out - (\<Sum>txout\<leftarrow>ps. nValue txout)\<rparr> # outs"
  by (induction ps arbitrary: out) (simp_all add: algebra_simps)

lemma FillBlockPayments_spec:
  assumes "payments_ok ctx p s f" "vout txNew = out # outs"
  shows "\<exists>tx mn sb. FillBlockPayments ctx p txNew prev s f = Some (tx, mn, sb)
    \<and> vout tx = out\<lparr>nValue := nValue out - (\<Sum>x\<leftarrow>mn. nValue x)\<rparr> # outs @ mn @ sb
    \<and> (\<Sum>x\<leftarrow>mn. nValue x) \<le> s + f \<and> IsTransactionValid ctx p tx prev s f = Some True"
proof -
  obtain ok mn where mn: "GetBlockTxOuts ctx p prev s f = Some (ok, mn)" "(\<Sum>x\<leftarrow>mn. nValue x) \<le> s + f"
    using GetBlockTxOuts_bounds [OF assms(1), of prev] by blast
  show ?thesis
    by (simp add: FillBlockPayments_def GetMasternodeTxOuts_def mn assms(2) fold_charge_first Let_def
        IsTransactionValid_def list_all_iff)
qed

text \<open>The heights of the old budget payments.\<close>

definition old_budget_window :: "Params \<Rightarrow> int \<Rightarrow> bool" where
  "old_budget_window p h \<longleftrightarrow> nBudgetPaymentsStartBlock p \<le> h \<and> h < nSuperblockStartBlock p
     \<and> cmod h (nBudgetPaymentsCycleBlocks p) < nBudgetPaymentsWindowBlocks p"

lemma IsBlockValueValid_bound:
  assumes "IsBlockValueValid base ctx p coinbase h reward chk = Some (Inr ())"
    and "GetPaymentsLimit base p h = Some limit" "0 \<le> limit" "IsSynced ctx \<or> \<not> old_budget_window p h"
  shows "\<exists>v. GetValueOut coinbase = Some v \<and> v \<le> (if IsValidBlockHeight p h then reward + limit else reward)"
  using assms
  by (auto simp: IsBlockValueValid_def IsOldBudgetBlockValueValid_def old_budget_window_def accept_if_def Let_def split: bind_splits if_splits)

section \<open>Superblock heights\<close>

definition superblocks_ok :: "Params \<Rightarrow> bool" where
  "superblocks_ok p \<longleftrightarrow> 0 < nSuperblockCycle p \<and> 0 < nKSHv040SuperblockCycle p \<and> 0 \<le> nSuperblockStartBlock p
     \<and> nFirstSuperblock p \<le> nKSHv040Height p \<and> nKSHv040Height p mod nSuperblockCycle p = 0"

lemma no_multiple_between:
  fixes c k l :: int
  assumes "0 < c" "l mod c = 0" "k mod c = 0" "l < k" "k < l + c"
  shows False
proof -
  have "(k - l) mod c = 0" using assms(2,3) by (simp add: mod_diff_eq [symmetric])
  then have "c \<le> k - l" using assms(1,4) by (auto intro: zdvd_imp_le)
  then show False using assms(5) by simp
qed

lemma nFirstSuperblock_spec:
  assumes "superblocks_ok p"
  shows "nFirstSuperblock p mod nSuperblockCycle p = 0" "nSuperblockStartBlock p \<le> nFirstSuperblock p"
    "nFirstSuperblock p < nSuperblockStartBlock p + nSuperblockCycle p"
proof -
  let ?c = "nSuperblockCycle p" and ?s = "nSuperblockStartBlock p"
  have c: "0 < ?c" "0 \<le> ?s" using assms by (simp_all add: superblocks_ok_def)
  have m: "0 \<le> ?s mod ?c" "?s mod ?c < ?c" using c by simp_all
  have f: "nFirstSuperblock p = ?s + (?c - ?s mod ?c) mod ?c"
    using c m by (simp add: nFirstSuperblock_def)
  show "?s \<le> nFirstSuperblock p" "nFirstSuperblock p < ?s + ?c" using c by (simp_all add: f)
  show "nFirstSuperblock p mod ?c = 0"
  proof (cases "?s mod ?c = 0")
    case False
    have "(?c - ?s mod ?c) mod ?c = ?c - ?s mod ?c"
      by (rule mod_pos_pos_trivial) (use m False in linarith)+
    then have "nFirstSuperblock p = ?c * (?s div ?c) + ?c"
      using minus_mod_eq_mult_div [of ?s ?c] by (simp add: f)
    then show ?thesis by simp
  qed (simp add: f)
qed

lemma IsValidBlockHeight_pos:
  assumes "superblocks_ok p" "0 \<le> h"
  shows "IsValidBlockHeight p h \<longleftrightarrow> nSuperblockStartBlock p \<le> h
    \<and> (if h \<le> nKSHv040Height p then h mod nSuperblockCycle p = 0
       else (h - nKSHv040Height p) mod nKSHv040SuperblockCycle p = 0)"
  using assms by (auto simp: IsValidBlockHeight_def superblocks_ok_def)

lemma nearest_before_fork:
  assumes "superblocks_ok p" "nFirstSuperblock p \<le> h" "h < nKSHv040Height p"
  defines "l \<equiv> h - h mod nSuperblockCycle p"
  shows "IsValidBlockHeight p l \<and> IsValidBlockHeight p (l + nSuperblockCycle p) \<and> l \<le> h \<and> h < l + nSuperblockCycle p
    \<and> (\<forall>k. l < k \<longrightarrow> k < l + nSuperblockCycle p \<longrightarrow> \<not> IsValidBlockHeight p k)"
proof -
  let ?c = "nSuperblockCycle p"
  have c: "0 < ?c" "0 \<le> nSuperblockStartBlock p" "nKSHv040Height p mod ?c = 0"
    using assms(1) by (simp_all add: superblocks_ok_def)
  note f = nFirstSuperblock_spec [OF assms(1)]
  have l: "l mod ?c = 0" "l \<le> h" "h < l + ?c"
    using c(1) by (simp_all add: l_def minus_mod_eq_mult_div) (simp_all flip: minus_mod_eq_mult_div)
  have first: "nFirstSuperblock p \<le> l"
    using no_multiple_between [OF c(1) l(1) f(1)] l(3) assms(2) by (meson le_less_trans not_less)
  have "l + ?c \<le> nKSHv040Height p"
    using no_multiple_between [OF c(1) l(1) c(3)] l(2) assms(3) by (meson le_less_trans not_less)
  moreover have "(l + ?c) mod ?c = 0" using l(1) by simp
  moreover have "k mod ?c \<noteq> 0" if "l < k" "k < l + ?c" for k
    by (rule notI) (rule no_multiple_between [OF c(1) l(1) _ that])
  ultimately show ?thesis
    using l first f(2) c by (simp add: IsValidBlockHeight_pos [OF assms(1)])
qed

lemma nearest_after_fork:
  assumes "superblocks_ok p" "nKSHv040Height p \<le> h"
  defines "l \<equiv> nKSHv040Height p + (h - nKSHv040Height p) div nKSHv040SuperblockCycle p * nKSHv040SuperblockCycle p"
  shows "IsValidBlockHeight p l \<and> IsValidBlockHeight p (l + nKSHv040SuperblockCycle p) \<and> l \<le> h
    \<and> h < l + nKSHv040SuperblockCycle p
    \<and> (\<forall>k. l < k \<longrightarrow> k < l + nKSHv040SuperblockCycle p \<longrightarrow> \<not> IsValidBlockHeight p k)"
proof -
  let ?f = "nKSHv040SuperblockCycle p" and ?F = "nKSHv040Height p"
  have c: "0 < ?f" "0 \<le> nSuperblockStartBlock p" "?F mod nSuperblockCycle p = 0" "nFirstSuperblock p \<le> ?F"
    using assms(1) by (simp_all add: superblocks_ok_def)
  note f = nFirstSuperblock_spec [OF assms(1)]
  have lF: "(l - ?F) mod ?f = 0" "?F \<le> l"
    using c(1) assms(2) by (simp_all add: l_def pos_imp_zdiv_nonneg_iff)
  have lh: "l \<le> h" "h < l + ?f"
  proof -
    have e: "h - ?F = (h - ?F) div ?f * ?f + (h - ?F) mod ?f" by simp
    show "l \<le> h" "h < l + ?f"
      using e pos_mod_bound [of ?f "h - ?F"] pos_mod_sign [of ?f "h - ?F"] c(1) unfolding l_def by linarith+
  qed
  have k: "\<not> (k - ?F) mod ?f = 0" if "l < k" "k < l + ?f" for k
    using no_multiple_between [OF c(1) lF(1), of "k - ?F"] that by auto
  have "(l + ?f - ?F) mod ?f = 0" using lF(1) by (metis add_diff_eq diff_add_eq mod_add_self2)
  then show ?thesis
    using lF lh k f(2) c by (auto simp: IsValidBlockHeight_pos [OF assms(1)])
qed

lemma nearest_before_first:
  assumes "superblocks_ok p" "0 \<le> h" "h < nFirstSuperblock p"
  shows "IsValidBlockHeight p (nFirstSuperblock p)
    \<and> (\<forall>k. 0 < k \<longrightarrow> k < nFirstSuperblock p \<longrightarrow> \<not> IsValidBlockHeight p k)"
proof -
  note f = nFirstSuperblock_spec [OF assms(1)]
  have c: "0 < nSuperblockCycle p" "0 \<le> nSuperblockStartBlock p" "nFirstSuperblock p \<le> nKSHv040Height p"
    using assms(1) by (simp_all add: superblocks_ok_def)
  have "k mod nSuperblockCycle p \<noteq> 0" if "nSuperblockStartBlock p \<le> k" "k < nFirstSuperblock p" for k
    using no_multiple_between [OF c(1) _ f(1), of k] that f(3) by auto
  then show ?thesis
    using f c by (auto simp: IsValidBlockHeight_pos [OF assms(1)])
qed


section \<open>Claims\<close>

text \<open>
  C31. Filling in the payments of a new block only moves value: with a subsidy and fees inside the money range (and small
  enough for the operator share to be computed in 64 bits), every masternode and credit-pool payment is taken
  from the first output of the coinbase, which is charged at most the whole reward, the superblock payments
  come on top, and the filled transaction passes the payee check \<open>IsTransactionValid\<close> at the same height.
\<close>

theorem filled_payments_balance:
  assumes "payments_ok ctx p s f" "vout txNew = out # outs"
  shows "\<exists>tx mn sb. FillBlockPayments ctx p txNew prev s f = Some (tx, mn, sb)
    \<and> (\<Sum>x\<leftarrow>vout tx. nValue x) = (\<Sum>x\<leftarrow>vout txNew. nValue x) + (\<Sum>x\<leftarrow>sb. nValue x)
    \<and> nValue out - (s + f) \<le> nValue (hd (vout tx))
    \<and> IsTransactionValid ctx p tx prev s f = Some True"
  using FillBlockPayments_spec [OF assms, of prev] assms(2) by fastforce

definition example_ctx :: PaymentContext where
  "example_ctx = \<lparr>AllMNsCount = 1,
     MNPayee = Some \<lparr>nOperatorReward = 2500, scriptPayout = [0x51], scriptOperatorPayout = [0x52]\<rparr>,
     IsSynced = True, govman_IsValid = True, SuperblocksEnabled = False, IsSuperblockTriggered = (\<lambda>h. False),
     IsValidSuperblock = (\<lambda>tx h r. False), SuperblockPayments = (\<lambda>h. [])\<rparr>"

theorem filled_payments_balance_witness:
  "payments_ok example_ctx CTestNetParams (10 * COIN) 5000
   \<and> (\<exists>tx mn sb. FillBlockPayments example_ctx CTestNetParams
          (example_tx\<lparr>vout := [\<lparr>nValue = 10 * COIN + 5000, scriptPubKey = [0x53]\<rparr>]\<rparr>) (Some 5000)
          (10 * COIN) 5000 = Some (tx, mn, sb)
      \<and> (\<Sum>x\<leftarrow>vout tx. nValue x) = 10 * COIN + 5000 + (\<Sum>x\<leftarrow>sb. nValue x))"
proof -
  have ok: "payments_ok example_ctx CTestNetParams (10 * COIN) 5000"
    by (simp add: payments_ok_def example_ctx_def CTestNetParams_def COIN_def MAX_MONEY_def)
  show ?thesis
    using ok filled_payments_balance [OF ok, of
        "example_tx\<lparr>vout := [\<lparr>nValue = 10 * COIN + 5000, scriptPubKey = [0x53]\<rparr>]\<rparr>"
        "\<lparr>nValue = 10 * COIN + 5000, scriptPubKey = [0x53]\<rparr>" "[]" "Some 5000"]
    by auto
qed

text \<open>
  C33. A block whose value is accepted does not pay out too much: an accepted coinbase has outputs that sum without overflow to at
  most the block reward, plus the superblock limit exactly at the superblock heights, whatever governance answers. The only
  heights left out are those of the old budget payments, before the first superblock, while the node is not synchronised:
  there the value is not checked.
\<close>

theorem accepted_block_value_bounded:
  assumes "IsBlockValueValid base ctx p coinbase h reward chk = Some (Inr ())"
    and "GetPaymentsLimit base p h = Some limit" "0 \<le> limit" "IsSynced ctx \<or> \<not> old_budget_window p h"
  shows "\<exists>v. GetValueOut coinbase = Some v \<and> v \<le> (if IsValidBlockHeight p h then reward + limit else reward)"
  by (rule IsBlockValueValid_bound [OF assms])

theorem accepted_block_value_bounded_witness:
  "IsBlockValueValid (\<lambda>_ _. 0) example_ctx CTestNetParams example_tx 27701 (100 * COIN) True = Some (Inr ())
   \<and> (\<exists>v. GetValueOut example_tx = Some v \<and> v \<le> 100 * COIN)"
proof -
  have a: "IsBlockValueValid (\<lambda>_ _. 0) example_ctx CTestNetParams example_tx 27701 (100 * COIN) True = Some (Inr ())"
    by code_simp
  have b: "GetPaymentsLimit (\<lambda>_ _. 0) CTestNetParams 27701 = Some 0" "\<not> IsValidBlockHeight CTestNetParams 27701" "IsSynced example_ctx"
    by code_simp+
  show ?thesis
    using a accepted_block_value_bounded [OF a b(1) _ disjI1 [OF b(3)]] b(2) by auto
qed

text \<open>
  The nearest superblock heights: when the fork height is itself a superblock height of the old cycle,
  \<open>GetNearestSuperblocksHeights\<close> returns for every height the neighbours that \<open>IsValidBlockHeight\<close> accepts:
  the next one is a superblock above the height, the last one is a superblock not above it (or 0 before
  the first), and there is none in between.
\<close>

theorem nearest_superblocks_are_neighbours:
  assumes "superblocks_ok p" "0 \<le> h"
  shows "\<exists>l n. GetNearestSuperblocksHeights p h = (l, n) \<and> l \<le> h \<and> h < n \<and> IsValidBlockHeight p n
    \<and> (if h < nFirstSuperblock p then l = 0 else IsValidBlockHeight p l)
    \<and> (\<forall>k. l < k \<longrightarrow> k < n \<longrightarrow> \<not> IsValidBlockHeight p k)"
proof -
  consider "h < nFirstSuperblock p" | "nFirstSuperblock p \<le> h" "h < nKSHv040Height p"
    | "nFirstSuperblock p \<le> h" "nKSHv040Height p \<le> h" by linarith
  then show ?thesis
  proof cases
    case 1
    then show ?thesis using nearest_before_first [OF assms] assms(2) by (simp add: GetNearestSuperblocksHeights_def)
  next
    case 2
    then show ?thesis using nearest_before_fork [OF assms(1) 2] assms
      by (simp add: GetNearestSuperblocksHeights_def superblocks_ok_def Let_def)
  next
    case 3
    then show ?thesis using nearest_after_fork [OF assms(1) 3(2)] assms
      by (simp add: GetNearestSuperblocksHeights_def superblocks_ok_def Let_def)
  qed
qed

theorem nearest_superblocks_are_neighbours_witness:
  "superblocks_ok CTestNetParams
   \<and> (\<exists>l n. GetNearestSuperblocksHeights CTestNetParams 200000 = (l, n) \<and> l \<le> 200000 \<and> 200000 < n)"
proof -
  have ok: "superblocks_ok CTestNetParams" by code_simp
  show ?thesis using ok nearest_superblocks_are_neighbours [OF ok, of 200000] by auto
qed

end
