(* ===== verification/Versionbits.thy ===== *)
theory Versionbits
  imports Block_Index
begin

text \<open>
The deployment state machine of \<^verbatim>\<open>versionbits.cpp\<close> and \<^verbatim>\<open>versionbits.h\<close>: the abstract threshold
  checker as a record of its virtual functions, the checker of a version-bits deployment, the
  state query with its cache (walk back to a known period, then forward), the height a state was
  entered at, the statistics of the running period and the version of a new block. The cache is
  a map from period ends to states. The specification runs the BIP 9 diagram forward from genesis,
  one transition per period; the query is shown to compute it with any cache earlier queries may
  have left, to end, and to decide every deployment.
\<close>

unbundle bit_operations_syntax

section \<open>Checkers\<close>

datatype ThresholdState = DEFINED | STARTED | LOCKED_IN | ACTIVE | FAILED

type_synonym ThresholdConditionCache = "ptr option \<rightharpoonup> ThresholdState"

text \<open>
  The virtual functions of \<open>AbstractThresholdConditionChecker\<close>, with the parameters already
  supplied; \<open>SignalHeight\<close> depends on the block the question is asked for.
\<close>

record checker =
  Condition :: "CBlockIndex \<Rightarrow> bool"
  BeginTime :: int
  SignalHeight :: "ptr option \<Rightarrow> int"
  EndTime :: int
  MinActivationHeight :: int
  Period :: int
  Threshold :: "int \<Rightarrow> int"

definition VERSIONBITS_TOP_BITS :: u32 where "VERSIONBITS_TOP_BITS = 0x20000000"
definition VERSIONBITS_TOP_MASK :: u32 where "VERSIONBITS_TOP_MASK = 0xE0000000"

definition Mask :: "BIP9Deployment \<Rightarrow> u32" where
  "Mask d = push_bit (nat (bip9_bit d)) 1"

definition deployment_period :: "Params \<Rightarrow> BIP9Deployment \<Rightarrow> int" where
  "deployment_period params d = (if nWindowSize d \<noteq> 0 then nWindowSize d else nMinerConfirmationWindow params)"

definition deployment_threshold :: "Params \<Rightarrow> BIP9Deployment \<Rightarrow> int \<Rightarrow> int" where
  "deployment_threshold params d nAttempt =
     (if nThresholdStart d = 0 then nRuleChangeActivationThreshold params
      else if nThresholdMin d = 0 \<or> nFalloffCoeff d = 0 then nThresholdStart d
      else let nThresholdCalc = nThresholdStart d
             - cdiv (cdiv (nAttempt * nAttempt * deployment_period params d) 100) (nFalloffCoeff d)
           in max (nThresholdMin d) nThresholdCalc)"

text \<open>
  \<open>signals\<close> stands for \<open>GetSignalsStage\<close> of the hard-fork signal manager: the height at which each
  bit was signalled, as seen from a block.
\<close>

definition VersionBitsConditionChecker :: "(ptr option \<Rightarrow> int \<rightharpoonup> int) \<Rightarrow> Params \<Rightarrow> DeploymentPos \<Rightarrow> checker" where
  "VersionBitsConditionChecker signals params pos = (let d = vDeployments params pos in
     \<lparr>Condition = (\<lambda>pindex. nVersion pindex AND VERSIONBITS_TOP_MASK = VERSIONBITS_TOP_BITS
                     \<and> nVersion pindex AND Mask d \<noteq> 0),
      BeginTime = nStartTime d,
      SignalHeight = (\<lambda>pindexPrev. if \<not> useEHF d then 0
                      else case signals pindexPrev (bip9_bit d) of None \<Rightarrow> INT_MAX | Some h \<Rightarrow> h),
      EndTime = nTimeout d, MinActivationHeight = min_activation_height d,
      Period = deployment_period params d, Threshold = deployment_threshold params d\<rparr>)"

section \<open>The state of a deployment\<close>

text \<open>The loops carry fuel; \<open>walk_fuel\<close> gives them one more round than there are blocks.\<close>

definition walk_fuel :: "BlockMap \<Rightarrow> ptr option \<Rightarrow> nat" where
  "walk_fuel bm p = (case Option.bind p bm of None \<Rightarrow> 1 | Some b \<Rightarrow> nat (nHeight b) + 2)"

primrec start_height_loop ::
  "nat \<Rightarrow> BlockMap \<Rightarrow> int \<Rightarrow> ThresholdConditionCache \<Rightarrow> ptr option \<Rightarrow> ThresholdState \<Rightarrow> int \<Rightarrow> chain_error + int" where
  "start_height_loop 0 bm nPeriod cache pindexPrev state nStartHeight = Inl Fuel_exhausted"
| "start_height_loop (Suc fuel) bm nPeriod cache pindexPrev state nStartHeight =
     (if state \<noteq> STARTED then Inr nStartHeight
      else case pindexPrev of None \<Rightarrow> Inl Null_deref
      | Some p \<Rightarrow> bind_sum (deref bm p) (\<lambda>b.
          bind_sum (GetAncestor bm p (nHeight b - nPeriod)) (\<lambda>q.
            case cache q of None \<Rightarrow> Inl Assertion_failed
            | Some state \<Rightarrow> start_height_loop fuel bm nPeriod cache q state (min (nHeight b + 1) nStartHeight))))"

definition calculateStartHeight ::
  "BlockMap \<Rightarrow> ptr option \<Rightarrow> ThresholdState \<Rightarrow> int \<Rightarrow> ThresholdConditionCache \<Rightarrow> chain_error + int" where
  "calculateStartHeight bm pindexPrev state nPeriod cache =
     start_height_loop (walk_fuel bm pindexPrev) bm nPeriod cache pindexPrev state INT_MAX"

text \<open>\<open>vToCompute\<close> is the list of the blocks still to compute, the one pushed last in front.\<close>

primrec walk_back ::
  "nat \<Rightarrow> BlockMap \<Rightarrow> checker \<Rightarrow> int \<Rightarrow> int \<Rightarrow> ThresholdConditionCache \<Rightarrow> ptr option \<Rightarrow> ptr list
     \<Rightarrow> chain_error + (ptr option \<times> ThresholdConditionCache \<times> ptr list)" where
  "walk_back 0 bm C minWarning signalHeight cache pindexPrev vToCompute = Inl Fuel_exhausted"
| "walk_back (Suc fuel) bm C minWarning signalHeight cache pindexPrev vToCompute =
     (if cache pindexPrev \<noteq> None then Inr (pindexPrev, cache, vToCompute)
      else case pindexPrev of None \<Rightarrow> Inr (pindexPrev, cache(pindexPrev \<mapsto> DEFINED), vToCompute)
      | Some p \<Rightarrow> bind_sum (deref bm p) (\<lambda>b.
          if nHeight b < minWarning then Inr (pindexPrev, cache(pindexPrev \<mapsto> DEFINED), vToCompute)
          else bind_sum (GetMedianTimePast bm p) (\<lambda>mtp.
            if mtp < BeginTime C \<or> nHeight b < signalHeight
            then Inr (pindexPrev, cache(pindexPrev \<mapsto> DEFINED), vToCompute)
            else bind_sum (GetAncestor bm p (nHeight b - Period C)) (\<lambda>q.
              walk_back fuel bm C minWarning signalHeight cache q (p # vToCompute)))))"

text \<open>The counting loop gives up as soon as the threshold is out of reach; its first argument is \<open>nPeriod - i\<close>.\<close>

primrec count_loop :: "nat \<Rightarrow> BlockMap \<Rightarrow> checker \<Rightarrow> int \<Rightarrow> int \<Rightarrow> ptr option \<Rightarrow> chain_error + int" where
  "count_loop 0 bm C threshold count pindexCount = Inr count"
| "count_loop (Suc r) bm C threshold count pindexCount =
     (if count + int (Suc r) \<ge> threshold
      then case pindexCount of None \<Rightarrow> Inl Null_deref
        | Some p \<Rightarrow> bind_sum (deref bm p) (\<lambda>b.
            count_loop r bm C threshold (if Condition C b then count + 1 else count) (pprev b))
      else Inr count)"

definition next_state ::
  "BlockMap \<Rightarrow> checker \<Rightarrow> int \<Rightarrow> ptr \<Rightarrow> ThresholdState \<Rightarrow> int \<Rightarrow> chain_error + (ThresholdState \<times> int)" where
  "next_state bm C signalHeight p state nStartHeight =
     bind_sum (deref bm p) (\<lambda>b. case state of
        DEFINED \<Rightarrow> bind_sum (GetMedianTimePast bm p) (\<lambda>mtp.
          if mtp \<ge> BeginTime C \<and> nHeight b \<ge> signalHeight then Inr (STARTED, nHeight b + 1)
          else Inr (state, nStartHeight))
      | STARTED \<Rightarrow>
          let nAttempt = cdiv (nHeight b - nStartHeight) (Period C); threshold = Threshold C nAttempt
          in bind_sum (count_loop (nat (Period C)) bm C threshold 0 (Some p)) (\<lambda>count.
            if \<not> (nStartHeight > 0 \<and> nStartHeight < INT_MAX) then Inl Assertion_failed
            else if count \<ge> threshold then Inr (LOCKED_IN, nStartHeight)
            else bind_sum (GetMedianTimePast bm p) (\<lambda>mtp.
              if mtp \<ge> EndTime C then Inr (FAILED, nStartHeight) else Inr (state, nStartHeight)))
      | LOCKED_IN \<Rightarrow> if nHeight b + 1 \<ge> MinActivationHeight C then Inr (ACTIVE, nStartHeight) else Inr (state, nStartHeight)
      | _ \<Rightarrow> Inr (state, nStartHeight))"

primrec walk_forward ::
  "ptr list \<Rightarrow> BlockMap \<Rightarrow> checker \<Rightarrow> int \<Rightarrow> ThresholdState \<Rightarrow> int \<Rightarrow> ThresholdConditionCache
     \<Rightarrow> chain_error + (ThresholdState \<times> ThresholdConditionCache)" where
  "walk_forward [] bm C signalHeight state nStartHeight cache = Inr (state, cache)"
| "walk_forward (p # vToCompute) bm C signalHeight state nStartHeight cache =
     bind_sum (next_state bm C signalHeight p state nStartHeight) (\<lambda>(stateNext, nStartHeight).
       walk_forward vToCompute bm C signalHeight stateNext nStartHeight (cache(Some p \<mapsto> stateNext)))"

text \<open>The last block of the period before the one that contains the block after \<open>pindexPrev\<close>.\<close>

definition period_parent :: "BlockMap \<Rightarrow> int \<Rightarrow> ptr \<Rightarrow> chain_error + ptr option" where
  "period_parent bm nPeriod p = bind_sum (deref bm p) (\<lambda>b.
     if nPeriod = 0 then Inl (Arith_error Division_by_zero)
     else GetAncestor bm p (nHeight b - cmod (nHeight b + 1) nPeriod))"

definition GetStateFor ::
  "BlockMap \<Rightarrow> checker \<Rightarrow> int \<Rightarrow> ptr option \<Rightarrow> ThresholdConditionCache \<Rightarrow> chain_error + (ThresholdState \<times> ThresholdConditionCache)" where
  "GetStateFor bm C minWarning pindexPrev cache =
     (if BeginTime C = ALWAYS_ACTIVE then Inr (ACTIVE, cache)
      else if BeginTime C = NEVER_ACTIVE then Inr (FAILED, cache)
      else bind_sum (case pindexPrev of None \<Rightarrow> Inr None | Some p \<Rightarrow> period_parent bm (Period C) p) (\<lambda>start.
        bind_sum (walk_back (walk_fuel bm start) bm C minWarning (SignalHeight C pindexPrev) cache start [])
          (\<lambda>(base, cache, vToCompute).
            case cache base of None \<Rightarrow> Inl Assertion_failed
            | Some state \<Rightarrow>
                if vToCompute = [] then Inr (state, cache)
                else bind_sum (calculateStartHeight bm base state (Period C) cache) (\<lambda>nStartHeight.
                  walk_forward vToCompute bm C (SignalHeight C pindexPrev) state nStartHeight cache))))"

section \<open>Since when\<close>

primrec since_loop ::
  "nat \<Rightarrow> BlockMap \<Rightarrow> checker \<Rightarrow> int \<Rightarrow> ThresholdState \<Rightarrow> ptr \<Rightarrow> ptr option \<Rightarrow> ThresholdConditionCache
     \<Rightarrow> chain_error + (ptr \<times> ThresholdConditionCache)" where
  "since_loop 0 bm C minWarning initialState pindexPrev previousPeriodParent cache = Inl Fuel_exhausted"
| "since_loop (Suc fuel) bm C minWarning initialState pindexPrev previousPeriodParent cache =
     (case previousPeriodParent of None \<Rightarrow> Inr (pindexPrev, cache)
      | Some q \<Rightarrow> bind_sum (GetStateFor bm C minWarning previousPeriodParent cache) (\<lambda>(state, cache).
          if state = initialState
          then bind_sum (deref bm q) (\<lambda>b. bind_sum (GetAncestor bm q (nHeight b - Period C)) (\<lambda>pp.
                 since_loop fuel bm C minWarning initialState q pp cache))
          else Inr (pindexPrev, cache)))"

definition GetStateSinceHeightFor ::
  "BlockMap \<Rightarrow> checker \<Rightarrow> int \<Rightarrow> ptr option \<Rightarrow> ThresholdConditionCache \<Rightarrow> chain_error + (int \<times> ThresholdConditionCache)" where
  "GetStateSinceHeightFor bm C minWarning pindexPrev cache =
     (if BeginTime C = ALWAYS_ACTIVE \<or> BeginTime C = NEVER_ACTIVE then Inr (0, cache)
      else bind_sum (GetStateFor bm C minWarning pindexPrev cache) (\<lambda>(initialState, cache).
        if initialState = DEFINED then Inr (0, cache)
        else case pindexPrev of None \<Rightarrow> Inl Null_deref
        | Some p \<Rightarrow> bind_sum (period_parent bm (Period C) p) (\<lambda>e.
            case e of None \<Rightarrow> Inl Assertion_failed
            | Some e \<Rightarrow> bind_sum (deref bm e) (\<lambda>b.
                bind_sum (GetAncestor bm e (nHeight b - Period C)) (\<lambda>pp.
                bind_sum (since_loop (walk_fuel bm (Some e)) bm C minWarning initialState e pp cache) (\<lambda>(e, cache).
                bind_sum (deref bm e) (\<lambda>b. Inr (nHeight b + 1, cache))))))))"

text \<open>The statistics of the running period; \<open>period\<close>, \<open>threshold\<close>, \<open>elapsed\<close>, \<open>count\<close> and \<open>possible\<close> in this order.\<close>

record BIP9Stats =
  stat_period :: int
  stat_threshold :: int
  stat_elapsed :: int
  stat_count :: int
  stat_possible :: bool

primrec stats_loop :: "nat \<Rightarrow> BlockMap \<Rightarrow> checker \<Rightarrow> int \<Rightarrow> ptr option \<Rightarrow> int \<Rightarrow> chain_error + int" where
  "stats_loop 0 bm C stop currentIndex count = Inl Fuel_exhausted"
| "stats_loop (Suc fuel) bm C stop currentIndex count = (case currentIndex of None \<Rightarrow> Inl Null_deref
     | Some p \<Rightarrow> bind_sum (deref bm p) (\<lambda>b.
         if stop \<noteq> nHeight b
         then stats_loop fuel bm C stop (pprev b) (if Condition C b then count + 1 else count)
         else Inr count))"

definition GetStateStatisticsFor ::
  "BlockMap \<Rightarrow> checker \<Rightarrow> int \<Rightarrow> ptr option \<Rightarrow> ThresholdConditionCache \<Rightarrow> chain_error + (BIP9Stats \<times> ThresholdConditionCache)" where
  "GetStateStatisticsFor bm C minWarning pindex cache = (case pindex of
     None \<Rightarrow> Inr (\<lparr>stat_period = Period C, stat_threshold = Threshold C 0, stat_elapsed = 0, stat_count = 0,
                   stat_possible = False\<rparr>, cache)
   | Some p \<Rightarrow> bind_sum (deref bm p) (\<lambda>b.
       bind_sum (period_parent bm (Period C) p) (\<lambda>e. case e of None \<Rightarrow> Inl Null_deref
       | Some e \<Rightarrow> bind_sum (deref bm e) (\<lambda>be.
           bind_sum (GetStateFor bm C minWarning (Some e) cache) (\<lambda>(state, cache).
           bind_sum (if state = STARTED
                     then bind_sum (GetStateSinceHeightFor bm C minWarning (Some e) cache) (\<lambda>(nStartHeight, cache).
                            Inr (cdiv (nHeight be + 1 - nStartHeight) (Period C), cache))
                     else Inr (0, cache)) (\<lambda>(nAttempt, cache).
           bind_sum (stats_loop (walk_fuel bm pindex) bm C (nHeight be) pindex 0) (\<lambda>count.
             let threshold = Threshold C nAttempt; elapsed = nHeight b - nHeight be
             in Inr (\<lparr>stat_period = Period C, stat_threshold = threshold, stat_elapsed = elapsed, stat_count = count,
                      stat_possible = (Period C - threshold \<ge> elapsed - count)\<rparr>, cache))))))))"

definition ComputeBlockVersion ::
  "BlockMap \<Rightarrow> (ptr option \<Rightarrow> int \<rightharpoonup> int) \<Rightarrow> Params \<Rightarrow> ptr option \<Rightarrow> (DeploymentPos \<Rightarrow> ThresholdConditionCache)
     \<Rightarrow> chain_error + (u32 \<times> (DeploymentPos \<Rightarrow> ThresholdConditionCache))" where
  "ComputeBlockVersion bm signals params pindexPrev m_caches =
     foldl (\<lambda>acc pos. bind_sum acc (\<lambda>(nVersion, m_caches).
        bind_sum (GetStateFor bm (VersionBitsConditionChecker signals params pos) (MinBIP9WarningHeight params)
                    pindexPrev (m_caches pos)) (\<lambda>(state, cache).
          Inr (if state = LOCKED_IN \<or> state = STARTED then nVersion OR Mask (vDeployments params pos) else nVersion,
               m_caches(pos := cache)))))
       (Inr (VERSIONBITS_TOP_BITS, m_caches)) [DEPLOYMENT_TESTDUMMY, DEPLOYMENT_V24]"

section \<open>Specification: BIP 9 period by period\<close>

definition median_time :: "BlockMap \<Rightarrow> ptr \<Rightarrow> int" where
  "median_time bm p = (case GetMedianTimePast bm p of Inr m \<Rightarrow> m | Inl _ \<Rightarrow> 0)"

text \<open>How many blocks at the heights from \<open>lo\<close> below \<open>hi\<close> signal, on the chain of \<open>t\<close>.\<close>

definition signalled :: "BlockMap \<Rightarrow> checker \<Rightarrow> ptr \<Rightarrow> int \<Rightarrow> int \<Rightarrow> int" where
  "signalled bm C t lo hi =
     int (card {h \<in> {lo..<hi}. \<exists>q b. ancestor_at bm t h = Some q \<and> bm q = Some b \<and> Condition C b})"

definition ready :: "BlockMap \<Rightarrow> checker \<Rightarrow> int \<Rightarrow> ptr \<Rightarrow> bool" where
  "ready bm C minWarning p \<longleftrightarrow> (case bm p of None \<Rightarrow> False
     | Some b \<Rightarrow> minWarning \<le> nHeight b \<and> BeginTime C \<le> median_time bm p \<and> SignalHeight C (Some p) \<le> nHeight b)"

text \<open>
  The state after period number \<open>k\<close> on the chain of \<open>t\<close>, with the height at which the deployment
  started; \<open>transition\<close> is one arrow of the state diagram, taken at the last block \<open>e\<close> of a period.
\<close>

definition transition ::
  "BlockMap \<Rightarrow> checker \<Rightarrow> int \<Rightarrow> ptr \<Rightarrow> int \<Rightarrow> ThresholdState \<times> int \<Rightarrow> ThresholdState \<times> int" where
  "transition bm C minWarning e h s = (case fst s of
     DEFINED \<Rightarrow> if ready bm C minWarning e then (STARTED, h + 1) else s
   | STARTED \<Rightarrow> if Threshold C ((h - snd s) div Period C) \<le> signalled bm C e (h + 1 - Period C) (h + 1)
                then (LOCKED_IN, snd s) else if EndTime C \<le> median_time bm e then (FAILED, snd s) else s
   | LOCKED_IN \<Rightarrow> if MinActivationHeight C \<le> h + 1 then (ACTIVE, snd s) else s
   | _ \<Rightarrow> s)"

primrec bip9 :: "BlockMap \<Rightarrow> checker \<Rightarrow> int \<Rightarrow> ptr \<Rightarrow> nat \<Rightarrow> ThresholdState \<times> int" where
  "bip9 bm C minWarning t 0 = (DEFINED, 0)"
| "bip9 bm C minWarning t (Suc k) =
     (let h = int (Suc k) * Period C - 1
      in case ancestor_at bm t h of None \<Rightarrow> bip9 bm C minWarning t k
         | Some e \<Rightarrow> transition bm C minWarning e h (bip9 bm C minWarning t k))"

definition period_of :: "checker \<Rightarrow> CBlockIndex \<Rightarrow> nat" where
  "period_of C b = nat ((nHeight b + 1) div Period C)"

definition bip9_at :: "BlockMap \<Rightarrow> checker \<Rightarrow> int \<Rightarrow> ptr option \<Rightarrow> ThresholdState \<times> int" where
  "bip9_at bm C minWarning key = (case key of None \<Rightarrow> (DEFINED, 0)
     | Some p \<Rightarrow> (case bm p of None \<Rightarrow> (DEFINED, 0) | Some b \<Rightarrow> bip9 bm C minWarning p (period_of C b)))"

text \<open>What the code relies on: the rule on block times, and a signal that stays where it was mined.\<close>

definition times_ok :: "BlockMap \<Rightarrow> bool" where
  "times_ok bm \<longleftrightarrow> (\<forall>p b q m. bm p = Some b \<longrightarrow> pprev b = Some q \<longrightarrow> GetMedianTimePast bm q = Inr m \<longrightarrow> m \<le> GetBlockTime b)"

definition signals_stay :: "BlockMap \<Rightarrow> checker \<Rightarrow> bool" where
  "signals_stay bm C \<longleftrightarrow> (\<forall>t k q. ancestor_at bm t k = Some q \<longrightarrow>
     (SignalHeight C (Some t) \<le> k \<longleftrightarrow> SignalHeight C (Some q) \<le> k))"

definition vb_ok :: "BlockMap \<Rightarrow> checker \<Rightarrow> bool" where
  "vb_ok bm C \<longleftrightarrow> linked bm \<and> skips_ok bm \<and> times_ok bm \<and> signals_stay bm C \<and> 0 < Period C
     \<and> (\<forall>p b. bm p = Some b \<longrightarrow> nHeight b + 1 < INT_MAX)"

lemma vb_okD:
  assumes "vb_ok bm C"
  shows "linked bm" "skips_ok bm" "times_ok bm" "signals_stay bm C" "0 < Period C"
    and "bm p = Some b \<Longrightarrow> nHeight b + 1 < INT_MAX"
  using assms by (auto simp: vb_ok_def)

definition boundary :: "BlockMap \<Rightarrow> checker \<Rightarrow> ptr \<Rightarrow> CBlockIndex \<Rightarrow> bool" where
  "boundary bm C p b \<longleftrightarrow> bm p = Some b \<and> (nHeight b + 1) mod Period C = 0"

abbreviation prev_end :: "BlockMap \<Rightarrow> checker \<Rightarrow> ptr \<Rightarrow> CBlockIndex \<Rightarrow> ptr option" where
  "prev_end bm C p b \<equiv> ancestor_at bm p (nHeight b - Period C)"

section \<open>Ancestors and periods\<close>

lemma bip9_ancestor:
  assumes "linked bm" "0 < Period C" "ancestor_at bm t m = Some p" "int k * Period C - 1 \<le> m"
  shows "bip9 bm C w p k = bip9 bm C w t k"
  using assms(4)
proof (induction k)
  case (Suc k)
  have "0 \<le> int (Suc k) * Period C - 1" using mult_mono [of 1 "int (Suc k)" 1 "Period C"] assms(2) by simp
  then have "ancestor_at bm p (int (Suc k) * Period C - 1) = ancestor_at bm t (int (Suc k) * Period C - 1)"
    using tree.anc_trans [OF assms(1,3)] Suc.prems by simp
  moreover have "int k * Period C - 1 \<le> m" using Suc.prems assms(2) by (simp add: algebra_simps)
  ultimately show ?case using Suc.IH by (simp add: Let_def split: option.split)
qed simp

lemma period_end:
  assumes "vb_ok bm C" "bm p = Some b"
  shows "nHeight b - cmod (nHeight b + 1) (Period C) = int (period_of C b) * Period C - 1"
    and "int (period_of C b) * Period C - 1 \<le> nHeight b"
    and "nHeight b < int (Suc (period_of C b)) * Period C - 1"
proof -
  have h: "0 \<le> nHeight b" "0 < Period C" using linkedD(2) assms by (auto simp: vb_ok_def)
  then have k: "int (period_of C b) = (nHeight b + 1) div Period C"
    by (simp add: period_of_def pos_imp_zdiv_nonneg_iff)
  have m: "(nHeight b + 1) div Period C * Period C + (nHeight b + 1) mod Period C = nHeight b + 1"
    by (rule div_mult_mod_eq)
  have r: "0 \<le> (nHeight b + 1) mod Period C" "(nHeight b + 1) mod Period C < Period C" using h by simp_all
  show "nHeight b - cmod (nHeight b + 1) (Period C) = int (period_of C b) * Period C - 1"
    unfolding k using h m by (subst cmod_nonneg) linarith+
  show "int (period_of C b) * Period C - 1 \<le> nHeight b" unfolding k using m r by linarith
  show "nHeight b < int (Suc (period_of C b)) * Period C - 1" 
  proof -
    have "int (Suc (period_of C b)) * Period C = (nHeight b + 1) div Period C * Period C + Period C"
      by (simp add: k distrib_right)
    then show ?thesis using m r by linarith
  qed
qed

lemma period_of_end:
  assumes "vb_ok bm C" "nHeight e = int k * Period C - 1"
  shows "period_of C e = k"
  using assms by (simp add: period_of_def vb_ok_def)

lemma boundary_height:
  assumes "vb_ok bm C" "boundary bm C p b"
  obtains k where "period_of C b = Suc k" "nHeight b = int (Suc k) * Period C - 1"
    "nHeight b - Period C = int k * Period C - 1"
proof -
  have h: "0 \<le> nHeight b" "0 < Period C" using linkedD(2) assms by (auto simp: vb_ok_def boundary_def)
  have m: "(nHeight b + 1) div Period C * Period C = nHeight b + 1"
    using assms(2) div_mult_mod_eq [of "nHeight b + 1" "Period C"] by (simp add: boundary_def)
  then have "(nHeight b + 1) div Period C \<noteq> 0" using h by auto
  moreover have "0 \<le> (nHeight b + 1) div Period C" using h by (simp add: pos_imp_zdiv_nonneg_iff)
  ultimately have k: "(nHeight b + 1) div Period C = int (Suc (nat ((nHeight b + 1) div Period C) - 1))" (is "_ = int (Suc ?k)")
    by linarith
  show ?thesis
  proof (rule that)
    show "period_of C b = Suc ?k" unfolding period_of_def using k by linarith
    show *: "nHeight b = int (Suc ?k) * Period C - 1" using m unfolding k [symmetric] by linarith
    show "nHeight b - Period C = int ?k * Period C - 1" by (subst *) (simp add: distrib_right)
  qed
qed

lemma bip9_at_ancestor:
  assumes "vb_ok bm C" "bm t = Some b" "int k * Period C - 1 \<le> nHeight b"
  shows "bip9_at bm C w (ancestor_at bm t (int k * Period C - 1)) = bip9 bm C w t k"
proof (cases k)
  case (Suc j)
  have P: "0 < Period C" using assms(1) by (simp add: vb_ok_def)
  have "0 \<le> int k * Period C - 1" using mult_mono [of 1 "int k" 1 "Period C"] P Suc by simp
  then obtain q c where q: "ancestor_at bm t (int k * Period C - 1) = Some q" "bm q = Some c" "nHeight c = int k * Period C - 1"
    using ancestor_at_exists [OF vb_okD(1) [OF assms(1)] assms(2) _ assms(3)] by blast
  then show ?thesis
    using bip9_ancestor [OF vb_okD(1) [OF assms(1)] P q(1), of k] period_of_end [OF assms(1) q(3)]
    by (simp add: bip9_at_def)
qed (simp add: bip9_at_def)

text \<open>The state of a block is that of the last block of the period before, one transition later.\<close>

lemma bip9_at_period_end:
  assumes "vb_ok bm C" "bm p = Some b"
  shows "period_parent bm (Period C) p = Inr (ancestor_at bm p (int (period_of C b) * Period C - 1))"
    and "bip9_at bm C w (ancestor_at bm p (int (period_of C b) * Period C - 1)) = bip9_at bm C w (Some p)"
  using GetAncestor_correct [OF vb_okD(1,2) [OF assms(1)] assms(2)] period_end [OF assms] assms
    bip9_at_ancestor [OF assms period_end(2) [OF assms]]
  by (auto simp: period_parent_def bip9_at_def vb_ok_def)

lemma bip9_at_boundary:
  assumes "vb_ok bm C" "boundary bm C p b"
  shows "bip9_at bm C w (Some p) = transition bm C w p (nHeight b) (bip9_at bm C w (prev_end bm C p b))"
proof -
  obtain k where k: "period_of C b = Suc k" "nHeight b = int (Suc k) * Period C - 1" "nHeight b - Period C = int k * Period C - 1"
    by (rule boundary_height [OF assms])
  have b: "bm p = Some b" using assms(2) by (simp add: boundary_def)
  have "ancestor_at bm p (nHeight b) = Some p" by (rule ancestor_at_self [OF vb_okD(1) [OF assms(1)] b])
  moreover have "bip9_at bm C w (prev_end bm C p b) = bip9 bm C w p k"
    unfolding k(3) by (rule bip9_at_ancestor [OF assms(1) b]) (use k assms(1) in \<open>simp add: vb_ok_def\<close>)
  ultimately show ?thesis using b k(1,2) by (simp add: bip9_at_def Let_def)
qed

lemma boundary_prev_end:
  assumes "vb_ok bm C" "boundary bm C p b" "prev_end bm C p b = Some q"
  obtains c where "boundary bm C q c" "nHeight c = nHeight b - Period C"
proof -
  obtain c where "bm q = Some c" "nHeight c = nHeight b - Period C"
    using tree.anc_height_eq [OF vb_okD(1) [OF assms(1)] assms(3)] by (auto simp: height_of_def)
  moreover have "(nHeight b - Period C + 1) mod Period C = 0"
    using assms(2) minus_mod_self2 [of "nHeight b + 1" "Period C"] by (simp add: boundary_def algebra_simps)
  ultimately show ?thesis using that [of c] by (simp add: boundary_def)
qed

lemma boundary_period_end:
  assumes "vb_ok bm C" "bm p = Some b" "ancestor_at bm p (int (period_of C b) * Period C - 1) = Some q"
  obtains c where "boundary bm C q c" "nHeight c \<le> nHeight b"
proof -
  obtain c where "bm q = Some c" "nHeight c = int (period_of C b) * Period C - 1"
    using tree.anc_height_eq [OF vb_okD(1) [OF assms(1)] assms(3)] by (auto simp: height_of_def)
  then show ?thesis using that [of c] period_end(2) [OF assms(1,2)] by (simp add: boundary_def)
qed

section \<open>Readiness grows along a chain\<close>

lemma median_time_total:
  assumes "linked bm" "bm p = Some b"
  shows "GetMedianTimePast bm p = Inr (median_time bm p)"
  using GetMedianTimePast_total [OF assms] by (auto simp: median_time_def)

lemma median_time_mono_iter:
  assumes "vb_ok bm C" "bm p = Some b" "prev_iter bm n p = Some q"
  shows "median_time bm q \<le> median_time bm p"
  using assms(2,3)
proof (induction n arbitrary: p b)
  case (Suc n)
  then obtain r where r: "pprev b = Some r" "prev_iter bm n r = Some q" by (auto split: option.splits)
  obtain c where c: "bm r = Some c" using linkedD(4) [OF vb_okD(1) [OF assms(1)] Suc.prems(1) r(1)] by auto
  have m: "GetMedianTimePast bm r = Inr (median_time bm r)" by (rule median_time_total [OF vb_okD(1) [OF assms(1)] c])
  then have "median_time bm r \<le> GetBlockTime b" using vb_okD(3) [OF assms(1)] Suc.prems(1) r(1) by (auto simp: times_ok_def)
  then have "median_time bm r \<le> median_time bm p"
    using GetMedianTimePast_mono [OF vb_okD(1) [OF assms(1)] Suc.prems(1) r(1) m] by (auto simp: median_time_def)
  then show ?case using Suc.IH [OF c r(2)] by simp
qed simp

lemma median_time_mono:
  assumes "vb_ok bm C" "ancestor_at bm p k = Some q"
  shows "median_time bm q \<le> median_time bm p"
  using assms(2) by (elim ancestor_at_SomeD) (rule median_time_mono_iter [OF assms(1)])

lemma ready_mono:
  assumes "vb_ok bm C" "ancestor_at bm p k = Some q" "ready bm C w q"
  shows "ready bm C w p"
proof -
  obtain b where b: "bm p = Some b" "k \<le> nHeight b" using assms(2) by (elim ancestor_at_SomeD)
  obtain c where c: "bm q = Some c" "nHeight c = k"
    using tree.anc_height_eq [OF vb_okD(1) [OF assms(1)] assms(2)] by (auto simp: height_of_def)
  have "SignalHeight C (Some p) \<le> k"
    using vb_okD(4) [OF assms(1)] assms(2,3) c by (auto simp: signals_stay_def ready_def)
  then show ?thesis using assms(3) median_time_mono [OF assms(1,2)] b c by (auto simp: ready_def)
qed

lemma not_ready_defined:
  assumes "vb_ok bm C" "boundary bm C p b" "\<not> ready bm C w p"
  shows "fst (bip9_at bm C w (Some p)) = DEFINED"
  using assms(2,3)
proof (induction "nat (nHeight b)" arbitrary: p b rule: less_induct)
  case less
  have "fst (bip9_at bm C w (prev_end bm C p b)) = DEFINED"
  proof (cases "prev_end bm C p b")
    case (Some q)
    then obtain c where c: "boundary bm C q c" "nHeight c = nHeight b - Period C"
      by (rule boundary_prev_end [OF assms(1) less.prems(1)])
    have "nat (nHeight c) < nat (nHeight b)"
      using c linkedD(2) [OF vb_okD(1) [OF assms(1)], of q c] vb_okD(5) [OF assms(1)] by (simp add: boundary_def)
    moreover have "\<not> ready bm C w q" using ready_mono [OF assms(1) Some] less.prems(2) by blast
    ultimately show ?thesis using less.hyps [OF _ c(1)] Some by simp
  qed (simp add: bip9_at_def)
  then show ?case using bip9_at_boundary [OF assms(1) less.prems(1)] less.prems(2) by (simp add: transition_def)
qed

section \<open>Counting the signals of a period\<close>

lemma signalled_Suc:
  assumes "ancestor_at bm t (lo + int r) = Some q" "bm q = Some b"
  shows "signalled bm C t lo (lo + int (Suc r)) = signalled bm C t lo (lo + int r) + (if Condition C b then 1 else 0)"
proof -
  let ?S = "\<lambda>r. {h \<in> {lo..<lo + int r}. \<exists>q b. ancestor_at bm t h = Some q \<and> bm q = Some b \<and> Condition C b}"
  have i: "{lo..<lo + int (Suc r)} = insert (lo + int r) {lo..<lo + int r}" by auto
  have "?S (Suc r) = (if Condition C b then insert (lo + int r) (?S r) else ?S r)"
    unfolding i using assms by auto
  moreover have "finite (?S r)" by (rule finite_subset [of _ "{lo..<lo + int r}"]) auto
  moreover have "lo + int r \<notin> ?S r" by simp
  ultimately show ?thesis by (simp add: signalled_def)
qed

lemma count_loop_correct:
  assumes "linked bm"
  shows "0 \<le> lo \<Longrightarrow> pc = ancestor_at bm t (lo + int r - 1) \<Longrightarrow> r = 0 \<or> pc \<noteq> None \<Longrightarrow>
    \<exists>c. count_loop r bm C thr count pc = Inr c \<and> (thr \<le> c \<longleftrightarrow> thr \<le> count + signalled bm C t lo (lo + int r))"
proof (induction r arbitrary: count pc)
  case 0
  then show ?case by (simp add: signalled_def)
next
  case (Suc r)
  then obtain p where p: "ancestor_at bm t (lo + int r) = Some p" "pc = Some p" by auto
  obtain b where b: "bm p = Some b" "nHeight b = lo + int r" "pprev b = ancestor_at bm t (lo + int r - 1)"
    using ancestor_step [OF assms p(1)] by auto
  have s: "signalled bm C t lo (lo + int (Suc r)) = signalled bm C t lo (lo + int r) + (if Condition C b then 1 else 0)"
    by (rule signalled_Suc [OF p(1) b(1)])
  show ?case
  proof (cases "thr \<le> count + int (Suc r)")
    case True
    have "r = 0 \<or> ancestor_at bm t (lo + int r - 1) \<noteq> None"
    proof (cases r)
      case (Suc m)
      then have "\<exists>q. ancestor_at bm t (lo + int r - 1) = Some q"
        using tree.anc_trans [OF assms p(1), of "lo + int r - 1"] ancestor_at_exists [OF assms b(1), of "lo + int r - 1"] b(2) Suc.prems(1)
        by auto
      then show ?thesis by simp
    qed simp
    then show ?thesis
      using Suc.IH [OF Suc.prems(1), of "pprev b" "if Condition C b then count + 1 else count"] True p b s
      by (auto split: if_splits)
  next
    case False
    have "signalled bm C t lo (lo + int (Suc r)) \<le> int (Suc r)"
    proof -
      have "card {h \<in> {lo..<lo + int (Suc r)}. \<exists>q b. ancestor_at bm t h = Some q \<and> bm q = Some b \<and> Condition C b}
          \<le> card {lo..<lo + int (Suc r)}"
        by (rule card_mono) auto
      then show ?thesis by (simp add: signalled_def)
    qed
    moreover have "0 \<le> signalled bm C t lo (lo + int (Suc r))" by (simp add: signalled_def)
    ultimately show ?thesis using False by auto
  qed
qed

lemma walk_fuel_prev:
  assumes "linked bm" "bm p = Some b" "0 < P"
  shows "walk_fuel bm (ancestor_at bm p (nHeight b - P)) < walk_fuel bm (Some p)"
proof (cases "ancestor_at bm p (nHeight b - P)")
  case (Some q)
  then obtain c where c: "bm q = Some c" "nHeight c = nHeight b - P"
    using tree.anc_height_eq [OF assms(1) Some] by (auto simp: height_of_def)
  then have "nat (nHeight c) < nat (nHeight b)" using assms(3) linkedD(2) [OF assms(1) c(1)] by simp
  then have "walk_fuel bm (Some q) < walk_fuel bm (Some p)"
    using assms(2) c(1) by (simp add: walk_fuel_def)
  then show ?thesis using Some by simp
qed (use assms in \<open>simp add: walk_fuel_def\<close>)

section \<open>The cache\<close>

definition cache_ok :: "BlockMap \<Rightarrow> checker \<Rightarrow> int \<Rightarrow> ThresholdConditionCache \<Rightarrow> bool" where
  "cache_ok bm C w cache \<longleftrightarrow> (\<forall>key state. cache key = Some state \<longrightarrow> state = fst (bip9_at bm C w key) \<and>
     (\<forall>p. key = Some p \<longrightarrow> (\<exists>b. boundary bm C p b \<and> (state \<noteq> DEFINED \<longrightarrow> cache (prev_end bm C p b) \<noteq> None))))"

lemma cache_ok_empty: "cache_ok bm C w Map.empty"
  by (simp add: cache_ok_def)

lemma cache_ok_state: "cache_ok bm C w cache \<Longrightarrow> cache key = Some state \<Longrightarrow> state = fst (bip9_at bm C w key)"
  unfolding cache_ok_def by blast

lemma cache_ok_boundary:
  assumes "cache_ok bm C w cache" "cache (Some p) = Some state"
  obtains b where "boundary bm C p b" "state \<noteq> DEFINED \<Longrightarrow> cache (prev_end bm C p b) \<noteq> None"
  using assms unfolding cache_ok_def by blast

lemma cache_ok_update:
  assumes "cache_ok bm C w cache" "state = fst (bip9_at bm C w key)"
    and "\<And>p. key = Some p \<Longrightarrow> \<exists>b. boundary bm C p b \<and> (state \<noteq> DEFINED \<longrightarrow> cache (prev_end bm C p b) \<noteq> None)"
  shows "cache_ok bm C w (cache(key \<mapsto> state))"
  unfolding cache_ok_def
proof (intro allI impI)
  fix k s assume ks: "(cache(key \<mapsto> state)) k = Some s"
  show "s = fst (bip9_at bm C w k) \<and> (\<forall>p. k = Some p \<longrightarrow> (\<exists>b. boundary bm C p b \<and>
      (s \<noteq> DEFINED \<longrightarrow> (cache(key \<mapsto> state)) (prev_end bm C p b) \<noteq> None)))"
  proof (cases "k = key")
    case True
    then have "s = state" using ks by simp
    moreover have "\<exists>b. boundary bm C p b \<and> (state \<noteq> DEFINED \<longrightarrow> (cache(key \<mapsto> state)) (prev_end bm C p b) \<noteq> None)"
      if "k = Some p" for p
      using assms(3) [of p] True that by (metis fun_upd_apply option.distinct(1))
    ultimately show ?thesis using True assms(2) by simp
  next
    case False
    then have "cache k = Some s" using ks by simp
    moreover have "\<exists>b. boundary bm C p b \<and> (s \<noteq> DEFINED \<longrightarrow> (cache(key \<mapsto> state)) (prev_end bm C p b) \<noteq> None)"
      if "k = Some p" for p
      using cache_ok_boundary [OF assms(1), of p s] calculation that by (metis fun_upd_apply option.distinct(1))
    ultimately show ?thesis using cache_ok_state [OF assms(1)] by blast
  qed
qed

lemma bip9_start_bounds:
  assumes "vb_ok bm C" "boundary bm C p b" "fst (bip9_at bm C w (Some p)) = STARTED"
  shows "0 < snd (bip9_at bm C w (Some p)) \<and> snd (bip9_at bm C w (Some p)) \<le> nHeight b + 1"
  using assms(2,3)
proof (induction "nat (nHeight b)" arbitrary: p b rule: less_induct)
  case less
  let ?s = "bip9_at bm C w (prev_end bm C p b)"
  have h: "0 \<le> nHeight b" using linkedD(2) [OF vb_okD(1) [OF assms(1)]] less.prems(1) by (auto simp: boundary_def)
  have t: "bip9_at bm C w (Some p) = transition bm C w p (nHeight b) ?s"
    by (rule bip9_at_boundary [OF assms(1) less.prems(1)])
  show ?case
  proof (cases "fst ?s = STARTED")
    case True
    then obtain q where q: "prev_end bm C p b = Some q" by (cases "prev_end bm C p b") (auto simp: bip9_at_def)
    obtain c where c: "boundary bm C q c" "nHeight c = nHeight b - Period C"
      by (rule boundary_prev_end [OF assms(1) less.prems(1) q])
    have "nat (nHeight c) < nat (nHeight b)"
      using c h linkedD(2) [OF vb_okD(1) [OF assms(1)], of q c] vb_okD(5) [OF assms(1)] by (simp add: boundary_def)
    then have "0 < snd ?s \<and> snd ?s \<le> nHeight c + 1" using less.hyps [OF _ c(1)] True q by simp
    then show ?thesis
      using True t less.prems(2) c(2) vb_okD(5) [OF assms(1)] by (auto simp: transition_def split: if_splits)
  next
    case False
    then show ?thesis using t less.prems(2) h by (auto simp: transition_def split: ThresholdState.splits if_splits)
  qed
qed

lemma started_prev:
  assumes "vb_ok bm C" "boundary bm C p b" "fst (bip9_at bm C w (Some p)) = STARTED"
  shows "snd (bip9_at bm C w (Some p)) = (if fst (bip9_at bm C w (prev_end bm C p b)) = STARTED
           then snd (bip9_at bm C w (prev_end bm C p b)) else nHeight b + 1)"
  using bip9_at_boundary [OF assms(1,2), of w] assms(3)
  by (auto simp: transition_def split: ThresholdState.splits if_splits)

lemma start_height_loop_correct:
  assumes "vb_ok bm C" "cache_ok bm C w cache"
  shows "cache key = Some state \<Longrightarrow> walk_fuel bm key \<le> n \<Longrightarrow>
    start_height_loop n bm (Period C) cache key state acc =
      Inr (if state = STARTED then min acc (snd (bip9_at bm C w key)) else acc)"
proof (induction n arbitrary: key state acc)
  case 0
  then show ?case by (auto simp: walk_fuel_def split: option.splits)
next
  case (Suc n)
  show ?case
  proof (cases "state = STARTED")
    case True
    have s: "state = fst (bip9_at bm C w key)" by (rule cache_ok_state [OF assms(2) Suc.prems(1)])
    then obtain p where p: "key = Some p" using True by (cases key) (auto simp: bip9_at_def)
    obtain b where b: "boundary bm C p b" "cache (prev_end bm C p b) \<noteq> None"
      using cache_ok_boundary [OF assms(2)] Suc.prems(1) p True by (metis ThresholdState.distinct(1))
    then obtain st where st: "cache (prev_end bm C p b) = Some st" by auto
    have bm: "bm p = Some b" using b(1) by (simp add: boundary_def)
    have fuel: "walk_fuel bm (prev_end bm C p b) \<le> n"
      using walk_fuel_prev [OF vb_okD(1) [OF assms(1)] bm vb_okD(5) [OF assms(1)]] Suc.prems(2) p by simp
    have "snd (bip9_at bm C w (prev_end bm C p b)) \<le> nHeight b + 1" if "st = STARTED"
    proof -
      have st': "fst (bip9_at bm C w (prev_end bm C p b)) = STARTED" using cache_ok_state [OF assms(2) st] that by simp
      then obtain q where q: "prev_end bm C p b = Some q" by (cases "prev_end bm C p b") (auto simp: bip9_at_def)
      obtain c where c: "boundary bm C q c" "nHeight c = nHeight b - Period C"
        by (rule boundary_prev_end [OF assms(1) b(1) q])
      show ?thesis using bip9_start_bounds [OF assms(1) c(1), of w] st' q c(2) vb_okD(5) [OF assms(1)] by simp
    qed
    moreover have "snd (bip9_at bm C w key) = (if st = STARTED then snd (bip9_at bm C w (prev_end bm C p b)) else nHeight b + 1)"
      using started_prev [OF assms(1) b(1), of w] s True p cache_ok_state [OF assms(2) st] by simp
    ultimately show ?thesis
      using Suc.IH [OF st fuel] True p bm st GetAncestor_correct [OF vb_okD(1,2) [OF assms(1)] bm]
      by (auto simp: min_def)
  qed simp
qed

lemma calculateStartHeight_correct:
  assumes "vb_ok bm C" "cache_ok bm C w cache" "cache key = Some state"
  shows "\<exists>n. calculateStartHeight bm key state (Period C) cache = Inr n \<and> (state = STARTED \<longrightarrow> n = snd (bip9_at bm C w key))"
proof -
  have "snd (bip9_at bm C w key) < INT_MAX" if s: "state = STARTED"
  proof -
    have st: "fst (bip9_at bm C w key) = STARTED" using cache_ok_state [OF assms(2,3)] s by simp
    then obtain p where p: "key = Some p" by (cases key) (auto simp: bip9_at_def)
    then obtain b where b: "boundary bm C p b" using cache_ok_boundary [OF assms(2)] assms(3) by blast
    then show ?thesis using bip9_start_bounds [OF assms(1) b, of w] st p vb_okD(6) [OF assms(1), of p b] by (simp add: boundary_def)
  qed
  then show ?thesis
    using start_height_loop_correct [OF assms order_refl, of INT_MAX] by (auto simp: calculateStartHeight_def)
qed

section \<open>The loops compute the specification\<close>

text \<open>A path of period ends, each ready, from \<open>base\<close> up to \<open>goal\<close>.\<close>

fun ends_path :: "BlockMap \<Rightarrow> checker \<Rightarrow> int \<Rightarrow> int \<Rightarrow> ptr option \<Rightarrow> ptr list \<Rightarrow> ptr option \<Rightarrow> bool" where
  "ends_path bm C w sh base [] goal \<longleftrightarrow> base = goal"
| "ends_path bm C w sh base (p # v) goal \<longleftrightarrow> (\<exists>b. boundary bm C p b \<and> prev_end bm C p b = base
     \<and> ready bm C w p \<and> sh \<le> nHeight b) \<and> ends_path bm C w sh (Some p) v goal"

definition top_signal :: "BlockMap \<Rightarrow> checker \<Rightarrow> int \<Rightarrow> ptr option \<Rightarrow> bool" where
  "top_signal bm C sh key \<longleftrightarrow> (\<forall>p k q. key = Some p \<longrightarrow> ancestor_at bm p k = Some q \<longrightarrow> (sh \<le> k \<longleftrightarrow> SignalHeight C (Some q) \<le> k))"

lemma top_signal_prev:
  assumes "vb_ok bm C" "bm p = Some b" "top_signal bm C sh (Some p)"
  shows "top_signal bm C sh (ancestor_at bm p j)"
  unfolding top_signal_def
proof (intro allI impI)
  fix q k r assume a: "ancestor_at bm p j = Some q" "ancestor_at bm q k = Some r"
  then have "0 \<le> k" "k \<le> j"
    using tree.anc_height_eq [OF vb_okD(1) [OF assms(1)] a(1)] by (auto simp: height_of_def elim!: ancestor_at_SomeD)
  then have "ancestor_at bm p k = Some r" using tree.anc_trans [OF vb_okD(1) [OF assms(1)] a(1)] a(2) by simp
  then show "(sh \<le> k) = (SignalHeight C (Some r) \<le> k)" using assms(3) by (simp add: top_signal_def)
qed

lemma walk_back_correct:
  assumes "vb_ok bm C" "cache_ok bm C w cache"
  shows "walk_fuel bm key \<le> n \<Longrightarrow> (\<And>p. key = Some p \<Longrightarrow> \<exists>b. boundary bm C p b) \<Longrightarrow> top_signal bm C sh key \<Longrightarrow>
    ends_path bm C w sh key v goal \<Longrightarrow>
    \<exists>base cache' v'. walk_back n bm C w sh cache key v = Inr (base, cache', v') \<and> cache_ok bm C w cache'
      \<and> cache' base \<noteq> None \<and> ends_path bm C w sh base v' goal"
proof (induction n arbitrary: key v)
  case 0
  then show ?case by (auto simp: walk_fuel_def split: option.splits)
next
  case (Suc n)
  show ?case
  proof (cases "cache key")
    case None
    show ?thesis
    proof (cases key)
      case key: None
      have "cache_ok bm C w (cache(None \<mapsto> DEFINED))"
        by (rule cache_ok_update [OF assms(2)]) (auto simp: bip9_at_def)
      then show ?thesis using None key Suc.prems(4) by simp
    next
      case key: (Some p)
      then obtain b where b: "boundary bm C p b" using Suc.prems(2) by blast
      then have bm: "bm p = Some b" by (simp add: boundary_def)
      have s: "sh \<le> nHeight b \<longleftrightarrow> SignalHeight C (Some p) \<le> nHeight b"
        using Suc.prems(3) key ancestor_at_self [OF vb_okD(1) [OF assms(1)] bm] by (simp add: top_signal_def)
      show ?thesis
      proof (cases "ready bm C w p")
        case False
        then have d: "cache_ok bm C w (cache(key \<mapsto> DEFINED))"
          using not_ready_defined [OF assms(1) b False] b key by (intro cache_ok_update [OF assms(2)]) auto
        have "nHeight b < w \<or> median_time bm p < BeginTime C \<or> nHeight b < sh"
          using False s bm by (auto simp: ready_def)
        then have "walk_back (Suc n) bm C w sh cache key v = Inr (key, cache(key \<mapsto> DEFINED), v)"
          using None key bm median_time_total [OF vb_okD(1) [OF assms(1)] bm] by auto
        then show ?thesis using d Suc.prems(4) by simp
      next
        case True
        then have r: "\<not> nHeight b < w" "\<not> (median_time bm p < BeginTime C \<or> nHeight b < sh)"
          using s bm by (auto simp: ready_def)
        have step: "walk_back (Suc n) bm C w sh cache key v = walk_back n bm C w sh cache (prev_end bm C p b) (p # v)"
          using None key bm r median_time_total [OF vb_okD(1) [OF assms(1)] bm] GetAncestor_correct [OF vb_okD(1,2) [OF assms(1)] bm]
          by simp
        have "walk_fuel bm (prev_end bm C p b) \<le> n"
          using walk_fuel_prev [OF vb_okD(1) [OF assms(1)] bm vb_okD(5) [OF assms(1)]] Suc.prems(1) key by simp
        moreover have "top_signal bm C sh (prev_end bm C p b)"
          by (rule top_signal_prev [OF assms(1) bm]) (use Suc.prems(3) key in simp)
        moreover have "ends_path bm C w sh (prev_end bm C p b) (p # v) goal"
          using Suc.prems(4) key b True r(2) by auto
        ultimately show ?thesis
          unfolding step using boundary_prev_end [OF assms(1) b] by (intro Suc.IH) blast+
      qed
    qed
  qed (use assms(2) Suc.prems(4) in auto)
qed

lemma next_state_correct:
  assumes "vb_ok bm C" "boundary bm C p b" "ready bm C w p" "sh \<le> nHeight b"
    and "fst (bip9_at bm C w (prev_end bm C p b)) = STARTED \<Longrightarrow> ns = snd (bip9_at bm C w (prev_end bm C p b))"
  shows "\<exists>ns'. next_state bm C sh p (fst (bip9_at bm C w (prev_end bm C p b))) ns = Inr (fst (bip9_at bm C w (Some p)), ns')
    \<and> (fst (bip9_at bm C w (Some p)) = STARTED \<longrightarrow> ns' = snd (bip9_at bm C w (Some p)))"
proof -
  let ?s = "bip9_at bm C w (prev_end bm C p b)"
  have bm: "bm p = Some b" using assms(2) by (simp add: boundary_def)
  have m: "GetMedianTimePast bm p = Inr (median_time bm p)" by (rule median_time_total [OF vb_okD(1) [OF assms(1)] bm])
  have P: "0 < Period C" by (rule vb_okD(5) [OF assms(1)])
  have t: "bip9_at bm C w (Some p) = transition bm C w p (nHeight b) ?s" by (rule bip9_at_boundary [OF assms(1,2)])
  show ?thesis
  proof (cases "fst ?s")
    case DEFINED
    then show ?thesis using t bm m assms(3,4) by (auto simp: next_state_def transition_def ready_def)
  next
    case STARTED
    have ns: "ns = snd ?s" by (rule assms(5) [OF STARTED])
    obtain q where q: "prev_end bm C p b = Some q" using STARTED by (cases "prev_end bm C p b") (auto simp: bip9_at_def)
    obtain c where c: "boundary bm C q c" "nHeight c = nHeight b - Period C" by (rule boundary_prev_end [OF assms(1,2) q])
    have bd: "0 < ns" "ns \<le> nHeight c + 1" "ns < INT_MAX"
      using bip9_start_bounds [OF assms(1) c(1), of w] STARTED q ns vb_okD(6) [OF assms(1), of q c] c(1) by (auto simp: boundary_def)
    have lo: "0 \<le> nHeight b + 1 - Period C"
      using linkedD(2) [OF vb_okD(1) [OF assms(1)], of q c] c by (simp add: boundary_def)
    have self: "ancestor_at bm p (nHeight b) = Some p" by (rule ancestor_at_self [OF vb_okD(1) [OF assms(1)] bm])
    obtain n where n: "count_loop (nat (Period C)) bm C (Threshold C ((nHeight b - ns) div Period C)) 0 (Some p) = Inr n"
        "Threshold C ((nHeight b - ns) div Period C) \<le> n \<longleftrightarrow>
         Threshold C ((nHeight b - ns) div Period C) \<le> signalled bm C p (nHeight b + 1 - Period C) (nHeight b + 1)"
      using count_loop_correct [OF vb_okD(1) [OF assms(1)] lo, of "Some p" p "nat (Period C)" C _ 0] P self by auto
    have "0 \<le> nHeight b - ns" using bd c P by simp
    then show ?thesis using STARTED t bm m n ns bd P by (auto simp: next_state_def transition_def Let_def)
  qed (use t bm in \<open>auto simp: next_state_def transition_def\<close>)
qed

lemma walk_forward_correct:
  assumes "vb_ok bm C"
  shows "cache_ok bm C w cache \<Longrightarrow> cache base \<noteq> None \<Longrightarrow> ends_path bm C w sh base v goal \<Longrightarrow>
    (fst (bip9_at bm C w base) = STARTED \<Longrightarrow> ns = snd (bip9_at bm C w base)) \<Longrightarrow>
    \<exists>cache'. walk_forward v bm C sh (fst (bip9_at bm C w base)) ns cache = Inr (fst (bip9_at bm C w goal), cache')
      \<and> cache_ok bm C w cache'"
proof (induction v arbitrary: base ns cache)
  case (Cons p v)
  then obtain b where b: "boundary bm C p b" "prev_end bm C p b = base" "ready bm C w p" "sh \<le> nHeight b"
    "ends_path bm C w sh (Some p) v goal" by auto
  obtain ns' where ns': "next_state bm C sh p (fst (bip9_at bm C w base)) ns = Inr (fst (bip9_at bm C w (Some p)), ns')"
    "fst (bip9_at bm C w (Some p)) = STARTED \<longrightarrow> ns' = snd (bip9_at bm C w (Some p))"
    using next_state_correct [OF assms b(1,3,4), of ns] Cons.prems(4) b(2) by auto
  define c where "c = cache(Some p \<mapsto> fst (bip9_at bm C w (Some p)))"
  have c: "cache_ok bm C w c" "c (Some p) \<noteq> None"
    unfolding c_def using b Cons.prems(2) by (auto intro!: cache_ok_update [OF Cons.prems(1)])
  have "walk_forward (p # v) bm C sh (fst (bip9_at bm C w base)) ns cache = walk_forward v bm C sh (fst (bip9_at bm C w (Some p))) ns' c"
    using ns'(1) by (simp add: c_def)
  then show ?case using Cons.IH [OF c b(5), of ns'] ns'(2) by simp
qed simp

lemma GetStateFor_correct:
  assumes "vb_ok bm C" "cache_ok bm C w cache" "BeginTime C \<noteq> ALWAYS_ACTIVE" "BeginTime C \<noteq> NEVER_ACTIVE"
    and "\<And>p. key = Some p \<Longrightarrow> bm p \<noteq> None"
  shows "\<exists>cache'. GetStateFor bm C w key cache = Inr (fst (bip9_at bm C w key), cache') \<and> cache_ok bm C w cache'"
proof -
  define sh where "sh = SignalHeight C key"
  obtain e where e: "(case key of None \<Rightarrow> Inr None | Some p \<Rightarrow> period_parent bm (Period C) p) = (Inr e :: chain_error + ptr option)"
    "bip9_at bm C w e = bip9_at bm C w key" "\<And>p. e = Some p \<Longrightarrow> \<exists>b. boundary bm C p b" "top_signal bm C sh e"
  proof (cases key)
    case None
    then show ?thesis using that [of None] by (simp add: top_signal_def)
  next
    case (Some p)
    then obtain b where b: "bm p = Some b" using assms(5) by auto
    have "top_signal bm C sh (Some p)" using vb_okD(4) [OF assms(1)] Some by (simp add: top_signal_def signals_stay_def sh_def)
    then have "top_signal bm C sh (ancestor_at bm p (int (period_of C b) * Period C - 1))"
      by (rule top_signal_prev [OF assms(1) b])
    then show ?thesis
      using that [of "ancestor_at bm p (int (period_of C b) * Period C - 1)"] Some bip9_at_period_end [OF assms(1) b]
        boundary_period_end [OF assms(1) b] by (metis option.simps(5))
  qed
  obtain base cache' v where wb: "walk_back (walk_fuel bm e) bm C w sh cache e [] = Inr (base, cache', v)"
    "cache_ok bm C w cache'" "cache' base \<noteq> None" "ends_path bm C w sh base v e"
    using walk_back_correct [OF assms(1,2) order_refl e(3,4), of "[]" e] by auto
  then obtain st where st: "cache' base = Some st" by auto
  have st': "st = fst (bip9_at bm C w base)" by (rule cache_ok_state [OF wb(2) st])
  obtain ns where ns: "calculateStartHeight bm base st (Period C) cache' = Inr ns" "st = STARTED \<longrightarrow> ns = snd (bip9_at bm C w base)"
    using calculateStartHeight_correct [OF assms(1) wb(2) st] by auto
  obtain cache'' where "walk_forward v bm C sh st ns cache' = Inr (fst (bip9_at bm C w e), cache'')" "cache_ok bm C w cache''"
    using walk_forward_correct [OF assms(1) wb(2,3,4), of ns] ns st' by auto
  then show ?thesis using e(1,2) wb st st' ns assms(3,4) by (auto simp: GetStateFor_def sh_def [symmetric])
qed

section \<open>Termination\<close>

lemma start_height_loop_ends:
  assumes "linked bm" "skips_ok bm" "0 < P"
  shows "walk_fuel bm key \<le> n \<Longrightarrow> start_height_loop n bm P cache key state acc \<noteq> Inl Fuel_exhausted"
proof (induction n arbitrary: key state acc)
  case (Suc n)
  show ?case
  proof (cases key)
    case (Some p)
    show ?thesis
    proof (cases "bm p")
      case b: (Some b)
      then have "walk_fuel bm (ancestor_at bm p (nHeight b - P)) \<le> n"
        using walk_fuel_prev [OF assms(1) b assms(3)] Suc.prems Some by simp
      then show ?thesis
        using Suc.IH Some b GetAncestor_correct [OF assms(1,2) b] by (auto split: option.splits)
    qed (use Some in \<open>simp add: deref_def\<close>)
  qed simp
qed (simp add: walk_fuel_def split: option.splits)

lemma walk_back_ends:
  assumes "linked bm" "skips_ok bm" "0 < Period C"
  shows "walk_fuel bm key \<le> n \<Longrightarrow> walk_back n bm C w sh cache key v \<noteq> Inl Fuel_exhausted"
proof (induction n arbitrary: key v)
  case (Suc n)
  show ?case
  proof (cases key)
    case (Some p)
    show ?thesis
    proof (cases "bm p")
      case b: (Some b)
      then have "walk_fuel bm (ancestor_at bm p (nHeight b - Period C)) \<le> n"
        using walk_fuel_prev [OF assms(1) b assms(3)] Suc.prems Some by simp
      then show ?thesis
        using Suc.IH Some b GetAncestor_correct [OF assms(1,2) b] median_time_total [OF assms(1) b] by auto
    qed (use Some in \<open>simp add: deref_def\<close>)
  qed simp
qed (simp add: walk_fuel_def split: option.splits)

lemma count_loop_ends: "count_loop r bm C thr count pc \<noteq> Inl Fuel_exhausted"
  by (induction r arbitrary: count pc) (auto simp: bind_sum_Inl_conv deref_def split: option.splits)

lemma next_state_ends:
  assumes "linked bm"
  shows "next_state bm C sh p state ns \<noteq> Inl Fuel_exhausted"
proof (cases "bm p")
  case (Some b)
  then show ?thesis
    using median_time_total [OF assms Some]
    by (auto simp: next_state_def Let_def bind_sum_Inl_conv count_loop_ends split: ThresholdState.splits)
qed (simp add: next_state_def deref_def)

lemma walk_forward_ends:
  assumes "linked bm"
  shows "walk_forward v bm C sh state ns cache \<noteq> Inl Fuel_exhausted"
  by (induction v arbitrary: state ns cache) (auto simp: bind_sum_Inl_conv next_state_ends [OF assms])

lemma period_parent_ends:
  assumes "linked bm" "skips_ok bm"
  shows "period_parent bm P p \<noteq> Inl Fuel_exhausted"
  using GetAncestor_correct [OF assms] by (cases "bm p") (auto simp: period_parent_def deref_def)

lemma GetStateFor_ends:
  assumes "linked bm" "skips_ok bm" "0 < Period C"
  shows "GetStateFor bm C w key cache \<noteq> Inl Fuel_exhausted"
proof -
  have "calculateStartHeight bm base state (Period C) c \<noteq> Inl Fuel_exhausted" for base state c
    unfolding calculateStartHeight_def by (rule start_height_loop_ends [OF assms order_refl])
  then show ?thesis
    using walk_back_ends [OF assms order_refl] walk_forward_ends [OF assms(1)] period_parent_ends [OF assms(1,2)]
    by (auto simp: GetStateFor_def bind_sum_Inl_conv split: option.splits if_splits)
qed

lemma since_loop_ends:
  assumes "linked bm" "skips_ok bm" "0 < Period C"
  shows "walk_fuel bm pp \<le> n \<Longrightarrow> since_loop n bm C w st e pp cache \<noteq> Inl Fuel_exhausted"
proof (induction n arbitrary: e pp cache)
  case (Suc n)
  show ?case
  proof (cases pp)
    case (Some q)
    show ?thesis
    proof (cases "bm q")
      case b: (Some b)
      then have "walk_fuel bm (ancestor_at bm q (nHeight b - Period C)) \<le> n"
        using walk_fuel_prev [OF assms(1) b assms(3)] Suc.prems Some by simp
      then show ?thesis
        using Suc.IH Some b GetAncestor_correct [OF assms(1,2) b] GetStateFor_ends [OF assms]
        by (auto simp: bind_sum_Inl_conv split: if_splits)
    next
      case None
      then show ?thesis
        using Some GetStateFor_ends [OF assms] by (auto simp: bind_sum_Inl_conv deref_def split: if_splits)
    qed
  qed simp
qed (simp add: walk_fuel_def split: option.splits)

lemma GetStateSinceHeightFor_ends:
  assumes "linked bm" "skips_ok bm" "0 < Period C"
  shows "GetStateSinceHeightFor bm C w key cache \<noteq> Inl Fuel_exhausted"
proof -
  have "bind_sum (deref bm e) (\<lambda>b. bind_sum (GetAncestor bm e (nHeight b - Period C)) (\<lambda>pp.
      bind_sum (since_loop (walk_fuel bm (Some e)) bm C w st e pp c) (\<lambda>(e, cache).
      bind_sum (deref bm e) (\<lambda>b. Inr (nHeight b + 1, cache))))) \<noteq> Inl Fuel_exhausted" for e st c
  proof (cases "bm e")
    case (Some b)
    have "walk_fuel bm (ancestor_at bm e (nHeight b - Period C)) \<le> walk_fuel bm (Some e)"
      using walk_fuel_prev [OF assms(1) Some assms(3)] by simp
    then show ?thesis
      using since_loop_ends [OF assms] Some GetAncestor_correct [OF assms(1,2) Some]
      by (auto simp: bind_sum_Inl_conv deref_def split: option.splits)
  qed (simp add: deref_def)
  then show ?thesis
    using GetStateFor_ends [OF assms] period_parent_ends [OF assms(1,2)]
    by (auto simp: GetStateSinceHeightFor_def bind_sum_Inl_conv split: option.splits if_splits)
qed

section \<open>Since when\<close>

lemma end_exists:
  assumes "vb_ok bm C" "bm t = Some b" "0 < j" "int j * Period C - 1 \<le> nHeight b"
  obtains q c where "ancestor_at bm t (int j * Period C - 1) = Some q" "bm q = Some c" "nHeight c = int j * Period C - 1"
proof -
  have "0 \<le> int j * Period C - 1"
    using mult_mono [of 1 "int j" 1 "Period C"] vb_okD(5) [OF assms(1)] assms(3) by simp
  then show ?thesis using ancestor_at_exists [OF vb_okD(1) [OF assms(1)] assms(2) _ assms(4)] that by blast
qed

lemma since_loop_correct:
  assumes "vb_ok bm C" "bm t = Some b" "int K * Period C - 1 \<le> nHeight b"
    and "BeginTime C \<noteq> ALWAYS_ACTIVE" "BeginTime C \<noteq> NEVER_ACTIVE"
    and "st = fst (bip9 bm C w t K)" "st \<noteq> DEFINED"
  shows "cache_ok bm C w cache \<Longrightarrow> j < K \<Longrightarrow> ancestor_at bm t (int (Suc j) * Period C - 1) = Some e \<Longrightarrow>
    pp = ancestor_at bm t (int j * Period C - 1) \<Longrightarrow> (\<forall>i\<in>{Suc j..K}. fst (bip9 bm C w t i) = st) \<Longrightarrow> walk_fuel bm pp \<le> n \<Longrightarrow>
    \<exists>m e' cache'. since_loop n bm C w st e pp cache = Inr (e', cache') \<and> cache_ok bm C w cache' \<and> m \<le> j
      \<and> ancestor_at bm t (int (Suc m) * Period C - 1) = Some e'
      \<and> (\<forall>i\<in>{Suc m..K}. fst (bip9 bm C w t i) = st) \<and> fst (bip9 bm C w t m) \<noteq> st"
proof (induction n arbitrary: j e pp cache)
  case 0
  then show ?case by (auto simp: walk_fuel_def split: option.splits)
next
  case (Suc n)
  have P: "0 < Period C" by (rule vb_okD(5) [OF assms(1)])
  have "int j * Period C \<le> int K * Period C" using Suc.prems(2) P by simp
  then have jb: "int j * Period C - 1 \<le> nHeight b" using assms(3) by linarith
  show ?case
  proof (cases j)
    case 0
    then show ?thesis using Suc.prems assms(7) by auto
  next
    case (Suc i)
    then obtain q c where q: "pp = Some q" "bm q = Some c" "nHeight c = int j * Period C - 1"
      using end_exists [OF assms(1,2) _ jb] Suc.prems(4) by auto
    have s: "bip9_at bm C w (Some q) = bip9 bm C w t j"
      using bip9_at_ancestor [OF assms(1,2) jb, of w] Suc.prems(4) q(1) by simp
    obtain cache' where g: "GetStateFor bm C w (Some q) cache = Inr (fst (bip9 bm C w t j), cache')" "cache_ok bm C w cache'"
      using GetStateFor_correct [OF assms(1) Suc.prems(1) assms(4,5), of "Some q"] q(2) s by auto
    have i: "nHeight c - Period C = int i * Period C - 1" using q(3) Suc by (simp add: distrib_right)
    show ?thesis
    proof (cases "fst (bip9 bm C w t j) = st")
      case True
      have a: "ancestor_at bm q (nHeight c - Period C) = ancestor_at bm t (int i * Period C - 1)"
      proof (cases i)
        case i0: 0
        then show ?thesis unfolding i by (simp add: i0)
      next
        case (Suc l)
        have "0 \<le> int i * Period C - 1" using mult_mono [of 1 "int i" 1 "Period C"] P Suc by simp
        then show ?thesis
          unfolding i using tree.anc_trans [OF vb_okD(1) [OF assms(1)], of t "int j * Period C - 1" q "int i * Period C - 1"]
            Suc.prems(4) q(1) i P \<open>j = Suc i\<close> q(3) by simp
      qed
      have range: "\<forall>i'\<in>{Suc i..K}. fst (bip9 bm C w t i') = st"
        using Suc.prems(5) True \<open>j = Suc i\<close> by (metis atLeastAtMost_iff le_antisym not_less_eq_eq)
      have "walk_fuel bm (ancestor_at bm t (int i * Period C - 1)) \<le> n"
        using walk_fuel_prev [OF vb_okD(1) [OF assms(1)] q(2) P] Suc.prems(6) q(1) unfolding a by simp
      moreover have "ancestor_at bm t (int (Suc i) * Period C - 1) = Some q" using Suc.prems(4) q(1) \<open>j = Suc i\<close> by simp
      ultimately obtain m e' cache'' where m: "since_loop n bm C w st q (ancestor_at bm t (int i * Period C - 1)) cache' = Inr (e', cache'')"
        "cache_ok bm C w cache''" "m \<le> i" "ancestor_at bm t (int (Suc m) * Period C - 1) = Some e'"
        "\<forall>i\<in>{Suc m..K}. fst (bip9 bm C w t i) = st" "fst (bip9 bm C w t m) \<noteq> st"
        using Suc.IH [OF g(2) _ _ refl range, of q] Suc.prems(2) \<open>j = Suc i\<close> by auto
      moreover have "since_loop (Suc n) bm C w st e pp cache = Inr (e', cache'')"
        using g True q(1,2) a m(1) GetAncestor_correct [OF vb_okD(1,2) [OF assms(1)] q(2)] by simp
      ultimately show ?thesis using \<open>j = Suc i\<close> by (metis le_SucI)
    next
      case False
      then show ?thesis using g q(1) Suc.prems(2,3,5) by auto
    qed
  qed
qed

lemma GetStateSinceHeightFor_correct:
  assumes "vb_ok bm C" "cache_ok bm C w cache" "bm t = Some b"
    and "BeginTime C \<noteq> ALWAYS_ACTIVE" "BeginTime C \<noteq> NEVER_ACTIVE"
    and "fst (bip9_at bm C w (Some t)) \<noteq> DEFINED"
  shows "\<exists>j cache'. GetStateSinceHeightFor bm C w (Some t) cache = Inr (int (Suc j) * Period C, cache') \<and> cache_ok bm C w cache'
    \<and> j < period_of C b \<and> (\<forall>i\<in>{Suc j..period_of C b}. fst (bip9 bm C w t i) = fst (bip9_at bm C w (Some t)))
    \<and> fst (bip9 bm C w t j) \<noteq> fst (bip9_at bm C w (Some t))"
proof -
  let ?K = "period_of C b"
  have s: "bip9_at bm C w (Some t) = bip9 bm C w t ?K" using assms(3) by (simp add: bip9_at_def)
  then obtain k where k: "?K = Suc k" using assms(6) by (cases ?K) auto
  obtain cache1 where g: "GetStateFor bm C w (Some t) cache = Inr (fst (bip9 bm C w t ?K), cache1)" "cache_ok bm C w cache1"
    using GetStateFor_correct [OF assms(1,2,4,5), of "Some t"] assms(3) s by auto
  have Kb: "int ?K * Period C - 1 \<le> nHeight b" by (rule period_end(2) [OF assms(1,3)])
  obtain e c where e: "ancestor_at bm t (int ?K * Period C - 1) = Some e" "bm e = Some c" "nHeight c = int ?K * Period C - 1"
    using end_exists [OF assms(1,3) _ Kb] k by auto
  have k': "nHeight c - Period C = int k * Period C - 1" using e(3) k by (simp add: distrib_right)
  have a: "ancestor_at bm e (nHeight c - Period C) = ancestor_at bm t (int k * Period C - 1)"
  proof (cases k)
    case (Suc l)
    have "0 \<le> int k * Period C - 1" using mult_mono [of 1 "int k" 1 "Period C"] vb_okD(5) [OF assms(1)] Suc by simp
    then show ?thesis
      unfolding k' using tree.anc_trans [OF vb_okD(1) [OF assms(1)] e(1), of "int k * Period C - 1"] k' e(3) vb_okD(5) [OF assms(1)] by simp
  qed (unfold k', simp)
  have "\<exists>m e' cache'. since_loop (walk_fuel bm (Some e)) bm C w (fst (bip9 bm C w t ?K)) e (ancestor_at bm t (int k * Period C - 1)) cache1
      = Inr (e', cache') \<and> cache_ok bm C w cache' \<and> m \<le> k \<and> ancestor_at bm t (int (Suc m) * Period C - 1) = Some e'
      \<and> (\<forall>i\<in>{Suc m..?K}. fst (bip9 bm C w t i) = fst (bip9 bm C w t ?K)) \<and> fst (bip9 bm C w t m) \<noteq> fst (bip9 bm C w t ?K)"
    by (rule since_loop_correct [OF assms(1,3) Kb assms(4,5) refl _ g(2)])
       (use assms(6) s k e walk_fuel_prev [OF vb_okD(1) [OF assms(1)] e(2) vb_okD(5) [OF assms(1)]] a in auto)
  then obtain m e' cache' where m: "since_loop (walk_fuel bm (Some e)) bm C w (fst (bip9 bm C w t ?K)) e (ancestor_at bm t (int k * Period C - 1)) cache1
      = Inr (e', cache')" "cache_ok bm C w cache'" "m \<le> k" "ancestor_at bm t (int (Suc m) * Period C - 1) = Some e'"
      "\<forall>i\<in>{Suc m..?K}. fst (bip9 bm C w t i) = fst (bip9 bm C w t ?K)" "fst (bip9 bm C w t m) \<noteq> fst (bip9 bm C w t ?K)" by blast
  obtain c' where c': "bm e' = Some c'" "nHeight c' = int (Suc m) * Period C - 1"
    using tree.anc_height_eq [OF vb_okD(1) [OF assms(1)] m(4)] by (auto simp: height_of_def)
  have "GetStateSinceHeightFor bm C w (Some t) cache = Inr (int (Suc m) * Period C, cache')"
    using g(1) assms(3-6) s bip9_at_period_end(1) [OF assms(1,3)] e(1,2) a m(1) c'
      GetAncestor_correct [OF vb_okD(1,2) [OF assms(1)] e(2)]
    by (simp add: GetStateSinceHeightFor_def)
  then show ?thesis using m s k by (intro exI [of _ m] exI [of _ cache']) auto
qed

section \<open>Progress\<close>

fun rank :: "ThresholdState \<Rightarrow> nat" where
  "rank DEFINED = 0" | "rank STARTED = 1" | "rank LOCKED_IN = 2" | "rank ACTIVE = 3" | "rank FAILED = 3"

lemma rank_transition: "rank (fst s) \<le> rank (fst (transition bm C w e h s))"
  by (cases "fst s") (auto simp: transition_def)

lemma rank_mono: "i \<le> j \<Longrightarrow> rank (fst (bip9 bm C w t i)) \<le> rank (fst (bip9 bm C w t j))"
proof (induction j)
  case (Suc j)
  have "rank (fst (bip9 bm C w t j)) \<le> rank (fst (bip9 bm C w t (Suc j)))"
    by (auto simp: Let_def rank_transition split: option.splits)
  then show ?case using Suc by (cases "i = Suc j") auto
qed simp

lemma bip9_step:
  assumes "vb_ok bm C" "bm t = Some b" "int (Suc k) * Period C - 1 \<le> nHeight b"
  obtains e where "ancestor_at bm t (int (Suc k) * Period C - 1) = Some e"
    "bip9 bm C w t (Suc k) = transition bm C w e (int (Suc k) * Period C - 1) (bip9 bm C w t k)"
  using end_exists [OF assms(1,2) _ assms(3)] by (auto simp: Let_def)

lemma started_once_ready:
  assumes "vb_ok bm C" "bm t = Some b" "int i * Period C - 1 \<le> nHeight b"
    and "ancestor_at bm t (int i * Period C - 1) = Some p" "ready bm C w p"
  shows "1 \<le> rank (fst (bip9 bm C w t i))"
proof (cases i)
  case (Suc j)
  have "int (Suc j) * Period C - 1 \<le> nHeight b" using assms(3) Suc by simp
  then obtain e where "ancestor_at bm t (int (Suc j) * Period C - 1) = Some e"
    "bip9 bm C w t (Suc j) = transition bm C w e (int (Suc j) * Period C - 1) (bip9 bm C w t j)"
    by (rule bip9_step [OF assms(1,2)])
  then show ?thesis using assms(4,5) Suc by (cases "fst (bip9 bm C w t j)") (auto simp: transition_def)
qed (use assms(4) in simp)

lemma past_timeout:
  assumes "vb_ok bm C" "bm t = Some b" "int (Suc j) * Period C - 1 \<le> nHeight b" "1 \<le> rank (fst (bip9 bm C w t j))"
    and "ancestor_at bm t (int (Suc j) * Period C - 1) = Some q" "EndTime C \<le> median_time bm q"
  shows "2 \<le> rank (fst (bip9 bm C w t (Suc j)))"
proof -
  obtain e where "ancestor_at bm t (int (Suc j) * Period C - 1) = Some e"
    "bip9 bm C w t (Suc j) = transition bm C w e (int (Suc j) * Period C - 1) (bip9 bm C w t j)"
    by (rule bip9_step [OF assms(1-3)])
  then show ?thesis using assms(4-6) by (cases "fst (bip9 bm C w t j)") (auto simp: transition_def)
qed

lemma past_activation_height:
  assumes "vb_ok bm C" "bm t = Some b" "int (Suc k) * Period C - 1 \<le> nHeight b" "2 \<le> rank (fst (bip9 bm C w t k))"
    and "MinActivationHeight C \<le> int (Suc k) * Period C"
  shows "3 \<le> rank (fst (bip9 bm C w t (Suc k)))"
proof -
  obtain e where "bip9 bm C w t (Suc k) = transition bm C w e (int (Suc k) * Period C - 1) (bip9 bm C w t k)"
    by (rule bip9_step [OF assms(1-3)])
  then show ?thesis using assms(4,5) by (cases "fst (bip9 bm C w t k)") (auto simp: transition_def)
qed

lemma signalled_ancestor:
  assumes "linked bm" "ancestor_at bm t k = Some e" "0 \<le> lo" "hi \<le> k + 1"
  shows "signalled bm C e lo hi = signalled bm C t lo hi"
proof -
  have "ancestor_at bm e h = ancestor_at bm t h" if "lo \<le> h" "h < hi" for h
    using tree.anc_trans [OF assms(1,2)] assms(3,4) that by simp
  then have "{h \<in> {lo..<hi}. \<exists>q b. ancestor_at bm e h = Some q \<and> bm q = Some b \<and> Condition C b}
      = {h \<in> {lo..<hi}. \<exists>q b. ancestor_at bm t h = Some q \<and> bm q = Some b \<and> Condition C b}" by auto
  then show ?thesis by (simp add: signalled_def)
qed

text \<open>A deployment fails only at a period end whose median time is past the timeout.\<close>

lemma failed_past_timeout:
  assumes "vb_ok bm C" "bm t = Some b"
  shows "int m * Period C - 1 \<le> nHeight b \<Longrightarrow> fst (bip9 bm C w t m) = FAILED \<Longrightarrow>
    ancestor_at bm t (int m * Period C - 1) = Some r \<Longrightarrow> EndTime C \<le> median_time bm r"
proof (induction m arbitrary: r)
  case (Suc m)
  obtain e where e: "ancestor_at bm t (int (Suc m) * Period C - 1) = Some e"
    "bip9 bm C w t (Suc m) = transition bm C w e (int (Suc m) * Period C - 1) (bip9 bm C w t m)"
    by (rule bip9_step [OF assms Suc.prems(1)])
  show ?case
  proof (cases "fst (bip9 bm C w t m) = FAILED")
    case True
    have mb: "int m * Period C - 1 \<le> nHeight b" using Suc.prems(1) vb_okD(5) [OF assms(1)] by (simp add: distrib_right)
    have "0 < m" using True by (cases m) auto
    then obtain q c where q: "ancestor_at bm t (int m * Period C - 1) = Some q" "bm q = Some c" "nHeight c = int m * Period C - 1"
      by (rule end_exists [OF assms _ mb])
    have "0 \<le> int m * Period C - 1" using q(1) by (elim ancestor_at_SomeD)
    then have "ancestor_at bm r (int m * Period C - 1) = Some q"
      using tree.anc_trans [OF vb_okD(1) [OF assms(1)] Suc.prems(3), of "int m * Period C - 1"] q(1) vb_okD(5) [OF assms(1)]
      by (simp add: distrib_right)
    then show ?thesis using median_time_mono [OF assms(1)] Suc.IH [OF mb True q(1)] by fastforce
  next
    case False
    then show ?thesis
      using e Suc.prems(2,3) by (cases "fst (bip9 bm C w t m)") (auto simp: transition_def split: if_splits)
  qed
qed simp

lemma enough_signals:
  assumes "vb_ok bm C" "bm t = Some b" "int (Suc m) * Period C - 1 \<le> nHeight b"
    and "fst (bip9 bm C w t m) \<in> {STARTED, LOCKED_IN, ACTIVE}"
    and "\<And>a. Threshold C a \<le> signalled bm C t (int m * Period C) (int (Suc m) * Period C)"
  shows "fst (bip9 bm C w t (Suc m)) \<in> {LOCKED_IN, ACTIVE}"
proof -
  obtain e where e: "ancestor_at bm t (int (Suc m) * Period C - 1) = Some e"
    "bip9 bm C w t (Suc m) = transition bm C w e (int (Suc m) * Period C - 1) (bip9 bm C w t m)"
    by (rule bip9_step [OF assms(1-3)])
  have lo: "int (Suc m) * Period C - 1 + 1 - Period C = int m * Period C" by (simp add: distrib_right)
  have "signalled bm C e (int m * Period C) (int (Suc m) * Period C) = signalled bm C t (int m * Period C) (int (Suc m) * Period C)"
    by (rule signalled_ancestor [OF vb_okD(1) [OF assms(1)] e(1)]) (use vb_okD(5) [OF assms(1)] in simp_all)
  then show ?thesis using e(2) assms(4,5) unfolding transition_def lo by (auto split: if_splits)
qed

lemma locked_in_stays:
  assumes "fst (bip9 bm C w t m) \<in> {LOCKED_IN, ACTIVE}" "m \<le> n"
  shows "fst (bip9 bm C w t n) \<in> {LOCKED_IN, ACTIVE}"
  using assms(2)
proof (induction n)
  case (Suc n)
  then show ?case
    using assms(1) by (cases "m = Suc n") (auto simp: Let_def transition_def split: option.splits)
qed (use assms in simp)

section \<open>An example chain\<close>

definition example_deployment :: checker where
  "example_deployment = VersionBitsConditionChecker (\<lambda>_ _. None)
     (CMainParams\<lparr>vDeployments := \<lambda>_. BIP9Deployment_default\<lparr>nStartTime := 50, nTimeout := 80, nWindowSize := 2\<rparr>\<rparr>)
     DEPLOYMENT_TESTDUMMY"

lemma example_deployment_simps [simp]:
  "Period example_deployment = 2" "BeginTime example_deployment = 50" "EndTime example_deployment = 80"
  "SignalHeight example_deployment p = 0" "MinActivationHeight example_deployment = 0"
  by (simp_all add: example_deployment_def VersionBitsConditionChecker_def deployment_period_def
      BIP9Deployment_default_def Let_def)

definition example_blocks :: BlockMap where
  "example_blocks = line_map 6 (\<lambda>_. 100) 0"

lemma example_blocks_linked: "linked example_blocks" "skips_ok example_blocks"
  by (simp_all add: example_blocks_def linked_line_map skips_ok_line_map)

lemma line_times:
  "past_times (line_map n (\<lambda>_. c) bits) k po = Inr ts \<Longrightarrow> set ts \<subseteq> {uint c}"
proof (induction k arbitrary: po ts)
  case (Suc k)
  show ?case
  proof (cases po)
    case (Some p)
    then obtain b us where b: "line_map n (\<lambda>_. c) bits p = Some b" "past_times (line_map n (\<lambda>_. c) bits) k (pprev b) = Inr us"
      "ts = GetBlockTime b # us" using Suc.prems by (auto simp: deref_def split: option.splits)
    then show ?thesis
      using Suc.IH [OF b(2)] by (auto simp: GetBlockTime_def line_entry_def elim!: line_map_SomeD)
  qed (use Suc.prems in simp)
qed simp

lemma line_mtp:
  assumes "n \<le> 256" "line_map n (\<lambda>_. c) bits p = Some b"
  shows "GetMedianTimePast (line_map n (\<lambda>_. c) bits) p = Inr (uint c)"
proof -
  obtain ts where ts: "past_times (line_map n (\<lambda>_. c) bits) nMedianTimeSpan (Some p) = Inr ts" "ts \<noteq> []"
    "GetMedianTimePast (line_map n (\<lambda>_. c) bits) p = Inr (sort (rev ts) ! (length ts div 2))"
    using GetMedianTimePast_total [OF linked_line_map [OF assms(1)] assms(2)] by blast
  have "sort (rev ts) ! (length ts div 2) \<in> set (sort (rev ts))" using ts(2) by (intro nth_mem) simp
  then show ?thesis using line_times [OF ts(1)] ts(3) by auto
qed

lemma example_mtp: "example_blocks p = Some b \<Longrightarrow> median_time example_blocks p = 100"
  using line_mtp [of 6 100 0 p b] by (simp add: example_blocks_def median_time_def)

lemma example_ptr: "i < 6 \<Longrightarrow> example_blocks (line_ptr i) = Some (line_entry (\<lambda>_. 100) 0 i)"
  by (simp add: example_blocks_def line_map_ptr)

lemma example_ancestor: "0 \<le> k \<Longrightarrow> k \<le> int i \<Longrightarrow> i < 6 \<Longrightarrow> ancestor_at example_blocks (line_ptr i) k = Some (line_ptr (nat k))"
  by (simp add: example_blocks_def line_ancestor)

lemma example_vb_ok: "vb_ok example_blocks example_deployment"
proof -
  have "times_ok example_blocks"
    unfolding times_ok_def
  proof (intro allI impI)
    fix p b q m
    assume a: "example_blocks p = Some b" "pprev b = Some q" "GetMedianTimePast example_blocks q = Inr m"
    obtain c where "example_blocks q = Some c" using linkedD(4) [OF example_blocks_linked(1) a(1,2)] by auto
    then have "m = 100" using example_mtp [of q c] a(3) by (simp add: median_time_def)
    then show "m \<le> GetBlockTime b"
      using a(1) by (auto simp: example_blocks_def GetBlockTime_def line_entry_def elim!: line_map_SomeD)
  qed
  moreover have "nHeight b + 1 < INT_MAX" if "example_blocks p = Some b" for p b
    using that by (auto simp: example_blocks_def INT_MAX_def line_entry_def elim!: line_map_SomeD)
  moreover have "signals_stay example_blocks example_deployment"
    by (simp add: signals_stay_def)
  ultimately show ?thesis by (simp add: vb_ok_def example_blocks_linked)
qed

section \<open>Properties\<close>

text \<open>
  C7. Caching is transparent: whatever earlier queries left in the cache, \<open>GetStateFor\<close> returns the
  state the BIP 9 diagram gives when it is run forward from genesis, one transition per period
  with the signals of that period counted in full, and it leaves the cache fit for the next query.
  None of its assertions fails.
\<close>

theorem deployment_state_is_bip9:
  assumes "vb_ok bm C" "cache_ok bm C w cache" "BeginTime C \<noteq> ALWAYS_ACTIVE" "BeginTime C \<noteq> NEVER_ACTIVE" "bm t = Some b"
  shows "\<exists>cache'. GetStateFor bm C w (Some t) cache = Inr (fst (bip9 bm C w t (period_of C b)), cache') \<and> cache_ok bm C w cache'"
  using GetStateFor_correct [OF assms(1-4), of "Some t"] assms(5) by (simp add: bip9_at_def)

theorem deployment_state_is_bip9_witness:
  "\<exists>cache'. GetStateFor example_blocks example_deployment 0 (Some (line_ptr 3)) Map.empty =
     Inr (fst (bip9 example_blocks example_deployment 0 (line_ptr 3) 2), cache') \<and> cache_ok example_blocks example_deployment 0 cache'"
proof -
  have "period_of example_deployment (line_entry (\<lambda>_. 100) 0 3) = 2" by (simp add: period_of_def line_entry_def)
  then show ?thesis
    using deployment_state_is_bip9 [OF example_vb_ok cache_ok_empty _ _ example_ptr, of 3 0]
    by (simp add: ALWAYS_ACTIVE_def NEVER_ACTIVE_def)
qed

text \<open>
  C40. The loops over periods end: on every well-linked tree and with any contents of the cache,
  even wrong ones, \<open>GetStateFor\<close> and \<open>GetStateSinceHeightFor\<close> never run out of blocks to walk, so
  the fuel of the model, one round more than the height of the block, is never used up.
\<close>

theorem deployment_queries_terminate:
  assumes "linked bm" "skips_ok bm" "0 < Period C"
  shows "GetStateFor bm C w key cache \<noteq> Inl Fuel_exhausted \<and> GetStateSinceHeightFor bm C w key cache \<noteq> Inl Fuel_exhausted"
  using GetStateFor_ends [OF assms] GetStateSinceHeightFor_ends [OF assms] by blast

theorem deployment_queries_terminate_witness:
  "GetStateFor example_blocks example_deployment 0 (Some (line_ptr 5)) [Some (line_ptr 1) \<mapsto> STARTED] \<noteq> Inl Fuel_exhausted \<and>
   GetStateSinceHeightFor example_blocks example_deployment 0 (Some (line_ptr 5)) [Some (line_ptr 1) \<mapsto> STARTED] \<noteq> Inl Fuel_exhausted"
  by (rule deployment_queries_terminate [OF example_blocks_linked]) simp

text \<open>
  C8. Every deployment is decided: once a period end is past the start time and the signal height,
  a later one is past the timeout, and one after that reaches the minimal activation height, the
  state is \<open>ACTIVE\<close> or \<open>FAILED\<close> for good; and it is \<open>ACTIVE\<close> when the blocks of one period in
  between, begun before the timeout, signalled often enough for every threshold.
\<close>

theorem deployment_is_decided:
  assumes "vb_ok bm C" "cache_ok bm C w cache" "0 \<le> BeginTime C" "bm t = Some b"
    and "ancestor_at bm t (int i * Period C - 1) = Some p" "ready bm C w p"
    and "i < j" "ancestor_at bm t (int j * Period C - 1) = Some q" "EndTime C \<le> median_time bm q"
    and "j < k" "int k * Period C - 1 \<le> nHeight b" "MinActivationHeight C \<le> int k * Period C"
  shows "\<exists>s cache'. GetStateFor bm C w (Some t) cache = Inr (s, cache') \<and> (s = ACTIVE \<or> s = FAILED) \<and>
    ((\<exists>m r. i \<le> m \<and> Suc m < k \<and> ancestor_at bm t (int m * Period C - 1) = Some r \<and> median_time bm r < EndTime C \<and>
       (\<forall>a. Threshold C a \<le> signalled bm C t (int m * Period C) (int (Suc m) * Period C))) \<longrightarrow> s = ACTIVE)"
proof -
  let ?s = "\<lambda>n. fst (bip9 bm C w t n)" and ?K = "period_of C b"
  obtain cache' where g: "GetStateFor bm C w (Some t) cache = Inr (?s ?K, cache')"
    using GetStateFor_correct [OF assms(1,2), of "Some t"] assms(3,4)
    by (auto simp: bip9_at_def ALWAYS_ACTIVE_def NEVER_ACTIVE_def)
  have P: "0 < Period C" by (rule vb_okD(5) [OF assms(1)])
  have le: "int n * Period C - 1 \<le> nHeight b" if "n \<le> k" for n
    using mult_right_mono [of "int n" "int k" "Period C"] that assms(11) P by linarith
  have kK: "k \<le> ?K"
  proof (rule ccontr)
    assume "\<not> k \<le> ?K"
    then have "int (Suc ?K) * Period C \<le> int k * Period C" using P by (intro mult_right_mono) auto
    then show False using period_end(3) [OF assms(1,4)] assms(11) by linarith
  qed
  obtain j' k' where jk: "j = Suc j'" "k = Suc k'" using assms(7,10) by (metis Nat.lessE)
  have "1 \<le> rank (?s i)" by (rule started_once_ready [OF assms(1,4) le assms(5,6)]) (use assms(7,10) in simp)
  then have ij: "1 \<le> rank (?s n)" if "i \<le> n" for n using rank_mono [OF that, of bm C w t] by simp
  have "2 \<le> rank (?s j)"
    unfolding jk(1) by (rule past_timeout [OF assms(1,4)]) (use ij le [of j] assms(7-10) jk in auto)
  then have "2 \<le> rank (?s k')" using rank_mono [of j k' bm C w t] jk(2) assms(10) by simp
  then have "3 \<le> rank (?s k)"
    unfolding jk(2) by (intro past_activation_height [OF assms(1,4)]) (use le [of k] assms(12) jk(2) in auto)
  then have fin: "?s ?K = ACTIVE \<or> ?s ?K = FAILED"
    using rank_mono [OF kK, of bm C w t] by (cases "?s ?K") auto
  have "?s ?K = ACTIVE" if m: "i \<le> m" "Suc m < k" "ancestor_at bm t (int m * Period C - 1) = Some r" "median_time bm r < EndTime C"
    "\<forall>a. Threshold C a \<le> signalled bm C t (int m * Period C) (int (Suc m) * Period C)" for m r
  proof -
    have "?s m \<noteq> FAILED" using failed_past_timeout [OF assms(1,4) le _ m(3)] m(2,4) by fastforce
    moreover have "?s m \<noteq> DEFINED" using ij [OF m(1)] by auto
    ultimately have "?s m \<in> {STARTED, LOCKED_IN, ACTIVE}" by (cases "?s m") auto
    then have "?s (Suc m) \<in> {LOCKED_IN, ACTIVE}" using enough_signals [OF assms(1,4) le, of m w] m(2,5) by simp
    then have "?s ?K \<in> {LOCKED_IN, ACTIVE}" by (rule locked_in_stays) (use m(2) kK in simp)
    then show ?thesis using fin by auto
  qed
  then show ?thesis using g fin by blast
qed

theorem deployment_is_decided_witness:
  "\<exists>s cache'. GetStateFor example_blocks example_deployment 0 (Some (line_ptr 5)) Map.empty = Inr (s, cache') \<and> (s = ACTIVE \<or> s = FAILED)"
proof -
  have "ready example_blocks example_deployment 0 (line_ptr 1)"
    using example_mtp [OF example_ptr, of 1] by (simp add: ready_def example_ptr) (simp add: line_entry_def)
  then show ?thesis
    using deployment_is_decided [OF example_vb_ok cache_ok_empty, of "line_ptr 5" "line_entry (\<lambda>_. 100) 0 5" 1 "line_ptr 1" 0 2 "line_ptr 3" 3]
      example_mtp [OF example_ptr, of 3]
    by (simp add: example_ptr example_ancestor) (auto simp: line_entry_def)
qed

end
