(* ===== verification/Note_Tree.thy ===== *)
theory Note_Tree
  imports Headers
begin

text \<open>
The incremental Merkle tree of note commitments (\<open>sapling/incrementalmerkletree.h\<close> and \<open>.cpp\<close>) with its
  witnesses and authentication paths. The Pedersen hash of the Rust library is a parameter; the table of
  empty roots is the one of the source. A tree stands for a list of leaves (\<open>represents\<close>); its root is the root
  of the complete tree over these leaves, a witness keeps the root and an authentication path for its leaf
  while leaves are appended, and the size is exact up to \<open>2 ^ 31\<close> leaves only.
\<close>

unbundle bit_operations_syntax

section \<open>Hashes of the tree\<close>

text \<open>
  The template parameter \<open>Hash\<close> of the tree: how two nodes of a level are combined, and the root of an empty
  subtree of each depth.
\<close>

record TreeHash =
  combine :: "uint256 \<Rightarrow> uint256 \<Rightarrow> nat \<Rightarrow> uint256"
  EmptyRoot :: "nat \<Rightarrow> uint256"

definition pedersen_empty_roots :: "uint256 list" where
  "pedersen_empty_roots =
    [[0x01, 0x00, 0x00, 0x00, 0x00, 0x00, 0x00, 0x00, 0x00, 0x00, 0x00, 0x00, 0x00, 0x00, 0x00, 0x00,
      0x00, 0x00, 0x00, 0x00, 0x00, 0x00, 0x00, 0x00, 0x00, 0x00, 0x00, 0x00, 0x00, 0x00, 0x00, 0x00],
     [0x81, 0x7d, 0xe3, 0x6a, 0xb2, 0xd5, 0x7f, 0xeb, 0x07, 0x76, 0x34, 0xbc, 0xa7, 0x78, 0x19, 0xc8,
      0xe0, 0xbd, 0x29, 0x8c, 0x04, 0xf6, 0xfe, 0xd0, 0xe6, 0xa8, 0x3c, 0xc1, 0x35, 0x6c, 0xa1, 0x55],
     [0xff, 0xe9, 0xfc, 0x03, 0xf1, 0x8b, 0x17, 0x6c, 0x99, 0x88, 0x06, 0x43, 0x9f, 0xf0, 0xbb, 0x8a,
      0xd1, 0x93, 0xaf, 0xdb, 0x27, 0xb2, 0xcc, 0xbc, 0x88, 0x85, 0x69, 0x16, 0xdd, 0x80, 0x4e, 0x34],
     [0xd8, 0x28, 0x33, 0x86, 0xef, 0x2e, 0xf0, 0x7e, 0xbd, 0xbb, 0x43, 0x83, 0xc1, 0x2a, 0x73, 0x9a,
      0x95, 0x3a, 0x4d, 0x6e, 0x0d, 0x6f, 0xb1, 0x13, 0x9a, 0x40, 0x36, 0xd6, 0x93, 0xbf, 0xbb, 0x6c],
     [0xe1, 0x10, 0xde, 0x65, 0xc9, 0x07, 0xb9, 0xde, 0xa4, 0xae, 0x0b, 0xd8, 0x3a, 0x4b, 0x0a, 0x51,
      0xbe, 0xa1, 0x75, 0x64, 0x6a, 0x64, 0xc1, 0x2b, 0x4c, 0x9f, 0x93, 0x1b, 0x2c, 0xb3, 0x1b, 0x49],
     [0x91, 0x2d, 0x82, 0xb2, 0xc2, 0xbc, 0xa2, 0x31, 0xf7, 0x1e, 0xfc, 0xf6, 0x17, 0x37, 0xfb, 0xf0,
      0xa0, 0x8b, 0xef, 0xa0, 0x41, 0x62, 0x15, 0xae, 0xef, 0x53, 0xe8, 0xbb, 0x6d, 0x23, 0x39, 0x0a],
     [0x8a, 0xc9, 0xcf, 0x9c, 0x39, 0x1e, 0x3f, 0xd4, 0x28, 0x91, 0xd2, 0x72, 0x38, 0xa8, 0x1a, 0x8a,
      0x5c, 0x1d, 0x3a, 0x72, 0xb1, 0xbc, 0xbe, 0xa8, 0xcf, 0x44, 0xa5, 0x8c, 0xe7, 0x38, 0x96, 0x13],
     [0xd6, 0xc6, 0x39, 0xac, 0x24, 0xb4, 0x6b, 0xd1, 0x93, 0x41, 0xc9, 0x1b, 0x13, 0xfd, 0xca, 0xb3,
      0x15, 0x81, 0xdd, 0xaf, 0x7f, 0x14, 0x11, 0x33, 0x6a, 0x27, 0x1f, 0x3d, 0x0a, 0xa5, 0x28, 0x13],
     [0x7b, 0x99, 0xab, 0xdc, 0x37, 0x30, 0x99, 0x1c, 0xc9, 0x27, 0x47, 0x27, 0xd7, 0xd8, 0x2d, 0x28,
      0xcb, 0x79, 0x4e, 0xdb, 0xc7, 0x03, 0x4b, 0x4f, 0x00, 0x53, 0xff, 0x7c, 0x4b, 0x68, 0x04, 0x44],
     [0x43, 0xff, 0x54, 0x57, 0xf1, 0x3b, 0x92, 0x6b, 0x61, 0xdf, 0x55, 0x2d, 0x4e, 0x40, 0x2e, 0xe6,
      0xdc, 0x14, 0x63, 0xf9, 0x9a, 0x53, 0x5f, 0x9a, 0x71, 0x34, 0x39, 0x26, 0x4d, 0x5b, 0x61, 0x6b],
     [0xba, 0x49, 0xb6, 0x59, 0xfb, 0xd0, 0xb7, 0x33, 0x42, 0x11, 0xea, 0x6a, 0x9d, 0x9d, 0xf1, 0x85,
      0xc7, 0x57, 0xe7, 0x0a, 0xa8, 0x1d, 0xa5, 0x62, 0xfb, 0x91, 0x2b, 0x84, 0xf4, 0x9b, 0xce, 0x72],
     [0x47, 0x77, 0xc8, 0x77, 0x6a, 0x3b, 0x1e, 0x69, 0xb7, 0x3a, 0x62, 0xfa, 0x70, 0x1f, 0xa4, 0xf7,
      0xa6, 0x28, 0x2d, 0x9a, 0xee, 0x2c, 0x7a, 0x6b, 0x82, 0xe7, 0x93, 0x7d, 0x70, 0x81, 0xc2, 0x3c],
     [0xec, 0x67, 0x71, 0x14, 0xc2, 0x72, 0x06, 0xf5, 0xde, 0xbc, 0x1c, 0x1e, 0xd6, 0x6f, 0x95, 0xe2,
      0xb1, 0x88, 0x5d, 0xa5, 0xb7, 0xbe, 0x3d, 0x73, 0x6b, 0x1d, 0xe9, 0x85, 0x79, 0x47, 0x30, 0x48],
     [0x1b, 0x77, 0xda, 0xc4, 0xd2, 0x4f, 0xb7, 0x25, 0x8c, 0x3c, 0x52, 0x87, 0x04, 0xc5, 0x94, 0x30,
      0xb6, 0x30, 0x71, 0x8b, 0xec, 0x48, 0x64, 0x21, 0x83, 0x70, 0x21, 0xcf, 0x75, 0xda, 0xb6, 0x51],
     [0xbd, 0x74, 0xb2, 0x5a, 0xac, 0xb9, 0x23, 0x78, 0xa8, 0x71, 0xbf, 0x27, 0xd2, 0x25, 0xcf, 0xc2,
      0x6b, 0xac, 0xa3, 0x44, 0xa1, 0xea, 0x35, 0xfd, 0xd9, 0x45, 0x10, 0xf3, 0xd1, 0x57, 0x08, 0x2c],
     [0xd6, 0xac, 0xde, 0xdf, 0x95, 0xf6, 0x08, 0xe0, 0x9f, 0xa5, 0x3f, 0xb4, 0x3d, 0xcd, 0x09, 0x90,
      0x47, 0x57, 0x26, 0xc5, 0x13, 0x12, 0x10, 0xc9, 0xe5, 0xca, 0xea, 0xb9, 0x7f, 0x0e, 0x64, 0x2f],
     [0x1e, 0xa6, 0x67, 0x5f, 0x95, 0x51, 0xee, 0xb9, 0xdf, 0xaa, 0xa9, 0x24, 0x7b, 0xc9, 0x85, 0x82,
      0x70, 0xd3, 0xd3, 0xa4, 0xc5, 0xaf, 0xa7, 0x17, 0x7a, 0x98, 0x4d, 0x5e, 0xd1, 0xbe, 0x24, 0x51],
     [0x6e, 0xdb, 0x16, 0xd0, 0x19, 0x07, 0xb7, 0x59, 0x97, 0x7d, 0x76, 0x50, 0xda, 0xd7, 0xe3, 0xec,
      0x04, 0x9a, 0xf1, 0xa3, 0xd8, 0x75, 0x38, 0x0b, 0x69, 0x7c, 0x86, 0x2c, 0x9e, 0xc5, 0xd5, 0x1c],
     [0xcd, 0x1c, 0x8d, 0xbf, 0x6e, 0x3a, 0xcc, 0x7a, 0x80, 0x43, 0x9b, 0xc4, 0x96, 0x2c, 0xf2, 0x5b,
      0x9d, 0xce, 0x7c, 0x89, 0x6f, 0x3a, 0x5b, 0xd7, 0x08, 0x03, 0xfc, 0x5a, 0x0e, 0x33, 0xcf, 0x00],
     [0x6a, 0xca, 0x84, 0x48, 0xd8, 0x26, 0x3e, 0x54, 0x7d, 0x5f, 0xf2, 0x95, 0x0e, 0x2e, 0xd3, 0x83,
      0x9e, 0x99, 0x8d, 0x31, 0xcb, 0xc6, 0xac, 0x9f, 0xd5, 0x7b, 0xc6, 0x00, 0x2b, 0x15, 0x92, 0x16],
     [0x8d, 0x5f, 0xa4, 0x3e, 0x5a, 0x10, 0xd1, 0x16, 0x05, 0xac, 0x74, 0x30, 0xba, 0x1f, 0x5d, 0x81,
      0xfb, 0x1b, 0x68, 0xd2, 0x9a, 0x64, 0x04, 0x05, 0x76, 0x77, 0x49, 0xe8, 0x41, 0x52, 0x76, 0x73],
     [0x08, 0xee, 0xab, 0x0c, 0x13, 0xab, 0xd6, 0x06, 0x9e, 0x63, 0x10, 0x19, 0x7b, 0xf8, 0x0f, 0x9c,
      0x1e, 0xa6, 0xde, 0x78, 0xfd, 0x19, 0xcb, 0xae, 0x24, 0xd4, 0xa5, 0x20, 0xe6, 0xcf, 0x30, 0x23],
     [0x07, 0x69, 0x55, 0x7b, 0xc6, 0x82, 0xb1, 0xbf, 0x30, 0x86, 0x46, 0xfd, 0x0b, 0x22, 0xe6, 0x48,
      0xe8, 0xb9, 0xe9, 0x8f, 0x57, 0xe2, 0x9f, 0x5a, 0xf4, 0x0f, 0x6e, 0xdb, 0x83, 0x3e, 0x2c, 0x49],
     [0x4c, 0x69, 0x37, 0xd7, 0x8f, 0x42, 0x68, 0x5f, 0x84, 0xb4, 0x3a, 0xd3, 0xb7, 0xb0, 0x0f, 0x81,
      0x28, 0x56, 0x62, 0xf8, 0x5c, 0x6a, 0x68, 0xef, 0x11, 0xd6, 0x2a, 0xd1, 0xa3, 0xee, 0x08, 0x50],
     [0xfe, 0xe0, 0xe5, 0x28, 0x02, 0xcb, 0x0c, 0x46, 0xb1, 0xeb, 0x4d, 0x37, 0x6c, 0x62, 0x69, 0x7f,
      0x47, 0x59, 0xf6, 0xc8, 0x91, 0x7f, 0xa3, 0x52, 0x57, 0x12, 0x02, 0xfd, 0x77, 0x8f, 0xd7, 0x12],
     [0x16, 0xd6, 0x25, 0x29, 0x68, 0x97, 0x1a, 0x83, 0xda, 0x85, 0x21, 0xd6, 0x53, 0x82, 0xe6, 0x1f,
      0x01, 0x76, 0x64, 0x6d, 0x77, 0x1c, 0x91, 0x52, 0x8e, 0x32, 0x76, 0xee, 0x45, 0x38, 0x3e, 0x4a],
     [0xd2, 0xe1, 0x64, 0x2c, 0x9a, 0x46, 0x22, 0x29, 0x28, 0x9e, 0x5b, 0x0e, 0x3b, 0x7f, 0x90, 0x08,
      0xe0, 0x30, 0x1c, 0xbb, 0x93, 0x38, 0x5e, 0xe0, 0xe2, 0x1d, 0xa2, 0x54, 0x50, 0x73, 0xcb, 0x58],
     [0xa5, 0x12, 0x2c, 0x08, 0xff, 0x9c, 0x16, 0x1d, 0x9c, 0xa6, 0xfc, 0x46, 0x20, 0x73, 0x39, 0x6c,
      0x7d, 0x7d, 0x38, 0xe8, 0xee, 0x48, 0xcd, 0xb3, 0xbe, 0xa7, 0xe2, 0x23, 0x01, 0x34, 0xed, 0x6a],
     [0x28, 0xe7, 0xb8, 0x41, 0xdc, 0xbc, 0x47, 0xcc, 0xeb, 0x69, 0xd7, 0xcb, 0x8d, 0x94, 0x24, 0x5f,
      0xb7, 0xcb, 0x2b, 0xa3, 0xa7, 0xa6, 0xbc, 0x18, 0xf1, 0x3f, 0x94, 0x5f, 0x7d, 0xbd, 0x6e, 0x2a],
     [0xe1, 0xf3, 0x4b, 0x03, 0x4d, 0x4a, 0x3c, 0xd2, 0x85, 0x57, 0xe2, 0x90, 0x7e, 0xbf, 0x99, 0x0c,
      0x91, 0x8f, 0x64, 0xec, 0xb5, 0x0a, 0x94, 0xf0, 0x1d, 0x6f, 0xda, 0x5c, 0xa5, 0xc7, 0xef, 0x72],
     [0x12, 0x93, 0x5f, 0x14, 0xb6, 0x76, 0x50, 0x9b, 0x81, 0xeb, 0x49, 0xef, 0x25, 0xf3, 0x92, 0x69,
      0xed, 0x72, 0x30, 0x92, 0x38, 0xb4, 0xc1, 0x45, 0x80, 0x35, 0x44, 0xb6, 0x46, 0xdc, 0xa6, 0x2d],
     [0xb2, 0xee, 0xd0, 0x31, 0xd4, 0xd6, 0xa4, 0xf0, 0x2a, 0x09, 0x7f, 0x80, 0xb5, 0x4c, 0xc1, 0x54,
      0x1d, 0x41, 0x63, 0xc6, 0xb6, 0xf5, 0x97, 0x1f, 0x88, 0xb6, 0xe4, 0x1d, 0x35, 0xc5, 0x38, 0x14],
     [0xfb, 0xc2, 0xf4, 0x30, 0x0c, 0x01, 0xf0, 0xb7, 0x82, 0x0d, 0x00, 0xe3, 0x34, 0x7c, 0x8d, 0xa4,
      0xee, 0x61, 0x46, 0x74, 0x37, 0x6c, 0xbc, 0x45, 0x35, 0x9d, 0xaa, 0x54, 0xf9, 0xb5, 0x49, 0x3e],
     [0x25, 0x2e, 0x67, 0x98, 0x64, 0x5f, 0x5b, 0xf1, 0x14, 0xe4, 0xb4, 0xe9, 0x0e, 0x96, 0x18, 0x28,
      0x61, 0x48, 0x98, 0x40, 0xd9, 0xb4, 0xcc, 0xc4, 0xc1, 0xfb, 0x5a, 0x46, 0x99, 0x7c, 0xee, 0x14],
     [0x98, 0xb1, 0x90, 0x42, 0xf1, 0xf7, 0xc7, 0xdd, 0x11, 0xec, 0x25, 0xea, 0x66, 0xb6, 0xff, 0x74,
      0xe0, 0x8c, 0xe1, 0x1d, 0x44, 0x7e, 0xd6, 0xf1, 0xbf, 0xe8, 0x7e, 0x11, 0x0e, 0x33, 0x1e, 0x11],
     [0xd4, 0x51, 0x30, 0x47, 0x99, 0x57, 0x2b, 0xa9, 0xf4, 0x2c, 0x4d, 0xab, 0x6b, 0x07, 0xc7, 0x03,
      0xbd, 0x2c, 0x12, 0x3a, 0xb9, 0xd6, 0x0f, 0x2a, 0x60, 0xf9, 0x95, 0x58, 0x54, 0x91, 0x0b, 0x6a],
     [0x3e, 0xcd, 0x5f, 0x27, 0xac, 0xf0, 0x1b, 0xd3, 0x7a, 0x33, 0xe4, 0x51, 0x78, 0x67, 0xef, 0x76,
      0x47, 0x4c, 0xd8, 0x3f, 0xb3, 0x1c, 0x92, 0x08, 0xdc, 0xef, 0x2e, 0xed, 0xce, 0xf3, 0x6c, 0x72],
     [0x26, 0xc3, 0x7d, 0xa6, 0x78, 0x94, 0xa1, 0x3d, 0xf8, 0xaa, 0x48, 0x78, 0xd2, 0x51, 0x4a, 0x42,
      0x12, 0x57, 0x3b, 0x73, 0xec, 0xca, 0xab, 0x16, 0xfe, 0x4f, 0xa6, 0x60, 0xe8, 0xfe, 0x27, 0x07],
     [0xb5, 0x45, 0xef, 0x34, 0x48, 0x5e, 0xed, 0x30, 0xd4, 0x2b, 0x2c, 0x29, 0x5a, 0x4a, 0x5b, 0x68,
      0x0d, 0xe8, 0xa9, 0xd5, 0xe3, 0x83, 0x45, 0x78, 0x24, 0x62, 0xc0, 0x4f, 0x09, 0xdc, 0x68, 0x51],
     [0x77, 0xfd, 0x20, 0xb3, 0x00, 0x94, 0x67, 0x65, 0xa8, 0x7f, 0x24, 0xbd, 0x04, 0x50, 0x73, 0x72,
      0x9c, 0xbd, 0x7b, 0x66, 0xeb, 0x8f, 0xa1, 0x40, 0xb5, 0x83, 0xfa, 0xa9, 0xd1, 0x42, 0x58, 0x01],
     [0xcb, 0xaa, 0x57, 0x6b, 0x17, 0x99, 0xb5, 0x8f, 0xf3, 0xa6, 0xde, 0xcb, 0xba, 0x91, 0x9b, 0x0b,
      0x68, 0xd7, 0xc8, 0x93, 0xe4, 0x6f, 0xde, 0x99, 0x87, 0x68, 0xe8, 0x7e, 0x35, 0x0a, 0x07, 0x25],
     [0x45, 0xfe, 0x81, 0xb1, 0x8c, 0xa3, 0x00, 0x74, 0xd0, 0x12, 0x0d, 0x2b, 0x1a, 0x0d, 0x10, 0xb3,
      0xa0, 0x50, 0x93, 0x35, 0x12, 0xdb, 0x8e, 0xe3, 0x4e, 0x52, 0x47, 0x3d, 0x4f, 0x08, 0xa2, 0x67],
     [0x0e, 0x60, 0xa1, 0xf0, 0x12, 0x1f, 0x59, 0x1e, 0x55, 0x1d, 0x3e, 0xd1, 0x86, 0x5b, 0x50, 0xa7,
      0x5d, 0x7c, 0xcf, 0xf1, 0x28, 0x9d, 0xf7, 0xc4, 0x4d, 0xd4, 0x65, 0xa5, 0x43, 0x17, 0xf5, 0x6a],
     [0xce, 0xdf, 0xb1, 0x84, 0xdd, 0x92, 0xa0, 0xcb, 0xfc, 0x11, 0xe8, 0xbe, 0x69, 0x7b, 0x47, 0x69,
      0x88, 0xed, 0x5f, 0x39, 0x36, 0x9a, 0xbd, 0xd9, 0x0c, 0x61, 0x54, 0x49, 0x88, 0x60, 0x1c, 0x0d],
     [0xf3, 0x62, 0x68, 0x66, 0x12, 0x64, 0x9a, 0x31, 0x3b, 0xa4, 0x64, 0x43, 0x7a, 0x0c, 0xad, 0x0e,
      0x7e, 0x3d, 0x7e, 0x1b, 0x4b, 0x37, 0x43, 0xf9, 0x0e, 0x05, 0xa2, 0x10, 0x0a, 0x49, 0x5f, 0x42],
     [0x7d, 0xea, 0xe5, 0xf3, 0xbb, 0xde, 0xff, 0xd3, 0xf8, 0x52, 0x71, 0xa0, 0x8b, 0x5e, 0xc3, 0x1f,
      0x16, 0xf9, 0x37, 0x96, 0x4a, 0xe7, 0x08, 0xfd, 0xff, 0x7c, 0x13, 0xe5, 0xa4, 0xf3, 0xdf, 0x6b],
     [0x40, 0xcc, 0xf0, 0xfc, 0x1e, 0xab, 0x6d, 0x85, 0x02, 0xbd, 0x93, 0xdc, 0x31, 0x34, 0x2d, 0xfd,
      0x57, 0xdf, 0x5b, 0xbb, 0x5d, 0x70, 0xa1, 0xbf, 0x6b, 0x92, 0xef, 0xc6, 0x1e, 0xc9, 0xa2, 0x58],
     [0xd7, 0x80, 0x25, 0x49, 0x1f, 0x1b, 0xca, 0x85, 0x07, 0xf6, 0x4f, 0x25, 0x87, 0x2d, 0xd0, 0x23,
      0x88, 0x47, 0x9a, 0x1a, 0x22, 0x51, 0x26, 0xe4, 0x0d, 0x2f, 0xe4, 0x18, 0xb9, 0x8e, 0x0e, 0x2c],
     [0x0d, 0xb7, 0x29, 0x46, 0x85, 0xc8, 0xa0, 0x72, 0x5f, 0x15, 0x84, 0x6e, 0xa5, 0x89, 0x9e, 0xa0,
      0xe9, 0x86, 0xc2, 0x70, 0x7b, 0xd7, 0xb4, 0x12, 0x95, 0x44, 0x12, 0xf2, 0x6a, 0xbf, 0x55, 0x0a],
     [0xb7, 0xe2, 0x90, 0xbe, 0x95, 0x55, 0xcf, 0x75, 0x54, 0x86, 0x50, 0xda, 0x6d, 0x47, 0xc8, 0x93,
      0xae, 0xf7, 0xf8, 0xc6, 0xdd, 0x27, 0x35, 0x49, 0x94, 0x95, 0xf6, 0x36, 0x59, 0x0d, 0xae, 0x0a],
     [0x2d, 0xd2, 0x53, 0x2a, 0x85, 0x8c, 0x30, 0x01, 0x45, 0xa6, 0x5e, 0x35, 0x1f, 0x91, 0xbe, 0x6a,
      0xfe, 0xab, 0x59, 0x7c, 0x41, 0xef, 0x07, 0x3f, 0x50, 0xb6, 0x22, 0xd5, 0x86, 0xff, 0x59, 0x27],
     [0x97, 0x2f, 0x0c, 0x5c, 0x6f, 0x9a, 0xeb, 0x0e, 0x38, 0xbf, 0x83, 0x19, 0xf3, 0xa5, 0xfc, 0xdc,
      0x8f, 0xd8, 0x78, 0x2e, 0x41, 0x88, 0x73, 0x0c, 0xd0, 0x82, 0xd9, 0xba, 0xbc, 0x58, 0x98, 0x51],
     [0x00, 0x1e, 0x57, 0x7b, 0x0f, 0x43, 0x90, 0x18, 0x2b, 0x4a, 0xe4, 0x3d, 0x32, 0x9b, 0x3a, 0xa8,
      0x83, 0x5d, 0xae, 0x1b, 0xb7, 0x9e, 0x60, 0x4b, 0x7d, 0x2d, 0xa0, 0xe9, 0x0d, 0x06, 0x09, 0x29],
     [0xaa, 0x6e, 0x70, 0xa9, 0x1e, 0xbc, 0x54, 0xee, 0xfc, 0xe5, 0xff, 0xd5, 0xb6, 0x75, 0xda, 0xf3,
      0xf1, 0xd9, 0x40, 0xa8, 0x45, 0x1f, 0xcb, 0x01, 0x08, 0x1f, 0xa9, 0xd4, 0xf2, 0x62, 0x43, 0x6f],
     [0xd7, 0x70, 0x38, 0xbf, 0x67, 0xe6, 0x31, 0x75, 0x29, 0x40, 0x23, 0x12, 0x51, 0xd7, 0xfe, 0x85,
      0xaf, 0x52, 0xdb, 0xdd, 0x6a, 0xab, 0x37, 0xc7, 0xa5, 0xec, 0x32, 0xb6, 0x5f, 0xe6, 0xde, 0x03],
     [0xd2, 0x27, 0xa1, 0x7a, 0x7e, 0x0c, 0xf9, 0x6d, 0xce, 0xdd, 0x9f, 0xc7, 0xbc, 0xe4, 0x3c, 0x6c,
      0x1d, 0x66, 0xba, 0xdd, 0x75, 0x43, 0xa8, 0x87, 0xc8, 0x65, 0x6c, 0x54, 0x7e, 0xcf, 0xb2, 0x4f],
     [0x70, 0xe8, 0xa5, 0x21, 0x95, 0x15, 0x83, 0xe5, 0x3f, 0xc0, 0x58, 0x5c, 0x70, 0x7e, 0xce, 0xda,
      0x89, 0xb7, 0xa7, 0xd1, 0xaf, 0x41, 0xd1, 0xa0, 0x15, 0xd7, 0x97, 0xfa, 0x76, 0xc0, 0xf5, 0x69],
     [0xe4, 0x85, 0xa9, 0x68, 0x55, 0xe8, 0x72, 0xfc, 0x50, 0x90, 0x15, 0x0e, 0x2c, 0xd2, 0x4e, 0x10,
      0x59, 0x1d, 0x35, 0x16, 0x6e, 0xb0, 0xeb, 0x30, 0xfc, 0xdf, 0xac, 0x93, 0xb0, 0x1d, 0x28, 0x1c],
     [0xe4, 0xa1, 0x9f, 0xeb, 0xdf, 0x2a, 0x86, 0x89, 0x6e, 0x41, 0xf2, 0xce, 0xdc, 0xf2, 0xae, 0x58,
      0x46, 0x71, 0x80, 0x2e, 0x6a, 0x46, 0x7e, 0x84, 0x39, 0xca, 0xb5, 0xd6, 0x18, 0x43, 0x41, 0x6b],
     [0xe9, 0x27, 0x83, 0x88, 0x47, 0x80, 0x6a, 0x43, 0xbd, 0x6c, 0x60, 0x88, 0xe3, 0x9f, 0x65, 0xb8,
      0xb3, 0xe5, 0x8b, 0x2d, 0xb5, 0xf7, 0xad, 0x56, 0x43, 0xd9, 0x1e, 0x06, 0x59, 0xa2, 0x8a, 0x2a],
     [0x0b, 0xd3, 0xa8, 0x18, 0xe8, 0x3f, 0x9c, 0xd2, 0xff, 0x4f, 0x62, 0x01, 0x1a, 0x51, 0x01, 0x76,
      0xac, 0x32, 0xf5, 0x44, 0x8e, 0x6e, 0x15, 0x45, 0x15, 0x04, 0x3c, 0x59, 0x26, 0xd5, 0x1c, 0x6f],
     [0xce, 0x41, 0x34, 0x45, 0xe0, 0x37, 0x90, 0x49, 0x8f, 0xe7, 0x2d, 0x8e, 0x01, 0x91, 0x5e, 0x7f,
      0xf1, 0x20, 0xae, 0x35, 0xb3, 0xb5, 0x90, 0xd2, 0x1b, 0x7f, 0x74, 0xde, 0xe1, 0x83, 0x0f, 0x0d],
     [0x60, 0x0e, 0x6f, 0x93, 0xe7, 0x3d, 0x7a, 0xbd, 0x4e, 0xe0, 0xa6, 0x5c, 0xb1, 0xb1, 0x9a, 0xa3,
      0xec, 0xc5, 0x25, 0x68, 0x9d, 0xbf, 0x17, 0x77, 0x96, 0x58, 0x74, 0x1b, 0x95, 0xc1, 0x5a, 0x55]] @ replicate 2 (replicate 32 0)"

text \<open>
  \<open>PedersenHash\<close>, with \<open>librustzcash_merkle_hash\<close> as its argument. The table has 65 places of which 63 are
  given, the last two are value-initialised; only depths up to 32 are read.
\<close>

definition PedersenHash :: "(nat \<Rightarrow> uint256 \<Rightarrow> uint256 \<Rightarrow> uint256) \<Rightarrow> TreeHash" where
  "PedersenHash librustzcash_merkle_hash =
     \<lparr>combine = (\<lambda>a b depth. librustzcash_merkle_hash depth a b),
      EmptyRoot = (\<lambda>depth. pedersen_empty_roots ! depth)\<rparr>"

definition SAPLING_INCREMENTAL_MERKLE_TREE_DEPTH :: nat where
  "SAPLING_INCREMENTAL_MERKLE_TREE_DEPTH = 32"

section \<open>The incremental tree\<close>

record IncrementalMerkleTree =
  left_leaf :: "uint256 option"
  right_leaf :: "uint256 option"
  parents :: "uint256 option list"

definition IncrementalMerkleTree_default :: IncrementalMerkleTree where
  "IncrementalMerkleTree_default = \<lparr>left_leaf = None, right_leaf = None, parents = []\<rparr>"

definition empty_root :: "TreeHash \<Rightarrow> nat \<Rightarrow> uint256" where
  "empty_root H Depth = EmptyRoot H Depth"

definition filler_next :: "TreeHash \<Rightarrow> nat \<Rightarrow> uint256 list \<Rightarrow> uint256 \<times> uint256 list" where
  "filler_next H depth queue = (case queue of h # queue' \<Rightarrow> (h, queue') | [] \<Rightarrow> (EmptyRoot H depth, []))"

definition wfcheck :: "nat \<Rightarrow> IncrementalMerkleTree \<Rightarrow> bool" where
  "wfcheck Depth t \<longleftrightarrow>
     \<not> length (parents t) \<ge> Depth
     \<and> \<not> (parents t \<noteq> [] \<and> last (parents t) = None)
     \<and> \<not> (left_leaf t = None \<and> right_leaf t \<noteq> None)
     \<and> \<not> (left_leaf t = None \<and> length (parents t) > 0)"

definition tree_last :: "IncrementalMerkleTree \<Rightarrow> uint256 option" where
  "tree_last t = (case right_leaf t of Some h \<Rightarrow> Some h | None \<Rightarrow> left_leaf t)"

text \<open>
  The sizes of the subtrees are computed with \<open>1 << (i+1)\<close> in a 32-bit int and sign-extended when they are
  added to the 64-bit result.
\<close>

definition tree_size :: "IncrementalMerkleTree \<Rightarrow> u64" where
  "tree_size t =
     (let ret = 0;
          ret = (if left_leaf t \<noteq> None then ret + 1 else ret);
          ret = (if right_leaf t \<noteq> None then ret + 1 else ret)
      in fold (\<lambda>i ret. if parents t ! i \<noteq> None then ret + signed (push_bit (i + 1) (1 :: 32 word)) else ret)
           [0..<length (parents t)] ret)"

definition is_complete :: "nat \<Rightarrow> IncrementalMerkleTree \<Rightarrow> bool" where
  "is_complete depth t =
     (if left_leaf t = None \<or> right_leaf t = None then False
      else if length (parents t) \<noteq> depth - 1 then False
      else list_all (\<lambda>parent. parent \<noteq> None) (parents t))"

text \<open>The loop of \<open>append\<close> that carries a full subtree up: \<open>n\<close> rounds are left, \<open>i\<close> is the level.\<close>

fun append_loop :: "TreeHash \<Rightarrow> nat \<Rightarrow> nat \<Rightarrow> uint256 option list \<Rightarrow> uint256 \<Rightarrow> uint256 option list" where
  "append_loop H 0 i ps combined = ps"
| "append_loop H (Suc n) i [] combined = [Some combined]"
| "append_loop H (Suc n) i (Some p # ps) combined = None # append_loop H n (i + 1) ps (combine H p combined (i + 1))"
| "append_loop H (Suc n) i (None # ps) combined = Some combined # ps"

definition tree_append :: "TreeHash \<Rightarrow> nat \<Rightarrow> uint256 \<Rightarrow> IncrementalMerkleTree \<Rightarrow> IncrementalMerkleTree option" where
  "tree_append H Depth obj t =
     (if is_complete Depth t then None
      else case (left_leaf t, right_leaf t) of
        (None, _) \<Rightarrow> Some (t\<lparr>left_leaf := Some obj\<rparr>)
      | (Some l, None) \<Rightarrow> Some (t\<lparr>right_leaf := Some obj\<rparr>)
      | (Some l, Some r) \<Rightarrow> Some \<lparr>left_leaf = Some obj, right_leaf = None,
            parents = append_loop H Depth 0 (parents t) (combine H l r 0)\<rparr>)"

fun next_depth_loop :: "nat \<Rightarrow> nat \<Rightarrow> uint256 option list \<Rightarrow> nat" where
  "next_depth_loop skip d [] = d + skip"
| "next_depth_loop skip d (None # ps) = (if skip > 0 then next_depth_loop (skip - 1) (d + 1) ps else d)"
| "next_depth_loop skip d (Some p # ps) = next_depth_loop skip (d + 1) ps"

definition next_depth :: "nat \<Rightarrow> IncrementalMerkleTree \<Rightarrow> nat" where
  "next_depth skip t =
     (if left_leaf t = None \<and> skip = 0 then 0
      else let skip = (if left_leaf t = None then skip - 1 else skip)
           in if right_leaf t = None \<and> skip = 0 then 0
              else let skip = (if right_leaf t = None then skip - 1 else skip)
                   in next_depth_loop skip 1 (parents t))"

section \<open>Root and authentication path\<close>

definition root_step :: "TreeHash \<Rightarrow> uint256 option \<Rightarrow> uint256 \<times> nat \<times> uint256 list \<Rightarrow> uint256 \<times> nat \<times> uint256 list" where
  "root_step H parent = (\<lambda>(root, d, filler). case parent of
       Some p \<Rightarrow> (combine H p root d, d + 1, filler)
     | None \<Rightarrow> let (h, filler) = filler_next H d filler in (combine H root h d, d + 1, filler))"

fun root_fill :: "TreeHash \<Rightarrow> nat \<Rightarrow> uint256 \<times> nat \<times> uint256 list \<Rightarrow> uint256" where
  "root_fill H 0 (root, d, filler) = root"
| "root_fill H (Suc n) (root, d, filler) =
     (let (h, filler) = filler_next H d filler in root_fill H n (combine H root h d, d + 1, filler))"

definition root_depth :: "TreeHash \<Rightarrow> nat \<Rightarrow> uint256 list \<Rightarrow> IncrementalMerkleTree \<Rightarrow> uint256" where
  "root_depth H depth filler_hashes t =
     (let (combine_left, filler) =
            (case left_leaf t of Some h \<Rightarrow> (h, filler_hashes) | None \<Rightarrow> filler_next H 0 filler_hashes);
          (combine_right, filler) =
            (case right_leaf t of Some h \<Rightarrow> (h, filler) | None \<Rightarrow> filler_next H 0 filler);
          root = combine H combine_left combine_right 0;
          (root, d, filler) = fold (root_step H) (parents t) (root, 1, filler)
      in root_fill H (depth - d) (root, d, filler))"

definition tree_root :: "TreeHash \<Rightarrow> nat \<Rightarrow> IncrementalMerkleTree \<Rightarrow> uint256" where
  "tree_root H Depth t = root_depth H Depth [] t"

definition path_step :: "TreeHash \<Rightarrow> uint256 option \<Rightarrow> (bool \<times> uint256) list \<times> nat \<times> uint256 list
    \<Rightarrow> (bool \<times> uint256) list \<times> nat \<times> uint256 list" where
  "path_step H parent = (\<lambda>(path, d, filler). case parent of
       Some p \<Rightarrow> (path @ [(True, p)], d + 1, filler)
     | None \<Rightarrow> let (h, filler) = filler_next H d filler in (path @ [(False, h)], d + 1, filler))"

text \<open>\<open>convertBytesVectorToVector\<close> lists the bits of each byte from the most significant one.\<close>

definition convertBytesVectorToVector :: "bytes \<Rightarrow> bool list" where
  "convertBytesVectorToVector bs = concat (map (\<lambda>c. map (\<lambda>j. bit c (7 - j)) [0..<8]) bs)"

record MerklePath =
  authentication_path :: "bool list list"
  path_index :: "bool list"

text \<open>The pairs of index bits and siblings from the leaf upwards, before they are reversed.\<close>

definition path_up :: "TreeHash \<Rightarrow> nat \<Rightarrow> uint256 list \<Rightarrow> IncrementalMerkleTree \<Rightarrow> (bool \<times> uint256) list option" where
  "path_up H Depth filler_hashes t = (case left_leaf t of
       None \<Rightarrow> None
     | Some l \<Rightarrow>
        let (path, filler) = (if right_leaf t \<noteq> None then ([(True, l)], filler_hashes)
              else let (h, filler) = filler_next H 0 filler_hashes in ([(False, h)], filler));
            (path, d, filler) = fold (path_step H) (parents t) (path, 1, filler);
            (path, _) = fold (\<lambda>d (path, filler). let (h, filler) = filler_next H d filler
                                in (path @ [(False, h)], filler)) [d..<Depth] (path, filler)
        in Some path)"

definition tree_path :: "TreeHash \<Rightarrow> nat \<Rightarrow> uint256 list \<Rightarrow> IncrementalMerkleTree \<Rightarrow> MerklePath option" where
  "tree_path H Depth filler_hashes t =
     map_option (\<lambda>path. \<lparr>authentication_path = rev (map (\<lambda>(_, b). convertBytesVectorToVector b) path),
                          path_index = rev (map fst path)\<rparr>) (path_up H Depth filler_hashes t)"

section \<open>Witnesses\<close>

record IncrementalWitness =
  wit_tree :: IncrementalMerkleTree
  filled :: "uint256 list"
  cursor :: "IncrementalMerkleTree option"
  cursor_depth :: nat

definition witness :: "IncrementalMerkleTree \<Rightarrow> IncrementalWitness" where
  "witness t = \<lparr>wit_tree = t, filled = [], cursor = None, cursor_depth = 0\<rparr>"

definition partial_path :: "TreeHash \<Rightarrow> IncrementalWitness \<Rightarrow> uint256 list" where
  "partial_path H w = filled w @ (case cursor w of Some c \<Rightarrow> [root_depth H (cursor_depth w) [] c] | None \<Rightarrow> [])"

definition wit_path :: "TreeHash \<Rightarrow> nat \<Rightarrow> IncrementalWitness \<Rightarrow> MerklePath option" where
  "wit_path H Depth w = tree_path H Depth (partial_path H w) (wit_tree w)"

definition wit_element :: "IncrementalWitness \<Rightarrow> uint256 option" where
  "wit_element w = tree_last (wit_tree w)"

definition wit_position :: "IncrementalWitness \<Rightarrow> u64" where
  "wit_position w = tree_size (wit_tree w) - 1"

definition wit_root :: "TreeHash \<Rightarrow> nat \<Rightarrow> IncrementalWitness \<Rightarrow> uint256" where
  "wit_root H Depth w = root_depth H Depth (partial_path H w) (wit_tree w)"

definition wit_append :: "TreeHash \<Rightarrow> nat \<Rightarrow> uint256 \<Rightarrow> IncrementalWitness \<Rightarrow> IncrementalWitness option" where
  "wit_append H Depth obj w = (case cursor w of
       Some c \<Rightarrow> do {
         c \<leftarrow> tree_append H Depth obj c;
         Some (if is_complete (cursor_depth w) c
               then w\<lparr>filled := filled w @ [root_depth H (cursor_depth w) [] c], cursor := None\<rparr>
               else w\<lparr>cursor := Some c\<rparr>) }
     | None \<Rightarrow>
         let depth = next_depth (length (filled w)) (wit_tree w); w = w\<lparr>cursor_depth := depth\<rparr>
         in if depth \<ge> Depth then None
            else if depth = 0 then Some (w\<lparr>filled := filled w @ [obj]\<rparr>)
            else do {
              c \<leftarrow> tree_append H Depth obj IncrementalMerkleTree_default;
              Some (w\<lparr>cursor := Some c\<rparr>) })"

section \<open>Serialisation\<close>

definition ser_uint256 :: "uint256 \<Rightarrow> bytes" where
  "ser_uint256 h = h"

definition unser_uint256 :: "uint256 reader" where
  "unser_uint256 s = read_bytes 32 s"

definition ser_tree :: "nat \<Rightarrow> IncrementalMerkleTree \<Rightarrow> bytes option" where
  "ser_tree Depth t = (if wfcheck Depth t
     then Some (ser_optional ser_uint256 (left_leaf t) @ ser_optional ser_uint256 (right_leaf t)
                @ ser_vector (ser_optional ser_uint256) (parents t))
     else None)"

definition unser_tree :: "nat \<Rightarrow> IncrementalMerkleTree reader" where
  "unser_tree Depth s = do {
     (l, s) \<leftarrow> unser_optional unser_uint256 s;
     (r, s) \<leftarrow> unser_optional unser_uint256 s;
     (ps, s) \<leftarrow> unser_vector (unser_optional unser_uint256) s;
     let t = \<lparr>left_leaf = l, right_leaf = r, parents = ps\<rparr>;
     if wfcheck Depth t then Some (t, s) else None }"

section \<open>The complete tree the incremental one stands for\<close>

fun merkle_tree_root :: "TreeHash \<Rightarrow> nat \<Rightarrow> uint256 list \<Rightarrow> uint256" where
  "merkle_tree_root H 0 xs = (case xs of [] \<Rightarrow> EmptyRoot H 0 | x # _ \<Rightarrow> x)"
| "merkle_tree_root H (Suc d) xs =
     combine H (merkle_tree_root H d (take (2 ^ d) xs)) (merkle_tree_root H d (drop (2 ^ d) xs)) d"

definition empty_roots_ok :: "TreeHash \<Rightarrow> nat \<Rightarrow> bool" where
  "empty_roots_ok H D \<longleftrightarrow> (\<forall>d<D. EmptyRoot H (Suc d) = combine H (EmptyRoot H d) (EmptyRoot H d) d)"

text \<open>
  \<open>collapsed H d ps zs\<close>: the parents \<open>ps\<close> from level \<open>d\<close> on are the roots of the full subtrees that the leaves
  \<open>zs\<close> split into, higher levels first.
\<close>

fun collapsed :: "TreeHash \<Rightarrow> nat \<Rightarrow> uint256 option list \<Rightarrow> uint256 list \<Rightarrow> bool" where
  "collapsed H d [] zs \<longleftrightarrow> zs = []"
| "collapsed H d (None # ps) zs \<longleftrightarrow> collapsed H (Suc d) ps zs"
| "collapsed H d (Some h # ps) zs \<longleftrightarrow>
     (\<exists>zs' b. zs = zs' @ b \<and> length b = 2 ^ d \<and> h = merkle_tree_root H d b \<and> collapsed H (Suc d) ps zs')"

definition represents :: "TreeHash \<Rightarrow> IncrementalMerkleTree \<Rightarrow> uint256 list \<Rightarrow> bool" where
  "represents H t xs \<longleftrightarrow> (case (left_leaf t, right_leaf t) of
       (None, None) \<Rightarrow> xs = [] \<and> parents t = []
     | (None, Some r) \<Rightarrow> False
     | (Some l, None) \<Rightarrow> (\<exists>zs. xs = zs @ [l] \<and> collapsed H 1 (parents t) zs)
     | (Some l, Some r) \<Rightarrow> (\<exists>zs. xs = zs @ [l, r] \<and> collapsed H 1 (parents t) zs))"

text \<open>The levels at which a tree has no sibling yet, from the leaves to depth \<open>D\<close>.\<close>

fun holes :: "nat \<Rightarrow> uint256 option list \<Rightarrow> nat \<Rightarrow> nat list" where
  "holes d [] D = [d..<D]"
| "holes d (None # ps) D = d # holes (Suc d) ps D"
| "holes d (Some h # ps) D = holes (Suc d) ps D"

definition tree_holes :: "IncrementalMerkleTree \<Rightarrow> nat \<Rightarrow> nat list" where
  "tree_holes t D = (if right_leaf t = None then [0] else []) @ holes 1 (parents t) D"

text \<open>The filler hashes are the roots of the leaves \<open>us\<close> that follow, cut at the holes.\<close>

fun feeds :: "TreeHash \<Rightarrow> nat list \<Rightarrow> uint256 list \<Rightarrow> uint256 list \<Rightarrow> bool" where
  "feeds H ls [] us \<longleftrightarrow> us = []"
| "feeds H [] (q # qs) us \<longleftrightarrow> False"
| "feeds H (l # ls) (q # qs) us \<longleftrightarrow>
     q = merkle_tree_root H l (take (2 ^ l) us) \<and> feeds H ls qs (drop (2 ^ l) us)"

lemma merkle_root_Nil: "empty_roots_ok H D \<Longrightarrow> d \<le> D \<Longrightarrow> merkle_tree_root H d [] = EmptyRoot H d"
  by (induction d) (simp_all add: empty_roots_ok_def)

lemma merkle_root_full:
  "length b = 2 ^ d \<Longrightarrow> merkle_tree_root H (Suc d) (b @ ts) = combine H (merkle_tree_root H d b) (merkle_tree_root H d ts) d"
  by simp

lemma merkle_root_half:
  "length ts \<le> 2 ^ d \<Longrightarrow> merkle_tree_root H (Suc d) ts = combine H (merkle_tree_root H d ts) (merkle_tree_root H d []) d"
  by simp

lemma hole_step:
  assumes "empty_roots_ok H D" "d < D" "length ts \<le> 2 ^ d" "length ts = 2 ^ d \<or> us = []" "feeds H (d # ls) q us"
  obtains h q' where "filler_next H d q = (h, q')" "feeds H ls q' (drop (2 ^ d) us)"
    "combine H (merkle_tree_root H d ts) h d = merkle_tree_root H (Suc d) (ts @ take (2 ^ d) us)"
    "length (ts @ take (2 ^ d) us) \<le> 2 ^ Suc d"
    "length (ts @ take (2 ^ d) us) = 2 ^ Suc d \<or> drop (2 ^ d) us = []"
proof -
  let ?h = "merkle_tree_root H d (take (2 ^ d) us)"
  have "filler_next H d q = (?h, tl q)" "feeds H ls (tl q) (drop (2 ^ d) us)"
    using assms by (cases q; simp add: filler_next_def merkle_root_Nil)+
  moreover have "combine H (merkle_tree_root H d ts) ?h d = merkle_tree_root H (Suc d) (ts @ take (2 ^ d) us)"
    using assms(3,4) merkle_root_full [of ts d H "take (2 ^ d) us"] merkle_root_half [of ts d H] by auto
  moreover have "length (ts @ take (2 ^ d) us) \<le> 2 ^ Suc d" using assms(3) by simp
  moreover have "length (ts @ take (2 ^ d) us) = 2 ^ Suc d \<or> drop (2 ^ d) us = []" using assms(4) by auto
  ultimately show ?thesis using that by blast
qed

lemma root_fill_spec:
  assumes "empty_roots_ok H D" "d \<le> D" "length ts \<le> 2 ^ d" "length ts = 2 ^ d \<or> us = []" "feeds H [d..<D] q us"
  shows "root_fill H (D - d) (merkle_tree_root H d ts, d, q) = merkle_tree_root H D (ts @ us)"
  using assms
proof (induction "D - d" arbitrary: d ts us q)
  case 0
  then show ?case by (cases q) auto
next
  case (Suc n)
  then have d: "d < D" "[d..<D] = d # [Suc d..<D]" by (auto simp: upt_conv_Cons)
  obtain h q' where h: "filler_next H d q = (h, q')" "feeds H [Suc d..<D] q' (drop (2 ^ d) us)"
    "combine H (merkle_tree_root H d ts) h d = merkle_tree_root H (Suc d) (ts @ take (2 ^ d) us)"
    "length (ts @ take (2 ^ d) us) \<le> 2 ^ Suc d" "length (ts @ take (2 ^ d) us) = 2 ^ Suc d \<or> drop (2 ^ d) us = []"
    using hole_step [OF Suc.prems(1) d(1) Suc.prems(3,4), of "[Suc d..<D]" q] Suc.prems(5) d(2) by auto
  have "root_fill H (D - Suc d) (merkle_tree_root H (Suc d) (ts @ take (2 ^ d) us), Suc d, q')
      = merkle_tree_root H D ((ts @ take (2 ^ d) us) @ drop (2 ^ d) us)"
    by (rule Suc.hyps(1) [OF _ Suc.prems(1) _ h(4,5,2)]) (use Suc.hyps(2) d(1) in linarith)+
  moreover have "D - d = Suc (D - Suc d)" using d(1) by simp
  ultimately show ?case by (simp add: h(1,3) del: merkle_tree_root.simps append_assoc) simp
qed

lemma root_fold_spec:
  assumes "empty_roots_ok H D" "d + length ps \<le> D" "length ts \<le> 2 ^ d" "length ts = 2 ^ d \<or> us = []"
    "feeds H (holes d ps D) q us" "collapsed H d ps zs"
  shows "(case fold (root_step H) ps (merkle_tree_root H d ts, d, q) of (r, d, q) \<Rightarrow> root_fill H (D - d) (r, d, q))
    = merkle_tree_root H D (zs @ ts @ us)"
  using assms
proof (induction ps arbitrary: d ts us q zs)
  case Nil
  then show ?case using root_fill_spec by simp
next
  case (Cons p ps)
  show ?case
  proof (cases p)
    case None
    obtain h q' where h: "filler_next H d q = (h, q')" "feeds H (holes (Suc d) ps D) q' (drop (2 ^ d) us)"
      "combine H (merkle_tree_root H d ts) h d = merkle_tree_root H (Suc d) (ts @ take (2 ^ d) us)"
      "length (ts @ take (2 ^ d) us) \<le> 2 ^ Suc d" "length (ts @ take (2 ^ d) us) = 2 ^ Suc d \<or> drop (2 ^ d) us = []"
      using hole_step [OF Cons.prems(1) _ Cons.prems(3,4), of "holes (Suc d) ps D" q] Cons.prems(2,5) None by auto
    show ?thesis
      using Cons.IH [OF Cons.prems(1) _ h(4,5,2), of zs] Cons.prems(2,6) None
      by (simp add: root_step_def h(1,3) del: merkle_tree_root.simps)
  next
    case (Some s)
    then obtain zs' b where b: "zs = zs' @ b" "length b = 2 ^ d" "s = merkle_tree_root H d b" "collapsed H (Suc d) ps zs'"
      using Cons.prems(6) by auto
    show ?thesis
      using Cons.IH [of "Suc d" "b @ ts" us q zs'] Cons.prems Some b merkle_root_full [OF b(2), of H ts]
      by (simp add: root_step_def del: merkle_tree_root.simps)
  qed
qed

lemma root_depth_represents:
  assumes "empty_roots_ok H D" "represents H t xs" "length (parents t) < D"
    and "feeds H (tree_holes t D) q us" "xs = [] \<longrightarrow> q = []"
  shows "root_depth H D q t = merkle_tree_root H D (xs @ us)"
proof (cases "left_leaf t")
  case None
  then have t: "xs = []" "parents t = []" "right_leaf t = None" "q = []" "us = []"
    using assms by (auto simp: represents_def split: option.splits)
  have "EmptyRoot H (Suc 0) = combine H (EmptyRoot H 0) (EmptyRoot H 0) 0"
    using assms(1,3) by (simp add: empty_roots_ok_def)
  then show ?thesis
    using root_fill_spec [OF assms(1), of 1 "[]" "[]" "[]"] assms(3) None t merkle_root_Nil [OF assms(1), of 1]
    by (simp add: root_depth_def filler_next_def Let_def)
next
  case (Some l)
  show ?thesis
  proof (cases "right_leaf t")
    case None
    then obtain zs where zs: "xs = zs @ [l]" "collapsed H 1 (parents t) zs"
      using assms(2) Some by (auto simp: represents_def)
    obtain h q' where h: "filler_next H 0 q = (h, q')" "feeds H (holes 1 (parents t) D) q' (drop 1 us)"
      "combine H l h 0 = merkle_tree_root H 1 ([l] @ take 1 us)"
      "length ([l] @ take 1 us) \<le> 2 ^ 1" "length ([l] @ take 1 us) = 2 ^ 1 \<or> drop 1 us = []"
      using hole_step [OF assms(1), of 0 "[l]" us "holes 1 (parents t) D" q] assms(3,4) None
      by (auto simp: tree_holes_def)
    show ?thesis
      using root_fold_spec [OF assms(1) _ h(4,5,2) zs(2)] assms(3) Some None zs(1)
      by (simp add: root_depth_def h(1,3) Let_def split_def del: merkle_tree_root.simps)
  next
    case (Some r)
    then obtain zs where zs: "xs = zs @ [l, r]" "collapsed H 1 (parents t) zs"
      using assms(2) \<open>left_leaf t = Some l\<close> by (auto simp: represents_def)
    have lr: "combine H l r 0 = merkle_tree_root H 1 [l, r]" by simp
    show ?thesis
      using root_fold_spec [OF assms(1), of 1 "parents t" "[l, r]" us q zs] assms(3,4) Some zs \<open>left_leaf t = Some l\<close>
      by (simp add: root_depth_def lr Let_def split_def tree_holes_def del: merkle_tree_root.simps)
  qed
qed

lemma root_represents:
  assumes "empty_roots_ok H D" "represents H t xs" "length (parents t) < D"
  shows "root_depth H D [] t = merkle_tree_root H D xs"
  using root_depth_represents [OF assms, of "[]" "[]"] by simp

section \<open>Room in the tree\<close>

lemma collapsed_room:
  assumes "collapsed H d ps zs" "d + length ps \<le> D"
  shows "length zs + 2 ^ d + (\<Sum>l\<leftarrow>holes d ps D. 2 ^ l) = 2 ^ D"
  using assms
proof (induction ps arbitrary: d zs)
  case Nil
  have "(2::nat) ^ d + (\<Sum>l\<leftarrow>[d..<D]. 2 ^ l) = 2 ^ D" if "d \<le> D"
    using that by (induction rule: dec_induct) simp_all
  then show ?case using Nil by simp
next
  case (Cons p ps)
  show ?case
  proof (cases p)
    case None
    then show ?thesis using Cons.IH [of "Suc d" zs] Cons.prems by simp
  next
    case (Some h)
    then obtain zs' b where "zs = zs' @ b" "length b = 2 ^ d" "collapsed H (Suc d) ps zs'"
      using Cons.prems by auto
    then show ?thesis using Cons.IH [of "Suc d" zs'] Cons.prems Some by simp
  qed
qed

lemma represents_room:
  assumes "represents H t xs" "xs \<noteq> []" "length (parents t) < D"
  shows "length xs + (\<Sum>l\<leftarrow>tree_holes t D. 2 ^ l) = 2 ^ D"
proof -
  obtain l zs r where "left_leaf t = Some l" "xs = zs @ l # r" "collapsed H 1 (parents t) zs"
    "r = (case right_leaf t of None \<Rightarrow> [] | Some h \<Rightarrow> [h])"
    using assms(1,2) by (auto simp: represents_def split: option.splits)
  then show ?thesis
    using collapsed_room [of H 1 "parents t" zs D] assms(3) by (auto simp: tree_holes_def split: option.splits)
qed

lemma holes_Nil_iff: "d + length ps \<le> D \<Longrightarrow> holes d ps D = [] \<longleftrightarrow> d + length ps = D \<and> list_all (\<lambda>p. p \<noteq> None) ps"
  by (induction d ps D rule: holes.induct) auto

lemma is_complete_iff:
  assumes "represents H t xs" "length (parents t) < D"
  shows "is_complete D t \<longleftrightarrow> length xs = 2 ^ D"
proof (cases "xs = []")
  case True
  then show ?thesis using assms by (auto simp: represents_def is_complete_def split: option.splits)
next
  case False
  then have "length xs = 2 ^ D \<longleftrightarrow> tree_holes t D = []"
    using represents_room [OF assms(1) False assms(2)] by (cases "tree_holes t D") auto
  moreover have "left_leaf t \<noteq> None" using False assms(1) by (auto simp: represents_def split: option.splits)
  ultimately show ?thesis
    using holes_Nil_iff [of 1 "parents t" D] assms(2) by (auto simp: is_complete_def tree_holes_def)
qed

lemma represents_le: "represents H t xs \<Longrightarrow> length (parents t) < D \<Longrightarrow> length xs \<le> 2 ^ D"
  using represents_room [of H t xs D] by (cases "xs = []") auto

section \<open>Appending\<close>

lemma append_loop_spec:
  assumes "collapsed H (Suc i) ps zs" "length b = 2 ^ Suc i" "length ps < n"
  shows "collapsed H (Suc i) (append_loop H n i ps (merkle_tree_root H (Suc i) b)) (zs @ b)"
  using assms
proof (induction H n i ps "merkle_tree_root H (Suc i) b" arbitrary: b zs rule: append_loop.induct)
  case (3 H n i p ps)
  then obtain zs' c where c: "zs = zs' @ c" "length c = 2 ^ Suc i" "p = merkle_tree_root H (Suc i) c"
      "collapsed H (Suc (Suc i)) ps zs'"
    by auto
  have "combine H p (merkle_tree_root H (Suc i) b) (i + 1) = merkle_tree_root H (Suc (i + 1)) (c @ b)"
    using merkle_root_full [OF c(2), of H b] c(3) by (simp del: merkle_tree_root.simps)
  then show ?case using 3 c by (simp del: merkle_tree_root.simps)
qed (auto simp del: merkle_tree_root.simps)

lemma append_loop_length:
  assumes "length ps < n"
  shows "length (append_loop H n i ps h) = (if list_all (\<lambda>p. p \<noteq> None) ps then Suc (length ps) else length ps)
    \<and> append_loop H n i ps h \<noteq> [] \<and> (ps \<noteq> [] \<longrightarrow> last ps \<noteq> None \<longrightarrow> last (append_loop H n i ps h) \<noteq> None)
    \<and> (ps = [] \<longrightarrow> last (append_loop H n i ps h) \<noteq> None)"
  using assms by (induction H n i ps h rule: append_loop.induct) (auto split: if_splits)

definition tree_ok :: "TreeHash \<Rightarrow> nat \<Rightarrow> IncrementalMerkleTree \<Rightarrow> uint256 list \<Rightarrow> bool" where
  "tree_ok H D t xs \<longleftrightarrow> represents H t xs \<and> wfcheck D t"

lemma tree_ok_default: "0 < D \<Longrightarrow> tree_ok H D IncrementalMerkleTree_default []"
  by (simp add: tree_ok_def represents_def wfcheck_def IncrementalMerkleTree_default_def)

lemma tree_ok_parents: "tree_ok H D t xs \<Longrightarrow> length (parents t) < D"
  by (simp add: tree_ok_def wfcheck_def)

lemma tree_append_ok:
  assumes "tree_ok H l t xs" "l \<le> D" "length xs < 2 ^ l"
  shows "\<exists>t'. tree_append H D x t = Some t' \<and> tree_ok H l t' (xs @ [x])"
proof -
  have p: "length (parents t) < l" "length (parents t) < D" and rep: "represents H t xs"
    using assms by (auto simp: tree_ok_def wfcheck_def)
  have nc: "\<not> is_complete l t" "\<not> is_complete D t"
    using is_complete_iff [OF rep] p assms(2,3) power_increasing [of l D "2::nat"] by auto
  show ?thesis
  proof (cases "left_leaf t")
    case None
    then show ?thesis using assms(1) nc by (auto simp: tree_append_def tree_ok_def represents_def wfcheck_def split: option.splits)
  next
    case (Some a)
    show ?thesis
    proof (cases "right_leaf t")
      case None
      then show ?thesis using assms(1) Some nc by (auto simp: tree_append_def tree_ok_def represents_def wfcheck_def)
    next
      case (Some b)
      let ?ps = "append_loop H D 0 (parents t) (combine H a b 0)"
      obtain zs where zs: "xs = zs @ [a, b]" "collapsed H 1 (parents t) zs"
        using rep Some \<open>left_leaf t = Some a\<close> by (auto simp: represents_def)
      have "collapsed H 1 ?ps (zs @ [a, b])"
        using append_loop_spec [of H 0 "parents t" zs "[a, b]" D] zs(2) p by simp
      moreover have "length ?ps < l" "?ps \<noteq> [] \<longrightarrow> last ?ps \<noteq> None"
        using append_loop_length [OF p(2), of H 0 "combine H a b 0"] nc(1) p(1) Some \<open>left_leaf t = Some a\<close> assms(1)
        by (auto simp: is_complete_def tree_ok_def wfcheck_def split: if_splits)
      ultimately show ?thesis
        using nc(2) Some \<open>left_leaf t = Some a\<close> zs(1)
        by (auto simp: tree_append_def tree_ok_def represents_def wfcheck_def)
    qed
  qed
qed

lemma tree_append_full:
  assumes "tree_ok H D t xs"
  shows "tree_append H D x t = None \<longleftrightarrow> length xs = 2 ^ D"
proof -
  have "represents H t xs" "length (parents t) < D" using assms by (auto simp: tree_ok_def wfcheck_def)
  then show ?thesis
    using is_complete_iff [of H t xs D] by (auto simp: tree_append_def split: option.splits prod.splits)
qed

text \<open>Appending one commitment after the other, as the loops over the outputs of a transaction do.\<close>

fun append_all :: "TreeHash \<Rightarrow> nat \<Rightarrow> uint256 list \<Rightarrow> IncrementalMerkleTree \<Rightarrow> IncrementalMerkleTree option" where
  "append_all H Depth [] t = Some t"
| "append_all H Depth (x # xs) t = do { t \<leftarrow> tree_append H Depth x t; append_all H Depth xs t }"

fun wit_append_all :: "TreeHash \<Rightarrow> nat \<Rightarrow> uint256 list \<Rightarrow> IncrementalWitness \<Rightarrow> IncrementalWitness option" where
  "wit_append_all H Depth [] w = Some w"
| "wit_append_all H Depth (x # xs) w = do { w \<leftarrow> wit_append H Depth x w; wit_append_all H Depth xs w }"

lemma append_all_append:
  "append_all H D (xs @ ys) t = do { t \<leftarrow> append_all H D xs t; append_all H D ys t }"
  by (induction xs arbitrary: t) (auto split: bind_splits)

lemma append_all_ok:
  assumes "tree_ok H D t xs" "length xs + length ys \<le> 2 ^ D"
  shows "\<exists>t'. append_all H D ys t = Some t' \<and> tree_ok H D t' (xs @ ys)"
  using assms
proof (induction ys arbitrary: t xs)
  case (Cons y ys)
  obtain t' where t': "tree_append H D y t = Some t'" "tree_ok H D t' (xs @ [y])"
    using tree_append_ok [OF Cons.prems(1) order_refl, of y] Cons.prems(2) by auto
  then show ?case using Cons.IH [OF t'(2)] Cons.prems(2) by simp
qed simp

lemma append_all_full:
  assumes "tree_ok H D t xs" "2 ^ D < length xs + length ys" "length xs \<le> 2 ^ D"
  shows "append_all H D ys t = None"
  using assms
proof (induction ys arbitrary: t xs)
  case (Cons y ys)
  show ?case
  proof (cases "length xs = 2 ^ D")
    case True
    then show ?thesis using tree_append_full [OF Cons.prems(1), of y] by simp
  next
    case False
    then obtain t' where t': "tree_append H D y t = Some t'" "tree_ok H D t' (xs @ [y])"
      using tree_append_ok [OF Cons.prems(1) order_refl, of y] Cons.prems(3) by auto
    then show ?thesis using Cons.IH [OF t'(2)] Cons.prems False by simp
  qed
qed simp

lemma root_tree_ok: "empty_roots_ok H D \<Longrightarrow> tree_ok H D t xs \<Longrightarrow> tree_root H D t = merkle_tree_root H D xs"
  using root_represents by (simp add: tree_ok_def wfcheck_def tree_root_def)

section \<open>Witnesses follow the tree\<close>

fun fills :: "TreeHash \<Rightarrow> nat list \<Rightarrow> uint256 list \<Rightarrow> uint256 list \<Rightarrow> bool" where
  "fills H ls [] us \<longleftrightarrow> us = []"
| "fills H [] (f # fs) us \<longleftrightarrow> False"
| "fills H (l # ls) (f # fs) us \<longleftrightarrow>
     2 ^ l \<le> length us \<and> f = merkle_tree_root H l (take (2 ^ l) us) \<and> fills H ls fs (drop (2 ^ l) us)"

lemma fills_length: "fills H ls fs us \<Longrightarrow> length fs \<le> length ls \<and> length us = (\<Sum>l\<leftarrow>take (length fs) ls. 2 ^ l)"
  by (induction H ls fs us rule: fills.induct) auto

lemma fills_snoc:
  assumes "fills H ls fs us" "length fs < length ls" "length b = 2 ^ (ls ! length fs)"
  shows "fills H ls (fs @ [merkle_tree_root H (ls ! length fs) b]) (us @ b)"
  using assms
proof (induction H ls fs us rule: fills.induct)
  case (1 H ls us)
  then show ?case by (cases ls) auto
qed (auto simp del: merkle_tree_root.simps)

lemma fills_feeds:
  assumes "fills H ls fs us" "length fs < length ls" "length b \<le> 2 ^ (ls ! length fs)"
  shows "feeds H ls (fs @ [merkle_tree_root H (ls ! length fs) b]) (us @ b)"
  using assms
proof (induction H ls fs us rule: fills.induct)
  case (1 H ls us)
  then show ?case by (cases ls) auto
qed (auto simp del: merkle_tree_root.simps)

lemma fills_feeds_full: "fills H ls fs us \<Longrightarrow> feeds H ls fs us"
  by (induction H ls fs us rule: fills.induct) auto

lemma next_depth_loop_holes:
  "d + length ps \<le> D \<Longrightarrow>
    next_depth_loop k d ps = (if k < length (holes d ps D) then holes d ps D ! k else D + (k - length (holes d ps D)))"
  by (induction d ps D arbitrary: k rule: holes.induct) (auto simp: nth_Cons' split: if_splits)

lemma next_depth_holes:
  assumes "left_leaf t \<noteq> None" "length (parents t) < D"
  shows "next_depth k t = (if k < length (tree_holes t D) then tree_holes t D ! k else D + (k - length (tree_holes t D)))"
  using assms next_depth_loop_holes [of 1 "parents t" D]
  by (auto simp: next_depth_def tree_holes_def Let_def nth_Cons')

lemma tree_holes_less: "length (parents t) < D \<Longrightarrow> l \<in> set (tree_holes t D) \<Longrightarrow> l < D"
proof -
  have "d + length ps \<le> D \<Longrightarrow> l \<in> set (holes d ps D) \<Longrightarrow> l < D" for d ps
    by (induction d ps D rule: holes.induct) auto
  from this [of 1 "parents t"] show "length (parents t) < D \<Longrightarrow> l \<in> set (tree_holes t D) \<Longrightarrow> l < D"
    by (auto simp: tree_holes_def split: if_splits)
qed

text \<open>The witness of the last of the leaves \<open>xs\<close>, after the leaves \<open>us\<close> were appended.\<close>

definition witness_ok :: "TreeHash \<Rightarrow> nat \<Rightarrow> IncrementalWitness \<Rightarrow> uint256 list \<Rightarrow> uint256 list \<Rightarrow> bool" where
  "witness_ok H D w xs us \<longleftrightarrow> tree_ok H D (wit_tree w) xs \<and> xs \<noteq> [] \<and>
     (let ls = tree_holes (wit_tree w) D in case cursor w of
        None \<Rightarrow> fills H ls (filled w) us
      | Some c \<Rightarrow> \<exists>vs rest. us = vs @ rest \<and> fills H ls (filled w) vs \<and> length (filled w) < length ls
          \<and> cursor_depth w = ls ! length (filled w) \<and> tree_ok H (cursor_depth w) c rest \<and> length rest < 2 ^ cursor_depth w)"

lemma witness_ok_cursor:
  assumes "tree_ok H D (wit_tree w) xs" "xs \<noteq> []" "cursor w = Some c" "us = vs @ rest"
    "fills H (tree_holes (wit_tree w) D) (filled w) vs" "length (filled w) < length (tree_holes (wit_tree w) D)"
    "cursor_depth w = tree_holes (wit_tree w) D ! length (filled w)" "tree_ok H (cursor_depth w) c rest"
    "length rest < 2 ^ cursor_depth w"
  shows "witness_ok H D w xs us"
  using assms by (auto simp: witness_ok_def Let_def)

lemma partial_path_feeds:
  assumes "empty_roots_ok H D" "witness_ok H D w xs us"
  shows "feeds H (tree_holes (wit_tree w) D) (partial_path H w) us"
proof (cases "cursor w")
  case None
  then show ?thesis using assms(2) by (simp add: witness_ok_def partial_path_def fills_feeds_full)
next
  case (Some c)
  let ?ls = "tree_holes (wit_tree w) D"
  obtain vs rest where c: "us = vs @ rest" "fills H ?ls (filled w) vs" "length (filled w) < length ?ls"
    "cursor_depth w = ?ls ! length (filled w)" "tree_ok H (cursor_depth w) c rest" "length rest < 2 ^ cursor_depth w"
    using assms(2) Some by (auto simp: witness_ok_def Let_def)
  have "cursor_depth w < D"
    using tree_holes_less [of "wit_tree w" D] assms(2) c(3,4) tree_ok_parents by (auto simp: witness_ok_def)
  then have "empty_roots_ok H (cursor_depth w)" using assms(1) by (simp add: empty_roots_ok_def)
  then have "root_depth H (cursor_depth w) [] c = merkle_tree_root H (cursor_depth w) rest"
    using root_tree_ok c(5) by (simp add: tree_root_def)
  then show ?thesis
    using fills_feeds [OF c(2,3), of rest] c Some by (simp add: partial_path_def)
qed

lemma wit_root_ok:
  assumes "empty_roots_ok H D" "witness_ok H D w xs us"
  shows "wit_root H D w = merkle_tree_root H D (xs @ us)"
  using root_depth_represents [OF assms(1) _ _ partial_path_feeds [OF assms]] assms(2)
  by (auto simp: wit_root_def witness_ok_def tree_ok_def wfcheck_def)

lemma wit_append_cursor:
  assumes "empty_roots_ok H D" "witness_ok H D w xs us" "cursor w = Some c"
  shows "\<exists>w'. wit_append H D x w = Some w' \<and> witness_ok H D w' xs (us @ [x]) \<and> wit_tree w' = wit_tree w"
proof -
  let ?ls = "tree_holes (wit_tree w) D" and ?l = "cursor_depth w"
  obtain vs rest where c: "us = vs @ rest" "fills H ?ls (filled w) vs" "length (filled w) < length ?ls"
    "?l = ?ls ! length (filled w)" "tree_ok H ?l c rest" "length rest < 2 ^ ?l"
    using assms(2,3) by (auto simp: witness_ok_def Let_def)
  have l: "?l < D"
    using tree_holes_less [of "wit_tree w" D] assms(2) c(3,4) tree_ok_parents by (auto simp: witness_ok_def)
  then obtain c' where c': "tree_append H D x c = Some c'" "tree_ok H ?l c' (rest @ [x])"
    using tree_append_ok [OF c(5) _ c(6), of D x] by auto
  have full: "is_complete ?l c' \<longleftrightarrow> length (rest @ [x]) = 2 ^ ?l"
    using is_complete_iff [of H c' "rest @ [x]"] c'(2) tree_ok_parents [OF c'(2)] by (simp add: tree_ok_def)
  have "empty_roots_ok H ?l" using assms(1) l by (simp add: empty_roots_ok_def)
  then have r: "root_depth H ?l [] c' = merkle_tree_root H ?l (rest @ [x])"
    using root_tree_ok c'(2) by (simp add: tree_root_def)
  show ?thesis
  proof (cases "is_complete ?l c'")
    case True
    then show ?thesis
      using fills_snoc [OF c(2,3), of "rest @ [x]"] full c(1,4) c'(1) r assms(2,3)
      by (simp add: wit_append_def witness_ok_def)
  next
    case False
    then have "length (rest @ [x]) < 2 ^ ?l" using full c(6) by simp
    then show ?thesis
      using False c c' assms(2,3)
      by (auto simp: wit_append_def witness_ok_def [of H D w]
          intro!: witness_ok_cursor [where c = c' and vs = vs and rest = "rest @ [x]"])
  qed
qed

lemma wit_append_none:
  assumes "witness_ok H D w xs us" "cursor w = None" "length xs + length us < 2 ^ D"
  shows "\<exists>w'. wit_append H D x w = Some w' \<and> witness_ok H D w' xs (us @ [x]) \<and> wit_tree w' = wit_tree w"
proof -
  let ?ls = "tree_holes (wit_tree w) D" and ?k = "length (filled w)"
  have f: "fills H ?ls (filled w) us" and t: "tree_ok H D (wit_tree w) xs" "xs \<noteq> []"
    using assms(1,2) by (simp_all add: witness_ok_def)
  have p: "length (parents (wit_tree w)) < D" using t(1) tree_ok_parents by blast
  have "length xs + (\<Sum>l\<leftarrow>?ls. 2 ^ l) = 2 ^ D"
    using represents_room [of H, OF _ t(2) p] t(1) by (simp add: tree_ok_def)
  then have k: "?k < length ?ls" using fills_length [OF f] assms(3) by (cases "?k < length ?ls") auto
  have left: "left_leaf (wit_tree w) \<noteq> None" using t by (auto simp: tree_ok_def represents_def split: option.splits)
  have d: "next_depth ?k (wit_tree w) = ?ls ! ?k" "?ls ! ?k < D"
    using next_depth_holes [OF left p, of ?k] k tree_holes_less [OF p, of "?ls ! ?k"] by auto
  show ?thesis
  proof (cases "?ls ! ?k = 0")
    case True
    then show ?thesis
      using fills_snoc [OF f k, of "[x]"] d t assms(2) by (simp add: wit_append_def witness_ok_def)
  next
    case False
    then obtain c where c: "tree_append H D x IncrementalMerkleTree_default = Some c" "tree_ok H (?ls ! ?k) c [x]"
      using tree_append_ok [OF tree_ok_default, of "?ls ! ?k" D H x] d(2) by auto
    have "length [x] < 2 ^ (?ls ! ?k)" using False one_less_power [of "2::nat" "?ls ! ?k"] by simp
    then show ?thesis
      using False c d f k t assms(2)
      by (auto simp: wit_append_def Let_def intro!: witness_ok_cursor [where c = c and vs = us and rest = "[x]"])
  qed
qed

lemma wit_append_all_ok:
  assumes "empty_roots_ok H D" "witness_ok H D w xs us" "length xs + length us + length ys \<le> 2 ^ D"
  shows "\<exists>w'. wit_append_all H D ys w = Some w' \<and> witness_ok H D w' xs (us @ ys) \<and> wit_tree w' = wit_tree w"
  using assms(2,3)
proof (induction ys arbitrary: w us)
  case (Cons y ys)
  obtain w' where w': "wit_append H D y w = Some w'" "witness_ok H D w' xs (us @ [y])" "wit_tree w' = wit_tree w"
    using wit_append_cursor [OF assms(1) Cons.prems(1)] wit_append_none [OF Cons.prems(1)] Cons.prems(2)
    by (cases "cursor w") auto
  then show ?case using Cons.IH [OF w'(2)] Cons.prems(2) by auto
qed simp

section \<open>Authentication paths\<close>

text \<open>Hashing from a leaf up along a path, and the position the index bits spell.\<close>

fun climb :: "TreeHash \<Rightarrow> nat \<Rightarrow> (bool \<times> uint256) list \<Rightarrow> uint256 \<Rightarrow> uint256" where
  "climb H d [] r = r"
| "climb H d ((b, h) # p) r = climb H (Suc d) p (if b then combine H h r d else combine H r h d)"

fun spelled :: "bool list \<Rightarrow> nat" where
  "spelled [] = 0"
| "spelled (b # bs) = of_bool b + 2 * spelled bs"

lemma climb_append: "climb H d (p @ q) r = climb H (d + length p) q (climb H d p r)"
  by (induction H d p r rule: climb.induct) auto

lemma spelled_append: "spelled (p @ q) = spelled p + 2 ^ length p * spelled q"
  by (induction p) auto

lemma spelled_False: "spelled (replicate n False) = 0"
  by (induction n) simp_all

lemma path_fold:
  assumes "length p0 = d"
  shows "\<exists>p q'. fold (path_step H) ps (p0, d, q) = (p0 @ p, d + length ps, q') \<and> length p = length ps
    \<and> map fst p = map (\<lambda>x. x \<noteq> None) ps
    \<and> (\<forall>r. fold (root_step H) ps (r, d, q) = (climb H d p r, d + length ps, q'))"
  using assms
proof (induction ps arbitrary: p0 d q)
  case (Cons x ps)
  obtain y q1 where y: "path_step H x (p0, d, q) = (p0 @ [(x \<noteq> None, y)], Suc d, q1)"
    "\<And>r. root_step H x (r, d, q) = (if x \<noteq> None then combine H y r d else combine H r y d, Suc d, q1)"
    by (cases x; cases q) (auto simp: path_step_def root_step_def filler_next_def)
  have "length (p0 @ [(x \<noteq> None, y)]) = Suc d" using Cons.prems by simp
  from Cons.IH [OF this, of q1] obtain p q' where p: "fold (path_step H) ps (p0 @ [(x \<noteq> None, y)], Suc d, q1)
        = ((p0 @ [(x \<noteq> None, y)]) @ p, Suc d + length ps, q')" "length p = length ps" "map fst p = map (\<lambda>x. x \<noteq> None) ps"
    "\<And>r. fold (root_step H) ps (r, Suc d, q1) = (climb H (Suc d) p r, Suc d + length ps, q')"
    by blast
  show ?case
    by (rule exI [of _ "(x \<noteq> None, y) # p"], rule exI [of _ q']) (simp add: y p del: not_None_eq)
qed simp

lemma path_fill:
  "\<exists>p q'. fold (\<lambda>d (path, filler). let (h, filler) = filler_next H d filler in (path @ [(False, h)], filler))
        [d..<d + n] (p0, q) = (p0 @ p, q') \<and> length p = n \<and> map fst p = replicate n False
    \<and> (\<forall>r. root_fill H n (r, d, q) = climb H d p r)"
proof (induction n arbitrary: d p0 q)
  case (Suc n)
  obtain h q1 where h: "filler_next H d q = (h, q1)" by fastforce
  obtain p q' where p: "fold (\<lambda>d (path, filler). let (h, filler) = filler_next H d filler in (path @ [(False, h)], filler))
        [Suc d..<Suc d + n] (p0 @ [(False, h)], q1) = ((p0 @ [(False, h)]) @ p, q')" "length p = n"
    "map fst p = replicate n False" "\<And>r. root_fill H n (r, Suc d, q1) = climb H (Suc d) p r"
    using Suc.IH [of "Suc d" "p0 @ [(False, h)]" q1] by blast
  have u: "[d..<d + Suc n] = d # [Suc d..<Suc d + n]" by (simp add: upt_conv_Cons)
  show ?case
    unfolding u using p by (intro exI [of _ "(False, h) # p"] exI [of _ q']) (simp add: h)
qed simp

lemma path_up_spec:
  assumes "left_leaf t = Some l" "length (parents t) < D"
  shows "\<exists>p. path_up H D q t = Some p \<and> length p = D
    \<and> map fst p = (right_leaf t \<noteq> None) # map (\<lambda>x. x \<noteq> None) (parents t) @ replicate (D - Suc (length (parents t))) False
    \<and> climb H 0 p (the (tree_last t)) = root_depth H D q t"
proof -
  let ?n = "length (parents t)" and ?b = "right_leaf t \<noteq> None"
  obtain s q0 where s: "(if ?b then (l, q) else filler_next H 0 q) = (s, q0)" by fastforce
  have init: "(if right_leaf t \<noteq> None then ([(True, l)], q) else let (h, filler) = filler_next H 0 q in ([(False, h)], filler))
      = ([(?b, s)], q0)"
    using s by (cases "right_leaf t") auto
  have leaf: "climb H 0 [(?b, s)] (the (tree_last t))
      = combine H (if ?b then l else the (tree_last t)) (if ?b then the (tree_last t) else s) 0"
    using s by (auto split: if_splits)
  obtain p1 q1 where p1: "fold (path_step H) (parents t) ([(?b, s)], 1, q0) = ([(?b, s)] @ p1, 1 + ?n, q1)" "length p1 = ?n"
    "map fst p1 = map (\<lambda>x. x \<noteq> None) (parents t)"
    "\<And>r. fold (root_step H) (parents t) (r, 1, q0) = (climb H 1 p1 r, 1 + ?n, q1)"
    using path_fold [of "[(?b, s)]" 1 H "parents t" q0] by auto
  obtain p2 q2 where p2: "fold (\<lambda>d (path, filler). let (h, filler) = filler_next H d filler in (path @ [(False, h)], filler))
      [1 + ?n..<D] ([(?b, s)] @ p1, q1) = (([(?b, s)] @ p1) @ p2, q2)" "length p2 = D - (1 + ?n)"
    "map fst p2 = replicate (D - (1 + ?n)) False" "\<And>r. root_fill H (D - (1 + ?n)) (r, 1 + ?n, q1) = climb H (1 + ?n) p2 r"
    using path_fill [of H "1 + ?n" "D - (1 + ?n)" "[(?b, s)] @ p1" q1] assms(2) by auto
  have "path_up H D q t = Some ([(?b, s)] @ p1 @ p2)"
    unfolding path_up_def using assms(1) init p1(1) p2(1) by simp
  moreover have "root_depth H D q t = climb H 0 ([(?b, s)] @ p1 @ p2) (the (tree_last t))"
    using assms(1) s p1(2,4) p2(4) by (cases "right_leaf t") (auto simp: root_depth_def tree_last_def climb_append split: if_splits)
  ultimately show ?thesis
    using p1(2,3) p2(2,3) assms(2) by (intro exI [of _ "[(?b, s)] @ p1 @ p2"]) simp
qed

lemma collapsed_length:
  "collapsed H d ps zs \<Longrightarrow> length zs = 2 ^ d * spelled (map (\<lambda>x. x \<noteq> None) ps)"
  by (induction H d ps zs rule: collapsed.induct) (auto simp: algebra_simps)

lemma index_spells_position:
  assumes "represents H t xs" "xs \<noteq> []"
  shows "spelled ((right_leaf t \<noteq> None) # map (\<lambda>x. x \<noteq> None) (parents t)) = length xs - 1"
  using assms collapsed_length by (fastforce simp: represents_def split: option.splits)

section \<open>The size of a tree\<close>

lemma sint_subtree:
  assumes "i < 31"
  shows "sint (push_bit (i + 1) (1 :: 32 word)) = 2 ^ (i + 1) - (if i = 30 then 2 ^ 32 else 0)"
proof (cases "i = 30")
  case False
  then have "(2::int) ^ (i + 1) < 2 ^ 31" using assms by (intro power_strict_increasing) auto
  then have "signed_take_bit 31 ((2::int) ^ (i + 1)) = 2 ^ (i + 1)"
    by (intro signed_take_bit_int_eq_self) (auto intro: order_trans [of _ 0])
  moreover have "push_bit (i + 1) (1 :: 32 word) = word_of_int (2 ^ (i + 1))"
    by (simp add: push_bit_eq_mult)
  ultimately show ?thesis using False by (simp only: signed_of_int) simp
qed simp

lemma subtree_size:
  assumes "i < 31"
  shows "(signed (push_bit (i + 1) (1 :: 32 word)) :: u64) = of_nat (2 ^ (i + 1)) - (if i = 30 then 2 ^ 32 else 0)"
proof -
  have "(signed (push_bit (i + 1) (1 :: 32 word)) :: u64) = of_int (sint (push_bit (i + 1) (1 :: 32 word)))"
    by simp
  also have "\<dots> = of_nat (2 ^ (i + 1)) - (if i = 30 then 2 ^ 32 else 0)"
    unfolding sint_subtree [OF assms] by simp
  finally show ?thesis .
qed

lemma size_fold:
  assumes "n \<le> length ps" "n \<le> 31"
  shows "fold (\<lambda>i ret. if ps ! i \<noteq> None then ret + signed (push_bit (i + 1) (1 :: 32 word)) else ret) [0..<n] (ret :: u64)
    = ret + of_nat (2 * spelled (map (\<lambda>x. x \<noteq> None) (take n ps))) - (if n = 31 \<and> ps ! 30 \<noteq> None then 2 ^ 32 else 0)"
    (is "fold ?f _ _ = _")
  using assms
proof (induction n)
  case (Suc n)
  have t: "take (Suc n) ps = take n ps @ [ps ! n]" using Suc.prems by (simp add: take_Suc_conv_app_nth)
  have IH: "fold ?f [0..<n] ret = ret + of_nat (2 * spelled (map (\<lambda>x. x \<noteq> None) (take n ps)))"
    using Suc by simp
  have n: "n < 31" using Suc.prems by simp
  have "fold ?f [0..<Suc n] ret = ?f n (fold ?f [0..<n] ret)" by simp
  also have "\<dots> = ret + of_nat (2 * spelled (map (\<lambda>x. x \<noteq> None) (take (Suc n) ps)))
      - (if Suc n = 31 \<and> ps ! 30 \<noteq> None then 2 ^ 32 else 0)"
    unfolding IH t subtree_size [OF n] using Suc.prems by (cases "ps ! n") (auto simp: spelled_append)
  finally show ?case .
qed simp

lemma tree_size_value:
  assumes "represents H t xs" "length (parents t) < 32" "xs = [] \<longrightarrow> parents t = []" "parents t \<noteq> [] \<longrightarrow> last (parents t) \<noteq> None"
  shows "tree_size t = of_nat (length xs) - (if length (parents t) = 31 then 2 ^ 32 else 0)"
proof -
  let ?n = "length (parents t)"
  have top: "?n = 31 \<Longrightarrow> parents t ! 30 \<noteq> None" using assms(4) by (auto simp: last_conv_nth)
  have len: "length xs = of_bool (left_leaf t \<noteq> None) + of_bool (right_leaf t \<noteq> None)
      + 2 * spelled (map (\<lambda>x. x \<noteq> None) (parents t))"
    using assms(1) collapsed_length [of H 1] by (auto simp: represents_def split: option.splits)
  show ?thesis
    using size_fold [of ?n "parents t"] assms(2) top unfolding tree_size_def len by auto
qed

lemma spelled_last: "bs \<noteq> [] \<Longrightarrow> last bs \<Longrightarrow> 2 ^ (length bs - 1) \<le> spelled bs"
proof (induction bs)
  case (Cons b bs)
  show ?case
  proof (cases "bs = []")
    case False
    then have "length bs = Suc (length bs - 1)" by simp
    then have "(2::nat) ^ length bs = 2 * 2 ^ (length bs - 1)" using power_Suc [of "2::nat" "length bs - 1"] by metis
    then show ?thesis using Cons False by simp
  qed (use Cons in simp)
qed simp

lemma many_leaves_iff:
  assumes "tree_ok H 32 t xs"
  shows "length (parents t) = 31 \<longleftrightarrow> 2 ^ 31 < length xs"
proof
  assume p: "length (parents t) = 31"
  then have "parents t \<noteq> []" "last (parents t) \<noteq> None" "xs \<noteq> []"
    using assms by (auto simp: tree_ok_def wfcheck_def represents_def split: option.splits)
  then have "2 ^ 30 \<le> spelled (map (\<lambda>x. x \<noteq> None) (parents t))"
    using spelled_last [of "map (\<lambda>x. x \<noteq> None) (parents t)"] p by (simp add: last_map)
  then show "2 ^ 31 < length xs"
    using index_spells_position [of H t xs] assms \<open>xs \<noteq> []\<close> by (simp add: tree_ok_def)
next
  assume "2 ^ 31 < length xs"
  then have "\<not> length (parents t) < 31" using represents_le [of H t xs 31] assms by (auto simp: tree_ok_def)
  then show "length (parents t) = 31" using tree_ok_parents [OF assms] by simp
qed

lemma tree_round_trip:
  assumes "wfcheck D t" "list_all (pred_option (\<lambda>h. length h = 32)) (left_leaf t # right_leaf t # parents t)" "D \<le> 2 ^ 24"
  shows "\<exists>s. ser_tree D t = Some s \<and> unser_tree D (s @ rest) = Some (t, rest)"
proof -
  have opt: "unser_optional unser_uint256 (ser_optional ser_uint256 v @ r) = Some (v, r)"
    if "pred_option (\<lambda>h. length h = 32) v" for v r
    using that by (cases v) (auto simp: unser_optional_def ser_optional_def wire_simps unser_uint256_def ser_uint256_def read_bytes_def)
  have list: "read_list (unser_optional unser_uint256) (length vs) (concat (map (ser_optional ser_uint256) vs) @ r) = Some (vs, r)"
    if "list_all (pred_option (\<lambda>h. length h = 32)) vs" for vs r
    using that by (induction vs) (simp_all add: opt)
  have "length (parents t) \<le> MAX_SIZE" using assms(1,3) by (simp add: wfcheck_def MAX_SIZE_def)
  moreover have "wfcheck D \<lparr>left_leaf = left_leaf t, right_leaf = right_leaf t, parents = parents t\<rparr>"
    using assms(1) by (simp add: wfcheck_def)
  ultimately show ?thesis
    using assms list [of "parents t"] compact.dec_enc [of True "length (parents t)"]
    by (simp add: ser_tree_def unser_tree_def opt ser_vector_def unser_vector_def compact_ok_def Let_def)
qed

section \<open>Claims\<close>

text \<open>
  C10. The incremental tree is the complete Merkle tree: when the table of empty roots is the one of the hash,
  appending any number of commitments up to \<open>2 ^ Depth\<close> succeeds and keeps the well-formedness check of the
  serialised form, the root is the root of the complete tree of that depth over these leaves and padding, and
  appending more fails with the error for a full tree instead of losing leaves.
\<close>

theorem incremental_tree_is_merkle_tree:
  assumes "0 < D" "empty_roots_ok H D"
  shows "case append_all H D xs IncrementalMerkleTree_default of
      Some t \<Rightarrow> length xs \<le> 2 ^ D \<and> wfcheck D t \<and> tree_root H D t = merkle_tree_root H D xs
    | None \<Rightarrow> 2 ^ D < length xs"
proof (cases "length xs \<le> 2 ^ D")
  case True
  then obtain t where "append_all H D xs IncrementalMerkleTree_default = Some t" "tree_ok H D t xs"
    using append_all_ok [OF tree_ok_default [OF assms(1)], of xs] by auto
  then show ?thesis using True root_tree_ok [OF assms(2)] by (simp add: tree_ok_def)
next
  case False
  then show ?thesis using append_all_full [OF tree_ok_default [OF assms(1)], of xs H] by simp
qed

text \<open>A hash for the examples, and the table of empty roots that belongs to it.\<close>

definition example_combine :: "uint256 \<Rightarrow> uint256 \<Rightarrow> nat \<Rightarrow> uint256" where
  "example_combine a b depth = map2 (\<lambda>x y. x + 3 * y + of_nat depth + 1) a b"

primrec example_empty_root :: "nat \<Rightarrow> uint256" where
  "example_empty_root 0 = replicate 32 1"
| "example_empty_root (Suc d) = example_combine (example_empty_root d) (example_empty_root d) d"

definition example_hash :: TreeHash where
  "example_hash = \<lparr>combine = example_combine, EmptyRoot = example_empty_root\<rparr>"

definition example_leaf :: "u8 \<Rightarrow> uint256" where
  "example_leaf n = replicate 32 n"

lemma example_hash_ok: "empty_roots_ok example_hash D"
  by (simp add: empty_roots_ok_def example_hash_def)

theorem incremental_tree_is_merkle_tree_witness:
  "empty_roots_ok example_hash 2
   \<and> (\<exists>t. append_all example_hash 2 (map example_leaf [5, 6, 7]) IncrementalMerkleTree_default = Some t
        \<and> tree_root example_hash 2 t = merkle_tree_root example_hash 2 (map example_leaf [5, 6, 7]))"
  using incremental_tree_is_merkle_tree [OF _ example_hash_ok, of 2 "map example_leaf [5, 6, 7]"] example_hash_ok
  by (auto split: option.splits)

text \<open>
  C34. A witness keeps authenticating its leaf: taken when the last leaf of \<open>xs\<close> was added and updated with
  every later leaf \<open>ys\<close>, it has the element and the root of the whole tree, and it yields a path of \<open>Depth\<close>
  siblings that hashes from the element up to this root, with index bits that spell the position of the leaf.
\<close>

theorem witness_authenticates_leaf:
  assumes "0 < D" "empty_roots_ok H D" "xs \<noteq> []" "length xs + length ys \<le> 2 ^ D"
  shows "\<exists>t w p. append_all H D xs IncrementalMerkleTree_default = Some t
    \<and> wit_append_all H D ys (witness t) = Some w
    \<and> wit_root H D w = merkle_tree_root H D (xs @ ys) \<and> wit_element w = Some (last xs)
    \<and> wit_path H D w = Some \<lparr>authentication_path = rev (map (\<lambda>(_, b). convertBytesVectorToVector b) p), path_index = rev (map fst p)\<rparr>
    \<and> length p = D \<and> climb H 0 p (last xs) = merkle_tree_root H D (xs @ ys) \<and> spelled (map fst p) = length xs - 1"
proof -
  obtain t where t: "append_all H D xs IncrementalMerkleTree_default = Some t" "tree_ok H D t xs"
    using append_all_ok [OF tree_ok_default [OF assms(1)], of xs] assms(4) by auto
  have "witness_ok H D (witness t) xs []" using t(2) assms(3) by (simp add: witness_ok_def witness_def)
  then obtain w where w: "wit_append_all H D ys (witness t) = Some w" "witness_ok H D w xs ys" "wit_tree w = t"
    using wit_append_all_ok [OF assms(2), of "witness t" xs "[]" ys] assms(4) by (auto simp: witness_def)
  have rep: "represents H t xs" "length (parents t) < D" using t(2) tree_ok_parents by (auto simp: tree_ok_def)
  obtain l where l: "left_leaf t = Some l" "tree_last t = Some (last xs)"
    using rep(1) assms(3) by (auto simp: represents_def tree_last_def split: option.splits)
  obtain p where p: "path_up H D (partial_path H w) t = Some p" "length p = D"
    "map fst p = (right_leaf t \<noteq> None) # map (\<lambda>x. x \<noteq> None) (parents t) @ replicate (D - Suc (length (parents t))) False"
    "climb H 0 p (last xs) = root_depth H D (partial_path H w) t"
    using path_up_spec [OF l(1) rep(2), of H "partial_path H w"] l(2) by auto
  have "spelled (map fst p) = length xs - 1"
    using index_spells_position [OF rep(1) assms(3)] spelled_append [of "(right_leaf t \<noteq> None) # map (\<lambda>x. x \<noteq> None) (parents t)"]
    by (simp add: p(3) spelled_False)
  then show ?thesis
    using t(1) w wit_root_ok [OF assms(2) w(2)] l p
    by (auto simp: wit_path_def tree_path_def wit_element_def wit_root_def)
qed

theorem witness_authenticates_leaf_witness:
  "\<exists>t w. append_all example_hash 2 (map example_leaf [5]) IncrementalMerkleTree_default = Some t
    \<and> wit_append_all example_hash 2 (map example_leaf [6, 7]) (witness t) = Some w
    \<and> wit_root example_hash 2 w = merkle_tree_root example_hash 2 (map example_leaf [5, 6, 7])"
  using witness_authenticates_leaf [OF _ example_hash_ok, of 2 "map example_leaf [5]" "map example_leaf [6, 7]"] by auto

text \<open>
  The size of the Sapling tree is counted with 32-bit subtree sizes: it is the number of leaves up to
  \<open>2 ^ 31\<close>, and with more leaves it is off by \<open>2 ^ 32\<close> modulo \<open>2 ^ 64\<close>, because the size of the largest
  subtree overflows a signed int and is sign-extended.
\<close>

theorem tree_size_overflows:
  assumes "length xs \<le> 2 ^ SAPLING_INCREMENTAL_MERKLE_TREE_DEPTH"
  shows "\<exists>t. append_all H SAPLING_INCREMENTAL_MERKLE_TREE_DEPTH xs IncrementalMerkleTree_default = Some t
    \<and> tree_size t = of_nat (length xs) - (if 2 ^ 31 < length xs then 2 ^ 32 else 0)"
proof -
  let ?D = SAPLING_INCREMENTAL_MERKLE_TREE_DEPTH
  have D: "?D = 32" by (simp add: SAPLING_INCREMENTAL_MERKLE_TREE_DEPTH_def)
  obtain t where t: "append_all H ?D xs IncrementalMerkleTree_default = Some t" "tree_ok H 32 t xs"
    using append_all_ok [OF tree_ok_default [of 32 H], of xs] assms D by auto
  have "tree_size t = of_nat (length xs) - (if length (parents t) = 31 then 2 ^ 32 else 0)"
    by (rule tree_size_value) (use t(2) in \<open>auto simp: tree_ok_def wfcheck_def represents_def split: option.splits\<close>)
  then show ?thesis using t(1) many_leaves_iff [OF t(2)] by simp
qed

theorem tree_size_overflows_witness:
  "\<exists>t. append_all example_hash SAPLING_INCREMENTAL_MERKLE_TREE_DEPTH [example_leaf 1, example_leaf 2]
         IncrementalMerkleTree_default = Some t \<and> tree_size t = 2"
  using tree_size_overflows [of "[example_leaf 1, example_leaf 2]" example_hash]
  by (simp add: SAPLING_INCREMENTAL_MERKLE_TREE_DEPTH_def)

end
