(* ===== verification/Script.thy ===== *)
theory Script
  imports Transactions
begin

text \<open>
Scripts as byte strings (\<^verbatim>\<open>script/script.h\<close>, \<^verbatim>\<open>script/script.cpp\<close>): opcodes, script numbers, reading
  and writing instructions, the templates and the counting of signature operations. The lemmas show that script
  numbers have one minimal encoding, that trimming keeps the number, and that pushed data is read back.
\<close>

unbundle bit_operations_syntax

section \<open>Opcodes\<close>

text \<open>The enumeration \<open>opcodetype\<close>; an opcode is the byte that stands for it in a script.\<close>

abbreviation (input) OP_0 :: u8 where "OP_0 \<equiv> 0x00"
abbreviation (input) OP_FALSE :: u8 where "OP_FALSE \<equiv> OP_0"
abbreviation (input) OP_PUSHDATA1 :: u8 where "OP_PUSHDATA1 \<equiv> 0x4c"
abbreviation (input) OP_PUSHDATA2 :: u8 where "OP_PUSHDATA2 \<equiv> 0x4d"
abbreviation (input) OP_PUSHDATA4 :: u8 where "OP_PUSHDATA4 \<equiv> 0x4e"
abbreviation (input) OP_1NEGATE :: u8 where "OP_1NEGATE \<equiv> 0x4f"
abbreviation (input) OP_RESERVED :: u8 where "OP_RESERVED \<equiv> 0x50"
abbreviation (input) OP_1 :: u8 where "OP_1 \<equiv> 0x51"
abbreviation (input) OP_TRUE :: u8 where "OP_TRUE \<equiv> OP_1"
abbreviation (input) OP_2 :: u8 where "OP_2 \<equiv> 0x52"
abbreviation (input) OP_3 :: u8 where "OP_3 \<equiv> 0x53"
abbreviation (input) OP_4 :: u8 where "OP_4 \<equiv> 0x54"
abbreviation (input) OP_5 :: u8 where "OP_5 \<equiv> 0x55"
abbreviation (input) OP_6 :: u8 where "OP_6 \<equiv> 0x56"
abbreviation (input) OP_7 :: u8 where "OP_7 \<equiv> 0x57"
abbreviation (input) OP_8 :: u8 where "OP_8 \<equiv> 0x58"
abbreviation (input) OP_9 :: u8 where "OP_9 \<equiv> 0x59"
abbreviation (input) OP_10 :: u8 where "OP_10 \<equiv> 0x5a"
abbreviation (input) OP_11 :: u8 where "OP_11 \<equiv> 0x5b"
abbreviation (input) OP_12 :: u8 where "OP_12 \<equiv> 0x5c"
abbreviation (input) OP_13 :: u8 where "OP_13 \<equiv> 0x5d"
abbreviation (input) OP_14 :: u8 where "OP_14 \<equiv> 0x5e"
abbreviation (input) OP_15 :: u8 where "OP_15 \<equiv> 0x5f"
abbreviation (input) OP_16 :: u8 where "OP_16 \<equiv> 0x60"
abbreviation (input) OP_NOP :: u8 where "OP_NOP \<equiv> 0x61"
abbreviation (input) OP_VER :: u8 where "OP_VER \<equiv> 0x62"
abbreviation (input) OP_IF :: u8 where "OP_IF \<equiv> 0x63"
abbreviation (input) OP_NOTIF :: u8 where "OP_NOTIF \<equiv> 0x64"
abbreviation (input) OP_VERIF :: u8 where "OP_VERIF \<equiv> 0x65"
abbreviation (input) OP_VERNOTIF :: u8 where "OP_VERNOTIF \<equiv> 0x66"
abbreviation (input) OP_ELSE :: u8 where "OP_ELSE \<equiv> 0x67"
abbreviation (input) OP_ENDIF :: u8 where "OP_ENDIF \<equiv> 0x68"
abbreviation (input) OP_VERIFY :: u8 where "OP_VERIFY \<equiv> 0x69"
abbreviation (input) OP_RETURN :: u8 where "OP_RETURN \<equiv> 0x6a"
abbreviation (input) OP_TOALTSTACK :: u8 where "OP_TOALTSTACK \<equiv> 0x6b"
abbreviation (input) OP_FROMALTSTACK :: u8 where "OP_FROMALTSTACK \<equiv> 0x6c"
abbreviation (input) OP_2DROP :: u8 where "OP_2DROP \<equiv> 0x6d"
abbreviation (input) OP_2DUP :: u8 where "OP_2DUP \<equiv> 0x6e"
abbreviation (input) OP_3DUP :: u8 where "OP_3DUP \<equiv> 0x6f"
abbreviation (input) OP_2OVER :: u8 where "OP_2OVER \<equiv> 0x70"
abbreviation (input) OP_2ROT :: u8 where "OP_2ROT \<equiv> 0x71"
abbreviation (input) OP_2SWAP :: u8 where "OP_2SWAP \<equiv> 0x72"
abbreviation (input) OP_IFDUP :: u8 where "OP_IFDUP \<equiv> 0x73"
abbreviation (input) OP_DEPTH :: u8 where "OP_DEPTH \<equiv> 0x74"
abbreviation (input) OP_DROP :: u8 where "OP_DROP \<equiv> 0x75"
abbreviation (input) OP_DUP :: u8 where "OP_DUP \<equiv> 0x76"
abbreviation (input) OP_NIP :: u8 where "OP_NIP \<equiv> 0x77"
abbreviation (input) OP_OVER :: u8 where "OP_OVER \<equiv> 0x78"
abbreviation (input) OP_PICK :: u8 where "OP_PICK \<equiv> 0x79"
abbreviation (input) OP_ROLL :: u8 where "OP_ROLL \<equiv> 0x7a"
abbreviation (input) OP_ROT :: u8 where "OP_ROT \<equiv> 0x7b"
abbreviation (input) OP_SWAP :: u8 where "OP_SWAP \<equiv> 0x7c"
abbreviation (input) OP_TUCK :: u8 where "OP_TUCK \<equiv> 0x7d"
abbreviation (input) OP_CAT :: u8 where "OP_CAT \<equiv> 0x7e"
abbreviation (input) OP_SPLIT :: u8 where "OP_SPLIT \<equiv> 0x7f"
abbreviation (input) OP_SIZE :: u8 where "OP_SIZE \<equiv> 0x82"
abbreviation (input) OP_NUM2BIN :: u8 where "OP_NUM2BIN \<equiv> 0x80"
abbreviation (input) OP_BIN2NUM :: u8 where "OP_BIN2NUM \<equiv> 0x81"
abbreviation (input) OP_INVERT :: u8 where "OP_INVERT \<equiv> 0x83"
abbreviation (input) OP_AND :: u8 where "OP_AND \<equiv> 0x84"
abbreviation (input) OP_OR :: u8 where "OP_OR \<equiv> 0x85"
abbreviation (input) OP_XOR :: u8 where "OP_XOR \<equiv> 0x86"
abbreviation (input) OP_EQUAL :: u8 where "OP_EQUAL \<equiv> 0x87"
abbreviation (input) OP_EQUALVERIFY :: u8 where "OP_EQUALVERIFY \<equiv> 0x88"
abbreviation (input) OP_RESERVED1 :: u8 where "OP_RESERVED1 \<equiv> 0x89"
abbreviation (input) OP_RESERVED2 :: u8 where "OP_RESERVED2 \<equiv> 0x8a"
abbreviation (input) OP_1ADD :: u8 where "OP_1ADD \<equiv> 0x8b"
abbreviation (input) OP_1SUB :: u8 where "OP_1SUB \<equiv> 0x8c"
abbreviation (input) OP_2MUL :: u8 where "OP_2MUL \<equiv> 0x8d"
abbreviation (input) OP_2DIV :: u8 where "OP_2DIV \<equiv> 0x8e"
abbreviation (input) OP_NEGATE :: u8 where "OP_NEGATE \<equiv> 0x8f"
abbreviation (input) OP_ABS :: u8 where "OP_ABS \<equiv> 0x90"
abbreviation (input) OP_NOT :: u8 where "OP_NOT \<equiv> 0x91"
abbreviation (input) OP_0NOTEQUAL :: u8 where "OP_0NOTEQUAL \<equiv> 0x92"
abbreviation (input) OP_ADD :: u8 where "OP_ADD \<equiv> 0x93"
abbreviation (input) OP_SUB :: u8 where "OP_SUB \<equiv> 0x94"
abbreviation (input) OP_MUL :: u8 where "OP_MUL \<equiv> 0x95"
abbreviation (input) OP_DIV :: u8 where "OP_DIV \<equiv> 0x96"
abbreviation (input) OP_MOD :: u8 where "OP_MOD \<equiv> 0x97"
abbreviation (input) OP_LSHIFT :: u8 where "OP_LSHIFT \<equiv> 0x98"
abbreviation (input) OP_RSHIFT :: u8 where "OP_RSHIFT \<equiv> 0x99"
abbreviation (input) OP_BOOLAND :: u8 where "OP_BOOLAND \<equiv> 0x9a"
abbreviation (input) OP_BOOLOR :: u8 where "OP_BOOLOR \<equiv> 0x9b"
abbreviation (input) OP_NUMEQUAL :: u8 where "OP_NUMEQUAL \<equiv> 0x9c"
abbreviation (input) OP_NUMEQUALVERIFY :: u8 where "OP_NUMEQUALVERIFY \<equiv> 0x9d"
abbreviation (input) OP_NUMNOTEQUAL :: u8 where "OP_NUMNOTEQUAL \<equiv> 0x9e"
abbreviation (input) OP_LESSTHAN :: u8 where "OP_LESSTHAN \<equiv> 0x9f"
abbreviation (input) OP_GREATERTHAN :: u8 where "OP_GREATERTHAN \<equiv> 0xa0"
abbreviation (input) OP_LESSTHANOREQUAL :: u8 where "OP_LESSTHANOREQUAL \<equiv> 0xa1"
abbreviation (input) OP_GREATERTHANOREQUAL :: u8 where "OP_GREATERTHANOREQUAL \<equiv> 0xa2"
abbreviation (input) OP_MIN :: u8 where "OP_MIN \<equiv> 0xa3"
abbreviation (input) OP_MAX :: u8 where "OP_MAX \<equiv> 0xa4"
abbreviation (input) OP_WITHIN :: u8 where "OP_WITHIN \<equiv> 0xa5"
abbreviation (input) OP_RIPEMD160 :: u8 where "OP_RIPEMD160 \<equiv> 0xa6"
abbreviation (input) OP_SHA1 :: u8 where "OP_SHA1 \<equiv> 0xa7"
abbreviation (input) OP_SHA256 :: u8 where "OP_SHA256 \<equiv> 0xa8"
abbreviation (input) OP_HASH160 :: u8 where "OP_HASH160 \<equiv> 0xa9"
abbreviation (input) OP_HASH256 :: u8 where "OP_HASH256 \<equiv> 0xaa"
abbreviation (input) OP_CODESEPARATOR :: u8 where "OP_CODESEPARATOR \<equiv> 0xab"
abbreviation (input) OP_CHECKSIG :: u8 where "OP_CHECKSIG \<equiv> 0xac"
abbreviation (input) OP_CHECKSIGVERIFY :: u8 where "OP_CHECKSIGVERIFY \<equiv> 0xad"
abbreviation (input) OP_CHECKMULTISIG :: u8 where "OP_CHECKMULTISIG \<equiv> 0xae"
abbreviation (input) OP_CHECKMULTISIGVERIFY :: u8 where "OP_CHECKMULTISIGVERIFY \<equiv> 0xaf"
abbreviation (input) OP_NOP1 :: u8 where "OP_NOP1 \<equiv> 0xb0"
abbreviation (input) OP_CHECKLOCKTIMEVERIFY :: u8 where "OP_CHECKLOCKTIMEVERIFY \<equiv> 0xb1"
abbreviation (input) OP_NOP2 :: u8 where "OP_NOP2 \<equiv> OP_CHECKLOCKTIMEVERIFY"
abbreviation (input) OP_CHECKSEQUENCEVERIFY :: u8 where "OP_CHECKSEQUENCEVERIFY \<equiv> 0xb2"
abbreviation (input) OP_NOP3 :: u8 where "OP_NOP3 \<equiv> OP_CHECKSEQUENCEVERIFY"
abbreviation (input) OP_NOP4 :: u8 where "OP_NOP4 \<equiv> 0xb3"
abbreviation (input) OP_NOP5 :: u8 where "OP_NOP5 \<equiv> 0xb4"
abbreviation (input) OP_NOP6 :: u8 where "OP_NOP6 \<equiv> 0xb5"
abbreviation (input) OP_NOP7 :: u8 where "OP_NOP7 \<equiv> 0xb6"
abbreviation (input) OP_NOP8 :: u8 where "OP_NOP8 \<equiv> 0xb7"
abbreviation (input) OP_NOP9 :: u8 where "OP_NOP9 \<equiv> 0xb8"
abbreviation (input) OP_NOP10 :: u8 where "OP_NOP10 \<equiv> 0xb9"
abbreviation (input) OP_CHECKDATASIG :: u8 where "OP_CHECKDATASIG \<equiv> 0xba"
abbreviation (input) OP_CHECKDATASIGVERIFY :: u8 where "OP_CHECKDATASIGVERIFY \<equiv> 0xbb"
abbreviation (input) OP_INVALIDOPCODE :: u8 where "OP_INVALIDOPCODE \<equiv> 0xff"

section \<open>Script numbers\<close>

text \<open>A \<open>CScriptNum\<close> is its 64-bit value, here the integer it stands for. None is a \<open>scriptnum_error\<close>.\<close>

definition nDefaultMaxNumSize :: nat where "nDefaultMaxNumSize = 4"

definition IsMinimallyEncoded :: "bytes \<Rightarrow> nat \<Rightarrow> bool" where
  "IsMinimallyEncoded vch nMaxNumSize =
     (if length vch > nMaxNumSize then False
      else if length vch > 0
      then if last vch AND 0x7f = 0
           then if length vch \<le> 1 \<or> vch ! (length vch - 2) AND 0x80 = 0 then False else True
           else True
      else True)"

text \<open>The loop of \<open>MinimallyEncode\<close>, with \<open>i = Suc j\<close> counting down.\<close>

fun trim_loop :: "bytes \<Rightarrow> u8 \<Rightarrow> nat \<Rightarrow> bytes" where
  "trim_loop data lst 0 = []"
| "trim_loop data lst (Suc j) =
     (if data ! j \<noteq> 0
      then if data ! j AND 0x80 \<noteq> 0 then take (j + 2) (data[Suc j := lst])
           else take (Suc j) (data[j := data ! j OR lst])
      else trim_loop data lst j)"

definition MinimallyEncode :: "bytes \<Rightarrow> bool \<times> bytes" where
  "MinimallyEncode data =
     (if length data = 0 then (False, data)
      else let lst = last data in
        if lst AND 0x7f \<noteq> 0 then (False, data)
        else if length data = 1 then (True, [])
        else if data ! (length data - 2) AND 0x80 \<noteq> 0 then (False, data)
        else (True, trim_loop data lst (length data - 1)))"

fun or_bytes :: "nat \<Rightarrow> bytes \<Rightarrow> u64" where
  "or_bytes i [] = 0"
| "or_bytes i (b # bs) = push_bit (8 * i) (ucast b) OR or_bytes (i + 1) bs"

definition set_vch :: "bytes \<Rightarrow> int" where
  "set_vch vch =
     (if vch = [] then 0
      else let result = or_bytes 0 vch
           in if last vch AND 0x80 \<noteq> 0 then - sint (result AND NOT (push_bit (8 * (length vch - 1)) 0x80))
              else sint result)"

definition CScriptNum :: "bytes \<Rightarrow> bool \<Rightarrow> nat \<Rightarrow> int option" where
  "CScriptNum vch fRequireMinimal nMaxNumSize =
     (if length vch > nMaxNumSize then None
      else if fRequireMinimal \<and> \<not> IsMinimallyEncoded vch nMaxNumSize then None
      else Some (set_vch vch))"

definition getint :: "int \<Rightarrow> int" where
  "getint m_value = (if m_value > 2 ^ 31 - 1 then 2 ^ 31 - 1 else if m_value < - (2 ^ 31) then - (2 ^ 31) else m_value)"

function abs_bytes :: "u64 \<Rightarrow> bytes" where
  "abs_bytes absvalue = (if absvalue \<noteq> 0 then ucast (absvalue AND 0xff) # abs_bytes (drop_bit 8 absvalue) else [])"
  by pat_completeness auto

termination abs_bytes
proof (relation "measure unat")
  fix absvalue :: u64
  assume "absvalue \<noteq> 0"
  then have "0 < unat absvalue" by (simp add: unat_gt_0)
  then show "(drop_bit 8 absvalue, absvalue) \<in> measure unat"
    by (simp add: unat_drop_bit_word)
qed simp

declare abs_bytes.simps [simp del]

definition serialize :: "int \<Rightarrow> bytes" where
  "serialize v =
     (if v = 0 then []
      else let neg = (v < 0);
               absvalue = (if neg then NOT (word_of_int v) + 1 else word_of_int v);
               result = abs_bytes absvalue
           in if last result AND 0x80 \<noteq> 0 then result @ [if neg then 0x80 else 0]
              else if neg then butlast result @ [last result OR 0x80]
              else result)"

section \<open>Reading and writing scripts\<close>

definition ReadLE16 :: "bytes \<Rightarrow> u16" where
  "ReadLE16 b = ucast (b ! 0) OR push_bit 8 (ucast (b ! 1))"

text \<open>
  An iterator is the rest of the script from it on. \<open>GetScriptOp\<close> returns whether it succeeded, the opcode, the data
  pushed and the iterator, which is moved also when reading fails.
\<close>

definition read_push_size :: "u8 \<Rightarrow> bytes \<Rightarrow> (nat \<times> bytes) option" where
  "read_push_size opcode pc =
     (if opcode < OP_PUSHDATA1 then Some (unat opcode, pc)
      else if opcode = OP_PUSHDATA1 then if length pc < 1 then None else Some (unat (pc ! 0), drop 1 pc)
      else if opcode = OP_PUSHDATA2 then if length pc < 2 then None else Some (unat (ReadLE16 pc), drop 2 pc)
      else if length pc < 4 then None else Some (unat (ReadLE32 pc), drop 4 pc))"

definition GetScriptOp :: "bytes \<Rightarrow> bool \<times> u8 \<times> bytes \<times> bytes" where
  "GetScriptOp pc = (case pc of
       [] \<Rightarrow> (False, OP_INVALIDOPCODE, [], [])
     | opcode # pc \<Rightarrow>
         if opcode \<le> OP_PUSHDATA4
         then (case read_push_size opcode pc of
                 None \<Rightarrow> (False, OP_INVALIDOPCODE, [], pc)
               | Some (n, pc) \<Rightarrow>
                   if length pc < n then (False, OP_INVALIDOPCODE, [], pc)
                   else (True, opcode, take n pc, drop n pc))
         else (True, opcode, [], pc))"

definition push_opcode :: "CScript \<Rightarrow> u8 \<Rightarrow> CScript" where
  "push_opcode s opcode = s @ [opcode]"

definition push_data :: "CScript \<Rightarrow> bytes \<Rightarrow> CScript" where
  "push_data s b = s @
     (if length b < unat OP_PUSHDATA1 then [of_nat (length b)]
      else if length b \<le> 0xff then [OP_PUSHDATA1, of_nat (length b)]
      else if length b \<le> 0xffff then OP_PUSHDATA2 # ser_writedata16 (of_nat (length b))
      else OP_PUSHDATA4 # WriteLE32 (of_nat (length b))) @ b"

definition push_int64 :: "CScript \<Rightarrow> int \<Rightarrow> CScript" where
  "push_int64 s n =
     (if n = -1 \<or> (n \<ge> 1 \<and> n \<le> 16) then s @ [word_of_int (n + (uint OP_1 - 1))]
      else if n = 0 then s @ [OP_0]
      else push_data s (serialize n))"

text \<open>Its assertion, that the opcode is one of \<open>OP_0\<close> and \<open>OP_1\<close> to \<open>OP_16\<close>, is the condition under which it is called.\<close>

definition DecodeOP_N :: "u8 \<Rightarrow> int" where
  "DecodeOP_N opcode = (if opcode = OP_0 then 0 else uint opcode - (uint OP_1 - 1))"

text \<open>None is the failed assertion.\<close>

definition CheckMinimalPush :: "bytes \<Rightarrow> u8 \<Rightarrow> bool option" where
  "CheckMinimalPush data opcode =
     (if \<not> (0 \<le> opcode \<and> opcode \<le> OP_PUSHDATA4) then None
      else Some (if length data = 0 then opcode = OP_0
      else if length data = 1 \<and> data ! 0 \<ge> 1 \<and> data ! 0 \<le> 16 then False
      else if length data = 1 \<and> data ! 0 = 0x81 then False
      else if length data \<le> 75 then unat opcode = length data
      else if length data \<le> 255 then opcode = OP_PUSHDATA1
      else if length data \<le> 65535 then opcode = OP_PUSHDATA2
      else True))"

lemma GetScriptOp_shorter: "GetScriptOp pc = (True, opcode, data, pc') \<Longrightarrow> length pc' < length pc"
  by (auto simp: GetScriptOp_def read_push_size_def split: list.splits if_splits option.splits)

section \<open>Script templates and signature operations\<close>

definition MAX_PUBKEYS_PER_MULTISIG :: nat where "MAX_PUBKEYS_PER_MULTISIG = 20"

function sigops_loop :: "bool \<Rightarrow> u8 \<Rightarrow> bytes \<Rightarrow> u32 \<Rightarrow> u32" where
  "sigops_loop fAccurate lastOpcode pc n =
     (if pc = [] then n
      else case GetScriptOp pc of
        (False, _) \<Rightarrow> n
      | (True, opcode, _, pc') \<Rightarrow>
          sigops_loop fAccurate opcode pc'
            (if opcode = OP_CHECKSIG \<or> opcode = OP_CHECKSIGVERIFY then n + 1
             else if opcode = OP_CHECKMULTISIG \<or> opcode = OP_CHECKMULTISIGVERIFY
             then n + (if fAccurate \<and> lastOpcode \<ge> OP_1 \<and> lastOpcode \<le> OP_16 then word_of_int (DecodeOP_N lastOpcode)
                       else of_nat MAX_PUBKEYS_PER_MULTISIG)
             else n))"
  by pat_completeness auto

termination sigops_loop
  by (relation "measure (\<lambda>(_, _, pc, _). length pc)") (auto dest: GetScriptOp_shorter [OF sym])

declare sigops_loop.simps [simp del]

definition GetSigOpCount :: "bool \<Rightarrow> CScript \<Rightarrow> u32" where
  "GetSigOpCount fAccurate script = sigops_loop fAccurate OP_INVALIDOPCODE script 0"

function last_push :: "bytes \<Rightarrow> bytes \<Rightarrow> bytes option" where
  "last_push pc vData =
     (if pc = [] then Some vData
      else case GetScriptOp pc of
        (False, _) \<Rightarrow> None
      | (True, opcode, vData, pc') \<Rightarrow> if opcode > OP_16 then None else last_push pc' vData)"
  by pat_completeness auto

termination last_push
  by (relation "measure (\<lambda>(pc, _). length pc)") (auto dest: GetScriptOp_shorter [OF sym])

declare last_push.simps [simp del]

definition IsPayToScriptHash :: "CScript \<Rightarrow> bool" where
  "IsPayToScriptHash s \<longleftrightarrow> length s = 23 \<and> s ! 0 = OP_HASH160 \<and> s ! 1 = 0x14 \<and> s ! 22 = OP_EQUAL"

definition IsPayToPublicKeyHash :: "CScript \<Rightarrow> bool" where
  "IsPayToPublicKeyHash s \<longleftrightarrow> length s = 25 \<and> s ! 0 = OP_DUP \<and> s ! 1 = OP_HASH160 \<and> s ! 2 = 0x14
     \<and> s ! 23 = OP_EQUALVERIFY \<and> s ! 24 = OP_CHECKSIG"

definition IsPayToPublicKey :: "CScript \<Rightarrow> bool" where
  "IsPayToPublicKey s \<longleftrightarrow>
     (if length s = 35 then (s ! 1 = 0x02 \<or> s ! 1 = 0x03) \<and> s ! 34 = OP_CHECKSIG
      else if length s = 67 then s ! 1 = 0x04 \<and> s ! 66 = OP_CHECKSIG
      else False)"

definition GetSigOpCount_sig :: "CScript \<Rightarrow> CScript \<Rightarrow> u32" where
  "GetSigOpCount_sig s sig =
     (if \<not> IsPayToScriptHash s then GetSigOpCount True s
      else case last_push sig [] of None \<Rightarrow> 0 | Some vData \<Rightarrow> GetSigOpCount True vData)"

definition MAX_SCRIPT_SIZE :: nat where "MAX_SCRIPT_SIZE = 10000"

definition IsUnspendable :: "CScript \<Rightarrow> bool" where
  "IsUnspendable s \<longleftrightarrow> (length s > 0 \<and> hd s = OP_RETURN) \<or> length s > MAX_SCRIPT_SIZE"

function IsPushOnly :: "bytes \<Rightarrow> bool" where
  "IsPushOnly pc =
     (if pc = [] then True
      else case GetScriptOp pc of
        (False, _) \<Rightarrow> False
      | (True, opcode, _, pc') \<Rightarrow> if opcode > OP_16 then False else IsPushOnly pc')"
  by pat_completeness auto

termination IsPushOnly
  by (relation "measure length") (auto dest: GetScriptOp_shorter [OF sym])

declare IsPushOnly.simps [simp del]

section \<open>Script numbers have one minimal encoding\<close>

fun le_val :: "bytes \<Rightarrow> nat" where
  "le_val [] = 0"
| "le_val (b # bs) = unat b + 256 * le_val bs"

lemma digit_less: "u < 256 \<Longrightarrow> v < w \<Longrightarrow> u + 256 * v < 256 * (w :: nat)"
  by linarith

lemma le_val_less: "le_val bs < 256 ^ length bs"
  by (induction bs) (auto intro: digit_less)

lemma le_val_append: "le_val (as @ bs) = le_val as + 256 ^ length as * le_val bs"
  by (induction as) (auto simp: algebra_simps)

lemma or_bytes_shift: "or_bytes (i + k) bs = push_bit (8 * k) (or_bytes i bs)"
proof (induction bs arbitrary: i)
  case (Cons b bs)
  then show ?case using Cons [of "i + 1"] by (simp add: add.commute add.left_commute distrib_left push_bit_or)
qed simp

lemma or_bytes_Cons: "or_bytes 0 (b # bs) = ucast b OR push_bit 8 (or_bytes 0 bs)"
  using or_bytes_shift [of 0 1 bs] by simp

lemma or_bytes_append: "or_bytes i (as @ bs) = or_bytes i as OR or_bytes (i + length as) bs"
  by (induction as arbitrary: i) (simp_all add: or.assoc)

lemma unat_ucast_8_64 [simp]: "unat (ucast (b :: u8) :: u64) = unat b"
  by (simp add: unsigned_ucast_eq take_bit_nat_eq_self_iff) (rule less_trans [OF unat_lt_8], simp)

lemma or_bytes_val: "length bs \<le> 8 \<Longrightarrow> unat (or_bytes 0 bs) = le_val bs"
proof (induction bs)
  case (Cons b bs)
  let ?x = "or_bytes 0 bs"
  have x: "unat ?x = le_val bs" "le_val bs < 256 ^ 7"
    using Cons le_val_less [of bs] power_increasing [of "length bs" 7 "256::nat"] by simp_all
  have "ucast b OR push_bit 8 ?x = (ucast b :: u64) + push_bit 8 ?x"
    by (subst disjunctive_add) (auto simp: bit_simps dest: bit_imp_le_length)
  moreover have "unat (push_bit 8 ?x) = 256 * le_val bs"
    using x unat_push_bit_small [of ?x 8] by simp
  moreover have "unat b + 256 * le_val bs < 2 ^ 64"
    using digit_less [OF unat_lt_8 x(2), of b] by simp
  ultimately show ?case
    by (simp only: or_bytes_Cons le_val.simps) (simp add: unat_plus_if')
qed simp

lemma bit_or_bytes: "length bs \<le> 8 \<Longrightarrow> bit (or_bytes 0 bs) n \<Longrightarrow> n < 8 * length bs"
proof (rule ccontr)
  assume "length bs \<le> 8" "bit (or_bytes 0 bs) n" "\<not> n < 8 * length bs"
  then have "bit (le_val bs) n" "256 ^ length bs \<le> (2 ^ n :: nat)"
    using or_bytes_val [of bs] power_increasing [of "8 * length bs" n "2::nat"] bit_imp_le_length [of "or_bytes 0 bs" n]
      bit_unsigned_iff [of "or_bytes 0 bs" n, where ?'a = nat]
    by (auto simp: power_mult)
  then show False using le_val_less [of bs] by (auto simp: bit_iff_odd)
qed

lemma sint_small: "unat (x :: u64) < 2 ^ 63 \<Longrightarrow> sint x = int (unat x)"
proof -
  assume "unat x < 2 ^ 63"
  then have "int (unat x) < 2 ^ 63" using of_nat_less_iff [of "unat x" "2 ^ 63", where ?'a = int] by simp
  then have "uint x < 2 ^ 63" unfolding uint_nat .
  moreover have "0 \<le> uint x" by simp
  ultimately have "signed_take_bit 63 (uint x) = uint x" by (intro signed_take_bit_int_eq_self) linarith+
  then show ?thesis unfolding sint_uint uint_nat by simp
qed

lemma abs_bytes_val: "le_val (abs_bytes w) = unat w"
proof (induction w rule: abs_bytes.induct)
  case (1 w)
  have "unat (ucast (w AND 0xff) :: u8) = unat w mod 256"
    using unat_and_mask [of w 8] by (simp add: unsigned_ucast_eq take_bit_eq_mod mask_eq_exp_minus_1)
  moreover have "unat (drop_bit 8 w) = unat w div 256" by (simp add: unat_drop_bit_word)
  ultimately show ?case using 1 by (subst abs_bytes.simps) auto
qed

lemma abs_bytes_last: "w \<noteq> 0 \<Longrightarrow> abs_bytes w \<noteq> [] \<and> last (abs_bytes w) \<noteq> 0"
proof (induction w rule: abs_bytes.induct)
  case (1 w)
  show ?case
  proof (cases "drop_bit 8 w = 0")
    case True
    then have "unat w div 256 = 0" using unat_drop_bit_word [of 8 w] by simp
    then have "unat w < 256" by simp
    moreover have "unat (ucast (w AND 0xff) :: u8) = unat w mod 256"
      using unat_and_mask [of w 8] by (simp add: unsigned_ucast_eq take_bit_eq_mod mask_eq_exp_minus_1)
    ultimately have "(ucast (w AND 0xff) :: u8) \<noteq> 0" using 1(2) by (auto simp: unat_eq_zero)
    then show ?thesis using 1(2) True by (simp add: abs_bytes.simps [of w] abs_bytes.simps [of 0])
  next
    case False
    then show ?thesis using 1 by (simp add: abs_bytes.simps [of w])
  qed
qed

lemma le_val_lower: "bs \<noteq> [] \<Longrightarrow> last bs \<noteq> 0 \<Longrightarrow> 256 ^ (length bs - 1) \<le> le_val bs"
proof (induction bs)
  case (Cons b bs)
  show ?case
  proof (cases "bs = []")
    case True
    then show ?thesis using Cons(3) by (simp add: unat_gt_0 Suc_leI)
  next
    case False
    then have "256 * 256 ^ (length bs - 1) \<le> 256 * le_val bs" using Cons by simp
    then show ?thesis using False by (cases bs) auto
  qed
qed simp

lemma abs_bytes_length: "w \<noteq> 0 \<Longrightarrow> unat w < 256 ^ n \<Longrightarrow> length (abs_bytes w) \<le> n"
proof (rule ccontr)
  assume "w \<noteq> 0" "unat w < 256 ^ n" "\<not> length (abs_bytes w) \<le> n"
  then have "256 ^ (length (abs_bytes w) - 1) \<le> unat w" "n \<le> length (abs_bytes w) - 1"
    using le_val_lower [of "abs_bytes w"] abs_bytes_last [of w] abs_bytes_val [of w] by auto
  then have "256 ^ n \<le> unat w" using power_increasing [of n _ "256::nat"] by (meson le_trans numeral_One one_le_numeral)
  with \<open>unat w < 256 ^ n\<close> show False by simp
qed

lemma bit_0x80: "bit (128 :: int) n \<longleftrightarrow> n = 7"
  using bit_exp_iff [of 7 n, where ?'a = int] by auto

lemma bit_0x7f: "bit (127 :: int) n \<longleftrightarrow> n < 7"
  using bit_mask_iff [of 7 n, where ?'a = int] by (simp add: mask_eq_exp_minus_1)

lemma sign_byte:
  "(c :: u8) = (c AND 0x7f) OR (c AND 0x80)" "c AND 0x80 = 0 \<or> c AND 0x80 = 0x80"
  "c AND 0x80 \<noteq> 0 \<longleftrightarrow> 128 \<le> unat c" "(c OR 0x80) AND 0x7f = c AND 0x7f" "(c OR 0x80) AND 0x80 = 0x80"
  "(c AND 0x7f) AND 0x80 = 0"
proof -
  show c: "c = (c AND 0x7f) OR (c AND 0x80)"
    by (rule bit_word_eqI) (auto simp: bit_and_iff bit_or_iff bit_0x80 bit_0x7f)
  show "c AND 0x80 = 0 \<or> c AND 0x80 = 0x80"
    by (cases "bit c 7") (auto intro!: bit_word_eqI simp: bit_and_iff bit_0x80)
  show "(c OR 0x80) AND 0x7f = c AND 0x7f" "(c OR 0x80) AND 0x80 = 0x80" "(c AND 0x7f) AND 0x80 = 0"
    by (auto intro!: bit_word_eqI simp: bit_and_iff bit_or_iff bit_0x80 bit_0x7f)
  have "c AND 0x80 \<noteq> 0 \<longleftrightarrow> bit c 7"
  proof
    assume "bit c 7"
    then have "bit (c AND 0x80) 7" by (simp add: bit_and_iff bit_0x80)
    then show "c AND 0x80 \<noteq> 0" by auto
  next
    assume "c AND 0x80 \<noteq> 0"
    then obtain n where "bit (c AND 0x80) n" by (metis bit_0_eq bit_word_eqI bot_apply bot_bool_def)
    then show "bit c 7" by (auto simp: bit_and_iff bit_0x80)
  qed
  also have "\<dots> \<longleftrightarrow> bit (unat c) 7" by (simp add: bit_unsigned_iff)
  also have "\<dots> \<longleftrightarrow> odd (unat c div 128)" by (simp only: bit_iff_odd) simp
  also have "\<dots> \<longleftrightarrow> 128 \<le> unat c"
  proof -
    have "unat c div 128 < 2" using unat_lt_8 [of c] by (simp add: div_less_iff_less_mult del: unat_lt_8)
    then have "unat c div 128 = 0 \<or> unat c div 128 = 1" by linarith
    then show ?thesis by auto
  qed
  finally show "c AND 0x80 \<noteq> 0 \<longleftrightarrow> 128 \<le> unat c" .
qed

lemma top_less: "u \<le> 127 \<Longrightarrow> l < P \<Longrightarrow> l + P * u < 128 * (P :: nat)"
  using add_less_le_mono [of l P "P * u" "P * 127"] by simp

lemma top_ge: "128 \<le> u \<Longrightarrow> 128 * P \<le> l + P * (u :: nat)"
  using mult_le_mono2 [of 128 u P] by (simp add: mult.commute trans_le_add2)

lemma set_vch_snoc:
  assumes "length as \<le> 7"
  shows "set_vch (as @ [b]) = (if b AND 0x80 \<noteq> 0 then - int (le_val (as @ [b AND 0x7f])) else int (le_val (as @ [b])))"
proof -
  let ?k = "8 * length as"
  have split: "or_bytes 0 (as @ [c]) = or_bytes 0 as OR push_bit ?k (ucast c)" for c
    by (simp add: or_bytes_append)
  have small: "le_val (as @ [c]) < 2 ^ 63" if "unat c < 128" for c
  proof -
    have "le_val (as @ [c]) < 128 * 256 ^ length as"
      using top_less [OF _ le_val_less, of "unat c" as] that by (simp add: le_val_append)
    also have "\<dots> \<le> 128 * 256 ^ 7" using assms by (intro mult_left_mono power_increasing) auto
    finally show ?thesis by simp
  qed
  have val: "sint (or_bytes 0 (as @ [c])) = int (le_val (as @ [c]))" if "unat c < 128" for c
    using sint_small [of "or_bytes 0 (as @ [c])"] small [OF that] or_bytes_val [of "as @ [c]"] assms by simp
  have "or_bytes 0 (as @ [b]) AND NOT (push_bit ?k 0x80) = or_bytes 0 (as @ [b AND 0x7f])"
    unfolding split
    by (rule bit_word_eqI)
       (use bit_or_bytes [of as] assms in \<open>auto simp: bit_and_iff bit_or_iff bit_not_iff bit_push_bit_iff bit_ucast_iff
          bit_0x80 bit_0x7f not_less [symmetric] dest: bit_imp_le_length\<close>)
  then show ?thesis
    using val [of "b AND 0x7f"] val [of b] sign_byte(3) [of b] sign_byte(3) [of "b AND 0x7f"] sign_byte(6) [of b]
    by (auto simp: set_vch_def Let_def not_le)
qed

lemma abs_word:
  assumes "\<bar>v\<bar> < 2 ^ 63"
  shows "unat (if v < 0 then NOT (word_of_int v) + 1 else word_of_int v :: u64) = nat \<bar>v\<bar>"
proof -
  have "(if v < 0 then NOT (word_of_int v) + 1 else word_of_int v :: u64) = word_of_int \<bar>v\<bar>"
    by (simp add: not_eq_complement word_of_int_minus)
  moreover have "unat (word_of_int \<bar>v\<bar> :: u64) = nat \<bar>v\<bar>"
    using assms by (simp add: unat_eq_nat_uint uint_word_of_int_eq take_bit_int_eq_self)
  ultimately show ?thesis by simp
qed

lemma serialize_parts:
  assumes "v \<noteq> 0" "\<bar>v\<bar> < 2 ^ 63"
  obtains as c where "c \<noteq> 0" "le_val (as @ [c]) = nat \<bar>v\<bar>" "length as \<le> 7" "c AND 0x80 \<noteq> 0 \<Longrightarrow> length as \<le> 6"
    "serialize v = (if c AND 0x80 \<noteq> 0 then as @ [c, if v < 0 then 0x80 else 0] else as @ [if v < 0 then c OR 0x80 else c])"
    "128 * 256 ^ length as \<le> nat \<bar>v\<bar> \<or> c AND 0x80 = 0" "256 ^ length as \<le> nat \<bar>v\<bar>"
proof -
  let ?w = "if v < 0 then NOT (word_of_int v) + 1 else word_of_int v :: u64"
  have w: "unat ?w = nat \<bar>v\<bar>" by (rule abs_word [OF assms(2)])
  then have w0: "?w \<noteq> 0" using assms(1) by (intro notI) simp
  let ?bs = "abs_bytes ?w"
  define as c where "as = butlast ?bs" and "c = last ?bs"
  have bs: "?bs = as @ [c]" "c \<noteq> 0" using abs_bytes_last [OF w0] by (simp_all add: as_def c_def)
  have val: "le_val (as @ [c]) = nat \<bar>v\<bar>" using abs_bytes_val [of ?w] w bs(1) by simp
  have len: "length as \<le> 7"
    using abs_bytes_length [OF w0, of 8] unat_lt_64 [of ?w] bs(1) by (simp del: unat_lt_64)
  have low: "128 * 256 ^ length as \<le> nat \<bar>v\<bar>" if "c AND 0x80 \<noteq> 0"
    using that val sign_byte(3) [of c] top_ge [of "unat c" "256 ^ length as" "le_val as"] by (simp add: le_val_append)
  have low1: "256 ^ length as \<le> nat \<bar>v\<bar>" using le_val_lower [of "as @ [c]"] bs(2) val by simp
  have len6: "length as \<le> 6" if c: "c AND 0x80 \<noteq> 0"
  proof (rule ccontr)
    assume "\<not> length as \<le> 6"
    then have "length as = 7" using len by simp
    then have "(2 :: nat) ^ 63 \<le> nat \<bar>v\<bar>" using low [OF c] by simp
    then show False using assms(2) by (simp add: nat_le_iff le_nat_iff)
  qed
  have "serialize v = (if c AND 0x80 \<noteq> 0 then as @ [c, if v < 0 then 0x80 else 0] else as @ [if v < 0 then c OR 0x80 else c])"
    using assms(1) bs(1) by (cases "v < 0") (auto simp: serialize_def Let_def)
  then show ?thesis using that bs(2) val len len6 low low1 by blast
qed

lemma set_vch_serialize: "\<bar>v\<bar> < 2 ^ 63 \<Longrightarrow> set_vch (serialize v) = v"
proof (cases "v = 0")
  case True
  then show ?thesis by (simp add: serialize_def set_vch_def)
next
  case False
  assume "\<bar>v\<bar> < 2 ^ 63"
  from serialize_parts [OF False this] obtain as c where c: "c \<noteq> 0" "le_val (as @ [c]) = nat \<bar>v\<bar>" "length as \<le> 7"
    "c AND 0x80 \<noteq> 0 \<Longrightarrow> length as \<le> 6"
    "serialize v = (if c AND 0x80 \<noteq> 0 then as @ [c, if v < 0 then 0x80 else 0] else as @ [if v < 0 then c OR 0x80 else c])"
    by blast
  show ?thesis
  proof (cases "c AND 0x80 \<noteq> 0")
    case True
    have "le_val ((as @ [c]) @ [0]) = nat \<bar>v\<bar>" using c(2) by (simp add: le_val_append)
    then show ?thesis using c(4) [OF True] set_vch_snoc [of "as @ [c]" "if v < 0 then 0x80 else 0"]
      by (simp add: c(5) True split: if_splits)
  next
    case False
    then have "(c OR 0x80) AND 0x7f = c" using sign_byte(1) [of c] sign_byte(4) [of c] by simp
    moreover have "(c OR 0x80) AND 0x80 \<noteq> 0" using sign_byte(5) [of c] by simp
    ultimately show ?thesis using c(2,3) False set_vch_snoc [of as "if v < 0 then c OR 0x80 else c"]
      by (simp add: c(5) split: if_splits)
  qed
qed

lemma serialize_minimal:
  assumes "\<bar>v\<bar> < 2 ^ (8 * n - 1)" "0 < n" "n \<le> 8"
  shows "length (serialize v) \<le> n" "IsMinimallyEncoded (serialize v) n"
proof -
  have "(2 :: int) ^ (8 * n - 1) \<le> 2 ^ 63" using assms(3) by (intro power_increasing) auto
  then have v63: "\<bar>v\<bar> < 2 ^ 63" by (rule less_le_trans [OF assms(1)])
  have "length (serialize v) \<le> n \<and> IsMinimallyEncoded (serialize v) n"
  proof (cases "v = 0")
    case True
    then show ?thesis using assms by (simp add: serialize_def IsMinimallyEncoded_def)
  next
    case False
    from serialize_parts [OF False v63] obtain as c where c: "c \<noteq> 0"
      "serialize v = (if c AND 0x80 \<noteq> 0 then as @ [c, if v < 0 then 0x80 else 0] else as @ [if v < 0 then c OR 0x80 else c])"
      "128 * 256 ^ length as \<le> nat \<bar>v\<bar> \<or> c AND 0x80 = 0" "256 ^ length as \<le> nat \<bar>v\<bar>"
      by blast
    have below: "k < 8 * n - 1" if "2 ^ k \<le> nat \<bar>v\<bar>" for k
    proof -
      have "(2 :: int) ^ k \<le> \<bar>v\<bar>" using that by (simp add: le_nat_iff)
      then have "(2 :: int) ^ k < 2 ^ (8 * n - 1)" using assms(1) by linarith
      then show ?thesis using power_less_imp_less_exp [of "2::int"] by simp
    qed
    have "8 * length as < 8 * n - 1" using below [of "8 * length as"] c(4) by (simp add: power_mult)
    then have len: "length as < n" by simp
    have len2: "length as + 1 < n" if "c AND 0x80 \<noteq> 0"
    proof -
      have "2 ^ (8 * length as + 7) \<le> nat \<bar>v\<bar>" using c(3) that by (simp add: power_add power_mult)
      then show ?thesis using below [of "8 * length as + 7"] by simp
    qed
    have "c AND 0x7f \<noteq> 0" if "c AND 0x80 = 0" using that c(1) sign_byte(1) [of c] by auto
    then show ?thesis using len len2 sign_byte(4) [of c] unfolding c(2)
      by (auto simp: IsMinimallyEncoded_def nth_append)
  qed
  then show "length (serialize v) \<le> n" "IsMinimallyEncoded (serialize v) n" by auto
qed

lemma digits_eq: "u < 256 \<Longrightarrow> u' < 256 \<Longrightarrow> u + 256 * x = u' + 256 * x' \<Longrightarrow> u = u' \<and> x = (x' :: nat)"
proof -
  assume a: "u < 256" "u' < 256" "u + 256 * x = u' + 256 * x'"
  have "(u + 256 * x) mod 256 = u" "(u' + 256 * x') mod 256 = u'" using a(1,2) by simp_all
  then have "u = u'" using a(3) by simp
  then show ?thesis using a(3) by simp
qed

lemma le_val_inj:
  "length as = length bs \<Longrightarrow> le_val as = le_val bs \<Longrightarrow> as = bs"
proof (induction as bs rule: list_induct2)
  case (Cons a as b bs)
  then have "unat a = unat b" "le_val as = le_val bs"
    using digits_eq [OF unat_lt_8 unat_lt_8, of a "le_val as" b "le_val bs"] by simp_all
  then show ?case using Cons(2) by (simp add: word_unat_eq_iff)
qed simp

lemma abs_bytes_unique:
  assumes "bs \<noteq> []" "last bs \<noteq> 0" "length bs \<le> 8"
  shows "abs_bytes (word_of_nat (le_val bs)) = bs"
proof -
  let ?w = "word_of_nat (le_val bs) :: u64"
  have "le_val bs < 256 ^ 8" using le_val_less [of bs] power_increasing [OF assms(3), of "256::nat"] by linarith
  then have w: "unat ?w = le_val bs" by (simp add: unat_of_nat)
  have low: "256 ^ (length bs - 1) \<le> le_val bs" by (rule le_val_lower [OF assms(1,2)])
  then have "0 < le_val bs" using less_le_trans [OF zero_less_power [of "256::nat"] low] by simp
  then have w0: "?w \<noteq> 0" using w by auto
  have "length (abs_bytes ?w) \<le> length bs" using abs_bytes_length [OF w0, of "length bs"] le_val_less [of bs] w by simp
  moreover have "\<not> length (abs_bytes ?w) < length bs"
  proof
    assume "length (abs_bytes ?w) < length bs"
    then have "length (abs_bytes ?w) \<le> length bs - 1" by simp
    then have "(256 :: nat) ^ length (abs_bytes ?w) \<le> 256 ^ (length bs - 1)" by (intro power_increasing) simp_all
    then have "le_val (abs_bytes ?w) < le_val bs" using le_val_less [of "abs_bytes ?w"] low by linarith
    then show False using abs_bytes_val [of ?w] w by simp
  qed
  ultimately have "length (abs_bytes ?w) = length bs" by simp
  then show ?thesis using le_val_inj [of "abs_bytes ?w" bs] abs_bytes_val [of ?w] w by simp
qed

lemma serialize_set_vch:
  assumes "IsMinimallyEncoded b n" "n \<le> 8"
  shows "serialize (set_vch b) = b"
proof (cases b rule: rev_cases)
  case Nil
  then show ?thesis by (simp add: serialize_def set_vch_def)
next
  case (snoc as c)
  have len: "length as \<le> 7" using assms snoc by (auto simp: IsMinimallyEncoded_def split: if_splits)
  let ?neg = "c AND 0x80 \<noteq> 0"
  have ser: "serialize (if ?neg then - int m else int m)
      = (let r = abs_bytes (word_of_nat m) in if last r AND 0x80 \<noteq> 0 then r @ [if ?neg then 0x80 else 0]
         else if ?neg then butlast r @ [last r OR 0x80] else r)" if "0 < m" for m
    using that by (auto simp: serialize_def Let_def not_eq_complement word_of_int_minus)
  show ?thesis
  proof (cases "c AND 0x7f = 0")
    case False
    let ?bs = "as @ [c AND 0x7f]"
    have "set_vch b = (if ?neg then - int (le_val ?bs) else int (le_val ?bs))"
      using set_vch_snoc [OF len, of c] sign_byte(1) [of c] by (auto simp: snoc)
    moreover have "0 < le_val ?bs"
      using le_val_lower [of ?bs] False less_le_trans [OF zero_less_power [of "256::nat" "length as"]] by simp
    moreover have "abs_bytes (word_of_nat (le_val ?bs)) = ?bs" using abs_bytes_unique [of ?bs] False len by simp
    moreover have "(c AND 0x7f) OR 0x80 = c" if ?neg using that sign_byte(1,2) [of c] by metis
    moreover have "c AND 0x7f = c" if "\<not> ?neg" using that sign_byte(1) [of c] by simp
    ultimately show ?thesis using ser [of "le_val ?bs"] sign_byte(6) [of c] by (simp add: snoc Let_def)
  next
    case True
    then obtain as' d where d: "as = as' @ [d]" "d AND 0x80 \<noteq> 0"
      using assms(1) snoc by (cases as rule: rev_cases) (auto simp: IsMinimallyEncoded_def nth_append split: if_splits)
    then have "d \<noteq> 0" by auto
    have "c = (if ?neg then 0x80 else 0)" using True sign_byte(1,2) [of c] by auto
    moreover have "le_val (as @ [0]) = le_val as" by (simp add: le_val_append)
    ultimately have "set_vch b = (if ?neg then - int (le_val as) else int (le_val as))"
      using set_vch_snoc [OF len, of c] True by (auto simp: snoc split: if_splits)
    moreover have "0 < le_val as"
      using le_val_lower [of as] d \<open>d \<noteq> 0\<close> less_le_trans [OF zero_less_power [of "256::nat" "length as'"]] by simp
    moreover have "abs_bytes (word_of_nat (le_val as)) = as" using abs_bytes_unique [of as] d \<open>d \<noteq> 0\<close> len by simp
    ultimately show ?thesis using ser [of "le_val as"] d \<open>c = _\<close> by (simp add: snoc Let_def)
  qed
qed

section \<open>Trimming an encoding to the minimal one\<close>

text \<open>The number a byte vector of any length stands for: sign and magnitude, little-endian.\<close>

definition sm_val :: "bytes \<Rightarrow> int" where
  "sm_val bs = (if bs = [] then 0 else
     if last bs AND 0x80 \<noteq> 0 then - int (le_val (butlast bs @ [last bs AND 0x7f])) else int (le_val bs))"

lemma sm_val_snoc: "sm_val (as @ [b]) = (if b AND 0x80 \<noteq> 0 then - 1 else 1) * int (le_val (as @ [b AND 0x7f]))"
  using sign_byte(1) [of b] by (simp add: sm_val_def) (metis or.right_neutral)

lemma set_vch_sm_val: "length bs \<le> 8 \<Longrightarrow> set_vch bs = sm_val bs"
  by (cases bs rule: rev_cases) (simp_all add: set_vch_snoc sm_val_def set_vch_def [of "[]"])

lemma le_val_zeros: "le_val (as @ replicate k 0) = le_val as"
  by (induction k) (simp_all add: le_val_append le_val_append [of _ "[0]"] replicate_append_same [symmetric] del: append_assoc flip: append_assoc)

lemma trim_loop_val:
  assumes "lst AND 0x7f = 0" "length data = Suc n" "j \<le> n" "take n data = take j data @ replicate (n - j) 0" "last data = lst"
  shows "sm_val (trim_loop data lst j) = sm_val data \<and> IsMinimallyEncoded (trim_loop data lst j) (length data)
    \<and> length (trim_loop data lst j) \<le> length data"
  using assms(3,4)
proof (induction j)
  case 0
  have d: "data = take n data @ [lst]" using assms(2,5) by (metis append_butlast_last_id butlast_conv_take diff_Suc_1 length_0_conv nat.simps(3))
  have "le_val (take n data @ [lst AND 0x7f]) = 0"
    using 0 assms(1) le_val_zeros [of "[]" n] by (simp add: le_val_append)
  then have "sm_val data = 0" by (subst d) (simp add: sm_val_snoc)
  then show ?case by (simp add: sm_val_def IsMinimallyEncoded_def)
next
  case (Suc j)
  have d: "data = take n data @ [lst]" using assms(2,5) by (metis append_butlast_last_id butlast_conv_take diff_Suc_1 length_0_conv nat.simps(3))
  have j: "j < n" "j < length data" using Suc(2) assms(2) by auto
  have tj: "take (Suc j) data = take j data @ [data ! j]" using j(2) by (rule take_Suc_conv_app_nth)
  have "sm_val (take n data @ [lst]) = (if lst AND 0x80 \<noteq> 0 then - 1 else 1) * int (le_val (take n data))"
    using assms(1) by (simp add: sm_val_snoc le_val_append)
  then have v: "sm_val data = (if lst AND 0x80 \<noteq> 0 then - 1 else 1) * int (le_val (take (Suc j) data))"
    unfolding Suc(3) le_val_zeros using d Suc(3) by simp
  show ?case
  proof (cases "data ! j = 0")
    case True
    then have "take n data = take j data @ replicate (n - j) 0"
      using Suc(3) tj j(1) by (simp add: Suc_diff_Suc flip: replicate_Suc)
    then show ?thesis using Suc(1) True j by simp
  next
    case False
    show ?thesis
    proof (cases "data ! j AND 0x80 \<noteq> 0")
      case True
      have "take (j + 2) (data[Suc j := lst]) = take (Suc j) data @ [lst]"
        using j assms(2) by (simp add: take_Suc_conv_app_nth numeral_2_eq_2)
      moreover have "sm_val (take (Suc j) data @ [lst]) = sm_val data"
        using v assms(1) by (simp add: sm_val_snoc [of "take (Suc j) data"] le_val_append [of "take (Suc j) data"])
      ultimately have "sm_val (take (j + 2) (data[Suc j := lst])) = sm_val data" by simp
      moreover have "IsMinimallyEncoded (take (j + 2) (data[Suc j := lst])) (length data)"
        unfolding \<open>take (j + 2) _ = _\<close> tj using True assms(1,2) j by (simp add: IsMinimallyEncoded_def nth_append)
      ultimately show ?thesis using False True by simp
    next
      case nosign: False
      have "take (Suc j) (data[j := data ! j OR lst]) = take j data @ [data ! j OR lst]"
        using j by (simp add: take_Suc_conv_app_nth)
      moreover have l: "lst = 0 \<or> lst = 0x80" using assms(1) sign_byte(1,2) [of lst] by auto
      moreover have "data ! j AND 0x7f = data ! j" using nosign sign_byte(1) [of "data ! j"] by simp
      ultimately show ?thesis using False nosign v assms(1,2) j tj sign_byte(4,5) [of "data ! j"]
        by (auto simp: sm_val_snoc IsMinimallyEncoded_def)
    qed
  qed
qed

lemma MinimallyEncode_val:
  "sm_val (snd (MinimallyEncode data)) = sm_val data \<and> IsMinimallyEncoded (snd (MinimallyEncode data)) (length data)
   \<and> length (snd (MinimallyEncode data)) \<le> length data"
proof (cases data rule: rev_cases)
  case (snoc as b)
  show ?thesis
  proof (cases "b AND 0x7f \<noteq> 0 \<or> as = [] \<or> last as AND 0x80 \<noteq> 0")
    case True
    then show ?thesis
      by (cases as rule: rev_cases) (auto simp: MinimallyEncode_def snoc Let_def IsMinimallyEncoded_def nth_append sm_val_snoc [of "[]", simplified] sm_val_def [of "[]"])
  next
    case False
    then obtain as' a where as: "as = as' @ [a]" by (cases as rule: rev_cases) auto
    have "trim_loop data b (length as) = snd (MinimallyEncode data)"
      using False as by (simp add: MinimallyEncode_def snoc Let_def nth_append)
    moreover have "sm_val (trim_loop data b (length as)) = sm_val data
        \<and> IsMinimallyEncoded (trim_loop data b (length as)) (length data) \<and> length (trim_loop data b (length as)) \<le> length data"
      by (rule trim_loop_val) (use False snoc in auto)
    ultimately show ?thesis by simp
  qed
qed (simp add: MinimallyEncode_def IsMinimallyEncoded_def)

text \<open>
  C39. Script numbers: reading back what \<open>serialize\<close> wrote gives the number, in at most \<open>n\<close> bytes when it has that many,
  and no other minimal vector of at most \<open>n\<close> bytes is read as the same number.
\<close>

theorem script_numbers_are_canonical:
  assumes "0 < n" "n \<le> 8"
  shows "(\<bar>v\<bar> < 2 ^ (8 * n - 1) \<longrightarrow> length (serialize v) \<le> n \<and> CScriptNum (serialize v) True n = Some v)
    \<and> (CScriptNum b True n = Some v \<longrightarrow> b = serialize v)"
proof (intro conjI impI)
  assume v: "\<bar>v\<bar> < 2 ^ (8 * n - 1)"
  have "(2 :: int) ^ (8 * n - 1) \<le> 2 ^ 63" using assms(2) by (intro power_increasing) auto
  then have "\<bar>v\<bar> < 2 ^ 63" by (rule less_le_trans [OF v])
  then show "length (serialize v) \<le> n" "CScriptNum (serialize v) True n = Some v"
    using serialize_minimal [OF v assms] set_vch_serialize [of v] by (simp_all add: CScriptNum_def)
next
  assume "CScriptNum b True n = Some v"
  then show "b = serialize v"
    using serialize_set_vch [of b n] assms(2) by (auto simp: CScriptNum_def split: if_splits)
qed

theorem script_numbers_are_canonical_witness:
  "length (serialize (- 255)) \<le> 4 \<and> CScriptNum (serialize (- 255)) True 4 = Some (- 255) \<and> serialize (- 255) = [0xff, 0x80]"
proof -
  have "CScriptNum [0xff, 0x80] True 4 = Some (- 255)" by code_simp
  then show ?thesis using script_numbers_are_canonical [of 4 "- 255" "[0xff, 0x80]"] by simp
qed

lemma ReadLE16_write: "n \<le> 0xffff \<Longrightarrow> unat (ReadLE16 (ser_writedata16 (of_nat n) @ s)) = n"
proof -
  assume n: "n \<le> 0xffff"
  have "ReadLE16 (ser_writedata16 x @ s) = x" for x :: u16
    by (rule bit_word_eqI) (auto simp: ReadLE16_def ser_writedata16_def bit_simps)
  then show ?thesis using n by (simp add: unat_of_nat)
qed

lemma length_writedata16 [simp]: "length (ser_writedata16 x) = 2"
  by (simp add: ser_writedata16_def)

lemma ReadLE32_write: "ReadLE32 (WriteLE32 x @ s) = x"
  using ReadLE32_WriteLE32 [of x] by (simp add: ReadLE32_def nth_append)

text \<open>
  Data pushed with \<open>CScript << data\<close> is read back by \<open>GetScriptOp\<close> with the rest of the script, and the push is
  minimal except for the single bytes that have an opcode of their own.
\<close>

theorem pushed_data_is_read_back:
  assumes "length b < 2 ^ 32"
  shows "\<exists>opcode. GetScriptOp (push_data [] b @ rest) = (True, opcode, b, rest)
    \<and> CheckMinimalPush b opcode = Some (\<not> (length b = 1 \<and> (1 \<le> b ! 0 \<and> b ! 0 \<le> 16 \<or> b ! 0 = 0x81)))"
proof -
  consider "length b < 76" | "76 \<le> length b" "length b \<le> 0xff" | "0xff < length b" "length b \<le> 0xffff" | "0xffff < length b"
    by linarith
  then show ?thesis
  proof cases
    case 1
    then have "unat (of_nat (length b) :: u8) = length b" by (simp add: unat_of_nat)
    moreover from this 1 have "(of_nat (length b) :: u8) < OP_PUSHDATA1" "(of_nat (length b) :: u8) \<le> OP_PUSHDATA4"
      by (simp_all add: word_less_nat_alt word_le_nat_alt)
    ultimately show ?thesis using 1
      by (auto simp: GetScriptOp_def push_data_def read_push_size_def CheckMinimalPush_def)
  next
    case 2
    then have "unat (of_nat (length b) :: u8) = length b" by (simp add: unat_of_nat)
    then show ?thesis using 2
      by (auto simp: GetScriptOp_def push_data_def read_push_size_def CheckMinimalPush_def)
  next
    case 3
    then show ?thesis
      by (auto simp: GetScriptOp_def push_data_def read_push_size_def CheckMinimalPush_def ReadLE16_write)
  next
    case 4
    then have "unat (of_nat (length b) :: u32) = length b" using assms by (simp add: unat_of_nat)
    then show ?thesis using 4
      by (auto simp: GetScriptOp_def push_data_def read_push_size_def CheckMinimalPush_def ReadLE32_write)
  qed
qed

theorem pushed_data_is_read_back_witness:
  "\<exists>opcode. GetScriptOp (push_data [] [17] @ [0xac]) = (True, opcode, [17], [0xac]) \<and> CheckMinimalPush [17] opcode = Some True"
  using pushed_data_is_read_back [of "[17]" "[0xac]"] by simp

end
