(* ===== verification/Coins.thy ===== *)
theory Coins
  imports Note_Tree Script "HOL-Library.AList"
begin

text \<open>
Unspent coins (\<^verbatim>\<open>coins.h\<close>, \<^verbatim>\<open>coins.cpp\<close>, the coins part of \<^verbatim>\<open>txdb.cpp\<close> and \<^verbatim>\<open>sapling/sapling_txdb.cpp\<close>): the
  coin, the cache entries with their flags, the coins database as a key-value store written in batches, and the
  stack of caches over it with every operation that reads or changes it, the shielded anchors and nullifiers
  included. The memory statistic \<open>cachedCoinsUsage\<close> is left out.
\<close>

unbundle bit_operations_syntax

section \<open>Coins and cache entries\<close>

text \<open>The height has 31 bits, next to the coinbase bit.\<close>

record Coin =
  coin_out :: CTxOut
  fCoinBase :: bool
  coin_nHeight :: "31 word"

definition Coin_of :: "CTxOut \<Rightarrow> int \<Rightarrow> bool \<Rightarrow> Coin" where
  "Coin_of outIn nHeightIn fCoinBaseIn = \<lparr>coin_out = outIn, fCoinBase = fCoinBaseIn, coin_nHeight = of_int nHeightIn\<rparr>"

definition coinEmpty :: Coin where
  "coinEmpty = \<lparr>coin_out = CTxOut_null, fCoinBase = False, coin_nHeight = 0\<rparr>"

definition Coin_Clear :: "Coin \<Rightarrow> Coin" where
  "Coin_Clear c = c\<lparr>coin_out := CTxOut_null, fCoinBase := False, coin_nHeight := 0\<rparr>"

definition IsSpent :: "Coin \<Rightarrow> bool" where
  "IsSpent c = CTxOut_IsNull (coin_out c)"

text \<open>The byte of flags holds the two bits DIRTY and FRESH.\<close>

record CCoinsCacheEntry =
  coin :: Coin
  DIRTY :: bool
  FRESH :: bool

record CAnchorsSaplingCacheEntry =
  anchor_entered :: bool
  anchor_tree :: IncrementalMerkleTree
  anchor_DIRTY :: bool

record CNullifiersCacheEntry =
  nf_entered :: bool
  nf_DIRTY :: bool

text \<open>The hash maps are association lists with distinct keys; their order is the order of iteration.\<close>

type_synonym CCoinsMap = "(COutPoint \<times> CCoinsCacheEntry) list"
type_synonym CAnchorsSaplingMap = "(uint256 \<times> CAnchorsSaplingCacheEntry) list"
type_synonym CNullifiersMap = "(uint256 \<times> CNullifiersCacheEntry) list"

record CCoinsViewCache =
  hashBlock :: uint256
  cacheCoins :: CCoinsMap
  hashSaplingAnchor :: uint256
  cacheSaplingAnchors :: CAnchorsSaplingMap
  cacheSaplingNullifiers :: CNullifiersMap

definition uint256_IsNull :: "uint256 \<Rightarrow> bool" where
  "uint256_IsNull h \<longleftrightarrow> h = replicate 32 0"

definition CCoinsViewCache_new :: CCoinsViewCache where
  "CCoinsViewCache_new = \<lparr>hashBlock = replicate 32 0, cacheCoins = [], hashSaplingAnchor = replicate 32 0,
     cacheSaplingAnchors = [], cacheSaplingNullifiers = []\<rparr>"

section \<open>The coins database\<close>

text \<open>The records of the key-value store, by the first byte of their key.\<close>

record CCoinsViewDB =
  db_coins :: "COutPoint \<rightharpoonup> Coin"
  db_best_block :: "uint256 option"
  db_head_blocks :: "uint256 list option"
  db_anchors :: "uint256 \<rightharpoonup> IncrementalMerkleTree"
  db_nullifiers :: "uint256 \<rightharpoonup> bool"
  db_best_anchor :: "uint256 option"

definition db_GetBestBlock :: "CCoinsViewDB \<Rightarrow> uint256" where
  "db_GetBestBlock db = (case db_best_block db of None \<Rightarrow> replicate 32 0 | Some h \<Rightarrow> h)"

definition db_GetHeadBlocks :: "CCoinsViewDB \<Rightarrow> uint256 list" where
  "db_GetHeadBlocks db = (case db_head_blocks db of None \<Rightarrow> [] | Some hs \<Rightarrow> hs)"

definition db_GetSaplingAnchorAt :: "TreeHash \<Rightarrow> CCoinsViewDB \<Rightarrow> uint256 \<Rightarrow> IncrementalMerkleTree option" where
  "db_GetSaplingAnchorAt H db rt =
     (if rt = empty_root H SAPLING_INCREMENTAL_MERKLE_TREE_DEPTH then Some IncrementalMerkleTree_default
      else db_anchors db rt)"

definition db_GetNullifier :: "CCoinsViewDB \<Rightarrow> uint256 \<Rightarrow> bool" where
  "db_GetNullifier db nf = (case db_nullifiers db nf of Some spent \<Rightarrow> spent | None \<Rightarrow> False)"

definition db_GetBestAnchor :: "TreeHash \<Rightarrow> CCoinsViewDB \<Rightarrow> uint256" where
  "db_GetBestAnchor H db = (case db_best_anchor db of
     None \<Rightarrow> empty_root H SAPLING_INCREMENTAL_MERKLE_TREE_DEPTH | Some h \<Rightarrow> h)"

datatype db_op =
  Erase_best_block | Write_best_block uint256 | Write_head_blocks "uint256 list" | Erase_head_blocks
| Erase_coin COutPoint | Write_coin COutPoint Coin
| Erase_anchor uint256 | Write_anchor uint256 IncrementalMerkleTree
| Erase_nullifier uint256 | Write_nullifier uint256 bool | Write_best_anchor uint256

fun apply_op :: "db_op \<Rightarrow> CCoinsViewDB \<Rightarrow> CCoinsViewDB" where
  "apply_op Erase_best_block db = db\<lparr>db_best_block := None\<rparr>"
| "apply_op (Write_best_block h) db = db\<lparr>db_best_block := Some h\<rparr>"
| "apply_op (Write_head_blocks hs) db = db\<lparr>db_head_blocks := Some hs\<rparr>"
| "apply_op Erase_head_blocks db = db\<lparr>db_head_blocks := None\<rparr>"
| "apply_op (Erase_coin k) db = db\<lparr>db_coins := (db_coins db)(k := None)\<rparr>"
| "apply_op (Write_coin k c) db = db\<lparr>db_coins := (db_coins db)(k \<mapsto> c)\<rparr>"
| "apply_op (Erase_anchor k) db = db\<lparr>db_anchors := (db_anchors db)(k := None)\<rparr>"
| "apply_op (Write_anchor k t) db = db\<lparr>db_anchors := (db_anchors db)(k \<mapsto> t)\<rparr>"
| "apply_op (Erase_nullifier k) db = db\<lparr>db_nullifiers := (db_nullifiers db)(k := None)\<rparr>"
| "apply_op (Write_nullifier k b) db = db\<lparr>db_nullifiers := (db_nullifiers db)(k \<mapsto> b)\<rparr>"
| "apply_op (Write_best_anchor h) db = db\<lparr>db_best_anchor := Some h\<rparr>"

definition apply_batch :: "db_op list \<Rightarrow> CCoinsViewDB \<Rightarrow> CCoinsViewDB" where
  "apply_batch ops db = fold apply_op ops db"

text \<open>
  \<open>CCoinsViewDB::BatchWrite\<close> yields the batches it writes one after the other; a crash leaves a prefix of them
  in the database. \<open>too_big\<close> stands for the estimate of the size of a batch.
\<close>

definition coin_ops :: "COutPoint \<times> CCoinsCacheEntry \<Rightarrow> db_op list" where
  "coin_ops = (\<lambda>(k, e). if DIRTY e then (if IsSpent (coin e) then [Erase_coin k] else [Write_coin k (coin e)]) else [])"

fun batch_coins :: "(db_op list \<Rightarrow> bool) \<Rightarrow> CCoinsMap \<Rightarrow> db_op list \<Rightarrow> db_op list list \<times> db_op list" where
  "batch_coins too_big [] batch = ([], batch)"
| "batch_coins too_big (x # xs) batch =
     (let batch = batch @ coin_ops x
      in if too_big batch then (let (bs, lst) = batch_coins too_big xs [] in (batch # bs, lst))
         else batch_coins too_big xs batch)"

definition anchor_ops :: "TreeHash \<Rightarrow> uint256 \<times> CAnchorsSaplingCacheEntry \<Rightarrow> db_op list" where
  "anchor_ops H = (\<lambda>(k, e). if anchor_DIRTY e
     then (if \<not> anchor_entered e then [Erase_anchor k]
           else if k \<noteq> empty_root H SAPLING_INCREMENTAL_MERKLE_TREE_DEPTH then [Write_anchor k (anchor_tree e)] else [])
     else [])"

definition nullifier_ops :: "uint256 \<times> CNullifiersCacheEntry \<Rightarrow> db_op list" where
  "nullifier_ops = (\<lambda>(k, e). if nf_DIRTY e
     then (if \<not> nf_entered e then [Erase_nullifier k] else [Write_nullifier k True]) else [])"

definition BatchWriteSapling :: "TreeHash \<Rightarrow> uint256 \<Rightarrow> CAnchorsSaplingMap \<Rightarrow> CNullifiersMap \<Rightarrow> db_op list" where
  "BatchWriteSapling H hashAnchor mapAnchors mapNullifiers =
     concat (map (anchor_ops H) mapAnchors) @ concat (map nullifier_ops mapNullifiers)
     @ (if \<not> uint256_IsNull hashAnchor then [Write_best_anchor hashAnchor] else [])"

definition old_tip :: "CCoinsViewDB \<Rightarrow> uint256 \<Rightarrow> uint256 option" where
  "old_tip db hash =
     (if uint256_IsNull (db_GetBestBlock db)
      then (case db_GetHeadBlocks db of
              [h0, h1] \<Rightarrow> if h0 = hash then Some h1 else None
            | _ \<Rightarrow> Some (db_GetBestBlock db))
      else Some (db_GetBestBlock db))"

definition db_batches :: "TreeHash \<Rightarrow> (db_op list \<Rightarrow> bool) \<Rightarrow> CCoinsViewDB \<Rightarrow> CCoinsMap \<Rightarrow> uint256 \<Rightarrow> uint256
    \<Rightarrow> CAnchorsSaplingMap \<Rightarrow> CNullifiersMap \<Rightarrow> db_op list list option" where
  "db_batches H too_big db mapCoins hash hashAnchor mapAnchors mapNullifiers =
     (if uint256_IsNull hash then None
      else do {
        old \<leftarrow> old_tip db hash;
        let (bs, lst) = batch_coins too_big mapCoins [Erase_best_block, Write_head_blocks [hash, old]];
        Some (bs @ [lst @ BatchWriteSapling H hashAnchor mapAnchors mapNullifiers
                        @ [Erase_head_blocks, Write_best_block hash]]) })"

section \<open>Reading through a stack of views\<close>

text \<open>
  A view is the database or a cache over another view. Reading fills the caches on the way, so every reader
  returns the changed stack with its answer.
\<close>

datatype CCoinsView = View_DB CCoinsViewDB | View_Cache CCoinsViewCache CCoinsView

text \<open>
  \<open>FetchCoin\<close> in a cache \<open>c\<close> over \<open>b\<close>; \<open>read\<close> is what \<open>base->GetCoin\<close> returns and leaves behind. The entry found,
  the cache and the base are returned.
\<close>

definition FetchCoin :: "COutPoint \<Rightarrow> CCoinsViewCache \<Rightarrow> CCoinsView \<Rightarrow> Coin option \<times> CCoinsView
    \<Rightarrow> CCoinsCacheEntry option \<times> CCoinsViewCache \<times> CCoinsView" where
  "FetchCoin k c b read = (case map_of (cacheCoins c) k of
       Some e \<Rightarrow> (Some e, c, b)
     | None \<Rightarrow> (case read of
         (None, b') \<Rightarrow> (None, c, b')
       | (Some tmp, b') \<Rightarrow>
           let e = \<lparr>coin = tmp, DIRTY = False, FRESH = IsSpent tmp\<rparr>
           in (Some e, c\<lparr>cacheCoins := (k, e) # cacheCoins c\<rparr>, b')))"

fun GetCoin :: "COutPoint \<Rightarrow> CCoinsView \<Rightarrow> Coin option \<times> CCoinsView" where
  "GetCoin k (View_DB db) = (db_coins db k, View_DB db)"
| "GetCoin k (View_Cache c b) =
     (let (it, c, b) = FetchCoin k c b (GetCoin k b)
      in (case it of None \<Rightarrow> None | Some e \<Rightarrow> if IsSpent (coin e) then None else Some (coin e), View_Cache c b))"

definition HaveCoin :: "COutPoint \<Rightarrow> CCoinsView \<Rightarrow> bool \<times> CCoinsView" where
  "HaveCoin k v = (let (r, v) = GetCoin k v in (r \<noteq> None, v))"

fun GetBestBlock :: "CCoinsView \<Rightarrow> uint256 \<times> CCoinsView" where
  "GetBestBlock (View_DB db) = (db_GetBestBlock db, View_DB db)"
| "GetBestBlock (View_Cache c b) =
     (if uint256_IsNull (hashBlock c)
      then let (h, b) = GetBestBlock b in (h, View_Cache (c\<lparr>hashBlock := h\<rparr>) b)
      else (hashBlock c, View_Cache c b))"

fun GetSaplingAnchorAt :: "TreeHash \<Rightarrow> uint256 \<Rightarrow> CCoinsView \<Rightarrow> IncrementalMerkleTree option \<times> CCoinsView" where
  "GetSaplingAnchorAt H rt (View_DB db) = (db_GetSaplingAnchorAt H db rt, View_DB db)"
| "GetSaplingAnchorAt H rt (View_Cache c b) = (case map_of (cacheSaplingAnchors c) rt of
       Some e \<Rightarrow> (if anchor_entered e then Some (anchor_tree e) else None, View_Cache c b)
     | None \<Rightarrow> (case GetSaplingAnchorAt H rt b of
         (None, b) \<Rightarrow> (None, View_Cache c b)
       | (Some t, b) \<Rightarrow> (Some t, View_Cache (c\<lparr>cacheSaplingAnchors :=
            (rt, \<lparr>anchor_entered = True, anchor_tree = t, anchor_DIRTY = False\<rparr>) # cacheSaplingAnchors c\<rparr>) b)))"

fun GetNullifier :: "uint256 \<Rightarrow> CCoinsView \<Rightarrow> bool \<times> CCoinsView" where
  "GetNullifier nf (View_DB db) = (db_GetNullifier db nf, View_DB db)"
| "GetNullifier nf (View_Cache c b) = (case map_of (cacheSaplingNullifiers c) nf of
       Some e \<Rightarrow> (nf_entered e, View_Cache c b)
     | None \<Rightarrow> let (r, b) = GetNullifier nf b
               in (r, View_Cache (c\<lparr>cacheSaplingNullifiers :=
                    (nf, \<lparr>nf_entered = r, nf_DIRTY = False\<rparr>) # cacheSaplingNullifiers c\<rparr>) b))"

fun GetBestAnchor :: "TreeHash \<Rightarrow> CCoinsView \<Rightarrow> uint256 \<times> CCoinsView" where
  "GetBestAnchor H (View_DB db) = (db_GetBestAnchor H db, View_DB db)"
| "GetBestAnchor H (View_Cache c b) =
     (if uint256_IsNull (hashSaplingAnchor c)
      then let (h, b) = GetBestAnchor H b in (h, View_Cache (c\<lparr>hashSaplingAnchor := h\<rparr>) b)
      else (hashSaplingAnchor c, View_Cache c b))"

section \<open>Changing the top cache\<close>

text \<open>
  The operations of \<open>CCoinsViewCache\<close>, on a stack with a cache on top. None is a failed assertion or a
  \<open>logic_error\<close>; a database without a cache does not have these operations.
\<close>

fun fetch :: "COutPoint \<Rightarrow> CCoinsView \<Rightarrow> CCoinsCacheEntry option \<times> CCoinsView" where
  "fetch k (View_Cache c b) = (let (it, c, b) = FetchCoin k c b (GetCoin k b) in (it, View_Cache c b))"
| "fetch k (View_DB db) = (None, View_DB db)"

definition AccessCoin :: "COutPoint \<Rightarrow> CCoinsView \<Rightarrow> Coin \<times> CCoinsView" where
  "AccessCoin k v = (case fetch k v of (None, v) \<Rightarrow> (coinEmpty, v) | (Some e, v) \<Rightarrow> (coin e, v))"

fun HaveCoinInCache :: "COutPoint \<Rightarrow> CCoinsView \<Rightarrow> bool" where
  "HaveCoinInCache k (View_Cache c b) = (case map_of (cacheCoins c) k of Some e \<Rightarrow> \<not> IsSpent (coin e) | None \<Rightarrow> False)"
| "HaveCoinInCache k (View_DB db) = False"

definition CCoinsCacheEntry_default :: CCoinsCacheEntry where
  "CCoinsCacheEntry_default = \<lparr>coin = coinEmpty, DIRTY = False, FRESH = False\<rparr>"

definition add_coin :: "COutPoint \<Rightarrow> Coin \<Rightarrow> bool \<Rightarrow> CCoinsMap \<Rightarrow> CCoinsMap option" where
  "add_coin k coin' possible_overwrite m =
     (let e = (case map_of m k of Some e \<Rightarrow> e | None \<Rightarrow> CCoinsCacheEntry_default)
      in if \<not> possible_overwrite \<and> \<not> IsSpent (coin e) then None
         else let fresh = (\<not> possible_overwrite \<and> \<not> DIRTY e)
              in Some (AList.update k \<lparr>coin = coin', DIRTY = True, FRESH = FRESH e \<or> fresh\<rparr> m))"

fun AddCoin :: "COutPoint \<Rightarrow> Coin \<Rightarrow> bool \<Rightarrow> CCoinsView \<Rightarrow> CCoinsView option" where
  "AddCoin k coin' possible_overwrite (View_Cache c b) =
     (if IsSpent coin' then None
      else if IsUnspendable (scriptPubKey (coin_out coin')) then Some (View_Cache c b)
      else do {
        m \<leftarrow> add_coin k coin' possible_overwrite (cacheCoins c);
        Some (View_Cache (c\<lparr>cacheCoins := m\<rparr>) b) })"
| "AddCoin k coin' possible_overwrite (View_DB db) = None"

fun EmplaceCoinInternalDANGER :: "COutPoint \<Rightarrow> Coin \<Rightarrow> CCoinsView \<Rightarrow> CCoinsView" where
  "EmplaceCoinInternalDANGER k coin' (View_Cache c b) =
     (case map_of (cacheCoins c) k of
        Some e \<Rightarrow> View_Cache c b
      | None \<Rightarrow> View_Cache (c\<lparr>cacheCoins := (k, \<lparr>coin = coin', DIRTY = True, FRESH = False\<rparr>) # cacheCoins c\<rparr>) b)"
| "EmplaceCoinInternalDANGER k coin' (View_DB db) = View_DB db"

text \<open>\<open>GetHash\<close> is the hash of a transaction. The loop runs over the outputs with their index.\<close>

fun add_outputs :: "uint256 \<Rightarrow> int \<Rightarrow> bool \<Rightarrow> bool \<Rightarrow> (nat \<times> CTxOut) list \<Rightarrow> CCoinsView \<Rightarrow> CCoinsView option" where
  "add_outputs txid nHeight' fCoinbase check_for_overwrite [] v = Some v"
| "add_outputs txid nHeight' fCoinbase check_for_overwrite ((i, out) # outs) v =
     (let k = \<lparr>op_hash = txid, op_n = of_nat i\<rparr>;
          (overwrite, v) = (if check_for_overwrite then HaveCoin k v else (fCoinbase, v))
      in do {
        v \<leftarrow> AddCoin k (Coin_of out nHeight' fCoinbase) overwrite v;
        add_outputs txid nHeight' fCoinbase check_for_overwrite outs v })"

definition AddCoins :: "(CTransaction \<Rightarrow> uint256) \<Rightarrow> CTransaction \<Rightarrow> int \<Rightarrow> bool \<Rightarrow> CCoinsView \<Rightarrow> CCoinsView option" where
  "AddCoins GetHash tx nHeight' check_for_overwrite v =
     add_outputs (GetHash tx) nHeight' (IsCoinBase_tx tx) check_for_overwrite (enumerate 0 (vout tx)) v"

fun SpendCoin :: "COutPoint \<Rightarrow> CCoinsView \<Rightarrow> Coin option \<times> CCoinsView" where
  "SpendCoin k (View_Cache c b) = (case FetchCoin k c b (GetCoin k b) of
       (None, c, b) \<Rightarrow> (None, View_Cache c b)
     | (Some e, c, b) \<Rightarrow> (Some (coin e),
          View_Cache (c\<lparr>cacheCoins := (if FRESH e then AList.delete k (cacheCoins c)
             else AList.update k (e\<lparr>DIRTY := True, coin := Coin_Clear (coin e)\<rparr>) (cacheCoins c))\<rparr>) b))"
| "SpendCoin k (View_DB db) = (None, View_DB db)"

fun SetBestBlock :: "uint256 \<Rightarrow> CCoinsView \<Rightarrow> CCoinsView" where
  "SetBestBlock hashBlockIn (View_Cache c b) = View_Cache (c\<lparr>hashBlock := hashBlockIn\<rparr>) b"
| "SetBestBlock hashBlockIn (View_DB db) = View_DB db"

fun Uncache :: "COutPoint \<Rightarrow> CCoinsView \<Rightarrow> CCoinsView" where
  "Uncache k (View_Cache c b) = (case map_of (cacheCoins c) k of
       Some e \<Rightarrow> if \<not> DIRTY e \<and> \<not> FRESH e then View_Cache (c\<lparr>cacheCoins := AList.delete k (cacheCoins c)\<rparr>) b
                 else View_Cache c b
     | None \<Rightarrow> View_Cache c b)"
| "Uncache k (View_DB db) = View_DB db"

definition anchor_entry :: "CAnchorsSaplingMap \<Rightarrow> uint256 \<Rightarrow> CAnchorsSaplingCacheEntry" where
  "anchor_entry m rt = (case map_of m rt of Some e \<Rightarrow> e
     | None \<Rightarrow> \<lparr>anchor_entered = False, anchor_tree = IncrementalMerkleTree_default, anchor_DIRTY = False\<rparr>)"

definition PushAnchor :: "TreeHash \<Rightarrow> IncrementalMerkleTree \<Rightarrow> CCoinsView \<Rightarrow> CCoinsView" where
  "PushAnchor H tree v =
     (let newRoot = tree_root H SAPLING_INCREMENTAL_MERKLE_TREE_DEPTH tree; (currentRoot, v) = GetBestAnchor H v
      in if currentRoot = newRoot then v
         else case v of
           View_Cache c b \<Rightarrow> View_Cache (c\<lparr>cacheSaplingAnchors := AList.update newRoot
               \<lparr>anchor_entered = True, anchor_tree = tree, anchor_DIRTY = True\<rparr> (cacheSaplingAnchors c),
               hashSaplingAnchor := newRoot\<rparr>) b
         | View_DB db \<Rightarrow> View_DB db)"

definition PopAnchor :: "TreeHash \<Rightarrow> uint256 \<Rightarrow> CCoinsView \<Rightarrow> CCoinsView option" where
  "PopAnchor H newrt v =
     (let (currentRoot, v) = GetBestAnchor H v
      in if currentRoot = newrt then Some v
         else case GetSaplingAnchorAt H currentRoot v of
           (Some tree, View_Cache c b) \<Rightarrow> Some (View_Cache (c\<lparr>cacheSaplingAnchors := AList.update currentRoot
               ((anchor_entry (cacheSaplingAnchors c) currentRoot)\<lparr>anchor_entered := False, anchor_DIRTY := True\<rparr>)
               (cacheSaplingAnchors c), hashSaplingAnchor := newrt\<rparr>) b)
         | _ \<Rightarrow> None)"

definition set_nullifier :: "bool \<Rightarrow> uint256 \<Rightarrow> CNullifiersMap \<Rightarrow> CNullifiersMap" where
  "set_nullifier spent nf m = AList.update nf \<lparr>nf_entered = spent, nf_DIRTY = True\<rparr> m"

fun SetNullifiers :: "CTransaction \<Rightarrow> bool \<Rightarrow> CCoinsView \<Rightarrow> CCoinsView" where
  "SetNullifiers tx spent (View_Cache c b) =
     (if \<not> HasShieldedPayloadField tx then View_Cache c b
      else View_Cache (c\<lparr>cacheSaplingNullifiers :=
        fold (set_nullifier spent) (map nullifier (vShieldedSpend (sapData tx))) (cacheSaplingNullifiers c)\<rparr>) b)"
| "SetNullifiers tx spent (View_DB db) = View_DB db"

fun spends_available :: "TreeHash \<Rightarrow> SpendDescription list \<Rightarrow> CCoinsView \<Rightarrow> bool \<times> CCoinsView" where
  "spends_available H [] v = (True, v)"
| "spends_available H (d # ds) v =
     (let (used, v) = GetNullifier (nullifier d) v
      in if used then (False, v)
         else case GetSaplingAnchorAt H (spend_anchor d) v of
           (None, v) \<Rightarrow> (False, v) | (Some tree, v) \<Rightarrow> spends_available H ds v)"

definition HaveShieldedRequirements :: "TreeHash \<Rightarrow> CTransaction \<Rightarrow> CCoinsView \<Rightarrow> bool \<times> CCoinsView" where
  "HaveShieldedRequirements H tx v =
     (if \<not> HasShieldedPayload tx then (True, v) else spends_available H (vShieldedSpend (sapData tx)) v)"

fun have_all :: "COutPoint list \<Rightarrow> CCoinsView \<Rightarrow> bool \<times> CCoinsView" where
  "have_all [] v = (True, v)"
| "have_all (k # ks) v = (let (r, v) = HaveCoin k v in if \<not> r then (False, v) else have_all ks v)"

definition HaveInputs :: "CTransaction \<Rightarrow> CCoinsView \<Rightarrow> bool \<times> CCoinsView" where
  "HaveInputs tx v = (if \<not> IsCoinBase_tx tx then have_all (map prevout (vin tx)) v else (True, v))"

definition MAX_OUTPUTS_PER_BLOCK :: nat where
  "MAX_OUTPUTS_PER_BLOCK = MaxBlockSize True div length (ser_txout CTxOut_null)"

fun access_by_txid :: "nat \<Rightarrow> uint256 \<Rightarrow> u32 \<Rightarrow> CCoinsView \<Rightarrow> Coin \<times> CCoinsView" where
  "access_by_txid 0 txid i v = (coinEmpty, v)"
| "access_by_txid (Suc m) txid i v =
     (let (alternate, v) = AccessCoin \<lparr>op_hash = txid, op_n = i\<rparr> v
      in if \<not> IsSpent alternate then (alternate, v) else access_by_txid m txid (i + 1) v)"

definition AccessByTxid :: "uint256 \<Rightarrow> CCoinsView \<Rightarrow> Coin \<times> CCoinsView" where
  "AccessByTxid txid v = access_by_txid MAX_OUTPUTS_PER_BLOCK txid 0 v"

section \<open>Writing a cache back to its base\<close>

text \<open>One round of \<open>CCoinsViewCache::BatchWrite\<close>: an entry of the child against the map of the parent.\<close>

definition write_coin :: "COutPoint \<times> CCoinsCacheEntry \<Rightarrow> CCoinsMap \<Rightarrow> CCoinsMap option" where
  "write_coin = (\<lambda>(k, e) m.
     if \<not> DIRTY e then Some m
     else case map_of m k of
       None \<Rightarrow> if \<not> (FRESH e \<and> IsSpent (coin e))
               then Some (AList.update k \<lparr>coin = coin e, DIRTY = True, FRESH = FRESH e\<rparr> m) else Some m
     | Some us \<Rightarrow> if FRESH e \<and> \<not> IsSpent (coin us) then None
               else if FRESH us \<and> IsSpent (coin e) then Some (AList.delete k m)
               else Some (AList.update k (us\<lparr>coin := coin e, DIRTY := True\<rparr>) m))"

fun write_coins :: "CCoinsMap \<Rightarrow> CCoinsMap \<Rightarrow> CCoinsMap option" where
  "write_coins [] m = Some m"
| "write_coins (x # xs) m = do { m \<leftarrow> write_coin x m; write_coins xs m }"

definition write_anchor :: "uint256 \<times> CAnchorsSaplingCacheEntry \<Rightarrow> CAnchorsSaplingMap \<Rightarrow> CAnchorsSaplingMap" where
  "write_anchor = (\<lambda>(k, child) m.
     if \<not> anchor_DIRTY child then m
     else case map_of m k of
       None \<Rightarrow> AList.update k \<lparr>anchor_entered = anchor_entered child, anchor_tree = anchor_tree child,
                               anchor_DIRTY = True\<rparr> m
     | Some entry \<Rightarrow>
         let update_tree = (anchor_entered child \<and> anchor_tree entry \<noteq> anchor_tree child)
         in if anchor_entered entry \<noteq> anchor_entered child \<or> update_tree
            then AList.update k \<lparr>anchor_entered = anchor_entered child,
                   anchor_tree = (if update_tree then anchor_tree child else anchor_tree entry), anchor_DIRTY = True\<rparr> m
            else m)"

definition write_nullifier :: "uint256 \<times> CNullifiersCacheEntry \<Rightarrow> CNullifiersMap \<Rightarrow> CNullifiersMap" where
  "write_nullifier = (\<lambda>(k, child) m.
     if \<not> nf_DIRTY child then m
     else case map_of m k of
       None \<Rightarrow> AList.update k \<lparr>nf_entered = nf_entered child, nf_DIRTY = True\<rparr> m
     | Some entry \<Rightarrow> if nf_entered entry \<noteq> nf_entered child
                     then AList.update k \<lparr>nf_entered = nf_entered child, nf_DIRTY = True\<rparr> m else m)"

text \<open>
  \<open>BatchWrite\<close> of the maps of a child cache \<open>c\<close> into the view \<open>b\<close>. The parent and the child with the maps it is
  left with are returned: an erased map is empty, otherwise the flags of the shielded entries are cleared.
  The database erases the shielded maps in either case.
\<close>

definition clear_anchor :: "uint256 \<times> CAnchorsSaplingCacheEntry \<Rightarrow> uint256 \<times> CAnchorsSaplingCacheEntry" where
  "clear_anchor = (\<lambda>(k, e). (k, e\<lparr>anchor_DIRTY := False\<rparr>))"

definition clear_nullifier :: "uint256 \<times> CNullifiersCacheEntry \<Rightarrow> uint256 \<times> CNullifiersCacheEntry" where
  "clear_nullifier = (\<lambda>(k, e). (k, e\<lparr>nf_DIRTY := False\<rparr>))"

fun BatchWrite :: "TreeHash \<Rightarrow> (db_op list \<Rightarrow> bool) \<Rightarrow> bool \<Rightarrow> CCoinsViewCache \<Rightarrow> CCoinsView
    \<Rightarrow> (CCoinsViewCache \<times> CCoinsView) option" where
  "BatchWrite H too_big erase c (View_Cache p b) = do {
     m \<leftarrow> write_coins (cacheCoins c) (cacheCoins p);
     Some (c\<lparr>cacheCoins := (if erase then [] else cacheCoins c),
             cacheSaplingAnchors := (if erase then [] else map clear_anchor (cacheSaplingAnchors c)),
             cacheSaplingNullifiers := (if erase then [] else map clear_nullifier (cacheSaplingNullifiers c))\<rparr>,
           View_Cache (p\<lparr>cacheCoins := m,
             cacheSaplingAnchors := fold write_anchor (cacheSaplingAnchors c) (cacheSaplingAnchors p),
             cacheSaplingNullifiers := fold write_nullifier (cacheSaplingNullifiers c) (cacheSaplingNullifiers p),
             hashSaplingAnchor := hashSaplingAnchor c, hashBlock := hashBlock c\<rparr>) b) }"
| "BatchWrite H too_big erase c (View_DB db) = do {
     bs \<leftarrow> db_batches H too_big db (cacheCoins c) (hashBlock c) (hashSaplingAnchor c) (cacheSaplingAnchors c)
             (cacheSaplingNullifiers c);
     Some (c\<lparr>cacheCoins := (if erase then [] else cacheCoins c), cacheSaplingAnchors := [],
             cacheSaplingNullifiers := []\<rparr>,
           View_DB (fold apply_batch bs db)) }"

fun Flush :: "TreeHash \<Rightarrow> (db_op list \<Rightarrow> bool) \<Rightarrow> CCoinsView \<Rightarrow> CCoinsView option" where
  "Flush H too_big (View_Cache c b) = do {
     (c, b) \<leftarrow> BatchWrite H too_big True c b;
     if cacheCoins c \<noteq> [] then None
     else if cacheSaplingAnchors c \<noteq> [] \<or> cacheSaplingNullifiers c \<noteq> [] then None
     else Some (View_Cache c b) }"
| "Flush H too_big (View_DB db) = None"

fun sync_coins :: "CCoinsMap \<Rightarrow> CCoinsMap" where
  "sync_coins [] = []"
| "sync_coins ((k, e) # m) = (if IsSpent (coin e) then sync_coins m else (k, e\<lparr>DIRTY := False, FRESH := False\<rparr>) # sync_coins m)"

fun Sync :: "TreeHash \<Rightarrow> (db_op list \<Rightarrow> bool) \<Rightarrow> CCoinsView \<Rightarrow> CCoinsView option" where
  "Sync H too_big (View_Cache c b) = do {
     (c, b) \<leftarrow> BatchWrite H too_big False c b;
     Some (View_Cache (c\<lparr>cacheCoins := sync_coins (cacheCoins c)\<rparr>) b) }"
| "Sync H too_big (View_DB db) = None"

text \<open>
  The combinations of flags that \<open>SanityCheck\<close> asserts. The account of the memory in use, which it also recomputes, is not
  part of the model.
\<close>

fun SanityCheck :: "CCoinsView \<Rightarrow> bool" where
  "SanityCheck (View_Cache c b) = list_all (\<lambda>(k, entry).
     \<not> (\<not> DIRTY entry \<and> FRESH entry \<and> \<not> IsSpent (coin entry))
     \<and> \<not> (\<not> DIRTY entry \<and> \<not> FRESH entry \<and> IsSpent (coin entry))
     \<and> \<not> (DIRTY entry \<and> FRESH entry \<and> IsSpent (coin entry))) (cacheCoins c)"
| "SanityCheck (View_DB db) = True"

end
