(* ===== verification/Coins_Refinement.thy ===== *)
theory Coins_Refinement
  imports Coins
begin

text \<open>
A stack of coin caches stands for a set of unspent coins with the shielded state (\<open>state_of\<close>). The invariant
  \<open>view_ok\<close> says when the flags of the entries are right; every operation keeps it and does to the state what its
  name says, and a whole sequence of operations refines the same sequence on the abstract state. The last
  sections treat a crash in the middle of a database write and the best anchor that a nested flush drops.
\<close>

unbundle bit_operations_syntax

section \<open>What a stack of views stands for\<close>

definition unspent :: "Coin \<Rightarrow> Coin option" where
  "unspent c = (if IsSpent c then None else Some c)"

definition entered_tree :: "CAnchorsSaplingCacheEntry \<Rightarrow> IncrementalMerkleTree option" where
  "entered_tree e = (if anchor_entered e then Some (anchor_tree e) else None)"

text \<open>A map of cached answers in front of the answers of the base.\<close>

definition cached :: "('e \<Rightarrow> 'v) \<Rightarrow> ('k \<times> 'e) list \<Rightarrow> ('k \<Rightarrow> 'v) \<Rightarrow> 'k \<Rightarrow> 'v" where
  "cached val m par k = (case map_of m k of Some e \<Rightarrow> val e | None \<Rightarrow> par k)"

fun coins_of :: "CCoinsView \<Rightarrow> COutPoint \<Rightarrow> Coin option" where
  "coins_of (View_DB db) = db_coins db"
| "coins_of (View_Cache c b) = cached (\<lambda>e. unspent (coin e)) (cacheCoins c) (coins_of b)"

fun anchors_of :: "TreeHash \<Rightarrow> CCoinsView \<Rightarrow> uint256 \<Rightarrow> IncrementalMerkleTree option" where
  "anchors_of H (View_DB db) = db_GetSaplingAnchorAt H db"
| "anchors_of H (View_Cache c b) = cached entered_tree (cacheSaplingAnchors c) (anchors_of H b)"

fun nullifiers_of :: "CCoinsView \<Rightarrow> uint256 \<Rightarrow> bool" where
  "nullifiers_of (View_DB db) = db_GetNullifier db"
| "nullifiers_of (View_Cache c b) = cached nf_entered (cacheSaplingNullifiers c) (nullifiers_of b)"

fun best_block_of :: "CCoinsView \<Rightarrow> uint256" where
  "best_block_of (View_DB db) = db_GetBestBlock db"
| "best_block_of (View_Cache c b) = (if uint256_IsNull (hashBlock c) then best_block_of b else hashBlock c)"

fun best_anchor_of :: "TreeHash \<Rightarrow> CCoinsView \<Rightarrow> uint256" where
  "best_anchor_of H (View_DB db) = db_GetBestAnchor H db"
| "best_anchor_of H (View_Cache c b) =
     (if uint256_IsNull (hashSaplingAnchor c) then best_anchor_of H b else hashSaplingAnchor c)"

record UTXO =
  utxo_coins :: "COutPoint \<Rightarrow> Coin option"
  utxo_anchors :: "uint256 \<Rightarrow> IncrementalMerkleTree option"
  utxo_nullifiers :: "uint256 \<Rightarrow> bool"
  utxo_best_block :: uint256
  utxo_best_anchor :: uint256

definition state_of :: "TreeHash \<Rightarrow> CCoinsView \<Rightarrow> UTXO" where
  "state_of H v = \<lparr>utxo_coins = coins_of v, utxo_anchors = anchors_of H v, utxo_nullifiers = nullifiers_of v,
     utxo_best_block = best_block_of v, utxo_best_anchor = best_anchor_of H v\<rparr>"

section \<open>The invariant of the caches\<close>

text \<open>An entry that is not dirty repeats its parent, a fresh one has no coin in the parent.\<close>

definition entry_ok :: "Coin option \<Rightarrow> CCoinsCacheEntry \<Rightarrow> bool" where
  "entry_ok par e \<longleftrightarrow> (\<not> DIRTY e \<longrightarrow> unspent (coin e) = par) \<and> (FRESH e \<longrightarrow> par = None)
     \<and> \<not> (\<not> DIRTY e \<and> \<not> FRESH e \<and> IsSpent (coin e)) \<and> \<not> (DIRTY e \<and> FRESH e \<and> IsSpent (coin e))"

definition map_ok :: "('v \<Rightarrow> 'e \<Rightarrow> bool) \<Rightarrow> ('k \<Rightarrow> 'v) \<Rightarrow> ('k \<times> 'e) list \<Rightarrow> bool" where
  "map_ok ok par m \<longleftrightarrow> distinct (map fst m) \<and> (\<forall>k e. map_of m k = Some e \<longrightarrow> ok (par k) e)"

definition anchor_ok :: "IncrementalMerkleTree option \<Rightarrow> CAnchorsSaplingCacheEntry \<Rightarrow> bool" where
  "anchor_ok par e \<longleftrightarrow> (\<not> anchor_DIRTY e \<longrightarrow> entered_tree e = par)"

definition nullifier_ok :: "bool \<Rightarrow> CNullifiersCacheEntry \<Rightarrow> bool" where
  "nullifier_ok par e \<longleftrightarrow> (\<not> nf_DIRTY e \<longrightarrow> nf_entered e = par)"

abbreviation (input) sapling_empty_root :: "TreeHash \<Rightarrow> uint256" where
  "sapling_empty_root H \<equiv> empty_root H SAPLING_INCREMENTAL_MERKLE_TREE_DEPTH"

fun view_ok :: "TreeHash \<Rightarrow> CCoinsView \<Rightarrow> bool" where
  "view_ok H (View_DB db) \<longleftrightarrow> (\<forall>k c. db_coins db k = Some c \<longrightarrow> \<not> IsSpent c)"
| "view_ok H (View_Cache c b) \<longleftrightarrow> view_ok H b \<and> map_ok entry_ok (coins_of b) (cacheCoins c)
     \<and> map_ok anchor_ok (anchors_of H b) (cacheSaplingAnchors c)
     \<and> map_ok nullifier_ok (nullifiers_of b) (cacheSaplingNullifiers c)
     \<and> anchors_of H (View_Cache c b) (sapling_empty_root H) = Some IncrementalMerkleTree_default"

lemma cached_Cons: "cached val ((k, e) # m) par = (cached val m par)(k := val e)"
  by (auto simp: cached_def)

lemma cached_update: "cached val (AList.update k e m) par = (cached val m par)(k := val e)"
  by (auto simp: cached_def update_conv')

lemma cached_Nil [simp]: "cached val [] par = par"
  by (auto simp: cached_def)

lemma cached_delete:
  "distinct (map fst m) \<Longrightarrow> cached val (AList.delete k m) par = (cached val m par)(k := par k)"
  by (auto simp: cached_def delete_conv')

lemma map_ok_Cons: "map_of m k = None \<Longrightarrow> map_ok ok par m \<Longrightarrow> ok (par k) e \<Longrightarrow> map_ok ok par ((k, e) # m)"
  by (auto simp: map_ok_def map_of_eq_None_iff)

lemma map_ok_update: "map_ok ok par m \<Longrightarrow> ok (par k) e \<Longrightarrow> map_ok ok par (AList.update k e m)"
  by (auto simp: map_ok_def update_conv' distinct_update)

lemma map_ok_delete: "map_ok ok par m \<Longrightarrow> map_ok ok par (AList.delete k m)"
  by (auto simp: map_ok_def delete_conv' distinct_delete)

lemma map_ok_par: "map_ok ok par m \<Longrightarrow> (\<And>k e. map_of m k = Some e \<Longrightarrow> par' k = par k) \<Longrightarrow> map_ok ok par' m"
  by (auto simp: map_ok_def)

lemma map_ok_Nil [simp]: "map_ok ok par []"
  by (simp add: map_ok_def)

lemma coins_unspent: "view_ok H v \<Longrightarrow> coins_of v k = Some c \<Longrightarrow> \<not> IsSpent c"
  by (induction v arbitrary: c) (auto simp: cached_def unspent_def split: option.splits if_splits)

lemma empty_root_anchor: "view_ok H v \<Longrightarrow> anchors_of H v (sapling_empty_root H) = Some IncrementalMerkleTree_default"
  by (cases v) (auto simp: db_GetSaplingAnchorAt_def)

section \<open>Reading changes nothing\<close>

definition same :: "TreeHash \<Rightarrow> CCoinsView \<Rightarrow> CCoinsView \<Rightarrow> bool" where
  "same H v v' \<longleftrightarrow> view_ok H v' \<and> state_of H v' = state_of H v"

lemma same_refl: "view_ok H v \<Longrightarrow> same H v v"
  by (simp add: same_def)

lemma same_trans: "same H u v \<Longrightarrow> same H v w \<Longrightarrow> same H u w"
  by (simp add: same_def)

lemma same_base:
  assumes "view_ok H (View_Cache c b)" "same H b b'"
  shows "same H (View_Cache c b) (View_Cache c b')"
  using assms by (simp add: same_def state_of_def)

lemma same_coins: "same H v v' \<Longrightarrow> coins_of v' = coins_of v"
  by (simp add: same_def state_of_def)

lemma same_fields:
  assumes "view_ok H (View_Cache c b)" "map_ok entry_ok (coins_of b) m"
    "cached (\<lambda>e. unspent (coin e)) m (coins_of b) = coins_of (View_Cache c b)"
  shows "same H (View_Cache c b) (View_Cache (c\<lparr>cacheCoins := m\<rparr>) b)"
  using assms by (simp add: same_def state_of_def)

lemma cached_fill: "map_of m k = None \<Longrightarrow> val e = par k \<Longrightarrow> cached val ((k, e) # m) par = cached val m par"
  by (auto simp: cached_def)

lemma GetCoin_spec:
  "view_ok H v \<Longrightarrow> fst (GetCoin k v) = coins_of v k \<and> same H v (snd (GetCoin k v))"
proof (induction v)
  case (View_DB db)
  then show ?case by (simp add: same_def)
next
  case (View_Cache c b)
  show ?case
  proof (cases "map_of (cacheCoins c) k")
    case None
    obtain b' where b': "GetCoin k b = (coins_of b k, b')" "same H b b'"
      using View_Cache by (cases "GetCoin k b") auto
    have base: "same H (View_Cache c b) (View_Cache c b')"
      by (rule same_base [OF View_Cache.prems b'(2)])
    show ?thesis
    proof (cases "coins_of b k")
      case (Some d)
      let ?e = "\<lparr>coin = d, DIRTY = False, FRESH = False\<rparr>"
      have d: "\<not> IsSpent d" "coins_of b' k = Some d"
        using coins_unspent [of H b k d] View_Cache.prems Some same_coins [OF b'(2)] by auto
      have "same H (View_Cache c b') (View_Cache (c\<lparr>cacheCoins := (k, ?e) # cacheCoins c\<rparr>) b')"
        using base d None
        by (intro same_fields map_ok_Cons) (auto simp: same_def entry_ok_def unspent_def cached_fill)
      then show ?thesis
        using None Some b' d same_trans [OF base] by (simp add: FetchCoin_def cached_def Let_def)
    qed (use None b' base in \<open>simp add: FetchCoin_def cached_def\<close>)
  qed (use View_Cache.prems same_refl in \<open>simp add: FetchCoin_def cached_def unspent_def\<close>)
qed

lemma fetch_spec:
  assumes "view_ok H (View_Cache c b)"
  shows "\<exists>it c' b'. fetch k (View_Cache c b) = (it, View_Cache c' b') \<and> same H (View_Cache c b) (View_Cache c' b')
    \<and> FetchCoin k c b (GetCoin k b) = (it, c', b')
    \<and> map_of (cacheCoins c') k = it \<and> coins_of (View_Cache c b) k = Option.bind it (\<lambda>e. unspent (coin e))"
proof -
  obtain it c' b' where f: "FetchCoin k c b (GetCoin k b) = (it, c', b')" by (metis prod_cases3)
  have s: "same H (View_Cache c b) (View_Cache c' b')"
    using GetCoin_spec [OF assms, of k] f by (simp add: Let_def)
  have "map_of (cacheCoins c') k = it"
    using f by (auto simp: FetchCoin_def Let_def split: option.splits prod.splits)
  moreover have "coins_of (View_Cache c b) k = Option.bind it (\<lambda>e. unspent (coin e))"
    using GetCoin_spec [OF assms, of k] f by (auto simp: Let_def unspent_def split: option.splits)
  ultimately show ?thesis using f s by simp
qed

lemma HaveCoin_spec:
  assumes "view_ok H v"
  shows "fst (HaveCoin k v) = (coins_of v k \<noteq> None) \<and> same H v (snd (HaveCoin k v))"
  using GetCoin_spec [OF assms, of k] by (simp add: HaveCoin_def split_def)

lemma AccessCoin_spec:
  assumes "view_ok H (View_Cache c b)"
  shows "same H (View_Cache c b) (snd (AccessCoin k (View_Cache c b)))"
    "coins_of (View_Cache c b) k = unspent (fst (AccessCoin k (View_Cache c b)))"
  using fetch_spec [OF assms, of k]
  by (auto simp: AccessCoin_def unspent_def coinEmpty_def IsSpent_def CTxOut_IsNull_def CTxOut_null_def split: option.splits)

lemma same_hashes:
  assumes "view_ok H (View_Cache c b)"
  shows "uint256_IsNull (hashBlock c) \<Longrightarrow> same H (View_Cache c b) (View_Cache (c\<lparr>hashBlock := best_block_of b\<rparr>) b)"
    "uint256_IsNull (hashSaplingAnchor c)
      \<Longrightarrow> same H (View_Cache c b) (View_Cache (c\<lparr>hashSaplingAnchor := best_anchor_of H b\<rparr>) b)"
  using assms by (simp_all add: same_def state_of_def)

lemma same_ok: "same H v v' \<Longrightarrow> view_ok H v'"
  by (simp add: same_def)

lemma same_best: "same H v v' \<Longrightarrow> best_block_of v' = best_block_of v \<and> best_anchor_of H v' = best_anchor_of H v"
  by (simp add: same_def state_of_def)

lemma GetBestBlock_spec:
  "view_ok H v \<Longrightarrow> fst (GetBestBlock v) = best_block_of v \<and> same H v (snd (GetBestBlock v))"
proof (induction v)
  case (View_Cache c b)
  then obtain b' where b': "GetBestBlock b = (best_block_of b, b')" "same H b b'"
    by (cases "GetBestBlock b") auto
  have base: "same H (View_Cache c b) (View_Cache c b')" by (rule same_base [OF View_Cache.prems b'(2)])
  show ?case
    using same_trans [OF base same_hashes(1) [OF same_ok [OF base]]] same_refl [OF View_Cache.prems] b'(1) same_best [OF b'(2)]
    by simp
qed (simp add: same_def)

lemma GetBestAnchor_spec:
  "view_ok H v \<Longrightarrow> fst (GetBestAnchor H v) = best_anchor_of H v \<and> same H v (snd (GetBestAnchor H v))"
proof (induction v)
  case (View_Cache c b)
  then obtain b' where b': "GetBestAnchor H b = (best_anchor_of H b, b')" "same H b b'"
    by (cases "GetBestAnchor H b") auto
  have base: "same H (View_Cache c b) (View_Cache c b')" by (rule same_base [OF View_Cache.prems b'(2)])
  show ?case
    using same_trans [OF base same_hashes(2) [OF same_ok [OF base]]] same_refl [OF View_Cache.prems] b'(1) same_best [OF b'(2)]
    by simp
qed (simp add: same_def)

lemma GetSaplingAnchorAt_spec:
  "view_ok H v \<Longrightarrow> fst (GetSaplingAnchorAt H rt v) = anchors_of H v rt \<and> same H v (snd (GetSaplingAnchorAt H rt v))"
proof (induction v)
  case (View_Cache c b)
  show ?case
  proof (cases "map_of (cacheSaplingAnchors c) rt")
    case None
    obtain b' where b': "GetSaplingAnchorAt H rt b = (anchors_of H b rt, b')" "same H b b'"
      using View_Cache by (cases "GetSaplingAnchorAt H rt b") auto
    have base: "same H (View_Cache c b) (View_Cache c b')" by (rule same_base [OF View_Cache.prems b'(2)])
    have "same H (View_Cache c b) (View_Cache (c\<lparr>cacheSaplingAnchors :=
        (rt, \<lparr>anchor_entered = True, anchor_tree = t, anchor_DIRTY = False\<rparr>) # cacheSaplingAnchors c\<rparr>) b')"
      if "anchors_of H b rt = Some t" for t
      using base b'(2) None that
      by (auto simp: same_def state_of_def anchor_ok_def entered_tree_def cached_fill intro!: map_ok_Cons)
    then show ?thesis using None b' base by (auto simp: cached_def split: option.splits)
  qed (use View_Cache.prems same_refl in \<open>simp add: cached_def entered_tree_def\<close>)
qed (simp add: same_def)

lemma GetNullifier_spec:
  "view_ok H v \<Longrightarrow> fst (GetNullifier nf v) = nullifiers_of v nf \<and> same H v (snd (GetNullifier nf v))"
proof (induction v)
  case (View_Cache c b)
  show ?case
  proof (cases "map_of (cacheSaplingNullifiers c) nf")
    case None
    obtain b' where b': "GetNullifier nf b = (nullifiers_of b nf, b')" "same H b b'"
      using View_Cache by (cases "GetNullifier nf b") auto
    have base: "same H (View_Cache c b) (View_Cache c b')" by (rule same_base [OF View_Cache.prems b'(2)])
    have "same H (View_Cache c b) (View_Cache (c\<lparr>cacheSaplingNullifiers :=
        (nf, \<lparr>nf_entered = nullifiers_of b nf, nf_DIRTY = False\<rparr>) # cacheSaplingNullifiers c\<rparr>) b')"
      using base b'(2) None
      by (auto simp: same_def state_of_def nullifier_ok_def cached_fill intro!: map_ok_Cons)
    then show ?thesis using None b' by (simp add: cached_def)
  qed (use View_Cache.prems same_refl in \<open>simp add: cached_def\<close>)
qed (simp add: same_def)

text \<open>Reading never changes the kind of the top view.\<close>

lemma same_cache:
  "\<exists>c' b'. snd (GetCoin k (View_Cache c b)) = View_Cache c' b'"
  "\<exists>c' b'. snd (GetBestAnchor H (View_Cache c b)) = View_Cache c' b'"
  "\<exists>c' b'. snd (GetSaplingAnchorAt H rt (View_Cache c b)) = View_Cache c' b'"
  "\<exists>c' b'. snd (GetNullifier nf (View_Cache c b)) = View_Cache c' b'"
  by (auto simp: Let_def split: prod.splits option.splits)

section \<open>The operations on the state they stand for\<close>

lemma view_ok_coins:
  "view_ok H (View_Cache c b) \<Longrightarrow> map_ok entry_ok (coins_of b) m \<Longrightarrow> view_ok H (View_Cache (c\<lparr>cacheCoins := m\<rparr>) b)"
  by simp

lemma state_of_coins:
  "state_of H (View_Cache (c\<lparr>cacheCoins := m\<rparr>) b) =
     (state_of H (View_Cache c b))\<lparr>utxo_coins := cached (\<lambda>e. unspent (coin e)) m (coins_of b)\<rparr>"
  by (simp add: state_of_def)

lemma state_of_same_coins:
  "same H v v' \<Longrightarrow> coins_of v k = None \<Longrightarrow> state_of H v' = (state_of H v)\<lparr>utxo_coins := (coins_of v)(k := None)\<rparr>"
  by (simp add: same_def state_of_def fun_upd_idem)

lemma IsSpent_empty [simp]: "IsSpent coinEmpty"
  by (simp add: coinEmpty_def IsSpent_def CTxOut_IsNull_def CTxOut_null_def)

lemma add_coin_ok:
  assumes "map_ok entry_ok par m" "\<not> IsSpent c" "\<not> over \<longrightarrow> cached (\<lambda>e. unspent (coin e)) m par k = None"
  shows "\<exists>m'. add_coin k c over m = Some m' \<and> map_ok entry_ok par m'
    \<and> cached (\<lambda>e. unspent (coin e)) m' par = (cached (\<lambda>e. unspent (coin e)) m par)(k \<mapsto> c)"
proof -
  let ?e = "case map_of m k of Some e \<Rightarrow> e | None \<Rightarrow> CCoinsCacheEntry_default"
  let ?e' = "\<lparr>coin = c, DIRTY = True, FRESH = FRESH ?e \<or> (\<not> over \<and> \<not> DIRTY ?e)\<rparr>"
  have e: "entry_ok (par k) ?e \<or> map_of m k = None" using assms(1) by (auto simp: map_ok_def split: option.splits)
  have old1: "\<not> over \<longrightarrow> IsSpent (coin ?e)"
    using assms(3) by (cases "map_of m k") (auto simp: cached_def unspent_def CCoinsCacheEntry_default_def split: if_splits)
  have old2: "entry_ok (par k) ?e'"
    using assms(2,3) e
    by (cases "map_of m k") (auto simp: cached_def unspent_def entry_ok_def CCoinsCacheEntry_default_def split: if_splits)
  have "add_coin k c over m = Some (AList.update k ?e' m)" using old1 by (auto simp: add_coin_def Let_def)
  moreover have "map_ok entry_ok par (AList.update k ?e' m)" by (rule map_ok_update [OF assms(1) old2])
  moreover have "cached (\<lambda>e. unspent (coin e)) (AList.update k ?e' m) par = (cached (\<lambda>e. unspent (coin e)) m par)(k \<mapsto> c)"
    unfolding cached_update using assms(2) by (simp add: unspent_def)
  ultimately show ?thesis by blast
qed

lemma AddCoin_spec:
  assumes "view_ok H (View_Cache c b)" "\<not> IsSpent d" "\<not> over \<longrightarrow> coins_of (View_Cache c b) k = None"
  shows "\<exists>c'. AddCoin k d over (View_Cache c b) = Some (View_Cache c' b) \<and> view_ok H (View_Cache c' b)
    \<and> state_of H (View_Cache c' b) = (if IsUnspendable (scriptPubKey (coin_out d)) then state_of H (View_Cache c b)
        else (state_of H (View_Cache c b))\<lparr>utxo_coins := (coins_of (View_Cache c b))(k \<mapsto> d)\<rparr>)"
proof (cases "IsUnspendable (scriptPubKey (coin_out d))")
  case False
  obtain m where m: "add_coin k d over (cacheCoins c) = Some m" "map_ok entry_ok (coins_of b) m"
    "cached (\<lambda>e. unspent (coin e)) m (coins_of b) = (coins_of (View_Cache c b))(k \<mapsto> d)"
    using add_coin_ok [of "coins_of b" "cacheCoins c" d over k] assms by auto
  then show ?thesis
    using False assms(2) view_ok_coins [OF assms(1) m(2)] state_of_coins [where H = H and c = c and b = b and m = m]
    by (simp del: coins_of.simps view_ok.simps)
qed (use assms in simp)

lemma unspent_Clear [simp]: "IsSpent (Coin_Clear c)" "unspent (Coin_Clear c) = None"
  by (simp_all add: unspent_def IsSpent_def Coin_Clear_def CTxOut_IsNull_def CTxOut_null_def)

lemma SpendCoin_spec:
  assumes "view_ok H (View_Cache c b)"
  shows "\<exists>r c' b'. SpendCoin k (View_Cache c b) = (r, View_Cache c' b') \<and> view_ok H (View_Cache c' b')
    \<and> coins_of (View_Cache c b) k = Option.bind r unspent
    \<and> state_of H (View_Cache c' b') = (state_of H (View_Cache c b))\<lparr>utxo_coins := (coins_of (View_Cache c b))(k := None)\<rparr>"
proof -
  obtain it c' b' where f: "FetchCoin k c b (GetCoin k b) = (it, c', b')" "same H (View_Cache c b) (View_Cache c' b')"
    "map_of (cacheCoins c') k = it" "coins_of (View_Cache c b) k = Option.bind it (\<lambda>e. unspent (coin e))"
    using fetch_spec [OF assms, of k] by blast
  show ?thesis
  proof (cases it)
    case None
    then have "coins_of (View_Cache c b) k = None" using f(4) by simp
    from state_of_same_coins [OF f(2) this]
    have "state_of H (View_Cache c' b') = (state_of H (View_Cache c b))\<lparr>utxo_coins := (coins_of (View_Cache c b))(k := None)\<rparr>" .
    moreover have "view_ok H (View_Cache c' b')" using f(2) by (simp only: same_def)
    moreover have "SpendCoin k (View_Cache c b) = (None, View_Cache c' b')" using None f(1) by simp
    moreover have "coins_of (View_Cache c b) k = Option.bind None unspent" using None f(4) by simp
    ultimately show ?thesis by blast
  next
    case (Some e)
    have v: "view_ok H (View_Cache c' b')" "state_of H (View_Cache c' b') = state_of H (View_Cache c b)"
      using f(2) by (simp_all only: same_def)
    have ok: "map_ok entry_ok (coins_of b') (cacheCoins c')" "entry_ok (coins_of b' k) e" "distinct (map fst (cacheCoins c'))"
      using v(1) f(3) Some by (auto simp: map_ok_def)
    have same: "cached (\<lambda>e. unspent (coin e)) (cacheCoins c') (coins_of b') = coins_of (View_Cache c b)"
      using same_coins [OF f(2)] by simp
    have clear: "entry_ok (coins_of b' k) (e\<lparr>DIRTY := True, coin := Coin_Clear (coin e)\<rparr>)" if "\<not> FRESH e"
      using ok(2) that by (simp add: entry_ok_def)
    let ?m = "if FRESH e then AList.delete k (cacheCoins c')
        else AList.update k (e\<lparr>DIRTY := True, coin := Coin_Clear (coin e)\<rparr>) (cacheCoins c')"
    have "map_ok entry_ok (coins_of b') ?m" using ok(1) clear by (simp add: map_ok_delete map_ok_update)
    then have "view_ok H (View_Cache (c'\<lparr>cacheCoins := ?m\<rparr>) b')" by (rule view_ok_coins [OF v(1)])
    moreover have m: "cached (\<lambda>e. unspent (coin e)) ?m (coins_of b') = (coins_of (View_Cache c b))(k := None)"
      unfolding same [symmetric] using ok(2,3) by (cases "FRESH e") (simp_all add: cached_delete cached_update entry_ok_def)
    have "state_of H (View_Cache (c'\<lparr>cacheCoins := ?m\<rparr>) b')
        = (state_of H (View_Cache c b))\<lparr>utxo_coins := (coins_of (View_Cache c b))(k := None)\<rparr>"
      unfolding state_of_coins v(2) m ..
    moreover have "SpendCoin k (View_Cache c b) = (Some (coin e), View_Cache (c'\<lparr>cacheCoins := ?m\<rparr>) b')"
      using Some f(1) by simp
    moreover have "coins_of (View_Cache c b) k = Option.bind (Some (coin e)) unspent" using Some f(4) by simp
    ultimately show ?thesis by blast
  qed
qed

lemma Uncache_spec:
  assumes "view_ok H (View_Cache c b)"
  shows "\<exists>c'. Uncache k (View_Cache c b) = View_Cache c' b \<and> same H (View_Cache c b) (View_Cache c' b)"
proof (cases "\<exists>e. map_of (cacheCoins c) k = Some e \<and> \<not> DIRTY e \<and> \<not> FRESH e")
  case True
  then obtain e where e: "map_of (cacheCoins c) k = Some e" "\<not> DIRTY e" "\<not> FRESH e" by blast
  let ?m = "AList.delete k (cacheCoins c)"
  have ok: "map_ok entry_ok (coins_of b) (cacheCoins c)" using assms by simp
  then have "unspent (coin e) = coins_of b k" "distinct (map fst (cacheCoins c))"
    using e by (auto simp: map_ok_def entry_ok_def)
  then have "cached (\<lambda>e. unspent (coin e)) ?m (coins_of b) = coins_of (View_Cache c b)"
    using e(1) by (auto simp: cached_delete cached_def)
  then have "same H (View_Cache c b) (View_Cache (c\<lparr>cacheCoins := ?m\<rparr>) b)"
    by (rule same_fields [OF assms map_ok_delete [OF ok]])
  then show ?thesis using e by simp
qed (use same_refl [OF assms] in \<open>auto split: option.splits\<close>)

lemma SetBestBlock_spec:
  assumes "view_ok H (View_Cache c b)" "\<not> uint256_IsNull h"
  shows "view_ok H (SetBestBlock h (View_Cache c b))
    \<and> state_of H (SetBestBlock h (View_Cache c b)) = (state_of H (View_Cache c b))\<lparr>utxo_best_block := h\<rparr>"
  using assms by (simp add: state_of_def)

lemma view_ok_anchors:
  assumes "view_ok H (View_Cache c b)" "map_ok anchor_ok (anchors_of H b) m"
    "cached entered_tree m (anchors_of H b) (sapling_empty_root H) = Some IncrementalMerkleTree_default"
  shows "view_ok H (View_Cache (c\<lparr>cacheSaplingAnchors := m, hashSaplingAnchor := h\<rparr>) b)"
  using assms by simp

lemma state_of_anchors:
  "\<not> uint256_IsNull h \<Longrightarrow> state_of H (View_Cache (c\<lparr>cacheSaplingAnchors := m, hashSaplingAnchor := h\<rparr>) b) =
     (state_of H (View_Cache c b))\<lparr>utxo_anchors := cached entered_tree m (anchors_of H b), utxo_best_anchor := h\<rparr>"
  by (simp add: state_of_def)

lemma change_anchor:
  assumes "view_ok H (View_Cache c b)" "anchor_DIRTY e" "\<not> uint256_IsNull h"
    "rt = sapling_empty_root H \<longrightarrow> entered_tree e = Some IncrementalMerkleTree_default"
  shows "view_ok H (View_Cache (c\<lparr>cacheSaplingAnchors := AList.update rt e (cacheSaplingAnchors c), hashSaplingAnchor := h\<rparr>) b)"
    "state_of H (View_Cache (c\<lparr>cacheSaplingAnchors := AList.update rt e (cacheSaplingAnchors c), hashSaplingAnchor := h\<rparr>) b)
      = (state_of H (View_Cache c b))\<lparr>utxo_anchors := (anchors_of H (View_Cache c b))(rt := entered_tree e), utxo_best_anchor := h\<rparr>"
proof -
  have "map_ok anchor_ok (anchors_of H b) (AList.update rt e (cacheSaplingAnchors c))"
    by (rule map_ok_update) (use assms(1,2) in \<open>simp_all add: anchor_ok_def\<close>)
  moreover have "cached entered_tree (AList.update rt e (cacheSaplingAnchors c)) (anchors_of H b) (sapling_empty_root H)
      = Some IncrementalMerkleTree_default"
    using assms(1,4) by (auto simp: cached_update)
  ultimately show "view_ok H (View_Cache (c\<lparr>cacheSaplingAnchors := AList.update rt e (cacheSaplingAnchors c), hashSaplingAnchor := h\<rparr>) b)"
    by (rule view_ok_anchors [OF assms(1)])
qed (simp add: state_of_anchors [OF assms(3)] cached_update)

lemma PushAnchor_spec:
  fixes tree
  defines "rt H \<equiv> tree_root H SAPLING_INCREMENTAL_MERKLE_TREE_DEPTH tree"
  assumes "view_ok H (View_Cache c b)" "\<not> uint256_IsNull (rt H)"
    "rt H = sapling_empty_root H \<longrightarrow> tree = IncrementalMerkleTree_default"
  shows "\<exists>c' b'. PushAnchor H tree (View_Cache c b) = View_Cache c' b' \<and> view_ok H (View_Cache c' b')
    \<and> state_of H (View_Cache c' b') = (if best_anchor_of H (View_Cache c b) = rt H then state_of H (View_Cache c b)
        else (state_of H (View_Cache c b))\<lparr>utxo_anchors := (anchors_of H (View_Cache c b))(rt H \<mapsto> tree), utxo_best_anchor := rt H\<rparr>)"
proof -
  obtain c' b' where g: "GetBestAnchor H (View_Cache c b) = (best_anchor_of H (View_Cache c b), View_Cache c' b')"
    "same H (View_Cache c b) (View_Cache c' b')"
    using GetBestAnchor_spec [OF assms(2)] same_cache(2) [of H c b] by (metis prod.collapse)
  let ?e = "\<lparr>anchor_entered = True, anchor_tree = tree, anchor_DIRTY = True\<rparr>"
  have s: "view_ok H (View_Cache c' b')" "state_of H (View_Cache c' b') = state_of H (View_Cache c b)"
    "anchors_of H (View_Cache c' b') = anchors_of H (View_Cache c b)"
    using g(2) by (simp_all add: same_def state_of_def del: view_ok.simps anchors_of.simps coins_of.simps
        nullifiers_of.simps best_block_of.simps best_anchor_of.simps)
  show ?thesis
    using change_anchor [OF s(1), of ?e "rt H" "rt H"] assms(3,4) s g(1)
    by (auto simp: PushAnchor_def Let_def rt_def entered_tree_def simp del: view_ok.simps anchors_of.simps best_anchor_of.simps)
qed

lemma PopAnchor_spec:
  assumes "view_ok H (View_Cache c b)" "\<not> uint256_IsNull newrt"
    "best_anchor_of H (View_Cache c b) \<noteq> newrt \<longrightarrow> anchors_of H (View_Cache c b) (best_anchor_of H (View_Cache c b)) \<noteq> None
       \<and> best_anchor_of H (View_Cache c b) \<noteq> sapling_empty_root H"
  shows "\<exists>c' b'. PopAnchor H newrt (View_Cache c b) = Some (View_Cache c' b') \<and> view_ok H (View_Cache c' b')
    \<and> state_of H (View_Cache c' b') = (if best_anchor_of H (View_Cache c b) = newrt then state_of H (View_Cache c b)
        else (state_of H (View_Cache c b))\<lparr>utxo_anchors := (anchors_of H (View_Cache c b))(best_anchor_of H (View_Cache c b) := None),
               utxo_best_anchor := newrt\<rparr>)"
proof -
  let ?cur = "best_anchor_of H (View_Cache c b)"
  obtain c1 b1 where g: "GetBestAnchor H (View_Cache c b) = (?cur, View_Cache c1 b1)" "same H (View_Cache c b) (View_Cache c1 b1)"
    using GetBestAnchor_spec [OF assms(1)] same_cache(2) [of H c b] by (metis prod.collapse)
  obtain c2 b2 where a: "GetSaplingAnchorAt H ?cur (View_Cache c1 b1) = (anchors_of H (View_Cache c1 b1) ?cur, View_Cache c2 b2)"
    "same H (View_Cache c1 b1) (View_Cache c2 b2)"
    using GetSaplingAnchorAt_spec [OF same_ok [OF g(2)], of ?cur] same_cache(3) [of H ?cur c1 b1] by (metis prod.collapse)
  have s: "view_ok H (View_Cache c2 b2)" "state_of H (View_Cache c2 b2) = state_of H (View_Cache c b)"
    "anchors_of H (View_Cache c2 b2) = anchors_of H (View_Cache c b)" "anchors_of H (View_Cache c1 b1) = anchors_of H (View_Cache c b)"
    "view_ok H (View_Cache c1 b1)" "state_of H (View_Cache c1 b1) = state_of H (View_Cache c b)"
    using g(2) a(2) by (simp_all add: same_def state_of_def del: view_ok.simps anchors_of.simps coins_of.simps
        nullifiers_of.simps best_block_of.simps best_anchor_of.simps)
  let ?e = "(anchor_entry (cacheSaplingAnchors c2) ?cur)\<lparr>anchor_entered := False, anchor_DIRTY := True\<rparr>"
  show ?thesis
    using change_anchor [OF s(1), of ?e newrt ?cur] assms(2,3) s g(1) a(1)
    by (auto simp: PopAnchor_def Let_def entered_tree_def simp del: view_ok.simps anchors_of.simps best_anchor_of.simps)
qed

definition nullify :: "bool \<Rightarrow> CTransaction \<Rightarrow> (uint256 \<Rightarrow> bool) \<Rightarrow> uint256 \<Rightarrow> bool" where
  "nullify spent tx f = (\<lambda>nf. if HasShieldedPayloadField tx \<and> nf \<in> nullifier ` set (vShieldedSpend (sapData tx)) then spent else f nf)"

lemma fold_set_nullifier:
  assumes "map_ok nullifier_ok par m"
  shows "map_ok nullifier_ok par (fold (set_nullifier spent) nfs m)
    \<and> cached nf_entered (fold (set_nullifier spent) nfs m) par = (\<lambda>nf. if nf \<in> set nfs then spent else cached nf_entered m par nf)"
  using assms
proof (induction nfs arbitrary: m)
  case (Cons nf nfs)
  have "map_ok nullifier_ok par (set_nullifier spent nf m)"
    unfolding set_nullifier_def by (rule map_ok_update [OF Cons.prems]) (simp add: nullifier_ok_def)
  from Cons.IH [OF this] show ?case
    by (auto simp: set_nullifier_def cached_update fun_eq_iff)
qed simp

lemma SetNullifiers_spec:
  assumes "view_ok H (View_Cache c b)"
  shows "\<exists>c'. SetNullifiers tx spent (View_Cache c b) = View_Cache c' b \<and> view_ok H (View_Cache c' b)
    \<and> state_of H (View_Cache c' b) = (state_of H (View_Cache c b))\<lparr>utxo_nullifiers := nullify spent tx (nullifiers_of (View_Cache c b))\<rparr>"
proof (cases "HasShieldedPayloadField tx")
  case True
  let ?m = "fold (set_nullifier spent) (map nullifier (vShieldedSpend (sapData tx))) (cacheSaplingNullifiers c)"
  have m: "map_ok nullifier_ok (nullifiers_of b) ?m" "cached nf_entered ?m (nullifiers_of b) = nullify spent tx (nullifiers_of (View_Cache c b))"
    using fold_set_nullifier [of "nullifiers_of b" "cacheSaplingNullifiers c" spent] assms True by (auto simp: nullify_def)
  have "view_ok H (View_Cache (c\<lparr>cacheSaplingNullifiers := ?m\<rparr>) b)" using assms m(1) by simp
  moreover have "state_of H (View_Cache (c\<lparr>cacheSaplingNullifiers := ?m\<rparr>) b)
      = (state_of H (View_Cache c b))\<lparr>utxo_nullifiers := nullify spent tx (nullifiers_of (View_Cache c b))\<rparr>"
    using m(2) by (simp add: state_of_def)
  ultimately show ?thesis using True by auto
next
  case False
  then show ?thesis using assms by (simp add: nullify_def state_of_def)
qed

section \<open>Writing back keeps the state\<close>

lemma cached_write: "k \<notin> fst ` set m \<Longrightarrow> cached val m (par(k := val e)) = cached val ((k, e) # m) par"
  by (auto simp: cached_def fun_eq_iff dest: map_of_SomeD split: option.splits)
     (metis map_of_eq_None_iff option.distinct(1))

lemma map_ok_write:
  assumes "map_ok ok par ((k, e) # m)"
  shows "ok (par k) e" "k \<notin> fst ` set m" "map_ok ok (par(k := v)) m"
  using assms by (auto simp: map_ok_def dest: map_of_SomeD split: if_splits) (metis fst_conv image_eqI map_of_SomeD)

lemma write_coin_ok:
  assumes "map_ok entry_ok gp m" "entry_ok (cached (\<lambda>e. unspent (coin e)) m gp k) e"
  shows "\<exists>m'. write_coin (k, e) m = Some m' \<and> map_ok entry_ok gp m'
    \<and> cached (\<lambda>e. unspent (coin e)) m' gp = (cached (\<lambda>e. unspent (coin e)) m gp)(k := unspent (coin e))"
proof (cases "DIRTY e")
  case False
  then have "(cached (\<lambda>e. unspent (coin e)) m gp)(k := unspent (coin e)) = cached (\<lambda>e. unspent (coin e)) m gp"
    using assms(2) by (auto simp: entry_ok_def)
  then show ?thesis using False assms(1) by (simp add: write_coin_def)
next
  case True
  show ?thesis
  proof (cases "map_of m k")
    case None
    have "entry_ok (gp k) \<lparr>coin = coin e, DIRTY = True, FRESH = FRESH e\<rparr>" "\<not> (FRESH e \<and> IsSpent (coin e))"
      using assms(2) None True by (auto simp: entry_ok_def cached_def)
    then show ?thesis
      using None True map_ok_update [OF assms(1)] by (simp add: write_coin_def cached_update)
  next
    case (Some us)
    then have us: "entry_ok (gp k) us" "cached (\<lambda>e. unspent (coin e)) m gp k = unspent (coin us)" "distinct (map fst m)"
      using assms(1) by (auto simp: map_ok_def cached_def)
    have nofail: "\<not> (FRESH e \<and> \<not> IsSpent (coin us))"
      using assms(2) us(2) by (auto simp: entry_ok_def unspent_def split: if_splits)
    show ?thesis
    proof (cases "FRESH us \<and> IsSpent (coin e)")
      case del: True
      then have "gp k = unspent (coin e)" using us(1) by (simp add: entry_ok_def unspent_def)
      then show ?thesis
        using Some True nofail del map_ok_delete [OF assms(1), of k] us(3) by (simp add: write_coin_def cached_delete)
    next
      case False
      then have "entry_ok (gp k) (us\<lparr>coin := coin e, DIRTY := True\<rparr>)" using us(1) by (auto simp: entry_ok_def)
      then show ?thesis
        using Some True nofail False map_ok_update [OF assms(1)] by (auto simp: write_coin_def cached_update)
    qed
  qed
qed

lemma write_coins_ok:
  assumes "map_ok entry_ok gp m" "map_ok entry_ok (cached (\<lambda>e. unspent (coin e)) m gp) child"
  shows "\<exists>m'. write_coins child m = Some m' \<and> map_ok entry_ok gp m'
    \<and> cached (\<lambda>e. unspent (coin e)) m' gp = cached (\<lambda>e. unspent (coin e)) child (cached (\<lambda>e. unspent (coin e)) m gp)"
  using assms
proof (induction child arbitrary: m)
  case (Cons x child)
  obtain k e where x: "x = (k, e)" by fastforce
  note w = map_ok_write(1,2) [OF Cons.prems(2) [unfolded x]] map_ok_write(3) [OF Cons.prems(2) [unfolded x], of "unspent (coin e)"]
  obtain m1 where m1: "write_coin (k, e) m = Some m1" "map_ok entry_ok gp m1"
    "cached (\<lambda>e. unspent (coin e)) m1 gp = (cached (\<lambda>e. unspent (coin e)) m gp)(k := unspent (coin e))"
    using write_coin_ok [OF Cons.prems(1) w(1)] by blast
  show ?case
    using Cons.IH [OF m1(2), unfolded m1(3), OF w(3), unfolded cached_write [OF w(2), where val = "\<lambda>e. unspent (coin e)"]]
      m1(1) x by simp
qed simp

lemma fold_write_ok:
  assumes "\<And>k e m. map_ok ok gp m \<Longrightarrow> ok (cached val m gp k) e
      \<Longrightarrow> map_ok ok gp (f (k, e) m) \<and> cached val (f (k, e) m) gp = (cached val m gp)(k := val e)"
    and "map_ok ok gp m" "map_ok ok (cached val m gp) child"
  shows "map_ok ok gp (fold f child m) \<and> cached val (fold f child m) gp = cached val child (cached val m gp)"
  using assms(2,3)
proof (induction child arbitrary: m)
  case (Cons x child)
  obtain k e where x: "x = (k, e)" by fastforce
  note w = map_ok_write(1,2) [OF Cons.prems(2) [unfolded x]] map_ok_write(3) [OF Cons.prems(2) [unfolded x], of "val e"]
  note s = assms(1) [OF Cons.prems(1) w(1)]
  show ?case
    using Cons.IH [OF conjunct1 [OF s], unfolded conjunct2 [OF s], OF w(3), unfolded cached_write [OF w(2)]] x by simp
qed simp

lemma write_anchor_ok:
  assumes "map_ok anchor_ok gp m" "anchor_ok (cached entered_tree m gp k) e"
  shows "map_ok anchor_ok gp (write_anchor (k, e) m)
    \<and> cached entered_tree (write_anchor (k, e) m) gp = (cached entered_tree m gp)(k := entered_tree e)"
proof (cases "anchor_DIRTY e")
  case True
  show ?thesis
  proof (cases "map_of m k")
    case None
    then show ?thesis
      using True map_ok_update [OF assms(1)] by (simp add: write_anchor_def cached_update anchor_ok_def entered_tree_def)
  next
    case (Some us)
    have keep: "(cached entered_tree m gp)(k := entered_tree e) = cached entered_tree m gp"
      if "anchor_entered us = anchor_entered e" "anchor_entered e \<longrightarrow> anchor_tree us = anchor_tree e"
      using Some that by (auto simp: cached_def entered_tree_def)
    show ?thesis
      using True Some keep assms(1) map_ok_update [OF assms(1)]
      by (auto simp: write_anchor_def Let_def cached_update anchor_ok_def entered_tree_def)
  qed
next
  case False
  then have "(cached entered_tree m gp)(k := entered_tree e) = cached entered_tree m gp"
    using assms(2) by (auto simp: anchor_ok_def)
  then show ?thesis using False assms(1) by (simp add: write_anchor_def)
qed

lemma write_nullifier_ok:
  assumes "map_ok nullifier_ok gp m" "nullifier_ok (cached nf_entered m gp k) e"
  shows "map_ok nullifier_ok gp (write_nullifier (k, e) m)
    \<and> cached nf_entered (write_nullifier (k, e) m) gp = (cached nf_entered m gp)(k := nf_entered e)"
proof (cases "nf_DIRTY e")
  case True
  show ?thesis
  proof (cases "map_of m k")
    case None
    then show ?thesis
      using True map_ok_update [OF assms(1)] by (simp add: write_nullifier_def cached_update nullifier_ok_def)
  next
    case (Some us)
    have keep: "(cached nf_entered m gp)(k := nf_entered e) = cached nf_entered m gp" if "nf_entered us = nf_entered e"
      by (rule fun_upd_idem) (use Some that in \<open>simp add: cached_def\<close>)
    show ?thesis
      using True Some keep assms(1) map_ok_update [OF assms(1)]
      by (cases "nf_entered us = nf_entered e") (simp_all add: write_nullifier_def cached_update nullifier_ok_def)
  qed
next
  case False
  then have "(cached nf_entered m gp)(k := nf_entered e) = cached nf_entered m gp"
    using assms(2) by (auto simp: nullifier_ok_def)
  then show ?thesis using False assms(1) by (simp add: write_nullifier_def)
qed

lemma fold_apply_batch: "fold apply_batch bs db = fold apply_op (concat bs) db"
  by (induction bs arbitrary: db) (simp_all add: apply_batch_def)

lemma batch_coins_concat:
  "concat (fst (batch_coins too_big m batch)) @ snd (batch_coins too_big m batch) = batch @ concat (map coin_ops m)"
  by (induction m arbitrary: batch) (simp_all add: Let_def split_def)

lemma apply_coin_ops:
  "map_ok entry_ok (db_coins db) m \<Longrightarrow>
    fold apply_op (concat (map coin_ops m)) db = db\<lparr>db_coins := cached (\<lambda>e. unspent (coin e)) m (db_coins db)\<rparr>"
proof (induction m arbitrary: db)
  case (Cons x m)
  obtain k e where x: "x = (k, e)" by fastforce
  note w = map_ok_write(1,2) [OF Cons.prems [unfolded x]] map_ok_write(3) [OF Cons.prems [unfolded x], of "unspent (coin e)"]
  let ?db = "db\<lparr>db_coins := (db_coins db)(k := unspent (coin e))\<rparr>"
  have "db_coins db k = unspent (coin e) \<Longrightarrow> ?db = db" by (simp add: fun_upd_idem)
  then have 1: "fold apply_op (coin_ops x) db = ?db"
    using w(1) x by (auto simp: coin_ops_def entry_ok_def unspent_def)
  have "map_ok entry_ok (db_coins ?db) m" using w(3) by simp
  from Cons.IH [OF this] show ?case
    using 1 cached_write [OF w(2), where val = "\<lambda>e. unspent (coin e)" and e = e and par = "db_coins db"] x by (simp del: fun_upd_apply)
qed simp

lemma apply_anchor_ops:
  assumes "map_ok anchor_ok (db_GetSaplingAnchorAt H db) m"
    "\<And>e. map_of m (sapling_empty_root H) = Some e \<Longrightarrow> entered_tree e = Some IncrementalMerkleTree_default"
  shows "\<exists>f. fold apply_op (concat (map (anchor_ops H) m)) db = db\<lparr>db_anchors := f\<rparr>
    \<and> db_GetSaplingAnchorAt H (db\<lparr>db_anchors := f\<rparr>) = cached entered_tree m (db_GetSaplingAnchorAt H db)"
  using assms
proof (induction m arbitrary: db)
  case Nil
  show ?case by (rule exI [of _ "db_anchors db"]) simp
next
  case (Cons x m)
  obtain k e where x: "x = (k, e)" by fastforce
  note w = map_ok_write(1,2) [OF Cons.prems(1) [unfolded x]] map_ok_write(3) [OF Cons.prems(1) [unfolded x], of "entered_tree e"]
  have e: "k = sapling_empty_root H \<longrightarrow> entered_tree e = Some IncrementalMerkleTree_default" using Cons.prems(2) x by auto
  obtain g where g: "fold apply_op (anchor_ops H x) db = db\<lparr>db_anchors := g\<rparr>"
    "db_GetSaplingAnchorAt H (db\<lparr>db_anchors := g\<rparr>) = (db_GetSaplingAnchorAt H db)(k := entered_tree e)"
  proof (cases "anchor_DIRTY e \<and> k \<noteq> sapling_empty_root H")
    case True
    show ?thesis
      by (rule that [of "(db_anchors db)(k := entered_tree e)"])
         (use True x in \<open>auto simp: anchor_ops_def entered_tree_def db_GetSaplingAnchorAt_def\<close>)
  next
    case False
    show ?thesis
      by (rule that [of "db_anchors db"])
         (use False x e w(1) in \<open>auto simp: anchor_ops_def anchor_ok_def entered_tree_def db_GetSaplingAnchorAt_def split: if_splits\<close>)
  qed
  have "map_ok anchor_ok (db_GetSaplingAnchorAt H (db\<lparr>db_anchors := g\<rparr>)) m"
    "\<And>e. map_of m (sapling_empty_root H) = Some e \<Longrightarrow> entered_tree e = Some IncrementalMerkleTree_default"
    using w(2,3) g(2) Cons.prems(2) x by (auto simp: dest: map_of_SomeD split: if_splits) (metis fst_conv image_eqI map_of_SomeD)
  from Cons.IH [OF this] show ?case
    using g cached_write [OF w(2), where val = entered_tree and e = e and par = "db_GetSaplingAnchorAt H db"] x by (auto simp del: fun_upd_apply)
qed

lemma apply_nullifier_ops:
  assumes "map_ok nullifier_ok (db_GetNullifier db) m"
  shows "\<exists>f. fold apply_op (concat (map nullifier_ops m)) db = db\<lparr>db_nullifiers := f\<rparr>
    \<and> db_GetNullifier (db\<lparr>db_nullifiers := f\<rparr>) = cached nf_entered m (db_GetNullifier db)"
  using assms
proof (induction m arbitrary: db)
  case Nil
  show ?case by (rule exI [of _ "db_nullifiers db"]) simp
next
  case (Cons x m)
  obtain k e where x: "x = (k, e)" by fastforce
  note w = map_ok_write(1,2) [OF Cons.prems(1) [unfolded x]] map_ok_write(3) [OF Cons.prems(1) [unfolded x], of "nf_entered e"]
  obtain g where g: "fold apply_op (nullifier_ops x) db = db\<lparr>db_nullifiers := g\<rparr>"
    "db_GetNullifier (db\<lparr>db_nullifiers := g\<rparr>) = (db_GetNullifier db)(k := nf_entered e)"
  proof (cases "nf_DIRTY e")
    case True
    show ?thesis
      by (rule that [of "(db_nullifiers db)(k := if nf_entered e then Some True else None)"])
         (use True x in \<open>auto simp: nullifier_ops_def db_GetNullifier_def fun_eq_iff\<close>)
  next
    case False
    show ?thesis
      by (rule that [of "db_nullifiers db"])
         (use False x w(1) in \<open>auto simp: nullifier_ops_def nullifier_ok_def db_GetNullifier_def fun_eq_iff\<close>)
  qed
  have "map_ok nullifier_ok (db_GetNullifier (db\<lparr>db_nullifiers := g\<rparr>)) m" using w(3) g(2) by simp
  from Cons.IH [OF this] show ?case
    using g cached_write [OF w(2), where val = nf_entered and e = e and par = "db_GetNullifier db"] x by (auto simp del: fun_upd_apply)
qed

lemma db_frame [simp]:
  "db_GetSaplingAnchorAt H (db\<lparr>db_best_block := x\<rparr>) = db_GetSaplingAnchorAt H db"
  "db_GetSaplingAnchorAt H (db\<lparr>db_head_blocks := y\<rparr>) = db_GetSaplingAnchorAt H db"
  "db_GetSaplingAnchorAt H (db\<lparr>db_coins := z\<rparr>) = db_GetSaplingAnchorAt H db"
  "db_GetSaplingAnchorAt H (db\<lparr>db_nullifiers := u\<rparr>) = db_GetSaplingAnchorAt H db"
  "db_GetSaplingAnchorAt H (db\<lparr>db_best_anchor := w\<rparr>) = db_GetSaplingAnchorAt H db"
  "db_GetNullifier (db\<lparr>db_best_block := x\<rparr>) = db_GetNullifier db"
  "db_GetNullifier (db\<lparr>db_head_blocks := y\<rparr>) = db_GetNullifier db"
  "db_GetNullifier (db\<lparr>db_coins := z\<rparr>) = db_GetNullifier db"
  "db_GetNullifier (db\<lparr>db_anchors := v\<rparr>) = db_GetNullifier db"
  "db_GetNullifier (db\<lparr>db_best_anchor := w\<rparr>) = db_GetNullifier db"
  by (simp_all add: db_GetSaplingAnchorAt_def db_GetNullifier_def fun_eq_iff)

lemma db_write_spec:
  assumes "view_ok H (View_Cache c (View_DB db))" "\<not> uint256_IsNull (hashBlock c)" "old_tip db (hashBlock c) = Some old"
  shows "\<exists>bs db'. db_batches H too_big db (cacheCoins c) (hashBlock c) (hashSaplingAnchor c) (cacheSaplingAnchors c)
      (cacheSaplingNullifiers c) = Some bs \<and> fold apply_batch bs db = db'
    \<and> db_coins db' = coins_of (View_Cache c (View_DB db)) \<and> db_GetSaplingAnchorAt H db' = anchors_of H (View_Cache c (View_DB db))
    \<and> db_GetNullifier db' = nullifiers_of (View_Cache c (View_DB db))
    \<and> db_GetBestBlock db' = hashBlock c \<and> db_GetBestAnchor H db' = best_anchor_of H (View_Cache c (View_DB db))
    \<and> db_head_blocks db' = None"
proof -
  let ?h = "hashBlock c"
  obtain bs lst where b: "batch_coins too_big (cacheCoins c) [Erase_best_block, Write_head_blocks [?h, old]] = (bs, lst)" by fastforce
  define db1 where "db1 = db\<lparr>db_best_block := None, db_head_blocks := Some [?h, old]\<rparr>"
  define db2 where "db2 = db1\<lparr>db_coins := cached (\<lambda>e. unspent (coin e)) (cacheCoins c) (db_coins db)\<rparr>"
  have ok: "map_ok entry_ok (db_coins db1) (cacheCoins c)"
    "map_ok anchor_ok (db_GetSaplingAnchorAt H db2) (cacheSaplingAnchors c)"
    "\<And>e. map_of (cacheSaplingAnchors c) (sapling_empty_root H) = Some e \<Longrightarrow> entered_tree e = Some IncrementalMerkleTree_default"
    using assms(1) by (auto simp: db1_def db2_def cached_def)
  obtain f where f: "fold apply_op (concat (map (anchor_ops H) (cacheSaplingAnchors c))) db2 = db2\<lparr>db_anchors := f\<rparr>"
    "db_GetSaplingAnchorAt H (db2\<lparr>db_anchors := f\<rparr>) = cached entered_tree (cacheSaplingAnchors c) (db_GetSaplingAnchorAt H db2)"
    using apply_anchor_ops [OF ok(2,3)] by blast
  have "map_ok nullifier_ok (db_GetNullifier (db2\<lparr>db_anchors := f\<rparr>)) (cacheSaplingNullifiers c)"
    using assms(1) by (simp add: db1_def db2_def)
  then obtain g where g: "fold apply_op (concat (map nullifier_ops (cacheSaplingNullifiers c))) (db2\<lparr>db_anchors := f\<rparr>)
      = db2\<lparr>db_anchors := f, db_nullifiers := g\<rparr>"
    "db_GetNullifier (db2\<lparr>db_anchors := f, db_nullifiers := g\<rparr>)
      = cached nf_entered (cacheSaplingNullifiers c) (db_GetNullifier (db2\<lparr>db_anchors := f\<rparr>))"
    using apply_nullifier_ops by blast
  let ?ops = "BatchWriteSapling H (hashSaplingAnchor c) (cacheSaplingAnchors c) (cacheSaplingNullifiers c)"
  let ?db = "db2\<lparr>db_anchors := f, db_nullifiers := g, db_best_block := Some ?h, db_head_blocks := None,
      db_best_anchor := (if uint256_IsNull (hashSaplingAnchor c) then db_best_anchor db else Some (hashSaplingAnchor c))\<rparr>"
  have "concat bs @ lst = [Erase_best_block, Write_head_blocks [?h, old]] @ concat (map coin_ops (cacheCoins c))"
    using batch_coins_concat [of too_big "cacheCoins c" "[Erase_best_block, Write_head_blocks [?h, old]]"] b by simp
  then have "fold apply_op (concat bs @ lst) db = fold apply_op (concat (map coin_ops (cacheCoins c))) db1"
    by (simp add: db1_def)
  also have "\<dots> = db2" using apply_coin_ops [OF ok(1)] by (simp add: db2_def db1_def)
  finally have "fold apply_op lst (fold apply_op (concat bs) db) = db2" by simp
  then have "fold apply_batch (bs @ [lst @ ?ops @ [Erase_head_blocks, Write_best_block ?h]]) db = ?db"
    unfolding fold_apply_batch using f(1) g(1) by (simp add: BatchWriteSapling_def) (simp add: db2_def db1_def)
  moreover have "db_batches H too_big db (cacheCoins c) ?h (hashSaplingAnchor c) (cacheSaplingAnchors c) (cacheSaplingNullifiers c)
      = Some (bs @ [lst @ ?ops @ [Erase_head_blocks, Write_best_block ?h]])"
    using assms(2,3) b by (simp add: db_batches_def)
  moreover have "db_GetSaplingAnchorAt H ?db = db_GetSaplingAnchorAt H (db2\<lparr>db_anchors := f\<rparr>)"
    "db_GetNullifier ?db = db_GetNullifier (db2\<lparr>db_anchors := f, db_nullifiers := g\<rparr>)"
    by (simp_all add: db_GetSaplingAnchorAt_def db_GetNullifier_def fun_eq_iff)
  moreover have "db_GetSaplingAnchorAt H db2 = db_GetSaplingAnchorAt H db" "db_GetNullifier db2 = db_GetNullifier db"
    by (simp_all add: db2_def db1_def)
  moreover have "db_coins ?db = coins_of (View_Cache c (View_DB db))" "db_GetBestBlock ?db = ?h"
    "db_GetBestAnchor H ?db = best_anchor_of H (View_Cache c (View_DB db))" "db_head_blocks ?db = None"
    by (simp_all add: db1_def db2_def db_GetBestBlock_def db_GetBestAnchor_def)
  ultimately show ?thesis
    unfolding f(2) g(2) by (intro exI [of _ "bs @ [lst @ ?ops @ [Erase_head_blocks, Write_best_block ?h]]"] exI [of _ ?db]) simp
qed

definition write_ready :: "CCoinsViewCache \<Rightarrow> CCoinsView \<Rightarrow> bool" where
  "write_ready c b \<longleftrightarrow> \<not> uint256_IsNull (hashBlock c) \<and> (case b of View_DB db \<Rightarrow> old_tip db (hashBlock c) \<noteq> None | View_Cache p g \<Rightarrow> True)"

text \<open>
  The best anchor after a write: a cache whose anchor is not set overwrites that of a parent cache with the null hash, and the parent
  answers with the anchor of its own base from then on; the database keeps its anchor.
\<close>

fun written_anchor :: "TreeHash \<Rightarrow> CCoinsViewCache \<Rightarrow> CCoinsView \<Rightarrow> uint256" where
  "written_anchor H c (View_Cache p g) = (if uint256_IsNull (hashSaplingAnchor c) then best_anchor_of H g else hashSaplingAnchor c)"
| "written_anchor H c (View_DB db) = best_anchor_of H (View_Cache c (View_DB db))"

lemma BatchWrite_spec:
  assumes "view_ok H (View_Cache c b)" "write_ready c b"
  shows "\<exists>c' b'. BatchWrite H too_big erase c b = Some (c', b') \<and> view_ok H b'
    \<and> state_of H b' = (state_of H (View_Cache c b))\<lparr>utxo_best_anchor := written_anchor H c b\<rparr>
    \<and> c' = c\<lparr>cacheCoins := (if erase then [] else cacheCoins c), cacheSaplingAnchors := cacheSaplingAnchors c',
             cacheSaplingNullifiers := cacheSaplingNullifiers c'\<rparr>
    \<and> cacheSaplingAnchors c' \<in> {[], map clear_anchor (cacheSaplingAnchors c)}
    \<and> cacheSaplingNullifiers c' \<in> {[], map clear_nullifier (cacheSaplingNullifiers c)}
    \<and> (erase \<longrightarrow> cacheSaplingAnchors c' = [] \<and> cacheSaplingNullifiers c' = [])"
proof (cases b)
  case (View_DB db)
  then obtain old where old: "old_tip db (hashBlock c) = Some old" and h: "\<not> uint256_IsNull (hashBlock c)"
    using assms(2) by (auto simp: write_ready_def)
  obtain bs db' where w: "db_batches H too_big db (cacheCoins c) (hashBlock c) (hashSaplingAnchor c) (cacheSaplingAnchors c)
      (cacheSaplingNullifiers c) = Some bs" "fold apply_batch bs db = db'"
    "db_coins db' = coins_of (View_Cache c b)" "db_GetSaplingAnchorAt H db' = anchors_of H (View_Cache c b)"
    "db_GetNullifier db' = nullifiers_of (View_Cache c b)"
    "db_GetBestBlock db' = hashBlock c" "db_GetBestAnchor H db' = best_anchor_of H (View_Cache c b)"
    using db_write_spec [OF assms(1) [unfolded View_DB] h old, of too_big] View_DB by blast
  have "view_ok H (View_DB db')" using w(3) coins_unspent [OF assms(1)] by simp
  moreover have "state_of H (View_DB db') = (state_of H (View_Cache c b))\<lparr>utxo_best_anchor := written_anchor H c b\<rparr>"
    using w(3-7) h View_DB by (simp add: state_of_def)
  ultimately show ?thesis using w(1,2) View_DB by simp
next
  case (View_Cache p g)
  note b = View_Cache
  have child: "map_ok entry_ok (cached (\<lambda>e. unspent (coin e)) (cacheCoins p) (coins_of g)) (cacheCoins c)"
      "map_ok anchor_ok (cached entered_tree (cacheSaplingAnchors p) (anchors_of H g)) (cacheSaplingAnchors c)"
      "map_ok nullifier_ok (cached nf_entered (cacheSaplingNullifiers p) (nullifiers_of g)) (cacheSaplingNullifiers c)"
    and parent: "map_ok entry_ok (coins_of g) (cacheCoins p)" "map_ok anchor_ok (anchors_of H g) (cacheSaplingAnchors p)"
      "map_ok nullifier_ok (nullifiers_of g) (cacheSaplingNullifiers p)" "view_ok H g"
    using assms(1) b by simp_all
  obtain m where m: "write_coins (cacheCoins c) (cacheCoins p) = Some m" "map_ok entry_ok (coins_of g) m"
    "cached (\<lambda>e. unspent (coin e)) m (coins_of g) = coins_of (View_Cache c b)"
    using write_coins_ok [OF parent(1) child(1)] b by auto
  note a = fold_write_ok [of anchor_ok, OF write_anchor_ok parent(2) child(2)]
  note n = fold_write_ok [of nullifier_ok, OF write_nullifier_ok parent(3) child(3)]
  let ?p = "p\<lparr>cacheCoins := m, cacheSaplingAnchors := fold write_anchor (cacheSaplingAnchors c) (cacheSaplingAnchors p),
      cacheSaplingNullifiers := fold write_nullifier (cacheSaplingNullifiers c) (cacheSaplingNullifiers p),
      hashSaplingAnchor := hashSaplingAnchor c, hashBlock := hashBlock c\<rparr>"
  have "anchors_of H (View_Cache ?p g) = anchors_of H (View_Cache c b)" using a b by simp
  then have "view_ok H (View_Cache ?p g)"
    using m(2) a n parent(4) empty_root_anchor [OF assms(1)] by simp
  moreover have "state_of H (View_Cache ?p g) = (state_of H (View_Cache c b))\<lparr>utxo_best_anchor := written_anchor H c b\<rparr>"
    using m(3) a n assms(2) b by (simp add: state_of_def write_ready_def)
  ultimately show ?thesis using m(1) b by simp
qed

lemma written_anchor_set: "\<not> uint256_IsNull (hashSaplingAnchor c) \<Longrightarrow> written_anchor H c b = hashSaplingAnchor c"
  by (cases b) simp_all

lemma Flush_spec:
  assumes "view_ok H (View_Cache c b)" "write_ready c b"
  shows "\<exists>c' b'. Flush H too_big (View_Cache c b) = Some (View_Cache c' b') \<and> view_ok H (View_Cache c' b')
    \<and> state_of H (View_Cache c' b') = (state_of H (View_Cache c b))\<lparr>utxo_best_anchor := written_anchor H c b\<rparr>
    \<and> cacheCoins c' = [] \<and> cacheSaplingAnchors c' = [] \<and> cacheSaplingNullifiers c' = []"
proof -
  obtain c' b' where w: "BatchWrite H too_big True c b = Some (c', b')" "view_ok H b'"
    "state_of H b' = (state_of H (View_Cache c b))\<lparr>utxo_best_anchor := written_anchor H c b\<rparr>"
    "c' = c\<lparr>cacheCoins := [], cacheSaplingAnchors := [], cacheSaplingNullifiers := []\<rparr>"
    using BatchWrite_spec [OF assms, of too_big True] by auto
  have e: "cacheCoins c' = []" "cacheSaplingAnchors c' = []" "cacheSaplingNullifiers c' = []" using w(4) by simp_all
  have "view_ok H (View_Cache c' b')" using w(2) e empty_root_anchor [OF w(2)] by simp
  moreover have "state_of H (View_Cache c' b') = state_of H b'"
    using w(3,4) assms(2) written_anchor_set [of c H b] by (simp add: state_of_def)
  ultimately show ?thesis using w(1,3) e by (simp del: view_ok.simps)
qed

lemma sync_coins_map:
  assumes "distinct (map fst m)"
  shows "distinct (map fst (sync_coins m)) \<and> set (map fst (sync_coins m)) \<subseteq> set (map fst m)
    \<and> map_of (sync_coins m) k = Option.bind (map_of m k) (\<lambda>e. if IsSpent (coin e) then None else Some (e\<lparr>DIRTY := False, FRESH := False\<rparr>))"
  using assms
proof (induction m)
  case (Cons x m)
  obtain k' e where x: "x = (k', e)" by fastforce
  have "map_of m k' = None" "k' \<notin> fst ` set m" using Cons.prems x by (auto simp: map_of_eq_None_iff)
  then show ?case using Cons x by auto
qed simp

lemma sync_coins_ok:
  assumes "map_ok ok par m" "P = cached (\<lambda>e. unspent (coin e)) m par"
  shows "map_ok entry_ok P (sync_coins m)" "cached (\<lambda>e. unspent (coin e)) (sync_coins m) P = P"
proof -
  have d: "distinct (map fst m)" using assms(1) by (simp add: map_ok_def)
  note s = sync_coins_map [OF d]
  show "map_ok entry_ok P (sync_coins m)"
    using s assms(2)
    by (auto simp: map_ok_def entry_ok_def cached_def unspent_def bind_eq_Some_conv split: if_splits option.splits)
  show "cached (\<lambda>e. unspent (coin e)) (sync_coins m) P = P"
    using s assms(2) by (auto simp: cached_def unspent_def fun_eq_iff bind_eq_Some_conv split: option.splits if_splits)
qed

lemma map_of_clear:
  "map_of (map clear_anchor m) k = map_option (\<lambda>e. e\<lparr>anchor_DIRTY := False\<rparr>) (map_of m k)"
  "map_of (map clear_nullifier m') k' = map_option (\<lambda>e. e\<lparr>nf_DIRTY := False\<rparr>) (map_of m' k')"
proof -
  show "map_of (map clear_anchor m) k = map_option (\<lambda>e. e\<lparr>anchor_DIRTY := False\<rparr>) (map_of m k)"
    by (induction m) (auto simp: clear_anchor_def)
  show "map_of (map clear_nullifier m') k' = map_option (\<lambda>e. e\<lparr>nf_DIRTY := False\<rparr>) (map_of m' k')"
    by (induction m') (auto simp: clear_nullifier_def)
qed

lemma clear_ok:
  assumes "map_ok ok par m" "P = cached entered_tree m par" "map_ok ok' par' m'" "P' = cached nf_entered m' par'"
  shows "map_ok anchor_ok P (map clear_anchor m)" "cached entered_tree (map clear_anchor m) P = P"
    "map_ok nullifier_ok P' (map clear_nullifier m')" "cached nf_entered (map clear_nullifier m') P' = P'"
proof -
  have "map fst (map clear_anchor m) = map fst m" "map fst (map clear_nullifier m') = map fst m'"
    by (auto simp: clear_anchor_def clear_nullifier_def)
  then have d: "distinct (map fst (map clear_anchor m))" "distinct (map fst (map clear_nullifier m'))"
    using assms(1,3) unfolding map_ok_def by presburger+
  show "map_ok anchor_ok P (map clear_anchor m)" "map_ok nullifier_ok P' (map clear_nullifier m')"
    unfolding map_ok_def using d by (auto simp: map_of_clear anchor_ok_def nullifier_ok_def assms(2,4) cached_def entered_tree_def)
  show "cached entered_tree (map clear_anchor m) P = P" "cached nf_entered (map clear_nullifier m') P' = P'"
    by (auto simp: map_of_clear assms(2,4) cached_def entered_tree_def fun_eq_iff split: option.splits)
qed

lemma Sync_spec:
  assumes "view_ok H (View_Cache c b)" "write_ready c b"
  shows "\<exists>c' b'. Sync H too_big (View_Cache c b) = Some (View_Cache c' b') \<and> view_ok H (View_Cache c' b')
    \<and> state_of H (View_Cache c' b') = (state_of H (View_Cache c b))\<lparr>utxo_best_anchor := written_anchor H c b\<rparr>"
proof -
  obtain c1 b' where w: "BatchWrite H too_big False c b = Some (c1, b')" "view_ok H b'"
    "state_of H b' = (state_of H (View_Cache c b))\<lparr>utxo_best_anchor := written_anchor H c b\<rparr>"
    "c1 = c\<lparr>cacheCoins := cacheCoins c, cacheSaplingAnchors := cacheSaplingAnchors c1, cacheSaplingNullifiers := cacheSaplingNullifiers c1\<rparr>"
    "cacheSaplingAnchors c1 \<in> {[], map clear_anchor (cacheSaplingAnchors c)}"
    "cacheSaplingNullifiers c1 \<in> {[], map clear_nullifier (cacheSaplingNullifiers c)}"
    using BatchWrite_spec [OF assms, of too_big False] by auto
  have P: "coins_of b' = coins_of (View_Cache c b)" "anchors_of H b' = anchors_of H (View_Cache c b)"
    "nullifiers_of b' = nullifiers_of (View_Cache c b)" "best_block_of b' = best_block_of (View_Cache c b)"
    "best_anchor_of H b' = written_anchor H c b"
    using w(3) by (simp_all add: state_of_def)
  have ok: "map_ok entry_ok (coins_of b) (cacheCoins c)" "map_ok anchor_ok (anchors_of H b) (cacheSaplingAnchors c)"
    "map_ok nullifier_ok (nullifiers_of b) (cacheSaplingNullifiers c)" using assms(1) by simp_all
  have s: "map_ok entry_ok (coins_of b') (sync_coins (cacheCoins c))"
    "cached (\<lambda>e. unspent (coin e)) (sync_coins (cacheCoins c)) (coins_of b') = coins_of b'"
    using sync_coins_ok [OF ok(1)] P(1) by auto
  have a: "map_ok anchor_ok (anchors_of H b') (cacheSaplingAnchors c1)"
    "cached entered_tree (cacheSaplingAnchors c1) (anchors_of H b') = anchors_of H b'"
    "map_ok nullifier_ok (nullifiers_of b') (cacheSaplingNullifiers c1)"
    "cached nf_entered (cacheSaplingNullifiers c1) (nullifiers_of b') = nullifiers_of b'"
    using clear_ok [OF ok(2) _ ok(3)] P(2,3) w(5,6) by auto
  let ?c = "c1\<lparr>cacheCoins := sync_coins (cacheCoins c)\<rparr>"
  have hash: "hashBlock c1 = hashBlock c" "hashSaplingAnchor c1 = hashSaplingAnchor c" "cacheCoins c1 = cacheCoins c"
    by (subst w(4), simp)+
  have "view_ok H (View_Cache ?c b')" using w(2) s a empty_root_anchor [OF w(2)] by simp
  moreover have "state_of H (View_Cache ?c b') = state_of H b'"
    using s(2) a(2,4) hash P(4,5) written_anchor_set [of c H b] by (simp add: state_of_def)
  ultimately show ?thesis using w(1,3) hash(3) by (simp del: view_ok.simps)
qed

lemma SanityCheck_ok: "view_ok H v \<Longrightarrow> SanityCheck v"
proof (cases v)
  case (View_Cache c b)
  assume "view_ok H v"
  then have ok: "map_ok entry_ok (coins_of b) (cacheCoins c)" using View_Cache by simp
  have "entry_ok (coins_of b k) e" if "(k, e) \<in> set (cacheCoins c)" for k e
    using ok that by (auto simp: map_ok_def)
  then show ?thesis
    using View_Cache by (fastforce simp: list_all_iff entry_ok_def unspent_def)
qed simp

section \<open>Sequences of operations refine a set of coins\<close>

datatype coins_op =
  Op_GetCoin COutPoint | Op_HaveCoin COutPoint | Op_AddCoin COutPoint Coin bool | Op_SpendCoin COutPoint | Op_Uncache COutPoint
| Op_GetBestBlock | Op_SetBestBlock uint256
| Op_GetSaplingAnchorAt uint256 | Op_GetNullifier uint256 | Op_GetBestAnchor
| Op_PushAnchor IncrementalMerkleTree | Op_PopAnchor uint256 | Op_SetNullifiers CTransaction bool
| Op_Flush | Op_Sync

datatype answer = A_coin "Coin option" | A_bool bool | A_hash uint256 | A_tree "IncrementalMerkleTree option" | A_none

fun exec_op :: "TreeHash \<Rightarrow> (db_op list \<Rightarrow> bool) \<Rightarrow> coins_op \<Rightarrow> CCoinsView \<Rightarrow> (answer \<times> CCoinsView) option" where
  "exec_op H tb (Op_GetCoin k) v = Some (map_prod A_coin id (GetCoin k v))"
| "exec_op H tb (Op_HaveCoin k) v = Some (map_prod A_bool id (HaveCoin k v))"
| "exec_op H tb (Op_AddCoin k c over) v = map_option (Pair A_none) (AddCoin k c over v)"
| "exec_op H tb (Op_SpendCoin k) v = Some (map_prod (\<lambda>r. A_coin (Option.bind r unspent)) id (SpendCoin k v))"
| "exec_op H tb (Op_Uncache k) v = Some (A_none, Uncache k v)"
| "exec_op H tb Op_GetBestBlock v = Some (map_prod A_hash id (GetBestBlock v))"
| "exec_op H tb (Op_SetBestBlock h) v = Some (A_none, SetBestBlock h v)"
| "exec_op H tb (Op_GetSaplingAnchorAt rt) v = Some (map_prod A_tree id (GetSaplingAnchorAt H rt v))"
| "exec_op H tb (Op_GetNullifier nf) v = Some (map_prod A_bool id (GetNullifier nf v))"
| "exec_op H tb Op_GetBestAnchor v = Some (map_prod A_hash id (GetBestAnchor H v))"
| "exec_op H tb (Op_PushAnchor t) v = Some (A_none, PushAnchor H t v)"
| "exec_op H tb (Op_PopAnchor rt) v = map_option (Pair A_none) (PopAnchor H rt v)"
| "exec_op H tb (Op_SetNullifiers tx spent) v = Some (A_none, SetNullifiers tx spent v)"
| "exec_op H tb Op_Flush v = map_option (Pair A_none) (Flush H tb v)"
| "exec_op H tb Op_Sync v = map_option (Pair A_none) (Sync H tb v)"

text \<open>The same operations on the state: reading only answers, writing back changes nothing as long as it keeps the best anchor.\<close>

fun spec_op :: "TreeHash \<Rightarrow> coins_op \<Rightarrow> UTXO \<Rightarrow> answer \<times> UTXO" where
  "spec_op H (Op_GetCoin k) s = (A_coin (utxo_coins s k), s)"
| "spec_op H (Op_HaveCoin k) s = (A_bool (utxo_coins s k \<noteq> None), s)"
| "spec_op H (Op_AddCoin k c over) s = (A_none, if IsUnspendable (scriptPubKey (coin_out c)) then s
     else s\<lparr>utxo_coins := (utxo_coins s)(k \<mapsto> c)\<rparr>)"
| "spec_op H (Op_SpendCoin k) s = (A_coin (utxo_coins s k), s\<lparr>utxo_coins := (utxo_coins s)(k := None)\<rparr>)"
| "spec_op H (Op_Uncache k) s = (A_none, s)"
| "spec_op H Op_GetBestBlock s = (A_hash (utxo_best_block s), s)"
| "spec_op H (Op_SetBestBlock h) s = (A_none, s\<lparr>utxo_best_block := h\<rparr>)"
| "spec_op H (Op_GetSaplingAnchorAt rt) s = (A_tree (utxo_anchors s rt), s)"
| "spec_op H (Op_GetNullifier nf) s = (A_bool (utxo_nullifiers s nf), s)"
| "spec_op H Op_GetBestAnchor s = (A_hash (utxo_best_anchor s), s)"
| "spec_op H (Op_PushAnchor t) s = (A_none,
     let rt = tree_root H SAPLING_INCREMENTAL_MERKLE_TREE_DEPTH t
     in if utxo_best_anchor s = rt then s else s\<lparr>utxo_anchors := (utxo_anchors s)(rt \<mapsto> t), utxo_best_anchor := rt\<rparr>)"
| "spec_op H (Op_PopAnchor rt) s = (A_none, if utxo_best_anchor s = rt then s
     else s\<lparr>utxo_anchors := (utxo_anchors s)(utxo_best_anchor s := None), utxo_best_anchor := rt\<rparr>)"
| "spec_op H (Op_SetNullifiers tx spent) s = (A_none, s\<lparr>utxo_nullifiers := nullify spent tx (utxo_nullifiers s)\<rparr>)"
| "spec_op H Op_Flush s = (A_none, s)"
| "spec_op H Op_Sync s = (A_none, s)"

text \<open>
  A sequence of operations on the state in which a write may change the best anchor; it changes nothing else.
\<close>

definition is_write :: "coins_op \<Rightarrow> bool" where
  "is_write x \<longleftrightarrow> x = Op_Flush \<or> x = Op_Sync"

inductive utxo_run :: "TreeHash \<Rightarrow> coins_op list \<Rightarrow> UTXO \<Rightarrow> answer list \<Rightarrow> UTXO \<Rightarrow> bool" for H where
  run_nil: "utxo_run H [] s [] s"
| run_op: "spec_op H x s = (a, s1) \<Longrightarrow> utxo_run H xs s1 as s' \<Longrightarrow> utxo_run H (x # xs) s (a # as) s'"
| run_write: "is_write x \<Longrightarrow> utxo_run H xs (s\<lparr>utxo_best_anchor := rt\<rparr>) as s' \<Longrightarrow> utxo_run H (x # xs) s (A_none # as) s'"

text \<open>
  What callers guarantee: a coin that may not overwrite is new, hashes set are not null, an anchor that is popped
  exists and is not the empty tree, and a cache is written back with its best block set. Writing into another cache keeps
  the best anchor if the anchor of the cache is set; a block without shielded outputs leaves it unset.
\<close>

fun anchor_kept :: "coins_op \<Rightarrow> CCoinsView \<Rightarrow> bool" where
  "anchor_kept x (View_Cache c (View_Cache p g)) \<longleftrightarrow> (is_write x \<longrightarrow> \<not> uint256_IsNull (hashSaplingAnchor c))"
| "anchor_kept x v \<longleftrightarrow> True"

fun op_allowed :: "TreeHash \<Rightarrow> coins_op \<Rightarrow> CCoinsView \<Rightarrow> bool" where
  "op_allowed H (Op_AddCoin k c over) v \<longleftrightarrow> \<not> IsSpent c \<and> (\<not> over \<longrightarrow> coins_of v k = None)"
| "op_allowed H (Op_SetBestBlock h) v \<longleftrightarrow> \<not> uint256_IsNull h"
| "op_allowed H (Op_PushAnchor t) v \<longleftrightarrow>
     (let rt = tree_root H SAPLING_INCREMENTAL_MERKLE_TREE_DEPTH t
      in \<not> uint256_IsNull rt \<and> (rt = sapling_empty_root H \<longrightarrow> t = IncrementalMerkleTree_default))"
| "op_allowed H (Op_PopAnchor rt) v \<longleftrightarrow> \<not> uint256_IsNull rt
     \<and> (best_anchor_of H v \<noteq> rt \<longrightarrow> anchors_of H v (best_anchor_of H v) \<noteq> None \<and> best_anchor_of H v \<noteq> sapling_empty_root H)"
| "op_allowed H Op_Flush (View_Cache c b) \<longleftrightarrow> write_ready c b"
| "op_allowed H Op_Sync (View_Cache c b) \<longleftrightarrow> write_ready c b"
| "op_allowed H _ v \<longleftrightarrow> True"

fun exec_ops :: "TreeHash \<Rightarrow> (db_op list \<Rightarrow> bool) \<Rightarrow> coins_op list \<Rightarrow> CCoinsView \<Rightarrow> (answer list \<times> CCoinsView) option" where
  "exec_ops H tb [] v = Some ([], v)"
| "exec_ops H tb (x # xs) v = do { (a, v) \<leftarrow> exec_op H tb x v; (as, v) \<leftarrow> exec_ops H tb xs v; Some (a # as, v) }"

fun spec_ops :: "TreeHash \<Rightarrow> coins_op list \<Rightarrow> UTXO \<Rightarrow> answer list \<times> UTXO" where
  "spec_ops H [] s = ([], s)"
| "spec_ops H (x # xs) s = (let (a, s) = spec_op H x s; (as, s) = spec_ops H xs s in (a # as, s))"

fun ops_allowed :: "TreeHash \<Rightarrow> (db_op list \<Rightarrow> bool) \<Rightarrow> coins_op list \<Rightarrow> CCoinsView \<Rightarrow> bool" where
  "ops_allowed H tb [] v \<longleftrightarrow> True"
| "ops_allowed H tb (x # xs) v \<longleftrightarrow> op_allowed H x v
     \<and> (case exec_op H tb x v of Some (a, v') \<Rightarrow> ops_allowed H tb xs v' | None \<Rightarrow> True)"

fun anchors_kept :: "TreeHash \<Rightarrow> (db_op list \<Rightarrow> bool) \<Rightarrow> coins_op list \<Rightarrow> CCoinsView \<Rightarrow> bool" where
  "anchors_kept H tb [] v \<longleftrightarrow> True"
| "anchors_kept H tb (x # xs) v \<longleftrightarrow> anchor_kept x v
     \<and> (case exec_op H tb x v of Some (a, v') \<Rightarrow> anchors_kept H tb xs v' | None \<Rightarrow> True)"

fun is_cache :: "CCoinsView \<Rightarrow> bool" where
  "is_cache (View_Cache c b) = True"
| "is_cache (View_DB db) = False"

definition refines :: "TreeHash \<Rightarrow> CCoinsView \<Rightarrow> answer \<times> UTXO \<Rightarrow> (answer \<times> CCoinsView) option \<Rightarrow> bool" where
  "refines H v s r \<longleftrightarrow> (\<exists>a v'. r = Some (a, v') \<and> is_cache v' \<and> view_ok H v' \<and> s = (a, state_of H v'))"

lemma refinesI: "r = Some (a, v') \<Longrightarrow> is_cache v' \<Longrightarrow> view_ok H v' \<Longrightarrow> s = (a, state_of H v') \<Longrightarrow> refines H v s r"
  by (auto simp: refines_def)

lemma refines_read:
  assumes "same H v (snd r)" "is_cache (snd r)" "s = (f (fst r), state_of H v)"
  shows "refines H v s (Some (map_prod f id r))"
  using assms by (cases r) (auto simp: refines_def same_def)

lemma state_of_simps [simp]:
  "utxo_coins (state_of H v) = coins_of v" "utxo_anchors (state_of H v) = anchors_of H v"
  "utxo_nullifiers (state_of H v) = nullifiers_of v" "utxo_best_block (state_of H v) = best_block_of v"
  "utxo_best_anchor (state_of H v) = best_anchor_of H v"
  by (simp_all add: state_of_def)

lemma is_cache_read:
  assumes "is_cache v"
  shows "is_cache (snd (GetCoin k v))" "is_cache (snd (HaveCoin k v))" "is_cache (snd (GetBestBlock v))" "is_cache (snd (GetBestAnchor H v))"
    "is_cache (snd (GetSaplingAnchorAt H rt v))" "is_cache (snd (GetNullifier nf v))"
  using assms by (cases v; auto simp: HaveCoin_def Let_def split: prod.splits option.splits)+

lemma write_anchor_kept:
  "anchor_kept x (View_Cache c b) \<Longrightarrow> is_write x
    \<Longrightarrow> (state_of H (View_Cache c b))\<lparr>utxo_best_anchor := written_anchor H c b\<rparr> = state_of H (View_Cache c b)"
  by (cases b) (simp_all add: state_of_def)

lemma exec_op_refines:
  assumes "view_ok H v" "is_cache v" "op_allowed H x v" "anchor_kept x v"
  shows "refines H v (spec_op H x (state_of H v)) (exec_op H tb x v)"
proof -
  obtain c b where v: "v = View_Cache c b" using assms(2) by (cases v) auto
  note ok = assms(1) [unfolded v]
  note reads = GetCoin_spec [OF assms(1)] GetBestBlock_spec [OF assms(1)] GetBestAnchor_spec [OF assms(1)]
    GetSaplingAnchorAt_spec [OF assms(1)] GetNullifier_spec [OF assms(1)]
  show ?thesis
  proof (cases x)
    case (Op_GetCoin k)
    then show ?thesis using reads(1) is_cache_read(1) [OF assms(2)] by (auto intro!: refines_read)
  next
    case (Op_HaveCoin k)
    then show ?thesis
      using HaveCoin_spec [OF assms(1), of k] is_cache_read(2) [OF assms(2), of k] by (auto intro!: refines_read)
  next
    case (Op_AddCoin k d over)
    then show ?thesis
      using AddCoin_spec [OF ok, of d over k] assms(3) v by (auto intro!: refinesI simp del: view_ok.simps coins_of.simps AddCoin.simps)
  next
    case (Op_SpendCoin k)
    then show ?thesis
      using SpendCoin_spec [OF ok, of k] v by (auto intro!: refinesI simp del: view_ok.simps coins_of.simps SpendCoin.simps)
  next
    case (Op_Uncache k)
    then show ?thesis
      using Uncache_spec [OF ok, of k] v by (auto intro!: refinesI simp: same_def simp del: view_ok.simps Uncache.simps)
  next
    case (Op_SetBestBlock h)
    then show ?thesis
      using SetBestBlock_spec [OF ok, of h] assms(3) v by (auto intro!: refinesI)
  next
    case (Op_PushAnchor t)
    then show ?thesis
      using PushAnchor_spec [OF ok, of t] assms(3) v
      by (auto intro!: refinesI simp: Let_def simp del: view_ok.simps anchors_of.simps best_anchor_of.simps)
  next
    case (Op_PopAnchor rt)
    then show ?thesis
      using PopAnchor_spec [OF ok, of rt] assms(3) v
      by (auto intro!: refinesI simp del: view_ok.simps anchors_of.simps best_anchor_of.simps)
  next
    case (Op_SetNullifiers tx spent)
    then show ?thesis
      using SetNullifiers_spec [OF ok, of tx spent] v
      by (auto intro!: refinesI simp del: view_ok.simps nullifiers_of.simps SetNullifiers.simps)
  next
    case Op_Flush
    then show ?thesis
      using Flush_spec [OF ok, of tb] assms(3,4) write_anchor_kept [of x c b H] v
      by (auto intro!: refinesI simp: is_write_def simp del: view_ok.simps Flush.simps)
  next
    case Op_Sync
    then show ?thesis
      using Sync_spec [OF ok, of tb] assms(3,4) write_anchor_kept [of x c b H] v
      by (auto intro!: refinesI simp: is_write_def simp del: view_ok.simps Sync.simps)
  qed (use reads is_cache_read [OF assms(2)] in \<open>auto intro!: refines_read\<close>)
qed

lemma exec_write_refines:
  assumes "view_ok H v" "is_cache v" "op_allowed H x v" "is_write x"
  shows "\<exists>v' rt. exec_op H tb x v = Some (A_none, v') \<and> is_cache v' \<and> view_ok H v' \<and> state_of H v' = (state_of H v)\<lparr>utxo_best_anchor := rt\<rparr>"
proof -
  obtain c b where v: "v = View_Cache c b" using assms(2) by (cases v) auto
  then show ?thesis
    using Flush_spec [of H c b tb] Sync_spec [of H c b tb] assms
    by (auto simp: is_write_def simp del: view_ok.simps Flush.simps Sync.simps) blast+
qed

lemma exec_ops_refines:
  assumes "view_ok H v" "is_cache v" "ops_allowed H tb xs v"
  shows "\<exists>as v'. exec_ops H tb xs v = Some (as, v') \<and> view_ok H v' \<and> is_cache v' \<and> utxo_run H xs (state_of H v) as (state_of H v')
    \<and> (anchors_kept H tb xs v \<longrightarrow> spec_ops H xs (state_of H v) = (as, state_of H v'))"
  using assms
proof (induction xs arbitrary: v)
  case (Cons x xs)
  obtain a v1 where v1: "exec_op H tb x v = Some (a, v1)" "is_cache v1" "view_ok H v1"
    and keep: "anchor_kept x v \<longrightarrow> spec_op H x (state_of H v) = (a, state_of H v1)"
    and wr: "is_write x \<longrightarrow> a = A_none \<and> (\<exists>rt. state_of H v1 = (state_of H v)\<lparr>utxo_best_anchor := rt\<rparr>)"
  proof (cases "is_write x")
    case True
    then show thesis
      using exec_write_refines [OF Cons.prems(1,2), of x tb] exec_op_refines [OF Cons.prems(1,2), of x tb] Cons.prems(3) that
      by (fastforce simp: refines_def)
  next
    case False
    then have "anchor_kept x v" by (cases "(x, v)" rule: anchor_kept.cases) auto
    then show thesis
      using exec_op_refines [OF Cons.prems(1,2), of x tb] Cons.prems(3) False that by (auto simp: refines_def)
  qed
  obtain as v' where IH: "exec_ops H tb xs v1 = Some (as, v')" "view_ok H v'" "is_cache v'" "utxo_run H xs (state_of H v1) as (state_of H v')"
    "anchors_kept H tb xs v1 \<longrightarrow> spec_ops H xs (state_of H v1) = (as, state_of H v')"
    using Cons.IH [OF v1(3,2)] Cons.prems(3) v1(1) by auto
  have "utxo_run H (x # xs) (state_of H v) (a # as) (state_of H v')"
  proof (cases "is_write x")
    case True
    then show ?thesis using wr IH(4) by (auto intro: run_write)
  next
    case False
    then have "anchor_kept x v" by (cases "(x, v)" rule: anchor_kept.cases) auto
    then show ?thesis using keep IH(4) by (auto intro: run_op)
  qed
  then show ?case using v1 IH keep by auto
qed (simp add: run_nil)

section \<open>A crash while the database is written\<close>

lemma batch_coins_prefix:
  assumes "0 < n" "n \<le> length (fst (batch_coins too_big m batch))"
  shows "\<exists>j. concat (take n (fst (batch_coins too_big m batch))) = batch @ concat (map coin_ops (take j m))"
  using assms
proof (induction m arbitrary: batch n)
  case (Cons x m)
  show ?case
  proof (cases "too_big (batch @ coin_ops x)")
    case True
    then have b: "fst (batch_coins too_big (x # m) batch) = (batch @ coin_ops x) # fst (batch_coins too_big m [])"
      by (simp add: Let_def split_def)
    show ?thesis
    proof (cases "n = 1")
      case True
      then show ?thesis unfolding b by (intro exI [of _ 1]) simp
    next
      case False
      then have n: "n = Suc (n - 1)" "0 < n - 1" "n - 1 \<le> length (fst (batch_coins too_big m []))"
        using Cons.prems b by auto
      obtain j where "concat (take (n - 1) (fst (batch_coins too_big m []))) = concat (map coin_ops (take j m))"
        using Cons.IH [OF n(2,3)] by auto
      then show ?thesis unfolding b using n(1) by (intro exI [of _ "Suc j"]) (simp add: take_Cons')
    qed
  next
    case False
    then have b: "fst (batch_coins too_big (x # m) batch) = fst (batch_coins too_big m (batch @ coin_ops x))" by simp
    obtain j where "concat (take n (fst (batch_coins too_big m (batch @ coin_ops x)))) = (batch @ coin_ops x) @ concat (map coin_ops (take j m))"
      using Cons.IH [OF Cons.prems(1) Cons.prems(2) [unfolded b]] by blast
    then show ?thesis unfolding b by (intro exI [of _ "Suc j"]) simp
  qed
qed simp

lemma coin_ops_frame:
  "db_best_block (fold apply_op (concat (map coin_ops m)) db) = db_best_block db
   \<and> db_head_blocks (fold apply_op (concat (map coin_ops m)) db) = db_head_blocks db"
proof (induction m arbitrary: db)
  case (Cons x m)
  have "db_best_block (fold apply_op (coin_ops x) db) = db_best_block db" "db_head_blocks (fold apply_op (coin_ops x) db) = db_head_blocks db"
    by (auto simp: coin_ops_def split: prod.splits)
  then show ?case using Cons by simp
qed simp

section \<open>Claims\<close>

text \<open>
  C1. The coin caches refine a set of coins: through any sequence of reads, additions, spends, evictions, anchor and nullifier
  updates, flushes and synchronisations in which the callers keep their part of the contract (\<open>ops_allowed\<close>: coins added without
  overwriting are new, hashes that are set are not null, popped anchors exist, caches are written with a best block), the stack
  of caches over the database never fails an assertion or throws, every answer is the one of a plain set of unspent coins,
  anchors and nullifiers with a best block and a best anchor, the stack still stands for this set, and the sanity check of the
  flags holds. A flush or synchronisation loses and invents no coin, anchor or nullifier whatever flags the levels have; the only
  thing it can change is the best anchor, and it does not change this either when a cache written into another cache has its
  own anchor set.
\<close>

theorem cache_refines_utxo_set:
  assumes "view_ok H v" "is_cache v" "ops_allowed H too_big xs v"
  shows "\<exists>as v'. exec_ops H too_big xs v = Some (as, v') \<and> view_ok H v' \<and> SanityCheck v'
    \<and> utxo_run H xs (state_of H v) as (state_of H v')
    \<and> (anchors_kept H too_big xs v \<longrightarrow> spec_ops H xs (state_of H v) = (as, state_of H v'))"
  using exec_ops_refines [OF assms] SanityCheck_ok by blast

definition example_db :: CCoinsViewDB where
  "example_db = \<lparr>db_coins = (\<lambda>_. None), db_best_block = Some (replicate 32 1), db_head_blocks = None,
     db_anchors = (\<lambda>_. None), db_nullifiers = (\<lambda>_. None), db_best_anchor = None\<rparr>"

definition example_outpoint :: COutPoint where
  "example_outpoint = \<lparr>op_hash = replicate 32 7, op_n = 0\<rparr>"

definition example_coin :: Coin where
  "example_coin = \<lparr>coin_out = \<lparr>nValue = 5, scriptPubKey = [0x51]\<rparr>, fCoinBase = False, coin_nHeight = 3\<rparr>"

definition example_ops :: "coins_op list" where
  "example_ops = [Op_AddCoin example_outpoint example_coin False, Op_SetBestBlock (replicate 32 2), Op_Flush,
     Op_SpendCoin example_outpoint, Op_HaveCoin example_outpoint]"

lemma example_view_ok: "view_ok example_hash (View_Cache CCoinsViewCache_new (View_DB example_db))"
  by (simp add: CCoinsViewCache_new_def example_db_def db_GetSaplingAnchorAt_def)

lemmas coins_eval = example_db_def example_outpoint_def example_coin_def CCoinsViewCache_new_def IsSpent_def CTxOut_IsNull_def
  IsUnspendable_def MAX_SCRIPT_SIZE_def add_coin_def CCoinsCacheEntry_default_def coinEmpty_def CTxOut_null_def
  cached_def unspent_def write_ready_def uint256_IsNull_def old_tip_def db_GetBestBlock_def db_batches_def coin_ops_def
  BatchWriteSapling_def apply_batch_def write_coin_def Coin_Clear_def FetchCoin_def HaveCoin_def Let_def

text \<open>
  Two caches over the database, as when a block is connected: the upper one has no anchor of its own when it is flushed.
\<close>

definition example_stack :: CCoinsView where
  "example_stack = View_Cache CCoinsViewCache_new (View_Cache CCoinsViewCache_new (View_DB example_db))"

lemma example_stack_ok: "view_ok example_hash example_stack" "is_cache example_stack"
  by (simp_all add: example_stack_def CCoinsViewCache_new_def example_db_def db_GetSaplingAnchorAt_def)

theorem cache_refines_utxo_set_witness:
  "\<not> anchors_kept example_hash (\<lambda>_. False) example_ops example_stack
   \<and> (\<exists>v'. exec_ops example_hash (\<lambda>_. False) example_ops example_stack
          = Some ([A_none, A_none, A_none, A_coin (Some example_coin), A_bool False], v')
        \<and> utxo_run example_hash example_ops (state_of example_hash example_stack)
            [A_none, A_none, A_none, A_coin (Some example_coin), A_bool False] (state_of example_hash v')
        \<and> view_ok example_hash v' \<and> SanityCheck v')"
proof -
  have a: "ops_allowed example_hash (\<lambda>_. False) example_ops example_stack"
    by (simp add: example_ops_def example_stack_def coins_eval)
  have e: "\<exists>v'. exec_ops example_hash (\<lambda>_. False) example_ops example_stack
      = Some ([A_none, A_none, A_none, A_coin (Some example_coin), A_bool False], v')"
    by (simp add: example_ops_def example_stack_def coins_eval)
  have n: "\<not> anchors_kept example_hash (\<lambda>_. False) example_ops example_stack"
    by (simp add: example_ops_def example_stack_def is_write_def coins_eval)
  show ?thesis using cache_refines_utxo_set [OF example_stack_ok a] e n by auto
qed

text \<open>
  C35. A crash while coins are written to the database leaves it marked: after any proper prefix of the batches of
  \<open>CCoinsViewDB::BatchWrite\<close> (at least one) the best block is erased and the head blocks name the new and the
  old tip, so the interrupted transition can be recognised and repeated; after all batches the best block is
  the new one and the marker is gone.
\<close>

theorem interrupted_write_is_marked:
  assumes "db_batches H too_big db mapCoins hash hashAnchor mapAnchors mapNullifiers = Some bs"
  shows "(\<forall>n. 0 < n \<longrightarrow> n < length bs \<longrightarrow>
      (let db' = fold apply_batch (take n bs) db
       in db_best_block db' = None \<and> old_tip db' hash = old_tip db hash
          \<and> (\<exists>old. old_tip db hash = Some old \<and> db_head_blocks db' = Some [hash, old])))
    \<and> db_best_block (fold apply_batch bs db) = Some hash \<and> db_head_blocks (fold apply_batch bs db) = None"
proof -
  obtain old where old: "old_tip db hash = Some old" using assms by (auto simp: db_batches_def split: if_splits bind_splits)
  let ?mark = "[Erase_best_block, Write_head_blocks [hash, old]]"
  let ?bc = "batch_coins too_big mapCoins ?mark"
  have bs: "bs = fst ?bc @ [snd ?bc @ BatchWriteSapling H hashAnchor mapAnchors mapNullifiers @ [Erase_head_blocks, Write_best_block hash]]"
    using assms old by (auto simp: db_batches_def split_def Let_def split: if_splits)
  have "db_best_block db' = None \<and> old_tip db' hash = old_tip db hash \<and> (\<exists>old. old_tip db hash = Some old \<and> db_head_blocks db' = Some [hash, old])"
    if n: "0 < n" "n < length bs" and db': "db' = fold apply_batch (take n bs) db" for n db'
  proof -
    have t: "take n bs = take n (fst ?bc)" "n \<le> length (fst ?bc)" using n(2) bs by auto
    obtain j where j: "concat (take n bs) = ?mark @ concat (map coin_ops (take j mapCoins))"
      using batch_coins_prefix [OF n(1) t(2)] t(1) by auto
    have "db_best_block db' = None \<and> db_head_blocks db' = Some [hash, old]"
      unfolding db' fold_apply_batch j using coin_ops_frame by simp
    then show ?thesis using old by (simp add: old_tip_def db_GetBestBlock_def db_GetHeadBlocks_def uint256_IsNull_def)
  qed
  moreover have "db_best_block (fold apply_batch bs db) = Some hash \<and> db_head_blocks (fold apply_batch bs db) = None"
    unfolding fold_apply_batch bs by simp
  ultimately show ?thesis unfolding Let_def by blast
qed

theorem interrupted_write_is_marked_witness:
  "\<exists>bs. db_batches example_hash (\<lambda>_. True) example_db [(example_outpoint, \<lparr>coin = example_coin, DIRTY = True, FRESH = True\<rparr>)]
       (replicate 32 2) (replicate 32 0) [] [] = Some bs
    \<and> db_best_block (fold apply_batch bs example_db) = Some (replicate 32 2)"
proof -
  have "\<exists>bs. db_batches example_hash (\<lambda>_. True) example_db [(example_outpoint, \<lparr>coin = example_coin, DIRTY = True, FRESH = True\<rparr>)]
       (replicate 32 2) (replicate 32 0) [] [] = Some bs"
    by (simp add: coins_eval)
  then show ?thesis using interrupted_write_is_marked by blast
qed

text \<open>
  C36. Writing a cache back can lose the best shielded anchor: if the child has not read or set the anchor (its
  \<open>hashSaplingAnchor\<close> is null, as for a block without shielded outputs), \<open>BatchWrite\<close> stores the null hash in the
  parent cache, and the parent's best anchor falls back to that of its own base, although a newer anchor that was not
  yet written there is the best one.
\<close>

theorem flush_drops_best_anchor:
  assumes "view_ok H (View_Cache c (View_Cache p g))" "uint256_IsNull (hashSaplingAnchor c)" "\<not> uint256_IsNull (hashSaplingAnchor p)"
  shows "\<exists>c' p'. Flush H too_big (View_Cache c (View_Cache p g)) = Some (View_Cache c' (View_Cache p' g))
    \<and> fst (GetBestAnchor H (View_Cache c (View_Cache p g))) = hashSaplingAnchor p
    \<and> fst (GetBestAnchor H (View_Cache c' (View_Cache p' g))) = best_anchor_of H g"
proof -
  obtain m where m: "write_coins (cacheCoins c) (cacheCoins p) = Some m"
    using write_coins_ok [of "coins_of g" "cacheCoins p" "cacheCoins c"] assms(1) by auto
  let ?c = "c\<lparr>cacheCoins := [], cacheSaplingAnchors := [], cacheSaplingNullifiers := []\<rparr>"
  let ?p = "p\<lparr>cacheCoins := m, cacheSaplingAnchors := fold write_anchor (cacheSaplingAnchors c) (cacheSaplingAnchors p),
      cacheSaplingNullifiers := fold write_nullifier (cacheSaplingNullifiers c) (cacheSaplingNullifiers p),
      hashSaplingAnchor := hashSaplingAnchor c, hashBlock := hashBlock c\<rparr>"
  have "Flush H too_big (View_Cache c (View_Cache p g)) = Some (View_Cache ?c (View_Cache ?p g))"
    using m by simp
  moreover have "fst (GetBestAnchor H (View_Cache c (View_Cache p g))) = hashSaplingAnchor p"
    using assms(2,3) by simp
  moreover have "fst (GetBestAnchor H (View_Cache ?c (View_Cache ?p g))) = best_anchor_of H g"
    using assms(1,2) GetBestAnchor_spec [of H g] by (simp add: split_def Let_def)
  ultimately show ?thesis by blast
qed

definition example_tip :: CCoinsViewCache where
  "example_tip = CCoinsViewCache_new\<lparr>hashBlock := replicate 32 2, hashSaplingAnchor := replicate 32 9, cacheSaplingAnchors :=
     [(replicate 32 9, \<lparr>anchor_entered = True, anchor_tree = IncrementalMerkleTree_default\<lparr>left_leaf := Some (example_leaf 9)\<rparr>,
        anchor_DIRTY = True\<rparr>)]\<rparr>"

primrec example_byte :: "nat \<Rightarrow> u8" where
  "example_byte 0 = 1"
| "example_byte (Suc d) = 4 * example_byte d + of_nat d + 1"

lemma example_empty_root_byte: "example_empty_root d = replicate 32 (example_byte d)"
  by (induction d) (simp_all add: example_combine_def zip_replicate)

theorem flush_drops_best_anchor_witness:
  "\<exists>c' p'. Flush example_hash (\<lambda>_. False) (SetBestBlock (replicate 32 3) (View_Cache CCoinsViewCache_new (View_Cache example_tip (View_DB example_db))))
        = Some (View_Cache c' (View_Cache p' (View_DB example_db)))
    \<and> fst (GetBestAnchor example_hash (View_Cache CCoinsViewCache_new (View_Cache example_tip (View_DB example_db)))) = replicate 32 9
    \<and> fst (GetBestAnchor example_hash (View_Cache c' (View_Cache p' (View_DB example_db)))) = sapling_empty_root example_hash"
proof -
  have "example_byte 32 \<noteq> 9" by code_simp
  then have "empty_root example_hash SAPLING_INCREMENTAL_MERKLE_TREE_DEPTH \<noteq> replicate 32 9"
    by (simp add: empty_root_def example_hash_def example_empty_root_byte SAPLING_INCREMENTAL_MERKLE_TREE_DEPTH_def)
  then have ok: "view_ok example_hash (View_Cache (CCoinsViewCache_new\<lparr>hashBlock := replicate 32 3\<rparr>) (View_Cache example_tip (View_DB example_db)))"
    by (simp add: CCoinsViewCache_new_def example_tip_def example_db_def db_GetSaplingAnchorAt_def map_ok_def anchor_ok_def cached_def)
  have n: "uint256_IsNull (hashSaplingAnchor (CCoinsViewCache_new\<lparr>hashBlock := replicate 32 3\<rparr>))" "\<not> uint256_IsNull (hashSaplingAnchor example_tip)"
    by (simp_all add: CCoinsViewCache_new_def example_tip_def uint256_IsNull_def)
  show ?thesis
    using flush_drops_best_anchor [OF ok n, of "\<lambda>_. False"] n
    by (simp add: best_anchor_of.simps db_GetBestAnchor_def example_db_def example_tip_def)
qed

end
