(* ===== verification/Interpreter.thy ===== *)
theory Interpreter
  imports Script "HOL-Library.Sublist"
begin

text \<open>
The script interpreter (\<^verbatim>\<open>script/interpreter.h\<close>, \<^verbatim>\<open>script/interpreter.cpp\<close>): encodings of signatures and keys,
  the condition stack, one function per opcode, the loop of \<open>EvalScript\<close> and \<open>VerifyScript\<close>. The hash functions and
  the signature checker are parameters. Each function that fails yields the error it sets; a failed assertion is
  told apart from it.
\<close>

unbundle bit_operations_syntax

section \<open>Flags, errors and the signature checker\<close>

definition SCRIPT_VERIFY_P2SH :: u32 where "SCRIPT_VERIFY_P2SH = push_bit 0 1"
definition SCRIPT_VERIFY_STRICTENC :: u32 where "SCRIPT_VERIFY_STRICTENC = push_bit 1 1"
definition SCRIPT_VERIFY_DERSIG :: u32 where "SCRIPT_VERIFY_DERSIG = push_bit 2 1"
definition SCRIPT_VERIFY_LOW_S :: u32 where "SCRIPT_VERIFY_LOW_S = push_bit 3 1"
definition SCRIPT_VERIFY_NULLDUMMY :: u32 where "SCRIPT_VERIFY_NULLDUMMY = push_bit 4 1"
definition SCRIPT_VERIFY_SIGPUSHONLY :: u32 where "SCRIPT_VERIFY_SIGPUSHONLY = push_bit 5 1"
definition SCRIPT_VERIFY_MINIMALDATA :: u32 where "SCRIPT_VERIFY_MINIMALDATA = push_bit 6 1"
definition SCRIPT_VERIFY_DISCOURAGE_UPGRADABLE_NOPS :: u32 where
  "SCRIPT_VERIFY_DISCOURAGE_UPGRADABLE_NOPS = push_bit 7 1"
definition SCRIPT_VERIFY_CLEANSTACK :: u32 where "SCRIPT_VERIFY_CLEANSTACK = push_bit 8 1"
definition SCRIPT_VERIFY_CHECKLOCKTIMEVERIFY :: u32 where "SCRIPT_VERIFY_CHECKLOCKTIMEVERIFY = push_bit 9 1"
definition SCRIPT_VERIFY_CHECKSEQUENCEVERIFY :: u32 where "SCRIPT_VERIFY_CHECKSEQUENCEVERIFY = push_bit 10 1"
definition SCRIPT_VERIFY_NULLFAIL :: u32 where "SCRIPT_VERIFY_NULLFAIL = push_bit 14 1"
definition SCRIPT_VERIFY_CONST_SCRIPTCODE :: u32 where "SCRIPT_VERIFY_CONST_SCRIPTCODE = push_bit 16 1"

datatype ScriptError =
  SCRIPT_ERR_UNKNOWN_ERROR | SCRIPT_ERR_EVAL_FALSE | SCRIPT_ERR_OP_RETURN
| SCRIPT_ERR_SCRIPT_SIZE | SCRIPT_ERR_PUSH_SIZE | SCRIPT_ERR_OP_COUNT | SCRIPT_ERR_STACK_SIZE
| SCRIPT_ERR_SIG_COUNT | SCRIPT_ERR_PUBKEY_COUNT
| SCRIPT_ERR_VERIFY | SCRIPT_ERR_EQUALVERIFY | SCRIPT_ERR_CHECKMULTISIGVERIFY | SCRIPT_ERR_CHECKSIGVERIFY
| SCRIPT_ERR_CHECKDATASIGVERIFY | SCRIPT_ERR_NUMEQUALVERIFY
| SCRIPT_ERR_BAD_OPCODE | SCRIPT_ERR_DISABLED_OPCODE | SCRIPT_ERR_INVALID_STACK_OPERATION
| SCRIPT_ERR_INVALID_ALTSTACK_OPERATION | SCRIPT_ERR_UNBALANCED_CONDITIONAL
| SCRIPT_ERR_INVALID_SPLIT_RANGE | SCRIPT_ERR_INVALID_OPERAND_SIZE | SCRIPT_ERR_INVALID_NUMBER_RANGE
| SCRIPT_ERR_IMPOSSIBLE_ENCODING | SCRIPT_ERR_DIV_BY_ZERO | SCRIPT_ERR_MOD_BY_ZERO
| SCRIPT_ERR_NEGATIVE_LOCKTIME | SCRIPT_ERR_UNSATISFIED_LOCKTIME
| SCRIPT_ERR_SIG_HASHTYPE | SCRIPT_ERR_SIG_DER | SCRIPT_ERR_MINIMALDATA | SCRIPT_ERR_SIG_PUSHONLY
| SCRIPT_ERR_SIG_HIGH_S | SCRIPT_ERR_SIG_NULLDUMMY | SCRIPT_ERR_PUBKEYTYPE | SCRIPT_ERR_CLEANSTACK
| SCRIPT_ERR_SIG_NULLFAIL | SCRIPT_ERR_DISCOURAGE_UPGRADABLE_NOPS | SCRIPT_ERR_OP_CODESEPARATOR
| SCRIPT_ERR_SIG_FINDANDDELETE

datatype SigVersion = BASE | SAPLING

text \<open>
  How an evaluation fails: with an error, an exception that \<open>EvalScript\<close> catches being
  \<open>SCRIPT_ERR_UNKNOWN_ERROR\<close>, or with a failed assertion, which ends the program.
\<close>

datatype failure = Fail ScriptError | Assertion

text \<open>
  The signature checker and the cryptographic functions the interpreter calls: the hashes of the five hash
  opcodes, the verification of an ECDSA signature and the test for a low \<open>S\<close> value.
\<close>

record BaseSignatureChecker =
  CheckSig :: "bytes \<Rightarrow> bytes \<Rightarrow> CScript \<Rightarrow> SigVersion \<Rightarrow> bool"
  CheckLockTime :: "int \<Rightarrow> bool"
  CheckSequence :: "int \<Rightarrow> bool"

record Crypto =
  RIPEMD160 :: "bytes \<Rightarrow> bytes"
  SHA1 :: "bytes \<Rightarrow> bytes"
  SHA256 :: "bytes \<Rightarrow> bytes"
  Hash160 :: "bytes \<Rightarrow> bytes"
  Hash256 :: "bytes \<Rightarrow> bytes"
  pubkey_Verify :: "bytes \<Rightarrow> bytes \<Rightarrow> bytes \<Rightarrow> bool"
  CheckLowS :: "bytes \<Rightarrow> bool"

section \<open>Encodings of signatures and keys\<close>

definition SIGHASH_ALL :: u8 where "SIGHASH_ALL = 1"
definition SIGHASH_NONE :: u8 where "SIGHASH_NONE = 2"
definition SIGHASH_SINGLE :: u8 where "SIGHASH_SINGLE = 3"
definition SIGHASH_ANYONECANPAY :: u8 where "SIGHASH_ANYONECANPAY = 0x80"

definition PUBKEY_SIZE :: nat where "PUBKEY_SIZE = 65"
definition COMPRESSED_SIZE :: nat where "COMPRESSED_SIZE = 33"

fun CastToBool :: "bytes \<Rightarrow> bool" where
  "CastToBool [] = False"
| "CastToBool (b # bs) = (if b \<noteq> 0 then \<not> (bs = [] \<and> b = 0x80) else CastToBool bs)"

definition IsCompressedOrUncompressedPubKey :: "bytes \<Rightarrow> bool" where
  "IsCompressedOrUncompressedPubKey k =
     (if length k < COMPRESSED_SIZE then False
      else if k ! 0 = 0x04 then length k = PUBKEY_SIZE
      else if k ! 0 = 0x02 \<or> k ! 0 = 0x03 then length k = COMPRESSED_SIZE
      else False)"

definition IsValidSignatureEncoding :: "bytes \<Rightarrow> bool" where
  "IsValidSignatureEncoding sig =
     (if length sig < 9 then False
      else if length sig > 73 then False
      else if sig ! 0 \<noteq> 0x30 then False
      else if unat (sig ! 1) \<noteq> length sig - 3 then False
      else let lenR = unat (sig ! 3) in
        if 5 + lenR \<ge> length sig then False
        else let lenS = unat (sig ! (5 + lenR)) in
          if lenR + lenS + 7 \<noteq> length sig then False
          else if sig ! 2 \<noteq> 0x02 then False
          else if lenR = 0 then False
          else if sig ! 4 AND 0x80 \<noteq> 0 then False
          else if lenR > 1 \<and> sig ! 4 = 0 \<and> sig ! 5 AND 0x80 = 0 then False
          else if sig ! (lenR + 4) \<noteq> 0x02 then False
          else if lenS = 0 then False
          else if sig ! (lenR + 6) AND 0x80 \<noteq> 0 then False
          else if lenS > 1 \<and> sig ! (lenR + 6) = 0 \<and> sig ! (lenR + 7) AND 0x80 = 0 then False
          else True)"

definition IsLowDERSignature :: "Crypto \<Rightarrow> bytes \<Rightarrow> ScriptError option" where
  "IsLowDERSignature C sig =
     (if \<not> IsValidSignatureEncoding sig then Some SCRIPT_ERR_SIG_DER
      else if \<not> CheckLowS C (butlast sig) then Some SCRIPT_ERR_SIG_HIGH_S
      else None)"

definition IsDefinedHashtypeSignature :: "bytes \<Rightarrow> bool" where
  "IsDefinedHashtypeSignature sig =
     (if length sig = 0 then False
      else let nHashType = last sig AND NOT SIGHASH_ANYONECANPAY
           in \<not> (nHashType < SIGHASH_ALL \<or> nHashType > SIGHASH_SINGLE))"

definition has_flag :: "u32 \<Rightarrow> u32 \<Rightarrow> bool" where
  "has_flag flags f \<longleftrightarrow> flags AND f \<noteq> 0"

text \<open>The checks return the error they set, or None when they pass.\<close>

definition CheckSignatureEncoding :: "Crypto \<Rightarrow> bytes \<Rightarrow> u32 \<Rightarrow> ScriptError option" where
  "CheckSignatureEncoding C sig flags =
     (if length sig = 0 then None
      else if has_flag flags (SCRIPT_VERIFY_DERSIG OR SCRIPT_VERIFY_LOW_S OR SCRIPT_VERIFY_STRICTENC)
              \<and> \<not> IsValidSignatureEncoding sig then Some SCRIPT_ERR_SIG_DER
      else if has_flag flags SCRIPT_VERIFY_LOW_S \<and> IsLowDERSignature C sig \<noteq> None then IsLowDERSignature C sig
      else if has_flag flags SCRIPT_VERIFY_STRICTENC \<and> \<not> IsDefinedHashtypeSignature sig
      then Some SCRIPT_ERR_SIG_HASHTYPE
      else None)"

definition CheckPubKeyEncoding :: "bytes \<Rightarrow> u32 \<Rightarrow> ScriptError option" where
  "CheckPubKeyEncoding k flags =
     (if has_flag flags SCRIPT_VERIFY_STRICTENC \<and> \<not> IsCompressedOrUncompressedPubKey k
      then Some SCRIPT_ERR_PUBKEYTYPE else None)"

section \<open>Deleting a signature from the script it signs\<close>

function skip_matches :: "CScript \<Rightarrow> bytes \<Rightarrow> nat \<Rightarrow> bytes \<times> nat" where
  "skip_matches b pc nFound =
     (if b \<noteq> [] \<and> length pc \<ge> length b \<and> take (length b) pc = b
      then skip_matches b (drop (length b) pc) (nFound + 1) else (pc, nFound))"
  by pat_completeness auto

termination skip_matches
proof (relation "measure (\<lambda>(b, pc, _). length pc)")
  fix b pc :: bytes and n :: nat
  assume "b \<noteq> [] \<and> length pc \<ge> length b \<and> take (length b) pc = b"
  then have "0 < length b" "length b \<le> length pc" by auto
  then show "((b, drop (length b) pc, n + 1), b, pc, n) \<in> measure (\<lambda>(b, pc, _). length pc)"
    by (simp only: in_measure split length_drop)
qed simp

declare skip_matches.simps [simp del]

lemma skip_matches_shorter: "length (fst (skip_matches b pc n)) \<le> length pc"
  by (induction b pc n rule: skip_matches.induct) (subst skip_matches.simps, force)

function find_loop :: "CScript \<Rightarrow> bytes \<Rightarrow> bytes \<Rightarrow> CScript \<Rightarrow> nat \<Rightarrow> CScript \<times> bytes \<times> nat" where
  "find_loop b pc2 pc result nFound =
     (let result = result @ take (length pc2 - length pc) pc2;
          m = skip_matches b pc nFound
      in case GetScriptOp (fst m) of
           (False, _) \<Rightarrow> (result, fst m, snd m)
         | (True, opcode, _, pc') \<Rightarrow> find_loop b (fst m) pc' result (snd m))"
  by pat_completeness auto

termination find_loop
  by (relation "measure (\<lambda>(_, _, pc, _, _). length pc)")
     (use less_le_trans [OF GetScriptOp_shorter [OF sym] skip_matches_shorter] in auto)

declare find_loop.simps [simp del]

definition FindAndDelete :: "CScript \<Rightarrow> CScript \<Rightarrow> nat \<times> CScript" where
  "FindAndDelete script b =
     (if b = [] then (0, script)
      else let (result, pc2, nFound) = find_loop b script script [] 0
           in if nFound > 0 then (nFound, result @ pc2) else (nFound, script))"

section \<open>The stack of conditions\<close>

record ConditionStack =
  m_stack_size :: u32
  m_first_false_pos :: u32

definition NO_FALSE :: u32 where "NO_FALSE = 0xffffffff"

definition cond_new :: ConditionStack where
  "cond_new = \<lparr>m_stack_size = 0, m_first_false_pos = NO_FALSE\<rparr>"

definition cond_empty :: "ConditionStack \<Rightarrow> bool" where
  "cond_empty c \<longleftrightarrow> m_stack_size c = 0"

definition all_true :: "ConditionStack \<Rightarrow> bool" where
  "all_true c \<longleftrightarrow> m_first_false_pos c = NO_FALSE"

definition cond_push_back :: "bool \<Rightarrow> ConditionStack \<Rightarrow> ConditionStack" where
  "cond_push_back f c =
     (let c = (if m_first_false_pos c = NO_FALSE \<and> \<not> f then c\<lparr>m_first_false_pos := m_stack_size c\<rparr> else c)
      in c\<lparr>m_stack_size := m_stack_size c + 1\<rparr>)"

definition cond_pop_back :: "ConditionStack \<Rightarrow> ConditionStack option" where
  "cond_pop_back c =
     (if \<not> m_stack_size c > 0 then None
      else let c = c\<lparr>m_stack_size := m_stack_size c - 1\<rparr>
           in Some (if m_first_false_pos c = m_stack_size c then c\<lparr>m_first_false_pos := NO_FALSE\<rparr> else c))"

definition toggle_top :: "ConditionStack \<Rightarrow> ConditionStack option" where
  "toggle_top c =
     (if \<not> m_stack_size c > 0 then None
      else Some (if m_first_false_pos c = NO_FALSE then c\<lparr>m_first_false_pos := m_stack_size c - 1\<rparr>
                 else if m_first_false_pos c = m_stack_size c - 1 then c\<lparr>m_first_false_pos := NO_FALSE\<rparr>
                 else c))"

section \<open>Operations on the stack\<close>

text \<open>
  A stack is a list with its top in front: \<open>stacktop(-1)\<close> is the head. An operation yields the changed stack; the
  last equation of each is its test of the size of the stack.
\<close>

definition MAX_SCRIPT_ELEMENT_SIZE :: nat where "MAX_SCRIPT_ELEMENT_SIZE = 520"
definition MAX_OPS_PER_SCRIPT :: int where "MAX_OPS_PER_SCRIPT = 201"
definition MAX_STACK_SIZE :: nat where "MAX_STACK_SIZE = 1000"

type_synonym valstack = "bytes list"

definition vchTrue :: bytes where "vchTrue = [1]"
definition vchFalse :: bytes where "vchFalse = []"

abbreviation invalid_stack :: "failure + 'a" where
  "invalid_stack \<equiv> Inl (Fail SCRIPT_ERR_INVALID_STACK_OPERATION)"

definition vch_of_bool :: "bool \<Rightarrow> bytes" where
  "vch_of_bool b = (if b then vchTrue else vchFalse)"

text \<open>An operand read as a number; the exception of a bad number is caught at the end of \<open>EvalScript\<close>.\<close>

definition num_operand :: "bytes \<Rightarrow> bool \<Rightarrow> nat \<Rightarrow> failure + int" where
  "num_operand vch fRequireMinimal nMaxNumSize = (case CScriptNum vch fRequireMinimal nMaxNumSize of
     None \<Rightarrow> Inl (Fail SCRIPT_ERR_UNKNOWN_ERROR) | Some n \<Rightarrow> Inr n)"

fun op_VERIFY :: "valstack \<Rightarrow> failure + valstack" where
  "op_VERIFY (x # s) = (if CastToBool x then Inr s else Inl (Fail SCRIPT_ERR_VERIFY))"
| "op_VERIFY _ = invalid_stack"

fun op_2DROP :: "valstack \<Rightarrow> failure + valstack" where
  "op_2DROP (x2 # x1 # s) = Inr s"
| "op_2DROP _ = invalid_stack"

fun op_2DUP :: "valstack \<Rightarrow> failure + valstack" where
  "op_2DUP (x2 # x1 # s) = Inr (x2 # x1 # x2 # x1 # s)"
| "op_2DUP _ = invalid_stack"

fun op_3DUP :: "valstack \<Rightarrow> failure + valstack" where
  "op_3DUP (x3 # x2 # x1 # s) = Inr (x3 # x2 # x1 # x3 # x2 # x1 # s)"
| "op_3DUP _ = invalid_stack"

fun op_2OVER :: "valstack \<Rightarrow> failure + valstack" where
  "op_2OVER (x4 # x3 # x2 # x1 # s) = Inr (x2 # x1 # x4 # x3 # x2 # x1 # s)"
| "op_2OVER _ = invalid_stack"

fun op_2ROT :: "valstack \<Rightarrow> failure + valstack" where
  "op_2ROT (x6 # x5 # x4 # x3 # x2 # x1 # s) = Inr (x2 # x1 # x6 # x5 # x4 # x3 # s)"
| "op_2ROT _ = invalid_stack"

fun op_2SWAP :: "valstack \<Rightarrow> failure + valstack" where
  "op_2SWAP (x4 # x3 # x2 # x1 # s) = Inr (x2 # x1 # x4 # x3 # s)"
| "op_2SWAP _ = invalid_stack"

fun op_IFDUP :: "valstack \<Rightarrow> failure + valstack" where
  "op_IFDUP (x # s) = Inr (if CastToBool x then x # x # s else x # s)"
| "op_IFDUP _ = invalid_stack"

definition op_DEPTH :: "valstack \<Rightarrow> failure + valstack" where
  "op_DEPTH s = Inr (serialize (int (length s)) # s)"

fun op_DROP :: "valstack \<Rightarrow> failure + valstack" where
  "op_DROP (x # s) = Inr s"
| "op_DROP _ = invalid_stack"

fun op_DUP :: "valstack \<Rightarrow> failure + valstack" where
  "op_DUP (x # s) = Inr (x # x # s)"
| "op_DUP _ = invalid_stack"

fun op_NIP :: "valstack \<Rightarrow> failure + valstack" where
  "op_NIP (x2 # x1 # s) = Inr (x2 # s)"
| "op_NIP _ = invalid_stack"

fun op_OVER :: "valstack \<Rightarrow> failure + valstack" where
  "op_OVER (x2 # x1 # s) = Inr (x1 # x2 # x1 # s)"
| "op_OVER _ = invalid_stack"

definition op_PICK :: "u8 \<Rightarrow> bool \<Rightarrow> valstack \<Rightarrow> failure + valstack" where
  "op_PICK opcode fRequireMinimal s =
     (if length s < 2 then invalid_stack
      else bind_sum (num_operand (hd s) fRequireMinimal nDefaultMaxNumSize) (\<lambda>v.
        let n = getint v; s = tl s
        in if n < 0 \<or> n \<ge> int (length s) then invalid_stack
           else let vch = s ! nat n
                in Inr (vch # (if opcode = OP_ROLL then take (nat n) s @ drop (nat n + 1) s else s))))"

fun op_ROT :: "valstack \<Rightarrow> failure + valstack" where
  "op_ROT (x3 # x2 # x1 # s) = Inr (x1 # x3 # x2 # s)"
| "op_ROT _ = invalid_stack"

fun op_SWAP :: "valstack \<Rightarrow> failure + valstack" where
  "op_SWAP (x2 # x1 # s) = Inr (x1 # x2 # s)"
| "op_SWAP _ = invalid_stack"

fun op_TUCK :: "valstack \<Rightarrow> failure + valstack" where
  "op_TUCK (x2 # x1 # s) = Inr (x2 # x1 # x2 # s)"
| "op_TUCK _ = invalid_stack"

fun op_SIZE :: "valstack \<Rightarrow> failure + valstack" where
  "op_SIZE (x # s) = Inr (serialize (int (length x)) # x # s)"
| "op_SIZE _ = invalid_stack"

section \<open>Logic, arithmetic and splicing\<close>

fun op_EQUAL :: "u8 \<Rightarrow> valstack \<Rightarrow> failure + valstack" where
  "op_EQUAL opcode (x2 # x1 # s) =
     (let fEqual = (x1 = x2)
      in if opcode = OP_EQUALVERIFY then if fEqual then Inr s else Inl (Fail SCRIPT_ERR_EQUALVERIFY)
         else Inr (vch_of_bool fEqual # s))"
| "op_EQUAL opcode _ = invalid_stack"

fun op_bitwise :: "u8 \<Rightarrow> valstack \<Rightarrow> failure + valstack" where
  "op_bitwise opcode (x2 # x1 # s) =
     (if length x1 \<noteq> length x2 then Inl (Fail SCRIPT_ERR_INVALID_OPERAND_SIZE)
      else Inr (map2 (if opcode = OP_AND then (AND) else if opcode = OP_OR then (OR) else (XOR)) x1 x2 # s))"
| "op_bitwise opcode _ = invalid_stack"

definition num_add_assign :: "int \<Rightarrow> int \<Rightarrow> failure + int" where
  "num_add_assign m rhs =
     (if rhs = 0 \<or> (rhs > 0 \<and> m \<le> 2 ^ 63 - 1 - rhs) \<or> (rhs < 0 \<and> m \<ge> - (2 ^ 63) - rhs) then Inr (m + rhs)
      else Inl Assertion)"

definition num_sub_assign :: "int \<Rightarrow> int \<Rightarrow> failure + int" where
  "num_sub_assign m rhs =
     (if rhs = 0 \<or> (rhs > 0 \<and> m \<ge> - (2 ^ 63) + rhs) \<or> (rhs < 0 \<and> m \<le> 2 ^ 63 - 1 + rhs) then Inr (m - rhs)
      else Inl Assertion)"

definition num_negate :: "int \<Rightarrow> failure + int" where
  "num_negate m = (if m = - (2 ^ 63) then Inl Assertion else Inr (- m))"

definition num_unary :: "u8 \<Rightarrow> int \<Rightarrow> failure + int" where
  "num_unary opcode bn =
     (if opcode = OP_1ADD then num_add_assign bn 1
      else if opcode = OP_1SUB then num_sub_assign bn 1
      else if opcode = OP_NEGATE then num_negate bn
      else if opcode = OP_ABS then if bn < 0 then num_negate bn else Inr bn
      else if opcode = OP_NOT then Inr (of_bool (bn = 0))
      else if opcode = OP_0NOTEQUAL then Inr (of_bool (bn \<noteq> 0))
      else Inl Assertion)"

fun op_unary :: "u8 \<Rightarrow> bool \<Rightarrow> valstack \<Rightarrow> failure + valstack" where
  "op_unary opcode fRequireMinimal (x # s) =
     bind_sum (num_operand x fRequireMinimal nDefaultMaxNumSize) (\<lambda>bn.
     bind_sum (num_unary opcode bn) (\<lambda>bn. Inr (serialize bn # s)))"
| "op_unary opcode fRequireMinimal _ = invalid_stack"

definition num_binary :: "u8 \<Rightarrow> int \<Rightarrow> int \<Rightarrow> failure + int" where
  "num_binary opcode bn1 bn2 =
     (if opcode = OP_ADD then Inr (bn1 + bn2)
      else if opcode = OP_SUB then Inr (bn1 - bn2)
      else if opcode = OP_DIV then if bn2 = 0 then Inl (Fail SCRIPT_ERR_DIV_BY_ZERO) else Inr (cdiv bn1 bn2)
      else if opcode = OP_MOD then if bn2 = 0 then Inl (Fail SCRIPT_ERR_MOD_BY_ZERO) else Inr (cmod bn1 bn2)
      else if opcode = OP_BOOLAND then Inr (of_bool (bn1 \<noteq> 0 \<and> bn2 \<noteq> 0))
      else if opcode = OP_BOOLOR then Inr (of_bool (bn1 \<noteq> 0 \<or> bn2 \<noteq> 0))
      else if opcode = OP_NUMEQUAL \<or> opcode = OP_NUMEQUALVERIFY then Inr (of_bool (bn1 = bn2))
      else if opcode = OP_NUMNOTEQUAL then Inr (of_bool (bn1 \<noteq> bn2))
      else if opcode = OP_LESSTHAN then Inr (of_bool (bn1 < bn2))
      else if opcode = OP_GREATERTHAN then Inr (of_bool (bn1 > bn2))
      else if opcode = OP_LESSTHANOREQUAL then Inr (of_bool (bn1 \<le> bn2))
      else if opcode = OP_GREATERTHANOREQUAL then Inr (of_bool (bn1 \<ge> bn2))
      else if opcode = OP_MIN then Inr (if bn1 < bn2 then bn1 else bn2)
      else if opcode = OP_MAX then Inr (if bn1 > bn2 then bn1 else bn2)
      else Inl Assertion)"

fun op_binary :: "u8 \<Rightarrow> bool \<Rightarrow> valstack \<Rightarrow> failure + valstack" where
  "op_binary opcode fRequireMinimal (x2 # x1 # s) =
     bind_sum (num_operand x1 fRequireMinimal nDefaultMaxNumSize) (\<lambda>bn1.
     bind_sum (num_operand x2 fRequireMinimal nDefaultMaxNumSize) (\<lambda>bn2.
     bind_sum (num_binary opcode bn1 bn2) (\<lambda>bn.
       if opcode = OP_NUMEQUALVERIFY
       then if CastToBool (serialize bn) then Inr s else Inl (Fail SCRIPT_ERR_NUMEQUALVERIFY)
       else Inr (serialize bn # s))))"
| "op_binary opcode fRequireMinimal _ = invalid_stack"

fun op_WITHIN :: "bool \<Rightarrow> valstack \<Rightarrow> failure + valstack" where
  "op_WITHIN fRequireMinimal (x3 # x2 # x1 # s) =
     bind_sum (num_operand x1 fRequireMinimal nDefaultMaxNumSize) (\<lambda>bn1.
     bind_sum (num_operand x2 fRequireMinimal nDefaultMaxNumSize) (\<lambda>bn2.
     bind_sum (num_operand x3 fRequireMinimal nDefaultMaxNumSize) (\<lambda>bn3.
       Inr (vch_of_bool (bn2 \<le> bn1 \<and> bn1 < bn3) # s))))"
| "op_WITHIN fRequireMinimal _ = invalid_stack"

fun op_CAT :: "valstack \<Rightarrow> failure + valstack" where
  "op_CAT (x2 # x1 # s) =
     (if length x1 + length x2 > MAX_SCRIPT_ELEMENT_SIZE then Inl (Fail SCRIPT_ERR_PUSH_SIZE)
      else Inr ((x1 @ x2) # s))"
| "op_CAT _ = invalid_stack"

fun op_SPLIT :: "bool \<Rightarrow> valstack \<Rightarrow> failure + valstack" where
  "op_SPLIT fRequireMinimal (x2 # vch # s) =
     bind_sum (num_operand x2 fRequireMinimal nDefaultMaxNumSize) (\<lambda>v.
       let nPosition = getint v
       in if nPosition < 0 \<or> nat nPosition > length vch then Inl (Fail SCRIPT_ERR_INVALID_SPLIT_RANGE)
          else if nPosition = 0 then Inr (vch # [] # s)
          else if nat nPosition = length vch then Inr ([] # vch # s)
          else Inr (drop (nat nPosition) vch # take (nat nPosition) vch # s))"
| "op_SPLIT fRequireMinimal _ = invalid_stack"

text \<open>A negative size becomes a large 64-bit number, which exceeds the largest element.\<close>

fun op_NUM2BIN :: "bool \<Rightarrow> valstack \<Rightarrow> failure + valstack" where
  "op_NUM2BIN fRequireMinimal (x2 # x1 # s) =
     bind_sum (num_operand x2 fRequireMinimal nDefaultMaxNumSize) (\<lambda>v.
       let size' = unat (word_of_int (getint v) :: u64)
       in if size' > MAX_SCRIPT_ELEMENT_SIZE then Inl (Fail SCRIPT_ERR_PUSH_SIZE)
          else let rawnum = snd (MinimallyEncode x1)
               in if length rawnum > size' then Inl (Fail SCRIPT_ERR_IMPOSSIBLE_ENCODING)
                  else if length rawnum = size' then Inr (rawnum # s)
                  else let signbit = (if length rawnum > 0 then last rawnum AND 0x80 else 0);
                           rawnum = (if length rawnum > 0
                                     then rawnum[length rawnum - 1 := last rawnum AND 0x7f] else rawnum)
                       in Inr ((rawnum @ replicate (size' - 1 - length rawnum) 0 @ [signbit]) # s))"
| "op_NUM2BIN fRequireMinimal _ = invalid_stack"

fun op_BIN2NUM :: "valstack \<Rightarrow> failure + valstack" where
  "op_BIN2NUM (x # s) =
     (let n = snd (MinimallyEncode x)
      in if \<not> IsMinimallyEncoded n nDefaultMaxNumSize then Inl (Fail SCRIPT_ERR_INVALID_NUMBER_RANGE)
         else Inr (n # s))"
| "op_BIN2NUM _ = invalid_stack"

section \<open>Hashes and signatures\<close>

record script_env =
  script_flags :: u32
  sigversion :: SigVersion
  checker :: BaseSignatureChecker
  crypto :: Crypto

abbreviation flag_set :: "script_env \<Rightarrow> u32 \<Rightarrow> bool" where
  "flag_set E f \<equiv> has_flag (script_flags E) f"

definition fRequireMinimal :: "script_env \<Rightarrow> bool" where
  "fRequireMinimal E = flag_set E SCRIPT_VERIFY_MINIMALDATA"

fun op_digest :: "Crypto \<Rightarrow> u8 \<Rightarrow> valstack \<Rightarrow> failure + valstack" where
  "op_digest C opcode (x # s) =
     Inr ((if opcode = OP_RIPEMD160 then RIPEMD160 C x
           else if opcode = OP_SHA1 then SHA1 C x
           else if opcode = OP_SHA256 then SHA256 C x
           else if opcode = OP_HASH160 then Hash160 C x
           else Hash256 C x) # s)"
| "op_digest C opcode _ = invalid_stack"

definition check_encodings :: "script_env \<Rightarrow> bytes \<Rightarrow> bytes \<Rightarrow> failure + unit" where
  "check_encodings E vchSig vchPubKey = (case CheckSignatureEncoding (crypto E) vchSig (script_flags E) of
       Some e \<Rightarrow> Inl (Fail e)
     | None \<Rightarrow> (case CheckPubKeyEncoding vchPubKey (script_flags E) of Some e \<Rightarrow> Inl (Fail e) | None \<Rightarrow> Inr ()))"

fun delete_sigs :: "script_env \<Rightarrow> bytes list \<Rightarrow> CScript \<Rightarrow> failure + CScript" where
  "delete_sigs E [] scriptCode = Inr scriptCode"
| "delete_sigs E (vchSig # sigs) scriptCode =
     (if sigversion E = BASE
      then let (found, scriptCode) = FindAndDelete scriptCode (push_data [] vchSig)
           in if found > 0 \<and> flag_set E SCRIPT_VERIFY_CONST_SCRIPTCODE then Inl (Fail SCRIPT_ERR_SIG_FINDANDDELETE)
              else delete_sigs E sigs scriptCode
      else delete_sigs E sigs scriptCode)"

definition EvalChecksig :: "script_env \<Rightarrow> bytes \<Rightarrow> bytes \<Rightarrow> CScript \<Rightarrow> failure + bool" where
  "EvalChecksig E vchSig vchPubKey scriptCode =
     bind_sum (delete_sigs E [vchSig] scriptCode) (\<lambda>scriptCode.
     bind_sum (check_encodings E vchSig vchPubKey) (\<lambda>_.
       let fSuccess = CheckSig (checker E) vchSig vchPubKey scriptCode (sigversion E)
       in if \<not> fSuccess \<and> flag_set E SCRIPT_VERIFY_NULLFAIL \<and> vchSig \<noteq> [] then Inl (Fail SCRIPT_ERR_SIG_NULLFAIL)
          else Inr fSuccess))"

text \<open>The end of a signature opcode: push the result, or, for the VERIFY variant, fail with \<open>err\<close>.\<close>

definition push_or_verify :: "bool \<Rightarrow> ScriptError \<Rightarrow> bool \<Rightarrow> valstack \<Rightarrow> failure + valstack" where
  "push_or_verify verify err fSuccess s =
     (if verify then if fSuccess then Inr s else Inl (Fail err) else Inr (vch_of_bool fSuccess # s))"

fun op_CHECKSIG :: "script_env \<Rightarrow> u8 \<Rightarrow> CScript \<Rightarrow> valstack \<Rightarrow> failure + valstack" where
  "op_CHECKSIG E opcode code (vchPubKey # vchSig # s) =
     bind_sum (EvalChecksig E vchSig vchPubKey code) (\<lambda>fSuccess.
       push_or_verify (opcode = OP_CHECKSIGVERIFY) SCRIPT_ERR_CHECKSIGVERIFY fSuccess s)"
| "op_CHECKSIG E opcode code _ = invalid_stack"

fun op_CHECKDATASIG :: "script_env \<Rightarrow> u8 \<Rightarrow> valstack \<Rightarrow> failure + valstack" where
  "op_CHECKDATASIG E opcode (vchPubKey # vchMessage # vchSig # s) =
     bind_sum (check_encodings E vchSig vchPubKey) (\<lambda>_.
       let fSuccess = (vchSig \<noteq> [] \<and> pubkey_Verify (crypto E) vchPubKey (SHA256 (crypto E) vchMessage) vchSig)
       in if \<not> fSuccess \<and> flag_set E SCRIPT_VERIFY_NULLFAIL \<and> vchSig \<noteq> [] then Inl (Fail SCRIPT_ERR_SIG_NULLFAIL)
          else push_or_verify (opcode = OP_CHECKDATASIGVERIFY) SCRIPT_ERR_CHECKDATASIGVERIFY fSuccess s)"
| "op_CHECKDATASIG E opcode _ = invalid_stack"

text \<open>
  The loop of \<open>OP_CHECKMULTISIG\<close> over the signatures and keys that are left. It goes on only while there are at
  least as many keys as signatures, so it never runs out of keys.
\<close>

fun multisig_loop :: "script_env \<Rightarrow> CScript \<Rightarrow> bytes list \<Rightarrow> bytes list \<Rightarrow> failure + bool" where
  "multisig_loop E scriptCode [] keys = Inr True"
| "multisig_loop E scriptCode (vchSig # sigs) [] = Inl Assertion"
| "multisig_loop E scriptCode (vchSig # sigs) (vchPubKey # keys) =
     bind_sum (check_encodings E vchSig vchPubKey) (\<lambda>_.
       let fOk = CheckSig (checker E) vchSig vchPubKey scriptCode (sigversion E);
           sigs = (if fOk then sigs else vchSig # sigs)
       in if length sigs > length keys then Inr False else multisig_loop E scriptCode sigs keys)"

fun multisig_cleanup :: "bool \<Rightarrow> nat \<Rightarrow> nat \<Rightarrow> valstack \<Rightarrow> failure + valstack" where
  "multisig_cleanup require_null 0 ikey2 s = Inr s"
| "multisig_cleanup require_null (Suc i) ikey2 [] = Inl (Fail SCRIPT_ERR_UNKNOWN_ERROR)"
| "multisig_cleanup require_null (Suc i) ikey2 (x # s) =
     (if require_null \<and> ikey2 = 0 \<and> x \<noteq> [] then Inl (Fail SCRIPT_ERR_SIG_NULLFAIL)
      else multisig_cleanup require_null i (ikey2 - 1) s)"

definition multisig_dummy :: "script_env \<Rightarrow> u8 \<Rightarrow> bool \<Rightarrow> valstack \<Rightarrow> failure + valstack" where
  "multisig_dummy E opcode fSuccess s =
     (if length s < 1 then invalid_stack
      else if flag_set E SCRIPT_VERIFY_NULLDUMMY \<and> hd s \<noteq> [] then Inl (Fail SCRIPT_ERR_SIG_NULLDUMMY)
      else push_or_verify (opcode = OP_CHECKMULTISIGVERIFY) SCRIPT_ERR_CHECKMULTISIGVERIFY fSuccess (tl s))"

text \<open>With \<open>k\<close> keys and \<open>m\<close> signatures, \<open>i\<close> of the code is \<open>k + 2\<close> at the count of signatures and \<open>k + 3 + m\<close> at the end.\<close>

definition multisig_args :: "script_env \<Rightarrow> int \<Rightarrow> valstack \<Rightarrow> failure + (int \<times> nat \<times> nat)" where
  "multisig_args E ops s =
     (if length s < 1 then invalid_stack
      else bind_sum (num_operand (s ! 0) (fRequireMinimal E) nDefaultMaxNumSize) (\<lambda>v.
        let nKeysCount = getint v
        in if nKeysCount < 0 \<or> nKeysCount > int MAX_PUBKEYS_PER_MULTISIG then Inl (Fail SCRIPT_ERR_PUBKEY_COUNT)
           else if ops + nKeysCount > MAX_OPS_PER_SCRIPT then Inl (Fail SCRIPT_ERR_OP_COUNT)
           else let k = nat nKeysCount in
             if length s < k + 2 then invalid_stack
             else bind_sum (num_operand (s ! (k + 1)) (fRequireMinimal E) nDefaultMaxNumSize) (\<lambda>v.
               let nSigsCount = getint v
               in if nSigsCount < 0 \<or> nSigsCount > nKeysCount then Inl (Fail SCRIPT_ERR_SIG_COUNT)
                  else if length s < k + 3 + nat nSigsCount then invalid_stack
                  else Inr (ops + nKeysCount, k, nat nSigsCount))))"

definition op_CHECKMULTISIG :: "script_env \<Rightarrow> u8 \<Rightarrow> CScript \<Rightarrow> int \<Rightarrow> valstack \<Rightarrow> failure + (int \<times> valstack)" where
  "op_CHECKMULTISIG E opcode code ops s =
     bind_sum (multisig_args E ops s) (\<lambda>(ops, k, m).
       let keys = take k (drop 1 s); sigs = take m (drop (k + 2) s)
       in bind_sum (delete_sigs E sigs code) (\<lambda>scriptCode.
          bind_sum (multisig_loop E scriptCode sigs keys) (\<lambda>fSuccess.
          bind_sum (multisig_cleanup (\<not> fSuccess \<and> flag_set E SCRIPT_VERIFY_NULLFAIL) (k + 2 + m) (k + 2) s) (\<lambda>s.
          bind_sum (multisig_dummy E opcode fSuccess s) (\<lambda>s. Inr (ops, s))))))"

section \<open>The state of an evaluation and the control opcodes\<close>

record interp =
  stack :: valstack
  altstack :: valstack
  vfExec :: ConditionStack
  nOpCount :: int
  pbegincodehash :: CScript

type_synonym handler = "script_env \<Rightarrow> u8 \<Rightarrow> bytes \<Rightarrow> bool \<Rightarrow> interp \<Rightarrow> failure + interp"

definition on_stack :: "(valstack \<Rightarrow> failure + valstack) \<Rightarrow> interp \<Rightarrow> failure + interp" where
  "on_stack f st = bind_sum (f (stack st)) (\<lambda>s. Inr (st\<lparr>stack := s\<rparr>))"

definition plain :: "(valstack \<Rightarrow> failure + valstack) \<Rightarrow> handler" where
  "plain f E opcode pc fExec st = on_stack f st"

definition plain_op :: "(u8 \<Rightarrow> valstack \<Rightarrow> failure + valstack) \<Rightarrow> handler" where
  "plain_op f E opcode pc fExec st = on_stack (f opcode) st"

definition numeric :: "(bool \<Rightarrow> valstack \<Rightarrow> failure + valstack) \<Rightarrow> handler" where
  "numeric f E opcode pc fExec st = on_stack (f (fRequireMinimal E)) st"

definition numeric_op :: "(u8 \<Rightarrow> bool \<Rightarrow> valstack \<Rightarrow> failure + valstack) \<Rightarrow> handler" where
  "numeric_op f E opcode pc fExec st = on_stack (f opcode (fRequireMinimal E)) st"

definition do_push_number :: handler where
  "do_push_number E opcode pc fExec st = Inr (st\<lparr>stack := serialize (uint opcode - (uint OP_1 - 1)) # stack st\<rparr>)"

definition do_NOP :: handler where
  "do_NOP E opcode pc fExec st = Inr st"

definition do_CHECKLOCKTIMEVERIFY :: handler where
  "do_CHECKLOCKTIMEVERIFY E opcode pc fExec st =
     (if \<not> flag_set E SCRIPT_VERIFY_CHECKLOCKTIMEVERIFY then Inr st
      else if length (stack st) < 1 then invalid_stack
      else bind_sum (num_operand (hd (stack st)) (fRequireMinimal E) 5) (\<lambda>nLockTime.
        if nLockTime < 0 then Inl (Fail SCRIPT_ERR_NEGATIVE_LOCKTIME)
        else if \<not> CheckLockTime (checker E) nLockTime then Inl (Fail SCRIPT_ERR_UNSATISFIED_LOCKTIME)
        else Inr st))"

definition do_CHECKSEQUENCEVERIFY :: handler where
  "do_CHECKSEQUENCEVERIFY E opcode pc fExec st =
     (if \<not> flag_set E SCRIPT_VERIFY_CHECKSEQUENCEVERIFY then Inr st
      else if length (stack st) < 1 then invalid_stack
      else bind_sum (num_operand (hd (stack st)) (fRequireMinimal E) 5) (\<lambda>nSequence.
        if nSequence < 0 then Inl (Fail SCRIPT_ERR_NEGATIVE_LOCKTIME)
        else if nSequence AND uint SEQUENCE_LOCKTIME_DISABLE_FLAG \<noteq> 0 then Inr st
        else if \<not> CheckSequence (checker E) nSequence then Inl (Fail SCRIPT_ERR_UNSATISFIED_LOCKTIME)
        else Inr st))"

definition do_upgradable_NOP :: handler where
  "do_upgradable_NOP E opcode pc fExec st =
     (if flag_set E SCRIPT_VERIFY_DISCOURAGE_UPGRADABLE_NOPS then Inl (Fail SCRIPT_ERR_DISCOURAGE_UPGRADABLE_NOPS)
      else Inr st)"

definition do_IF :: handler where
  "do_IF E opcode pc fExec st =
     (if fExec
      then if length (stack st) < 1 then Inl (Fail SCRIPT_ERR_UNBALANCED_CONDITIONAL)
           else let fValue = CastToBool (hd (stack st)); fValue = (if opcode = OP_NOTIF then \<not> fValue else fValue)
                in Inr (st\<lparr>stack := tl (stack st), vfExec := cond_push_back fValue (vfExec st)\<rparr>)
      else Inr (st\<lparr>vfExec := cond_push_back False (vfExec st)\<rparr>))"

definition do_ELSE :: handler where
  "do_ELSE E opcode pc fExec st =
     (if cond_empty (vfExec st) then Inl (Fail SCRIPT_ERR_UNBALANCED_CONDITIONAL)
      else case toggle_top (vfExec st) of None \<Rightarrow> Inl Assertion | Some c \<Rightarrow> Inr (st\<lparr>vfExec := c\<rparr>))"

definition do_ENDIF :: handler where
  "do_ENDIF E opcode pc fExec st =
     (if cond_empty (vfExec st) then Inl (Fail SCRIPT_ERR_UNBALANCED_CONDITIONAL)
      else case cond_pop_back (vfExec st) of None \<Rightarrow> Inl Assertion | Some c \<Rightarrow> Inr (st\<lparr>vfExec := c\<rparr>))"

definition do_RETURN :: handler where
  "do_RETURN E opcode pc fExec st = Inl (Fail SCRIPT_ERR_OP_RETURN)"

definition do_TOALTSTACK :: handler where
  "do_TOALTSTACK E opcode pc fExec st =
     (if length (stack st) < 1 then invalid_stack
      else Inr (st\<lparr>altstack := hd (stack st) # altstack st, stack := tl (stack st)\<rparr>))"

definition do_FROMALTSTACK :: handler where
  "do_FROMALTSTACK E opcode pc fExec st =
     (if length (altstack st) < 1 then Inl (Fail SCRIPT_ERR_INVALID_ALTSTACK_OPERATION)
      else Inr (st\<lparr>stack := hd (altstack st) # stack st, altstack := tl (altstack st)\<rparr>))"

definition do_hash :: handler where
  "do_hash E opcode pc fExec st = on_stack (op_digest (crypto E) opcode) st"

definition do_CODESEPARATOR :: handler where
  "do_CODESEPARATOR E opcode pc fExec st = Inr (st\<lparr>pbegincodehash := pc\<rparr>)"

definition do_CHECKSIG :: handler where
  "do_CHECKSIG E opcode pc fExec st = on_stack (op_CHECKSIG E opcode (pbegincodehash st)) st"

definition do_CHECKDATASIG :: handler where
  "do_CHECKDATASIG E opcode pc fExec st = on_stack (op_CHECKDATASIG E opcode) st"

definition do_CHECKMULTISIG :: handler where
  "do_CHECKMULTISIG E opcode pc fExec st =
     bind_sum (op_CHECKMULTISIG E opcode (pbegincodehash st) (nOpCount st) (stack st)) (\<lambda>(n, s).
       Inr (st\<lparr>nOpCount := n, stack := s\<rparr>))"

section \<open>The switch over opcodes and the main loop\<close>

definition opcode_table :: "(u8 \<times> handler) list" where
  "opcode_table =
     map (\<lambda>opcode. (opcode, do_push_number)) [OP_1NEGATE, OP_1, OP_2, OP_3, OP_4, OP_5, OP_6, OP_7, OP_8, OP_9, OP_10,
       OP_11, OP_12, OP_13, OP_14, OP_15, OP_16] @
     [(OP_NOP, do_NOP), (OP_CHECKLOCKTIMEVERIFY, do_CHECKLOCKTIMEVERIFY),
      (OP_CHECKSEQUENCEVERIFY, do_CHECKSEQUENCEVERIFY)] @
     map (\<lambda>opcode. (opcode, do_upgradable_NOP)) [OP_NOP1, OP_NOP4, OP_NOP5, OP_NOP6, OP_NOP7, OP_NOP8, OP_NOP9, OP_NOP10] @
     [(OP_IF, do_IF), (OP_NOTIF, do_IF), (OP_ELSE, do_ELSE), (OP_ENDIF, do_ENDIF), (OP_VERIFY, plain op_VERIFY),
      (OP_RETURN, do_RETURN), (OP_TOALTSTACK, do_TOALTSTACK), (OP_FROMALTSTACK, do_FROMALTSTACK),
      (OP_2DROP, plain op_2DROP), (OP_2DUP, plain op_2DUP), (OP_3DUP, plain op_3DUP), (OP_2OVER, plain op_2OVER),
      (OP_2ROT, plain op_2ROT), (OP_2SWAP, plain op_2SWAP), (OP_IFDUP, plain op_IFDUP), (OP_DEPTH, plain op_DEPTH),
      (OP_DROP, plain op_DROP), (OP_DUP, plain op_DUP), (OP_NIP, plain op_NIP), (OP_OVER, plain op_OVER),
      (OP_PICK, numeric_op op_PICK), (OP_ROLL, numeric_op op_PICK), (OP_ROT, plain op_ROT), (OP_SWAP, plain op_SWAP),
      (OP_TUCK, plain op_TUCK), (OP_SIZE, plain op_SIZE), (OP_EQUAL, plain_op op_EQUAL),
      (OP_EQUALVERIFY, plain_op op_EQUAL), (OP_AND, plain_op op_bitwise), (OP_OR, plain_op op_bitwise),
      (OP_XOR, plain_op op_bitwise)] @
     map (\<lambda>opcode. (opcode, numeric_op op_unary)) [OP_1ADD, OP_1SUB, OP_NEGATE, OP_ABS, OP_NOT, OP_0NOTEQUAL] @
     map (\<lambda>opcode. (opcode, numeric_op op_binary)) [OP_ADD, OP_SUB, OP_DIV, OP_MOD, OP_BOOLAND, OP_BOOLOR, OP_NUMEQUAL,
       OP_NUMEQUALVERIFY, OP_NUMNOTEQUAL, OP_LESSTHAN, OP_GREATERTHAN, OP_LESSTHANOREQUAL, OP_GREATERTHANOREQUAL,
       OP_MIN, OP_MAX] @
     [(OP_WITHIN, numeric op_WITHIN), (OP_RIPEMD160, do_hash), (OP_SHA1, do_hash), (OP_SHA256, do_hash),
      (OP_HASH160, do_hash), (OP_HASH256, do_hash), (OP_CODESEPARATOR, do_CODESEPARATOR), (OP_CHECKSIG, do_CHECKSIG),
      (OP_CHECKSIGVERIFY, do_CHECKSIG), (OP_CHECKDATASIG, do_CHECKDATASIG), (OP_CHECKDATASIGVERIFY, do_CHECKDATASIG),
      (OP_CHECKMULTISIG, do_CHECKMULTISIG), (OP_CHECKMULTISIGVERIFY, do_CHECKMULTISIG), (OP_CAT, plain op_CAT),
      (OP_SPLIT, numeric op_SPLIT), (OP_NUM2BIN, numeric op_NUM2BIN), (OP_BIN2NUM, plain op_BIN2NUM)]"

definition exec_switch :: handler where
  "exec_switch E opcode pc fExec st = (case map_of opcode_table opcode of
     None \<Rightarrow> Inl (Fail SCRIPT_ERR_BAD_OPCODE) | Some h \<Rightarrow> h E opcode pc fExec st)"

text \<open>One round of the loop of \<open>EvalScript\<close>, after the instruction has been read; \<open>pc\<close> is the script behind it.\<close>

definition disabled_opcode :: "u8 \<Rightarrow> bool" where
  "disabled_opcode opcode \<longleftrightarrow> opcode = OP_INVERT \<or> opcode = OP_2MUL \<or> opcode = OP_2DIV \<or> opcode = OP_MUL
     \<or> opcode = OP_LSHIFT \<or> opcode = OP_RSHIFT"

definition exec_opcode :: "script_env \<Rightarrow> u8 \<Rightarrow> bytes \<Rightarrow> bytes \<Rightarrow> interp \<Rightarrow> failure + interp" where
  "exec_opcode E opcode vchPushValue pc st =
     (let fExec = all_true (vfExec st)
      in if fExec \<and> opcode \<le> OP_PUSHDATA4
         then case (if fRequireMinimal E then CheckMinimalPush vchPushValue opcode else Some True) of
             None \<Rightarrow> Inl Assertion
           | Some minimal \<Rightarrow> if \<not> minimal then Inl (Fail SCRIPT_ERR_MINIMALDATA)
               else Inr (st\<lparr>stack := vchPushValue # stack st\<rparr>)
         else if fExec \<or> (OP_IF \<le> opcode \<and> opcode \<le> OP_ENDIF) then exec_switch E opcode pc fExec st
         else Inr st)"

definition eval_step :: "script_env \<Rightarrow> u8 \<Rightarrow> bytes \<Rightarrow> bytes \<Rightarrow> interp \<Rightarrow> failure + interp" where
  "eval_step E opcode vchPushValue pc st =
     (if length vchPushValue > MAX_SCRIPT_ELEMENT_SIZE then Inl (Fail SCRIPT_ERR_PUSH_SIZE)
      else let st = (if opcode > OP_16 then st\<lparr>nOpCount := nOpCount st + 1\<rparr> else st)
           in if opcode > OP_16 \<and> nOpCount st > MAX_OPS_PER_SCRIPT then Inl (Fail SCRIPT_ERR_OP_COUNT)
              else if disabled_opcode opcode then Inl (Fail SCRIPT_ERR_DISABLED_OPCODE)
              else if opcode = OP_CODESEPARATOR \<and> sigversion E = BASE \<and> flag_set E SCRIPT_VERIFY_CONST_SCRIPTCODE
              then Inl (Fail SCRIPT_ERR_OP_CODESEPARATOR)
              else bind_sum (exec_opcode E opcode vchPushValue pc st) (\<lambda>st.
                if length (stack st) + length (altstack st) > MAX_STACK_SIZE then Inl (Fail SCRIPT_ERR_STACK_SIZE)
                else Inr st))"

function eval_loop :: "script_env \<Rightarrow> bytes \<Rightarrow> interp \<Rightarrow> failure + interp" where
  "eval_loop E pc st =
     (if pc = [] then Inr st
      else case GetScriptOp pc of
        (False, _) \<Rightarrow> Inl (Fail SCRIPT_ERR_BAD_OPCODE)
      | (True, opcode, vchPushValue, pc') \<Rightarrow>
          bind_sum (eval_step E opcode vchPushValue pc' st) (\<lambda>st. eval_loop E pc' st))"
  by pat_completeness auto

termination eval_loop
  by (relation "measure (\<lambda>(_, pc, _). length pc)") (auto dest: GetScriptOp_shorter [OF sym])

declare eval_loop.simps [simp del]

definition EvalScript :: "script_env \<Rightarrow> valstack \<Rightarrow> CScript \<Rightarrow> failure + valstack" where
  "EvalScript E s script =
     (if length script > MAX_SCRIPT_SIZE then Inl (Fail SCRIPT_ERR_SCRIPT_SIZE)
      else bind_sum (eval_loop E script
             \<lparr>stack = s, altstack = [], vfExec = cond_new, nOpCount = 0, pbegincodehash = script\<rparr>) (\<lambda>st.
        if \<not> cond_empty (vfExec st) then Inl (Fail SCRIPT_ERR_UNBALANCED_CONDITIONAL) else Inr (stack st)))"

definition top_is_true :: "valstack \<Rightarrow> failure + unit" where
  "top_is_true s = (if s = [] \<or> \<not> CastToBool (hd s) then Inl (Fail SCRIPT_ERR_EVAL_FALSE) else Inr ())"

definition verify_p2sh :: "script_env \<Rightarrow> CScript \<Rightarrow> CScript \<Rightarrow> valstack \<Rightarrow> valstack \<Rightarrow> failure + valstack" where
  "verify_p2sh E sig pub stackCopy s =
     (if \<not> (flag_set E SCRIPT_VERIFY_P2SH \<and> IsPayToScriptHash pub) then Inr s
      else if \<not> IsPushOnly sig then Inl (Fail SCRIPT_ERR_SIG_PUSHONLY)
      else if stackCopy = [] then Inl Assertion
      else bind_sum (EvalScript E (tl stackCopy) (hd stackCopy)) (\<lambda>s.
           bind_sum (top_is_true s) (\<lambda>_. Inr s)))"

definition check_cleanstack :: "script_env \<Rightarrow> valstack \<Rightarrow> failure + unit" where
  "check_cleanstack E s =
     (if flag_set E SCRIPT_VERIFY_CLEANSTACK
      then if \<not> flag_set E SCRIPT_VERIFY_P2SH then Inl Assertion
           else if length s \<noteq> 1 then Inl (Fail SCRIPT_ERR_CLEANSTACK) else Inr ()
      else Inr ())"

definition VerifyScript :: "script_env \<Rightarrow> CScript \<Rightarrow> CScript \<Rightarrow> failure + unit" where
  "VerifyScript E sig pub =
     (if flag_set E SCRIPT_VERIFY_SIGPUSHONLY \<and> \<not> IsPushOnly sig then Inl (Fail SCRIPT_ERR_SIG_PUSHONLY)
      else bind_sum (EvalScript E [] sig) (\<lambda>stackCopy.
           bind_sum (EvalScript E stackCopy pub) (\<lambda>s.
           bind_sum (top_is_true s) (\<lambda>_.
           bind_sum (verify_p2sh E sig pub stackCopy s) (\<lambda>s. check_cleanstack E s)))))"

end
