(* ===== verification/Interpreter_Safety.thy ===== *)
theory Interpreter_Safety
  imports Interpreter
begin

text \<open>
What the interpreter guarantees: the condition stack is a stack of booleans, checking several signatures finds the
  keys in their order, every flag is a soft fork, evaluation stays within its limits, and verification never fails
  an assertion.
\<close>

unbundle bit_operations_syntax

section \<open>The condition stack is a stack of booleans\<close>

text \<open>
  What the interpreter relies on: the operations of a stack of booleans of which only emptiness and the absence of a
  false value can be observed. \<open>stands_for c bs\<close> relates a stack to the booleans it holds, the last being the top, and
  \<open>cap\<close> bounds its size.
\<close>

locale bool_stack =
  fixes new :: 'c and is_empty all_true' :: "'c \<Rightarrow> bool" and push :: "bool \<Rightarrow> 'c \<Rightarrow> 'c"
    and pop toggle :: "'c \<Rightarrow> 'c option" and stands_for :: "'c \<Rightarrow> bool list \<Rightarrow> bool" and cap :: nat
  assumes new: "stands_for new []"
    and is_empty: "stands_for c bs \<Longrightarrow> is_empty c \<longleftrightarrow> bs = []"
    and all_true: "stands_for c bs \<Longrightarrow> all_true' c \<longleftrightarrow> list_all (\<lambda>b. b) bs"
    and push: "stands_for c bs \<Longrightarrow> length bs < cap \<Longrightarrow> stands_for (push f c) (bs @ [f])"
    and pop: "stands_for c (bs @ [f]) \<Longrightarrow> \<exists>c'. pop c = Some c' \<and> stands_for c' bs"
    and toggle: "stands_for c (bs @ [f]) \<Longrightarrow> \<exists>c'. toggle c = Some c' \<and> stands_for c' (bs @ [\<not> f])"
    and underflow: "stands_for c [] \<Longrightarrow> pop c = None \<and> toggle c = None"

datatype cond_op = Cond_push bool | Cond_pop | Cond_toggle

fun spec_cond :: "cond_op \<Rightarrow> bool list \<Rightarrow> bool list option" where
  "spec_cond (Cond_push f) bs = Some (bs @ [f])"
| "spec_cond Cond_pop bs = (if bs = [] then None else Some (butlast bs))"
| "spec_cond Cond_toggle bs = (if bs = [] then None else Some (butlast bs @ [\<not> last bs]))"

fun spec_conds :: "cond_op list \<Rightarrow> bool list \<Rightarrow> bool list option" where
  "spec_conds [] bs = Some bs"
| "spec_conds (x # xs) bs = Option.bind (spec_cond x bs) (spec_conds xs)"

fun run_cond :: "(bool \<Rightarrow> 'c \<Rightarrow> 'c) \<Rightarrow> ('c \<Rightarrow> 'c option) \<Rightarrow> ('c \<Rightarrow> 'c option) \<Rightarrow> cond_op list \<Rightarrow> 'c \<Rightarrow> 'c option" where
  "run_cond push pop toggle [] c = Some c"
| "run_cond push pop toggle (Cond_push f # xs) c = run_cond push pop toggle xs (push f c)"
| "run_cond push pop toggle (Cond_pop # xs) c = Option.bind (pop c) (run_cond push pop toggle xs)"
| "run_cond push pop toggle (Cond_toggle # xs) c = Option.bind (toggle c) (run_cond push pop toggle xs)"

context bool_stack
begin

lemma run_refines:
  assumes "stands_for c bs" "length bs + length xs \<le> cap"
  shows "rel_option stands_for (run_cond push pop toggle xs c) (spec_conds xs bs)"
  using assms
proof (induction xs arbitrary: c bs)
  case (Cons x xs)
  show ?case
  proof (cases x)
    case (Cond_push f)
    have "stands_for (push f c) (bs @ [f])" using push Cons.prems by simp
    then show ?thesis using Cons.IH [of "push f c" "bs @ [f]"] Cons.prems Cond_push by simp
  next
    case Cond_pop
    show ?thesis
    proof (cases bs rule: rev_cases)
      case Nil
      then show ?thesis using underflow Cons.prems(1) Cond_pop by simp
    next
      case (snoc as f)
      then obtain c' where "pop c = Some c'" "stands_for c' as" using pop Cons.prems(1) by blast
      then show ?thesis using Cons.IH [of c' as] Cons.prems snoc Cond_pop by simp
    qed
  next
    case Cond_toggle
    show ?thesis
    proof (cases bs rule: rev_cases)
      case Nil
      then show ?thesis using underflow Cons.prems(1) Cond_toggle by simp
    next
      case (snoc as f)
      then obtain c' where "toggle c = Some c'" "stands_for c' (as @ [\<not> f])" using toggle Cons.prems(1) by blast
      then show ?thesis using Cons.IH [of c' "as @ [\<not> f]"] Cons.prems snoc Cond_toggle by simp
    qed
  qed
qed simp

lemma run_observes:
  assumes "length xs \<le> cap"
  shows "map_option (\<lambda>c. (is_empty c, all_true' c)) (run_cond push pop toggle xs new)
    = map_option (\<lambda>bs. (bs = [], list_all (\<lambda>b. b) bs)) (spec_conds xs [])"
  using run_refines [OF new, of xs] assms is_empty all_true
  by (cases "run_cond push pop toggle xs new"; cases "spec_conds xs []") auto

end

text \<open>The optimised stack holds the number of values and the position of the first false one.\<close>

definition cond_stands_for :: "ConditionStack \<Rightarrow> bool list \<Rightarrow> bool" where
  "cond_stands_for c bs \<longleftrightarrow> length bs < 2 ^ 32 - 1 \<and> m_stack_size c = of_nat (length bs)
     \<and> m_first_false_pos c = (if list_all (\<lambda>b. b) bs then NO_FALSE else of_nat (length (takeWhile (\<lambda>b. b) bs)))"

lemma of_nat_eq_32: "n < 2 ^ 32 \<Longrightarrow> m < 2 ^ 32 \<Longrightarrow> (of_nat n :: u32) = of_nat m \<longleftrightarrow> n = m"
  by (simp add: word_of_nat_eq_iff take_bit_nat_eq_self)

lemma NO_FALSE_of_nat: "NO_FALSE = of_nat (2 ^ 32 - 1)"
  by (simp add: NO_FALSE_def)

lemma of_nat_NO_FALSE: "n < 2 ^ 32 - 1 \<Longrightarrow> (of_nat n :: u32) \<noteq> NO_FALSE"
  unfolding NO_FALSE_of_nat by (subst of_nat_eq_32) auto

lemma takeWhile_not_all: "\<not> list_all (\<lambda>b. b) bs \<Longrightarrow> length (takeWhile (\<lambda>b. b) bs) < length bs"
  by (induction bs) auto

lemma takeWhile_snoc: "takeWhile (\<lambda>b. b) (bs @ [f]) = (if list_all (\<lambda>b. b) bs then bs @ (if f then [f] else []) else takeWhile (\<lambda>b. b) bs)"
  by (induction bs) auto

lemma top_position:
  assumes "cond_stands_for c (bs @ [f])"
  shows "0 < m_stack_size c" "m_stack_size c - 1 = of_nat (length bs)" "(of_nat (length bs) :: u32) \<noteq> NO_FALSE"
    "\<not> list_all (\<lambda>b. b) bs \<Longrightarrow> (of_nat (length (takeWhile (\<lambda>b. b) bs)) :: u32) \<noteq> of_nat (length bs)"
    "\<not> list_all (\<lambda>b. b) bs \<Longrightarrow> (of_nat (length (takeWhile (\<lambda>b. b) bs)) :: u32) \<noteq> NO_FALSE"
proof -
  have len: "length bs + 1 < 2 ^ 32 - 1" and size: "m_stack_size c = of_nat (length bs + 1)"
    using assms by (simp_all add: cond_stands_for_def)
  show "0 < m_stack_size c"
    using len of_nat_eq_32 [of "length bs + 1" 0] unfolding size by (simp only: word_neq_0_conv [symmetric]) auto
  show "m_stack_size c - 1 = of_nat (length bs)" unfolding size by simp
  show "(of_nat (length bs) :: u32) \<noteq> NO_FALSE" using len of_nat_NO_FALSE by simp
  assume "\<not> list_all (\<lambda>b. b) bs"
  then have "length (takeWhile (\<lambda>b. b) bs) < length bs" by (rule takeWhile_not_all)
  then show "(of_nat (length (takeWhile (\<lambda>b. b) bs)) :: u32) \<noteq> of_nat (length bs)"
    "(of_nat (length (takeWhile (\<lambda>b. b) bs)) :: u32) \<noteq> NO_FALSE"
    using len of_nat_eq_32 [of "length (takeWhile (\<lambda>b. b) bs)" "length bs"] of_nat_NO_FALSE by simp_all
qed

interpretation cond: bool_stack cond_new cond_empty all_true cond_push_back cond_pop_back toggle_top cond_stands_for "2 ^ 32 - 2"
proof (unfold_locales, goal_cases)
  case 1
  then show ?case by (simp add: cond_stands_for_def cond_new_def)
next
  case (2 c bs)
  then show ?case using of_nat_eq_32 [of "length bs" 0] by (auto simp: cond_stands_for_def cond_empty_def)
next
  case (3 c bs)
  then show ?case using takeWhile_not_all [of bs] of_nat_NO_FALSE [of "length (takeWhile (\<lambda>b. b) bs)"]
    by (auto simp: cond_stands_for_def all_true_def)
next
  case (4 c bs f)
  then show ?case using takeWhile_not_all [of bs] of_nat_NO_FALSE [of "length (takeWhile (\<lambda>b. b) bs)"]
    by (auto simp: cond_stands_for_def cond_push_back_def Let_def takeWhile_snoc)
next
  case (5 c bs f)
  then show ?case using top_position [of c bs f]
    by (auto simp: cond_stands_for_def cond_pop_back_def Let_def takeWhile_snoc)
next
  case (6 c bs f)
  then show ?case using top_position [of c bs f]
    by (auto simp: cond_stands_for_def toggle_top_def takeWhile_snoc)
next
  case (7 c)
  then show ?case by (simp add: cond_stands_for_def cond_pop_back_def toggle_top_def)
qed

text \<open>
  C38. The optimised condition stack, which only stores its size and the position of the first false value, behaves
  like a stack of booleans: after any sequence of at most 2^32 - 2 pushes, pops and toggles both have failed or both
  agree on being empty and on holding only true values.
\<close>

theorem condition_stack_refines_booleans:
  assumes "length xs \<le> 2 ^ 32 - 2"
  shows "map_option (\<lambda>c. (cond_empty c, all_true c)) (run_cond cond_push_back cond_pop_back toggle_top xs cond_new)
    = map_option (\<lambda>bs. (bs = [], list_all (\<lambda>b. b) bs)) (spec_conds xs [])"
  using cond.run_observes [OF assms] .

theorem condition_stack_refines_booleans_witness:
  "map_option (\<lambda>c. (cond_empty c, all_true c)) (run_cond cond_push_back cond_pop_back toggle_top
     [Cond_push True, Cond_push False, Cond_push True, Cond_toggle, Cond_pop] cond_new) = Some (False, False)"
  using condition_stack_refines_booleans [of "[Cond_push True, Cond_push False, Cond_push True, Cond_toggle, Cond_pop]"]
  by simp

section \<open>Checking several signatures\<close>

text \<open>Every signature is checked by one of the keys, and the keys stand in the order of the signatures.\<close>

definition signed_in_order :: "(bytes \<Rightarrow> bytes \<Rightarrow> bool) \<Rightarrow> bytes list \<Rightarrow> bytes list \<Rightarrow> bool" where
  "signed_in_order check sigs keys \<longleftrightarrow> (\<exists>ks. subseq ks keys \<and> list_all2 check sigs ks)"

lemma signed_in_order_Cons:
  "signed_in_order check (s # sigs) (k # keys) \<longleftrightarrow>
     (if check s k then signed_in_order check sigs keys else signed_in_order check (s # sigs) keys)"
proof (cases "check s k")
  case True
  have "signed_in_order check sigs keys" if "subseq ks (k # keys)" "list_all2 check (s # sigs) ks" for ks
  proof -
    note a = that
    obtain k' ks' where ks: "ks = k' # ks'" "list_all2 check sigs ks'" using a(2) by (auto simp: list_all2_Cons1)
    then have "subseq ks' keys" using a(1) by (auto split: if_splits dest: subseq_Cons')
    then show ?thesis using ks(2) by (auto simp: signed_in_order_def)
  qed
  moreover have "subseq (k # ks) (k # keys)" if "subseq ks keys" for ks using that by simp
  ultimately show ?thesis using True
    by (auto simp: signed_in_order_def list_all2_Cons1)
next
  case False
  have "subseq ks keys" if "subseq ks (k # keys)" "list_all2 check (s # sigs) ks" for ks
    using that False by (auto simp: list_all2_Cons1 split: if_splits)
  then show ?thesis using False by (auto simp: signed_in_order_def)
qed

lemma signed_in_order_length: "signed_in_order check sigs keys \<Longrightarrow> length sigs \<le> length keys"
  by (auto simp: signed_in_order_def dest!: list_all2_lengthD list_emb_length)

lemma multisig_loop_order:
  assumes "\<forall>s\<in>set sigs. \<forall>k\<in>set keys. check_encodings E s k = Inr ()" "length sigs \<le> length keys"
  shows "multisig_loop E code sigs keys = Inr (signed_in_order (\<lambda>s k. CheckSig (checker E) s k code (sigversion E)) sigs keys)"
  using assms
proof (induction keys arbitrary: sigs)
  case Nil
  then show ?case by (simp add: signed_in_order_def)
next
  case (Cons k keys)
  let ?check = "\<lambda>s k. CheckSig (checker E) s k code (sigversion E)"
  show ?case
  proof (cases sigs)
    case Nil
    then show ?thesis by (simp add: signed_in_order_def)
  next
    case (Cons s ss)
    have enc: "check_encodings E s k = Inr ()" using Cons.prems(1) Cons by simp
    let ?rest = "if ?check s k then ss else sigs"
    show ?thesis
    proof (cases "length ?rest > length keys")
      case True
      then show ?thesis using Cons enc signed_in_order_length [of ?check ?rest keys]
        by (auto simp: signed_in_order_Cons split: if_splits)
    next
      case False
      then have "multisig_loop E code ?rest keys = Inr (signed_in_order ?check ?rest keys)"
        using Cons.prems Cons by (intro Cons.IH) auto
      then show ?thesis using Cons enc False by (auto simp: signed_in_order_Cons split: if_splits)
    qed
  qed
qed

lemma multisig_cleanup_skip:
  "multisig_cleanup r (length xs + n) (length xs + d) (xs @ s) = multisig_cleanup r n d s"
  by (induction xs) auto

lemma multisig_cleanup_sigs:
  "multisig_cleanup r (length sigs) 0 (sigs @ s)
    = (if r \<and> (\<exists>sig\<in>set sigs. sig \<noteq> []) then Inl (Fail SCRIPT_ERR_SIG_NULLFAIL) else Inr s)"
  by (induction sigs) auto

lemma multisig_cleanup_args:
  "multisig_cleanup r (Suc (Suc (length keys + length sigs))) (Suc (Suc (length keys))) (x # keys @ y # sigs @ s)
    = (if r \<and> (\<exists>sig\<in>set sigs. sig \<noteq> []) then Inl (Fail SCRIPT_ERR_SIG_NULLFAIL) else Inr s)"
  using multisig_cleanup_skip [of r "x # keys @ [y]" "length sigs" 0 "sigs @ s"] multisig_cleanup_sigs [of r sigs s]
  by (simp add: add.commute add.left_commute)

lemma num_operand_serialize:
  assumes "n < 2 ^ 31"
  shows "num_operand (serialize (int n)) b nDefaultMaxNumSize = Inr (int n)" "getint (int n) = int n"
proof -
  have "\<bar>int n\<bar> < 2 ^ (8 * 4 - 1)" "\<bar>int n\<bar> < 2 ^ 63" using assms by simp_all
  then show "num_operand (serialize (int n)) b nDefaultMaxNumSize = Inr (int n)"
    using serialize_minimal [of "int n" 4] set_vch_serialize [of "int n"]
    by (simp add: num_operand_def CScriptNum_def nDefaultMaxNumSize_def)
  show "getint (int n) = int n" using assms by (simp add: getint_def)
qed

lemma multisig_args_stack:
  assumes "length keys \<le> 20" "length sigs \<le> length keys" "ops + int (length keys) \<le> MAX_OPS_PER_SCRIPT"
  shows "multisig_args E ops (serialize (int (length keys)) # keys @ serialize (int (length sigs)) # sigs @ dummy # s)
    = Inr (ops + int (length keys), length keys, length sigs)"
  using assms num_operand_serialize [of "length keys"] num_operand_serialize [of "length sigs"]
  by (simp add: multisig_args_def MAX_PUBKEYS_PER_MULTISIG_def Let_def nth_append)

text \<open>
  C11. \<open>OP_CHECKMULTISIG\<close> with correctly counted and encoded arguments succeeds exactly when every signature is valid
  for one of the keys in the order of the keys, although it tries each key only once and never goes back; it takes
  the arguments and the extra element off the stack and counts the keys as operations.
\<close>

theorem multisig_accepts_ordered_signatures:
  assumes "length keys \<le> 20" "length sigs \<le> length keys" "ops + int (length keys) \<le> MAX_OPS_PER_SCRIPT"
    and "\<forall>sig\<in>set sigs. \<forall>key\<in>set keys. check_encodings E sig key = Inr ()" "delete_sigs E sigs code = Inr scriptCode"
    and "st = serialize (int (length keys)) # keys @ serialize (int (length sigs)) # sigs @ dummy # s"
  shows "op_CHECKMULTISIG E OP_CHECKMULTISIG code ops st =
    (let fSuccess = signed_in_order (\<lambda>sig key. CheckSig (checker E) sig key scriptCode (sigversion E)) sigs keys
     in if \<not> fSuccess \<and> flag_set E SCRIPT_VERIFY_NULLFAIL \<and> (\<exists>sig\<in>set sigs. sig \<noteq> [])
        then Inl (Fail SCRIPT_ERR_SIG_NULLFAIL)
        else if flag_set E SCRIPT_VERIFY_NULLDUMMY \<and> dummy \<noteq> [] then Inl (Fail SCRIPT_ERR_SIG_NULLDUMMY)
        else Inr (ops + int (length keys), vch_of_bool fSuccess # s))"
  using multisig_args_stack [OF assms(1-3), of E dummy s] assms(5) multisig_loop_order [OF assms(4,2), of scriptCode]
  by (simp add: op_CHECKMULTISIG_def assms(6) multisig_cleanup_args multisig_dummy_def push_or_verify_def Let_def
      del: multisig_cleanup.simps)

definition example_crypto :: Crypto where
  "example_crypto = \<lparr>RIPEMD160 = \<lambda>_. replicate 20 0, SHA1 = \<lambda>_. replicate 20 0, SHA256 = \<lambda>_. replicate 32 0,
     Hash160 = \<lambda>_. replicate 20 0, Hash256 = \<lambda>_. replicate 32 0, pubkey_Verify = \<lambda>_ _ _. False, CheckLowS = \<lambda>_. True\<rparr>"

definition example_env :: "u32 \<Rightarrow> script_env" where
  "example_env flags = \<lparr>script_flags = flags, sigversion = SAPLING,
     checker = \<lparr>CheckSig = \<lambda>sig key code v. sig = key, CheckLockTime = \<lambda>_. True, CheckSequence = \<lambda>_. True\<rparr>,
     crypto = example_crypto\<rparr>"

theorem multisig_accepts_ordered_signatures_witness:
  "op_CHECKMULTISIG (example_env 0) OP_CHECKMULTISIG [] 1
     (serialize 3 # [[1], [2], [3]] @ serialize 2 # [[1], [3]] @ [] # [[7]]) = Inr (4, [vchTrue, [7]])"
proof -
  have "signed_in_order (\<lambda>sig key. CheckSig (checker (example_env 0)) sig key [] (sigversion (example_env 0))) [[1], [3]] [[1], [2], [3]]"
    by (simp add: example_env_def signed_in_order_Cons) (simp add: signed_in_order_def)
  then show ?thesis
    using multisig_accepts_ordered_signatures [of "[[1], [2], [3]]" "[[1], [3]]" 1 "example_env 0" "[]" "[]"
        "serialize 3 # [[1], [2], [3]] @ serialize 2 # [[1], [3]] @ [] # [[7]]" "[]" "[[7]]"]
    by (simp add: example_env_def check_encodings_def CheckSignatureEncoding_def CheckPubKeyEncoding_def has_flag_def
        MAX_OPS_PER_SCRIPT_def vch_of_bool_def Let_def)
qed

section \<open>More flags accept fewer scripts\<close>

definition flags_le :: "u32 \<Rightarrow> u32 \<Rightarrow> bool" where
  "flags_le F F' \<longleftrightarrow> F AND F' = F"

definition weaker :: "script_env \<Rightarrow> script_env \<Rightarrow> bool" where
  "weaker E E' \<longleftrightarrow> flags_le (script_flags E) (script_flags E') \<and> sigversion E = sigversion E'
     \<and> checker E = checker E' \<and> crypto E = crypto E'"

lemma has_flag_mono: "flags_le F F' \<Longrightarrow> has_flag F f \<Longrightarrow> has_flag F' f"
  unfolding flags_le_def has_flag_def by (metis and.assoc and.right_neutral and_zero_eq)

lemma weaker_flag: "weaker E E' \<Longrightarrow> flag_set E f \<Longrightarrow> flag_set E' f"
  by (auto simp: weaker_def intro: has_flag_mono)

lemma weaker_minimal: "weaker E E' \<Longrightarrow> fRequireMinimal E \<Longrightarrow> fRequireMinimal E'"
  by (auto simp: fRequireMinimal_def intro: weaker_flag)

definition mono_handler :: "handler \<Rightarrow> bool" where
  "mono_handler h \<longleftrightarrow> (\<forall>E E' opcode pc fExec st r. weaker E E' \<longrightarrow> h E' opcode pc fExec st = Inr r \<longrightarrow> h E opcode pc fExec st = Inr r)"

lemma num_operand_mono:
  "num_operand v b n = Inr x \<Longrightarrow> (b' \<Longrightarrow> b) \<Longrightarrow> num_operand v b' n = Inr x"
  by (auto simp: num_operand_def CScriptNum_def split: if_splits)

lemma num_operand_relax: "num_operand v True n = Inr x \<Longrightarrow> num_operand v False n = Inr x"
  by (erule num_operand_mono) simp

lemma mono_plain [simp]: "mono_handler (plain f)" "mono_handler (plain_op g)"
  by (simp_all add: mono_handler_def plain_def plain_op_def)

lemma mono_numeric:
  assumes "\<And>s r. f True s = Inr r \<Longrightarrow> f False s = Inr r"
  shows "mono_handler (numeric f)"
  unfolding mono_handler_def numeric_def on_stack_def
  using assms weaker_minimal by auto (metis (full_types))

lemma mono_numeric_op:
  assumes "\<And>op s r. f op True s = Inr r \<Longrightarrow> f op False s = Inr r"
  shows "mono_handler (numeric_op f)"
  unfolding mono_handler_def numeric_op_def on_stack_def
  using assms weaker_minimal by auto (metis (full_types))

lemma mono_PICK: "op_PICK op True s = Inr r \<Longrightarrow> op_PICK op False s = Inr r"
  by (auto simp: op_PICK_def Let_def dest: num_operand_relax split: if_splits)

lemma mono_unary: "op_unary op True s = Inr r \<Longrightarrow> op_unary op False s = Inr r"
  by (cases s) (auto dest: num_operand_relax)

lemma mono_binary: "op_binary op True s = Inr r \<Longrightarrow> op_binary op False s = Inr r"
  by (cases "(op, True, s)" rule: op_binary.cases) (auto dest!: num_operand_relax split: if_splits)

lemma mono_WITHIN: "op_WITHIN True s = Inr r \<Longrightarrow> op_WITHIN False s = Inr r"
  by (cases "(True, s)" rule: op_WITHIN.cases) (auto dest!: num_operand_relax)

lemma mono_SPLIT: "op_SPLIT True s = Inr r \<Longrightarrow> op_SPLIT False s = Inr r"
  by (cases "(True, s)" rule: op_SPLIT.cases) (auto dest!: num_operand_relax)

lemma mono_NUM2BIN: "op_NUM2BIN True s = Inr r \<Longrightarrow> op_NUM2BIN False s = Inr r"
  by (cases "(True, s)" rule: op_NUM2BIN.cases) (auto dest!: num_operand_relax)

lemma CheckSignatureEncoding_mono:
  "flags_le F F' \<Longrightarrow> CheckSignatureEncoding C sig F' = None \<Longrightarrow> CheckSignatureEncoding C sig F = None"
  by (auto simp: CheckSignatureEncoding_def dest: has_flag_mono split: if_splits)

lemma CheckPubKeyEncoding_mono:
  "flags_le F F' \<Longrightarrow> CheckPubKeyEncoding k F' = None \<Longrightarrow> CheckPubKeyEncoding k F = None"
  by (auto simp: CheckPubKeyEncoding_def dest: has_flag_mono split: if_splits)

lemma check_encodings_mono: "weaker E E' \<Longrightarrow> check_encodings E' sig k = Inr () \<Longrightarrow> check_encodings E sig k = Inr ()"
  using CheckSignatureEncoding_mono [of "script_flags E" "script_flags E'" "crypto E" sig]
    CheckPubKeyEncoding_mono [of "script_flags E" "script_flags E'" k]
  by (auto simp: check_encodings_def weaker_def split: option.splits)

lemma delete_sigs_mono: "weaker E E' \<Longrightarrow> delete_sigs E' sigs code = Inr c \<Longrightarrow> delete_sigs E sigs code = Inr c"
  by (induction sigs arbitrary: code)
     (auto simp: weaker_def Let_def split: if_splits prod.splits dest: has_flag_mono)

lemma bind_mono:
  "bind_sum m' f' = Inr r \<Longrightarrow> (\<And>x. m' = Inr x \<Longrightarrow> m = Inr x) \<Longrightarrow> (\<And>x. f' x = Inr r \<Longrightarrow> f x = Inr r) \<Longrightarrow> bind_sum m f = Inr r"
  by (cases m') auto

lemma EvalChecksig_mono:
  assumes "weaker E E'" "EvalChecksig E' sig k code = Inr r"
  shows "EvalChecksig E sig k code = Inr r"
  using assms(2) unfolding EvalChecksig_def Let_def
proof (elim bind_mono)
  show "delete_sigs E [sig] code = Inr x" if "delete_sigs E' [sig] code = Inr x" for x
    using that assms(1) by (rule delete_sigs_mono [rotated])
  show "check_encodings E sig k = Inr x" if "check_encodings E' sig k = Inr x" for x
    using that assms(1) check_encodings_mono by simp
qed (use assms(1) weaker_flag [OF assms(1)] in \<open>auto simp: weaker_def split: if_splits\<close>)

lemma multisig_loop_mono:
  assumes "weaker E E'" "multisig_loop E' code sigs keys = Inr r"
  shows "multisig_loop E code sigs keys = Inr r"
  using assms(2)
proof (induction keys arbitrary: sigs)
  case Nil
  then show ?case by (cases sigs) simp_all
next
  case (Cons k keys)
  show ?case
  proof (cases sigs)
    case (Cons sig ss)
    have "check_encodings E' sig k = Inr ()" using Cons.prems Cons by auto
    moreover from this have "check_encodings E sig k = Inr ()" by (rule check_encodings_mono [OF assms(1)])
    moreover have "checker E = checker E'" "sigversion E = sigversion E'" using assms(1) by (auto simp: weaker_def)
    ultimately show ?thesis using Cons.prems Cons Cons.IH by (simp add: Let_def split: if_splits)
  qed (use Cons.prems in simp)
qed

lemma multisig_args_mono:
  assumes "weaker E E'" "multisig_args E' ops s = Inr r"
  shows "multisig_args E ops s = Inr r"
proof -
  note relax = num_operand_mono [OF _ weaker_minimal [OF assms(1)]]
  obtain v where v: "num_operand (s ! 0) (fRequireMinimal E') nDefaultMaxNumSize = Inr v"
    using assms(2) by (cases "num_operand (s ! 0) (fRequireMinimal E') nDefaultMaxNumSize") (auto simp: multisig_args_def split: if_splits)
  let ?x = "s ! (nat (getint v) + 1)"
  obtain w where w: "num_operand ?x (fRequireMinimal E') nDefaultMaxNumSize = Inr w"
    using assms(2) v by (cases "num_operand ?x (fRequireMinimal E') nDefaultMaxNumSize") (auto simp: multisig_args_def Let_def split: if_splits)
  show ?thesis using assms(2) v w relax [OF v] relax [OF w] by (simp add: multisig_args_def Let_def split: if_splits)
qed

lemma multisig_cleanup_mono: "multisig_cleanup b i j s = Inr r \<Longrightarrow> (b' \<Longrightarrow> b) \<Longrightarrow> multisig_cleanup b' i j s = Inr r"
  by (induction b i j s rule: multisig_cleanup.induct) (auto split: if_splits)

lemma CHECKMULTISIG_mono:
  assumes "weaker E E'" "op_CHECKMULTISIG E' opcode code ops s = Inr r"
  shows "op_CHECKMULTISIG E opcode code ops s = Inr r"
proof -
  obtain n k m where a: "multisig_args E' ops s = Inr (n, k, m)"
    using assms(2) by (cases "multisig_args E' ops s") (auto simp: op_CHECKMULTISIG_def)
  let ?sigs = "take m (drop (k + 2) s)" and ?keys = "take k (drop 1 s)"
  obtain c where c: "delete_sigs E' ?sigs code = Inr c"
    using assms(2) a by (cases "delete_sigs E' ?sigs code") (auto simp: op_CHECKMULTISIG_def Let_def)
  obtain b where b: "multisig_loop E' c ?sigs ?keys = Inr b"
    using assms(2) a c by (cases "multisig_loop E' c ?sigs ?keys") (auto simp: op_CHECKMULTISIG_def Let_def)
  obtain t where t: "multisig_cleanup (\<not> b \<and> flag_set E' SCRIPT_VERIFY_NULLFAIL) (k + 2 + m) (k + 2) s = Inr t"
    "bind_sum (multisig_dummy E' opcode b t) (\<lambda>s. Inr (n, s)) = Inr r"
    using assms(2) a c b by (auto simp: op_CHECKMULTISIG_def Let_def)
  have "multisig_cleanup (\<not> b \<and> flag_set E SCRIPT_VERIFY_NULLFAIL) (k + 2 + m) (k + 2) s = Inr t"
    using t(1) by (rule multisig_cleanup_mono) (use weaker_flag [OF assms(1)] in auto)
  moreover have "bind_sum (multisig_dummy E opcode b t) (\<lambda>s. Inr (n, s)) = Inr r"
    using t(2) weaker_flag [OF assms(1), of SCRIPT_VERIFY_NULLDUMMY] by (auto simp: multisig_dummy_def split: if_splits)
  ultimately show ?thesis
    using multisig_args_mono [OF assms(1) a] delete_sigs_mono [OF assms(1) c] multisig_loop_mono [OF assms(1) b]
    by (simp add: op_CHECKMULTISIG_def Let_def del: bind_sum_Inr_conv multisig_cleanup.simps)
qed

lemma mono_control:
  "mono_handler do_push_number" "mono_handler do_NOP" "mono_handler do_IF" "mono_handler do_ELSE" "mono_handler do_ENDIF"
  "mono_handler do_RETURN" "mono_handler do_TOALTSTACK" "mono_handler do_FROMALTSTACK" "mono_handler do_CODESEPARATOR"
  by (simp_all add: mono_handler_def do_push_number_def do_NOP_def do_IF_def do_ELSE_def do_ENDIF_def do_RETURN_def
      do_TOALTSTACK_def do_FROMALTSTACK_def do_CODESEPARATOR_def)

lemma mono_flagged:
  "mono_handler do_upgradable_NOP" "mono_handler do_hash"
  unfolding mono_handler_def do_upgradable_NOP_def do_hash_def
  by (auto simp: weaker_def dest: has_flag_mono split: if_splits)

lemma num_operand_weaker:
  "weaker E E' \<Longrightarrow> num_operand v (fRequireMinimal E') n = Inr x \<Longrightarrow> num_operand v (fRequireMinimal E) n = Inr x"
  using num_operand_mono weaker_minimal by blast

lemma mono_CHECKLOCKTIMEVERIFY: "mono_handler do_CHECKLOCKTIMEVERIFY"
  unfolding mono_handler_def
proof (intro allI impI)
  fix E E' opcode pc fExec st r
  assume w: "weaker E E'" and l: "do_CHECKLOCKTIMEVERIFY E' opcode pc fExec st = Inr r"
  show "do_CHECKLOCKTIMEVERIFY E opcode pc fExec st = Inr r"
    using l w weaker_flag [OF w, of SCRIPT_VERIFY_CHECKLOCKTIMEVERIFY]
    by (auto simp: do_CHECKLOCKTIMEVERIFY_def weaker_def split: if_splits dest!: num_operand_weaker [OF w])
qed

lemma mono_CHECKSEQUENCEVERIFY: "mono_handler do_CHECKSEQUENCEVERIFY"
  unfolding mono_handler_def
proof (intro allI impI)
  fix E E' opcode pc fExec st r
  assume w: "weaker E E'" and l: "do_CHECKSEQUENCEVERIFY E' opcode pc fExec st = Inr r"
  show "do_CHECKSEQUENCEVERIFY E opcode pc fExec st = Inr r"
    using l w weaker_flag [OF w, of SCRIPT_VERIFY_CHECKSEQUENCEVERIFY]
    by (auto simp: do_CHECKSEQUENCEVERIFY_def weaker_def split: if_splits dest!: num_operand_weaker [OF w])
qed

lemma CHECKSIG_mono:
  assumes "weaker E E'" "op_CHECKSIG E' opcode code s = Inr r"
  shows "op_CHECKSIG E opcode code s = Inr r"
  using assms(2) EvalChecksig_mono [OF assms(1)] by (cases "(E', opcode, code, s)" rule: op_CHECKSIG.cases) auto

lemma CHECKDATASIG_mono:
  assumes "weaker E E'" "op_CHECKDATASIG E' opcode s = Inr r"
  shows "op_CHECKDATASIG E opcode s = Inr r"
  using assms(2) check_encodings_mono [OF assms(1)] weaker_flag [OF assms(1), of SCRIPT_VERIFY_NULLFAIL]
    assms(1) [unfolded weaker_def]
  by (cases "(E', opcode, s)" rule: op_CHECKDATASIG.cases) (auto simp: Let_def split: if_splits)

lemma mono_signatures: "mono_handler do_CHECKSIG" "mono_handler do_CHECKDATASIG" "mono_handler do_CHECKMULTISIG"
  using CHECKSIG_mono CHECKDATASIG_mono CHECKMULTISIG_mono
  unfolding mono_handler_def do_CHECKSIG_def do_CHECKDATASIG_def do_CHECKMULTISIG_def on_stack_def
  by (auto split: prod.splits)

lemmas mono_handlers = mono_control mono_flagged mono_CHECKLOCKTIMEVERIFY mono_CHECKSEQUENCEVERIFY mono_signatures
  mono_numeric_op [of op_PICK, OF mono_PICK] mono_numeric_op [of op_unary, OF mono_unary]
  mono_numeric_op [of op_binary, OF mono_binary] mono_numeric [of op_WITHIN, OF mono_WITHIN]
  mono_numeric [of op_SPLIT, OF mono_SPLIT] mono_numeric [of op_NUM2BIN, OF mono_NUM2BIN]

lemma mono_table: "\<forall>h\<in>snd ` set opcode_table. mono_handler h"
  unfolding opcode_table_def by (simp add: mono_handlers)

lemma mono_exec_switch: "mono_handler exec_switch"
proof -
  have "mono_handler h" if "map_of opcode_table opcode = Some h" for opcode h
    using mono_table map_of_SomeD [OF that] by force
  then show ?thesis unfolding mono_handler_def exec_switch_def by (auto split: option.splits)
qed

lemma eval_step_mono:
  assumes "weaker E E'" "eval_step E' opcode v pc st = Inr r"
  shows "eval_step E opcode v pc st = Inr r"
proof -
  have "exec_opcode E opcode v pc t = Inr r" if "exec_opcode E' opcode v pc t = Inr r" for t r
    using that weaker_minimal [OF assms(1)] mono_exec_switch [unfolded mono_handler_def] assms(1)
    by (auto simp: exec_opcode_def Let_def split: if_splits option.splits)
  then show ?thesis
    using assms(2) weaker_flag [OF assms(1), of SCRIPT_VERIFY_CONST_SCRIPTCODE] assms(1)
    by (auto simp: eval_step_def Let_def weaker_def split: if_splits)
qed

lemma eval_loop_mono:
  assumes "weaker E E'" "eval_loop E' pc st = Inr r"
  shows "eval_loop E pc st = Inr r"
  using assms
proof (induction E' pc st rule: eval_loop.induct)
  case (1 E' pc st)
  show ?case
  proof (cases "pc = []")
    case False
    obtain ok opcode v pc' where g: "GetScriptOp pc = (ok, opcode, v, pc')" by (cases "GetScriptOp pc") auto
    have ok: ok using 1(3) False g by (cases ok) (simp_all add: eval_loop.simps [of E' pc])
    obtain st' where s: "eval_step E' opcode v pc' st = Inr st'" "eval_loop E' pc' st' = Inr r"
      using 1(3) False g ok by (auto simp: eval_loop.simps [of E' pc])
    then have "eval_loop E pc' st' = Inr r" using 1(1) [OF False] g ok 1(2) by auto
    then show ?thesis using s(1) eval_step_mono [OF 1(2)] False g ok by (simp add: eval_loop.simps [of E pc])
  qed (use 1(3) in \<open>simp add: eval_loop.simps [of _ "[]"]\<close>)
qed

lemma EvalScript_mono: "weaker E E' \<Longrightarrow> EvalScript E' s script = Inr r \<Longrightarrow> EvalScript E s script = Inr r"
  by (auto simp: EvalScript_def split: if_splits dest!: eval_loop_mono)

text \<open>
  C4. Every verification flag is a soft fork, as the comment on the flags asks for: a script that is accepted under some
  flags is accepted under any subset of them, provided the clean-stack flag is never used without the pay-to-script-hash
  flag.
\<close>

theorem flags_are_soft_forks:
  assumes "F AND F' = F" "has_flag F SCRIPT_VERIFY_CLEANSTACK \<longrightarrow> has_flag F SCRIPT_VERIFY_P2SH"
    and "VerifyScript (E\<lparr>script_flags := F'\<rparr>) sig pub = Inr ()"
  shows "VerifyScript (E\<lparr>script_flags := F\<rparr>) sig pub = Inr ()"
proof -
  let ?E = "E\<lparr>script_flags := F\<rparr>" and ?E' = "E\<lparr>script_flags := F'\<rparr>"
  have w: "weaker ?E ?E'" using assms(1) by (simp add: weaker_def flags_le_def)
  note flag = weaker_flag [OF w, simplified] and eval = EvalScript_mono [OF w]
  obtain c s t where e: "EvalScript ?E' [] sig = Inr c" "EvalScript ?E' c pub = Inr s" "top_is_true s = Inr ()"
    "verify_p2sh ?E' sig pub c s = Inr t" "check_cleanstack ?E' t = Inr ()"
    and p: "has_flag F' SCRIPT_VERIFY_SIGPUSHONLY \<Longrightarrow> IsPushOnly sig"
    using assms(3) by (auto simp: VerifyScript_def split: if_splits)
  have "\<exists>t'. verify_p2sh ?E sig pub c s = Inr t' \<and> check_cleanstack ?E t' = Inr ()"
  proof (cases "has_flag F SCRIPT_VERIFY_P2SH")
    case True
    then have "verify_p2sh ?E sig pub c s = Inr t"
      using e(4) flag [OF True] eval by (auto simp: verify_p2sh_def split: if_splits)
    moreover have "check_cleanstack ?E t = Inr ()"
      using e(5) flag True by (auto simp: check_cleanstack_def split: if_splits)
    ultimately show ?thesis by blast
  next
    case False
    then show ?thesis using assms(2) by (simp add: verify_p2sh_def check_cleanstack_def)
  qed
  then show ?thesis using eval [OF e(1)] eval [OF e(2)] e(3) p flag by (auto simp: VerifyScript_def)
qed

lemma example_script_ok:
  "VerifyScript ((example_env 0)\<lparr>script_flags := SCRIPT_VERIFY_P2SH OR SCRIPT_VERIFY_MINIMALDATA\<rparr>) [OP_2] [OP_1ADD, OP_3, OP_EQUAL] = Inr ()"
  by code_simp

theorem flags_are_soft_forks_witness:
  "VerifyScript ((example_env 0)\<lparr>script_flags := SCRIPT_VERIFY_P2SH\<rparr>) [OP_2] [OP_1ADD, OP_3, OP_EQUAL] = Inr ()"
  by (rule flags_are_soft_forks [OF _ _ example_script_ok])
     (simp_all add: SCRIPT_VERIFY_P2SH_def SCRIPT_VERIFY_MINIMALDATA_def SCRIPT_VERIFY_CLEANSTACK_def has_flag_def)

section \<open>The limits of an evaluation\<close>

definition small :: "valstack \<Rightarrow> bool" where
  "small s \<longleftrightarrow> list_all (\<lambda>x. length x \<le> MAX_SCRIPT_ELEMENT_SIZE) s"

text \<open>The hash functions return 20 or 32 bytes.\<close>

definition hash_sizes :: "Crypto \<Rightarrow> bool" where
  "hash_sizes C \<longleftrightarrow> (\<forall>x. length (RIPEMD160 C x) = 20 \<and> length (SHA1 C x) = 20 \<and> length (SHA256 C x) = 32
     \<and> length (Hash160 C x) = 20 \<and> length (Hash256 C x) = 32)"

lemma small_simps [simp]:
  "small []" "small (x # s) \<longleftrightarrow> length x \<le> MAX_SCRIPT_ELEMENT_SIZE \<and> small s" "small (s @ t) \<longleftrightarrow> small s \<and> small t"
  by (simp_all add: small_def)

lemma small_take_drop: "small s \<Longrightarrow> small (take n s)" "small s \<Longrightarrow> small (drop n s)" "small s \<Longrightarrow> small (tl s)"
  by (auto simp: small_def list_all_iff dest: in_set_takeD in_set_dropD list.set_sel(2))
     (metis list.sel(2) list.set_sel(2))

lemma small_nth: "small s \<Longrightarrow> n < length s \<Longrightarrow> length (s ! n) \<le> MAX_SCRIPT_ELEMENT_SIZE"
  by (simp add: small_def list_all_length)

lemma length_serialize: "length (serialize v) \<le> 9"
proof -
  have "length (abs_bytes w) \<le> 8" for w :: u64
    using abs_bytes_length [of w 8] unat_lt_64 [of w] by (cases "w = 0") (simp_all add: abs_bytes.simps [of 0] del: unat_lt_64)
  then show ?thesis unfolding serialize_def Let_def by (auto intro: le_SucI le_trans [OF diff_le_self] le_trans [of _ 8 9] split: if_splits)
qed

lemma serialize_small [simp]: "length (serialize v) \<le> MAX_SCRIPT_ELEMENT_SIZE"
  using length_serialize [of v] by (simp add: MAX_SCRIPT_ELEMENT_SIZE_def)

lemma bool_small [simp]: "length (vch_of_bool b) \<le> MAX_SCRIPT_ELEMENT_SIZE"
  by (simp add: vch_of_bool_def vchTrue_def vchFalse_def MAX_SCRIPT_ELEMENT_SIZE_def)

definition keeps_small :: "(valstack \<Rightarrow> failure + valstack) \<Rightarrow> bool" where
  "keeps_small f \<longleftrightarrow> (\<forall>s s'. small s \<longrightarrow> f s = Inr s' \<longrightarrow> small s')"

lemma keeps_smallI: "(\<And>s s'. small s \<Longrightarrow> f s = Inr s' \<Longrightarrow> small s') \<Longrightarrow> keeps_small f"
  by (auto simp: keeps_small_def)

lemma keeps_small_stack:
  "keeps_small op_VERIFY" "keeps_small op_2DROP" "keeps_small op_2DUP" "keeps_small op_3DUP" "keeps_small op_2OVER"
  "keeps_small op_2ROT" "keeps_small op_2SWAP" "keeps_small op_IFDUP" "keeps_small op_DEPTH" "keeps_small op_DROP"
  "keeps_small op_DUP" "keeps_small op_NIP" "keeps_small op_OVER" "keeps_small op_ROT" "keeps_small op_SWAP"
  "keeps_small op_TUCK" "keeps_small op_SIZE"
  by (auto intro!: keeps_smallI simp: op_DEPTH_def split: if_splits
      elim!: op_VERIFY.elims op_2DROP.elims op_2DUP.elims op_3DUP.elims op_2OVER.elims op_2ROT.elims op_2SWAP.elims
        op_IFDUP.elims op_DROP.elims op_DUP.elims op_NIP.elims op_OVER.elims op_ROT.elims op_SWAP.elims op_TUCK.elims
        op_SIZE.elims)

lemma keeps_small_logic:
  "keeps_small (op_EQUAL op)" "keeps_small (op_bitwise op)" "keeps_small op_CAT"
  by (auto intro!: keeps_smallI simp: Let_def split: if_splits elim!: op_EQUAL.elims op_bitwise.elims op_CAT.elims)

lemma keeps_small_numeric:
  "keeps_small (op_unary op b)" "keeps_small (op_binary op b)" "keeps_small (op_WITHIN b)"
  by (auto intro!: keeps_smallI simp: Let_def split: if_splits elim!: op_unary.elims op_binary.elims op_WITHIN.elims)

lemma keeps_small_PICK: "keeps_small (op_PICK op b)"
proof (rule keeps_smallI)
  fix s s' assume s: "small s" "op_PICK op b s = Inr s'"
  then have t: "small (tl s)" by (intro small_take_drop)
  have "nat i < length (tl s)" if "0 \<le> i" "i < int (length (tl s))" for i using that by (simp only: nat_less_iff)
  then show "small s'" using s(2) t small_nth [OF t] small_take_drop(1,2) [OF t]
    by (auto simp: op_PICK_def Let_def not_less not_le simp del: length_tl split: if_splits)
qed

lemma MinimallyEncode_small: "length x \<le> n \<Longrightarrow> length (snd (MinimallyEncode x)) \<le> n"
  using MinimallyEncode_val [of x] by simp

lemma keeps_small_splice: "keeps_small (op_SPLIT b)" "keeps_small op_BIN2NUM"
  by (auto intro!: keeps_smallI MinimallyEncode_small simp: Let_def split: if_splits elim!: op_SPLIT.elims op_BIN2NUM.elims)

lemma keeps_small_NUM2BIN: "keeps_small (op_NUM2BIN b)"
proof (rule keeps_smallI)
  fix s s' assume s: "small s" "op_NUM2BIN b s = Inr s'"
  then obtain x2 x1 t where x: "s = x2 # x1 # t" by (cases "(b, s)" rule: op_NUM2BIN.cases) auto
  have "length (snd (MinimallyEncode x1)) \<le> MAX_SCRIPT_ELEMENT_SIZE"
    using s(1) x by (intro MinimallyEncode_small) simp
  then show "small s'" using s x by (auto simp: Let_def MAX_SCRIPT_ELEMENT_SIZE_def split: if_splits)
qed

lemma keeps_small_crypto:
  "hash_sizes C \<Longrightarrow> keeps_small (op_digest C op)" "keeps_small (op_CHECKSIG E op code)" "keeps_small (op_CHECKDATASIG E op)"
  by (auto intro!: keeps_smallI simp: hash_sizes_def push_or_verify_def MAX_SCRIPT_ELEMENT_SIZE_def Let_def split: if_splits
      elim!: op_digest.elims op_CHECKSIG.elims op_CHECKDATASIG.elims)
     (use bool_small in \<open>simp_all add: MAX_SCRIPT_ELEMENT_SIZE_def\<close>)

lemma multisig_cleanup_drop: "multisig_cleanup r i j s = Inr t \<Longrightarrow> t = drop i s"
  by (induction r i j s rule: multisig_cleanup.induct) (auto split: if_splits)

lemma multisig_small:
  assumes "small s" "op_CHECKMULTISIG E op code ops s = Inr (n, t)"
  shows "small t" "n \<le> MAX_OPS_PER_SCRIPT"
proof -
  obtain k m b u where a: "multisig_args E ops s = Inr (n, k, m)" "multisig_dummy E op b u = Inr t"
      "\<exists>r i j. multisig_cleanup r i j s = Inr u"
    using assms(2) by (auto simp: op_CHECKMULTISIG_def Let_def simp del: multisig_cleanup.simps) blast
  have "small u" using a(3) multisig_cleanup_drop small_take_drop(2) [OF assms(1)] by metis
  then show "small t" using a(2) small_take_drop(3) by (auto simp: multisig_dummy_def push_or_verify_def split: if_splits)
  show "n \<le> MAX_OPS_PER_SCRIPT" using a(1) by (auto simp: multisig_args_def Let_def split: if_splits)
qed

section \<open>No assertion fails\<close>

lemma set_vch_bound: "length bs \<le> n \<Longrightarrow> n \<le> 8 \<Longrightarrow> 0 < n \<Longrightarrow> \<bar>set_vch bs\<bar> < 2 ^ (8 * n - 1)"
proof (cases bs rule: rev_cases)
  case (snoc as b)
  assume n: "length bs \<le> n" "n \<le> 8" "0 < n"
  have "unat (b AND 0x7f) \<le> 127" using sign_byte(3,6) [of "b AND 0x7f"] sign_byte(6) [of b] by (simp add: not_le)
  then have "le_val (as @ [b AND 0x7f]) < 128 * 256 ^ length as"
    using top_less [OF _ le_val_less, of "unat (b AND 0x7f)" as] by (simp add: le_val_append)
  also have "\<dots> = 2 ^ (8 * length as + 7)" by (simp add: power_add power_mult)
  also have "\<dots> \<le> 2 ^ (8 * n - 1)" using n(1,3) snoc by (intro power_increasing) auto
  finally have "int (le_val (as @ [b AND 0x7f])) < 2 ^ (8 * n - 1)" by (metis of_nat_less_iff of_nat_numeral of_nat_power)
  moreover have "set_vch bs = (if b AND 0x80 \<noteq> 0 then - int (le_val (as @ [b AND 0x7f])) else int (le_val (as @ [b AND 0x7f])))"
    using set_vch_snoc [of as b] sign_byte(1) [of b] n snoc by auto
  ultimately show ?thesis by simp
qed (simp add: set_vch_def)

lemma num_operand_bound: "num_operand v b nDefaultMaxNumSize = Inr n \<Longrightarrow> \<bar>n\<bar> < 2 ^ 31"
  using set_vch_bound [of v 4] by (auto simp: num_operand_def CScriptNum_def nDefaultMaxNumSize_def split: if_splits)

lemma num_operand_no_assert [simp]: "num_operand v b n \<noteq> Inl Assertion"
  by (auto simp: num_operand_def split: option.splits)

definition total_op :: "(valstack \<Rightarrow> failure + valstack) \<Rightarrow> bool" where
  "total_op f \<longleftrightarrow> (\<forall>s. f s \<noteq> Inl Assertion)"

lemma total_stack:
  "total_op op_VERIFY" "total_op op_2DROP" "total_op op_2DUP" "total_op op_3DUP" "total_op op_2OVER"
  "total_op op_2ROT" "total_op op_2SWAP" "total_op op_IFDUP" "total_op op_DEPTH" "total_op op_DROP"
  "total_op op_DUP" "total_op op_NIP" "total_op op_OVER" "total_op op_ROT" "total_op op_SWAP"
  "total_op op_TUCK" "total_op op_SIZE" "total_op (op_EQUAL op)" "total_op (op_bitwise op)" "total_op op_CAT" "total_op op_BIN2NUM"
  by (auto simp: total_op_def op_DEPTH_def Let_def split: if_splits
      elim!: op_VERIFY.elims op_2DROP.elims op_2DUP.elims op_3DUP.elims op_2OVER.elims op_2ROT.elims op_2SWAP.elims
        op_IFDUP.elims op_DROP.elims op_DUP.elims op_NIP.elims op_OVER.elims op_ROT.elims op_SWAP.elims op_TUCK.elims
        op_SIZE.elims op_EQUAL.elims op_bitwise.elims op_CAT.elims op_BIN2NUM.elims)

lemma total_numeric:
  "total_op (op_PICK op b)" "total_op (op_WITHIN b)" "total_op (op_SPLIT b)" "total_op (op_NUM2BIN b)"
  unfolding total_op_def op_PICK_def
  by (auto simp: Let_def bind_sum_Inl_conv elim!: op_WITHIN.elims op_SPLIT.elims op_NUM2BIN.elims split: if_splits)

lemma total_unary: "op \<in> {OP_1ADD, OP_1SUB, OP_NEGATE, OP_ABS, OP_NOT, OP_0NOTEQUAL} \<Longrightarrow> total_op (op_unary op b)"
  unfolding total_op_def
proof
  fix s assume op: "op \<in> {OP_1ADD, OP_1SUB, OP_NEGATE, OP_ABS, OP_NOT, OP_0NOTEQUAL}"
  show "op_unary op b s \<noteq> Inl Assertion"
  proof (cases s)
    case (Cons x t)
    have "num_unary op n \<noteq> Inl Assertion" if "num_operand x b nDefaultMaxNumSize = Inr n" for n
      using op num_operand_bound [OF that]
      by (auto simp: num_unary_def num_add_assign_def num_sub_assign_def num_negate_def)
    then show ?thesis using Cons by (auto simp: bind_sum_Inl_conv)
  qed simp
qed

lemma total_binary:
  "op \<in> set [OP_ADD, OP_SUB, OP_DIV, OP_MOD, OP_BOOLAND, OP_BOOLOR, OP_NUMEQUAL, OP_NUMEQUALVERIFY, OP_NUMNOTEQUAL,
     OP_LESSTHAN, OP_GREATERTHAN, OP_LESSTHANOREQUAL, OP_GREATERTHANOREQUAL, OP_MIN, OP_MAX] \<Longrightarrow> total_op (op_binary op b)"
  unfolding total_op_def
proof
  fix s
  assume op: "op \<in> set [OP_ADD, OP_SUB, OP_DIV, OP_MOD, OP_BOOLAND, OP_BOOLOR, OP_NUMEQUAL, OP_NUMEQUALVERIFY, OP_NUMNOTEQUAL,
     OP_LESSTHAN, OP_GREATERTHAN, OP_LESSTHANOREQUAL, OP_GREATERTHANOREQUAL, OP_MIN, OP_MAX]"
  have "num_binary op m n \<noteq> Inl Assertion" for m n
    using op by (auto simp: num_binary_def)
  then show "op_binary op b s \<noteq> Inl Assertion"
    by (cases "(op, b, s)" rule: op_binary.cases) (auto simp: bind_sum_Inl_conv split: if_splits)
qed

lemma check_encodings_no_assert [simp]: "check_encodings E sig k \<noteq> Inl Assertion"
  by (auto simp: check_encodings_def split: option.splits)

lemma delete_sigs_no_assert [simp]: "delete_sigs E sigs code \<noteq> Inl Assertion"
  by (induction sigs arbitrary: code) (auto simp: Let_def split: prod.splits)

lemma EvalChecksig_no_assert: "EvalChecksig E sig k code \<noteq> Inl Assertion"
  unfolding EvalChecksig_def Let_def by (auto simp: bind_sum_Inl_conv simp del: delete_sigs.simps split: if_splits)

lemma total_signatures: "total_op (op_digest C op)" "total_op (op_CHECKSIG E op code)" "total_op (op_CHECKDATASIG E op)"
  using EvalChecksig_no_assert unfolding total_op_def
  by (auto simp: bind_sum_Inl_conv push_or_verify_def Let_def split: if_splits
      elim!: op_digest.elims op_CHECKSIG.elims op_CHECKDATASIG.elims)

lemma multisig_loop_no_assert: "length sigs \<le> length keys \<Longrightarrow> multisig_loop E code sigs keys \<noteq> Inl Assertion"
proof (induction keys arbitrary: sigs)
  case (Cons k keys)
  then show ?case by (cases sigs) (auto simp: Let_def bind_sum_Inl_conv split: if_splits)
qed simp

lemma multisig_cleanup_no_assert [simp]: "multisig_cleanup r i j s \<noteq> Inl Assertion"
  by (induction r i j s rule: multisig_cleanup.induct) auto

lemma multisig_no_assert: "op_CHECKMULTISIG E op code ops s \<noteq> Inl Assertion"
proof -
  have "multisig_args E ops s \<noteq> Inl Assertion"
    unfolding multisig_args_def Let_def by (auto simp: bind_sum_Inl_conv split: if_splits)
  moreover have "multisig_loop E c (take m (drop (k + 2) s)) (take k (drop 1 s)) \<noteq> Inl Assertion"
    if "multisig_args E ops s = Inr (n, k, m)" for n k m c
    by (rule multisig_loop_no_assert) (use that in \<open>auto simp: multisig_args_def Let_def split: if_splits\<close>)
  ultimately show ?thesis unfolding op_CHECKMULTISIG_def Let_def
    by (fastforce simp: bind_sum_Inl_conv multisig_dummy_def push_or_verify_def split: if_splits
        simp del: multisig_cleanup.simps)
qed

section \<open>Every handler keeps the state well-formed\<close>

definition interp_ok :: "interp \<Rightarrow> bool" where
  "interp_ok st \<longleftrightarrow> small (stack st) \<and> small (altstack st) \<and> nOpCount st \<le> MAX_OPS_PER_SCRIPT
     \<and> (\<exists>bs. cond_stands_for (vfExec st) bs \<and> int (length bs) \<le> nOpCount st)"

text \<open>Before an opcode runs it has been counted, so there is room for one more condition.\<close>

definition step_pre :: "u8 \<Rightarrow> interp \<Rightarrow> bool" where
  "step_pre opcode st \<longleftrightarrow> small (stack st) \<and> small (altstack st) \<and> nOpCount st \<le> MAX_OPS_PER_SCRIPT
     \<and> (\<exists>bs. cond_stands_for (vfExec st) bs \<and> int (length bs) + of_bool (opcode > OP_16) \<le> nOpCount st)"

definition handler_safe :: "u8 \<Rightarrow> handler \<Rightarrow> bool" where
  "handler_safe opcode h \<longleftrightarrow> (\<forall>E pc fExec st. hash_sizes (crypto E) \<longrightarrow> step_pre opcode st \<longrightarrow>
     h E opcode pc fExec st \<noteq> Inl Assertion \<and> (\<forall>st'. h E opcode pc fExec st = Inr st' \<longrightarrow> interp_ok st'))"

lemma step_pre_ok: "step_pre opcode st \<Longrightarrow> interp_ok st"
proof -
  assume a: "step_pre opcode st"
  then obtain bs where "cond_stands_for (vfExec st) bs" "int (length bs) + of_bool (opcode > OP_16) \<le> nOpCount st"
    by (auto simp: step_pre_def)
  moreover from this have "int (length bs) \<le> nOpCount st" by (cases "opcode > OP_16") auto
  ultimately show ?thesis using a by (auto simp: step_pre_def interp_ok_def)
qed

lemma on_stack_safe:
  assumes "keeps_small f" "total_op f" "step_pre opcode st"
  shows "on_stack f st \<noteq> Inl Assertion \<and> (\<forall>st'. on_stack f st = Inr st' \<longrightarrow> interp_ok st')"
  using assms step_pre_ok [OF assms(3)]
  by (auto simp: on_stack_def keeps_small_def total_op_def interp_ok_def bind_sum_Inl_conv)

lemma safe_plain: "keeps_small f \<Longrightarrow> total_op f \<Longrightarrow> handler_safe opcode (plain f)"
  and safe_plain_op: "keeps_small (g opcode) \<Longrightarrow> total_op (g opcode) \<Longrightarrow> handler_safe opcode (plain_op g)"
  and safe_numeric: "(\<And>b. keeps_small (h b)) \<Longrightarrow> (\<And>b. total_op (h b)) \<Longrightarrow> handler_safe opcode (numeric h)"
  and safe_numeric_op: "(\<And>b. keeps_small (k opcode b)) \<Longrightarrow> (\<And>b. total_op (k opcode b)) \<Longrightarrow> handler_safe opcode (numeric_op k)"
  using on_stack_safe unfolding handler_safe_def plain_def plain_op_def numeric_def numeric_op_def by blast+

lemma safe_signatures: "handler_safe opcode do_hash" "handler_safe opcode do_CHECKSIG" "handler_safe opcode do_CHECKDATASIG"
  using on_stack_safe keeps_small_crypto total_signatures
  unfolding handler_safe_def do_hash_def do_CHECKSIG_def do_CHECKDATASIG_def by blast+

lemma safe_CHECKMULTISIG: "handler_safe opcode do_CHECKMULTISIG"
  unfolding handler_safe_def do_CHECKMULTISIG_def
proof (intro allI impI conjI)
  fix E :: script_env and pc :: bytes and fExec and st st' :: interp
  show "bind_sum (op_CHECKMULTISIG E opcode (pbegincodehash st) (nOpCount st) (stack st))
      (\<lambda>(n, s). Inr (st\<lparr>nOpCount := n, stack := s\<rparr>)) \<noteq> Inl Assertion"
    using multisig_no_assert by (auto simp: bind_sum_Inl_conv)
  assume p: "step_pre opcode st" and r: "bind_sum (op_CHECKMULTISIG E opcode (pbegincodehash st) (nOpCount st) (stack st))
      (\<lambda>(n, s). Inr (st\<lparr>nOpCount := n, stack := s\<rparr>)) = Inr st'"
  then obtain n s where ns: "op_CHECKMULTISIG E opcode (pbegincodehash st) (nOpCount st) (stack st) = Inr (n, s)"
    "st' = st\<lparr>nOpCount := n, stack := s\<rparr>" by auto
  have "nOpCount st \<le> n" using ns(1) by (auto simp: op_CHECKMULTISIG_def multisig_args_def Let_def split: if_splits simp del: multisig_cleanup.simps)
  then show "interp_ok st'" using multisig_small [OF _ ns(1)] step_pre_ok [OF p] ns(2) by (auto simp: interp_ok_def)
qed

lemma small_hd: "small s \<Longrightarrow> s \<noteq> [] \<Longrightarrow> length (hd s) \<le> MAX_SCRIPT_ELEMENT_SIZE"
  by (cases s) simp_all

lemma safe_simple:
  "handler_safe opcode do_push_number" "handler_safe opcode do_NOP" "handler_safe opcode do_upgradable_NOP"
  "handler_safe opcode do_RETURN" "handler_safe opcode do_CODESEPARATOR" "handler_safe opcode do_TOALTSTACK"
  "handler_safe opcode do_FROMALTSTACK" "handler_safe opcode do_CHECKLOCKTIMEVERIFY" "handler_safe opcode do_CHECKSEQUENCEVERIFY"
  unfolding handler_safe_def do_push_number_def do_NOP_def do_upgradable_NOP_def do_RETURN_def do_CODESEPARATOR_def
    do_TOALTSTACK_def do_FROMALTSTACK_def do_CHECKLOCKTIMEVERIFY_def do_CHECKSEQUENCEVERIFY_def
  by (auto simp: bind_sum_Inl_conv interp_ok_def small_hd small_take_drop(3) dest!: step_pre_ok split: if_splits)

lemma safe_IF: "opcode > OP_16 \<Longrightarrow> handler_safe opcode do_IF"
  unfolding handler_safe_def
proof (intro allI impI conjI)
  fix E :: script_env and pc :: bytes and fExec and st st' :: interp
  assume op: "opcode > OP_16" and p: "step_pre opcode st"
  show "do_IF E opcode pc fExec st \<noteq> Inl Assertion" by (auto simp: do_IF_def Let_def)
  assume r: "do_IF E opcode pc fExec st = Inr st'"
  obtain bs where bs: "cond_stands_for (vfExec st) bs" "int (length bs) + 1 \<le> nOpCount st"
    using p op by (auto simp: step_pre_def)
  have "length bs < 2 ^ 32 - 2" using bs(2) p by (simp add: step_pre_def MAX_OPS_PER_SCRIPT_def)
  then have "cond_stands_for (cond_push_back f (vfExec st)) (bs @ [f])" for f using cond.push [OF bs(1)] by blast
  then have "\<exists>bs'. cond_stands_for (cond_push_back f (vfExec st)) bs' \<and> int (length bs') \<le> nOpCount st" for f
    using bs(2) by (metis add.commute length_append_singleton of_nat_Suc)
  then show "interp_ok st'" using r step_pre_ok [OF p] small_take_drop(3)
    by (auto simp: do_IF_def Let_def interp_ok_def split: if_splits)
qed

lemma safe_ELSE: "handler_safe opcode do_ELSE" "handler_safe opcode do_ENDIF"
proof -
  have *: "\<exists>c c'. toggle_top (vfExec st) = Some c \<and> cond_pop_back (vfExec st) = Some c'
      \<and> (\<exists>bs. cond_stands_for c bs \<and> int (length bs) \<le> nOpCount st) \<and> (\<exists>bs. cond_stands_for c' bs \<and> int (length bs) \<le> nOpCount st)"
    if ok: "interp_ok st" and ne: "\<not> cond_empty (vfExec st)" for st
  proof -
    obtain bs where bs: "cond_stands_for (vfExec st) bs" "int (length bs) \<le> nOpCount st" using ok by (auto simp: interp_ok_def)
    then obtain as f where as: "bs = as @ [f]" using ne cond.is_empty [OF bs(1)] by (cases bs rule: rev_cases) auto
    obtain c where "toggle_top (vfExec st) = Some c" "cond_stands_for c (as @ [\<not> f])" using cond.toggle bs(1) as by blast
    moreover obtain c' where "cond_pop_back (vfExec st) = Some c'" "cond_stands_for c' as" using cond.pop bs(1) as by blast
    moreover have "int (length (as @ [\<not> f])) \<le> nOpCount st" "int (length as) \<le> nOpCount st" using bs(2) as by auto
    ultimately show ?thesis by blast
  qed
  then show "handler_safe opcode do_ELSE" "handler_safe opcode do_ENDIF"
    unfolding handler_safe_def do_ELSE_def do_ENDIF_def
    by (auto dest!: step_pre_ok simp: interp_ok_def split: option.splits) (metis option.distinct(1) option.inject)+
qed

lemma list_all_table:
  "list_all P (map (\<lambda>opcode. (opcode, h)) ops) \<longleftrightarrow> list_all (\<lambda>opcode. P (opcode, h)) ops"
  by (simp add: list_all_iff)

lemmas safe_handlers = safe_simple safe_ELSE safe_signatures safe_CHECKMULTISIG
  safe_plain [OF keeps_small_stack(1) total_stack(1)] safe_plain [OF keeps_small_stack(2) total_stack(2)]
  safe_plain [OF keeps_small_stack(3) total_stack(3)] safe_plain [OF keeps_small_stack(4) total_stack(4)]
  safe_plain [OF keeps_small_stack(5) total_stack(5)] safe_plain [OF keeps_small_stack(6) total_stack(6)]
  safe_plain [OF keeps_small_stack(7) total_stack(7)] safe_plain [OF keeps_small_stack(8) total_stack(8)]
  safe_plain [OF keeps_small_stack(9) total_stack(9)] safe_plain [OF keeps_small_stack(10) total_stack(10)]
  safe_plain [OF keeps_small_stack(11) total_stack(11)] safe_plain [OF keeps_small_stack(12) total_stack(12)]
  safe_plain [OF keeps_small_stack(13) total_stack(13)] safe_plain [OF keeps_small_stack(14) total_stack(14)]
  safe_plain [OF keeps_small_stack(15) total_stack(15)] safe_plain [OF keeps_small_stack(16) total_stack(16)]
  safe_plain [OF keeps_small_stack(17) total_stack(17)]
  safe_plain_op [OF keeps_small_logic(1) total_stack(18)] safe_plain_op [OF keeps_small_logic(2) total_stack(19)]
  safe_plain [OF keeps_small_logic(3) total_stack(20)] safe_plain [OF keeps_small_splice(2) total_stack(21)]
  safe_numeric_op [of op_PICK, OF keeps_small_PICK total_numeric(1)]
  safe_numeric [of op_WITHIN, OF keeps_small_numeric(3) total_numeric(2)]
  safe_numeric [of op_SPLIT, OF keeps_small_splice(1) total_numeric(3)]
  safe_numeric [of op_NUM2BIN, OF keeps_small_NUM2BIN total_numeric(4)]
  safe_numeric_op [of op_unary, OF keeps_small_numeric(1) total_unary]
  safe_numeric_op [of op_binary, OF keeps_small_numeric(2) total_binary]

lemma safe_table: "list_all (\<lambda>(opcode, h). handler_safe opcode h) opcode_table"
  unfolding opcode_table_def
  by (simp add: list_all_table safe_handlers safe_IF word_less_nat_alt)

lemma safe_exec_switch: "handler_safe opcode exec_switch"
proof -
  have "handler_safe opcode h" if "map_of opcode_table opcode = Some h" for h
    using safe_table map_of_SomeD [OF that] by (auto simp: list_all_iff)
  then show ?thesis unfolding handler_safe_def exec_switch_def by (auto split: option.splits)
qed

lemma exec_opcode_safe:
  assumes "hash_sizes (crypto E)" "step_pre opcode st" "length v \<le> MAX_SCRIPT_ELEMENT_SIZE"
  shows "exec_opcode E opcode v pc st \<noteq> Inl Assertion \<and> (\<forall>st'. exec_opcode E opcode v pc st = Inr st' \<longrightarrow> interp_ok st')"
proof -
  have "interp_ok (st\<lparr>stack := v # stack st\<rparr>)" using step_pre_ok [OF assms(2)] assms(3) by (simp add: interp_ok_def)
  then show ?thesis
    using safe_exec_switch [of opcode, unfolded handler_safe_def, rule_format, OF assms(1,2)] step_pre_ok [OF assms(2)]
    by (auto simp: exec_opcode_def Let_def CheckMinimalPush_def)
qed

lemma eval_step_safe:
  assumes "hash_sizes (crypto E)" "interp_ok st"
  shows "eval_step E opcode v pc st \<noteq> Inl Assertion
    \<and> (\<forall>st'. eval_step E opcode v pc st = Inr st' \<longrightarrow> interp_ok st' \<and> length (stack st') + length (altstack st') \<le> MAX_STACK_SIZE)"
proof -
  define t where "t = (if opcode > OP_16 then st\<lparr>nOpCount := nOpCount st + 1\<rparr> else st)"
  have pre: "step_pre opcode t" if "\<not> (opcode > OP_16 \<and> nOpCount t > MAX_OPS_PER_SCRIPT)"
    using assms(2) that by (auto simp: interp_ok_def step_pre_def t_def)
  show ?thesis
    using exec_opcode_safe [OF assms(1) pre, of v pc]
    unfolding eval_step_def Let_def t_def [symmetric] by (auto simp: bind_sum_Inl_conv not_less split: if_splits)
qed

lemma eval_loop_safe:
  assumes "hash_sizes (crypto E)" "interp_ok st"
  shows "eval_loop E pc st \<noteq> Inl Assertion \<and> (\<forall>st'. eval_loop E pc st = Inr st' \<longrightarrow>
    interp_ok st' \<and> (pc \<noteq> [] \<longrightarrow> length (stack st') + length (altstack st') \<le> MAX_STACK_SIZE))"
  using assms
proof (induction E pc st rule: eval_loop.induct)
  case (1 E pc st)
  show ?case
  proof (cases "pc = []")
    case False
    obtain ok opcode v pc' where g: "GetScriptOp pc = (ok, opcode, v, pc')" by (cases "GetScriptOp pc") auto
    show ?thesis
    proof (cases "ok \<and> (\<exists>st'. eval_step E opcode v pc' st = Inr st')")
      case True
      then obtain st' where s: "eval_step E opcode v pc' st = Inr st'" by blast
      note ok = eval_step_safe [OF 1(2,3), of opcode v pc'] 
      have "eval_loop E pc' st' \<noteq> Inl Assertion \<and> (\<forall>st''. eval_loop E pc' st' = Inr st'' \<longrightarrow>
          interp_ok st'' \<and> (pc' \<noteq> [] \<longrightarrow> length (stack st'') + length (altstack st'') \<le> MAX_STACK_SIZE))"
        using 1(1) [of ok "(opcode, v, pc')" opcode "(v, pc')" v pc' st'] False g True 1(2) ok s by simp
      then show ?thesis using False g True s ok
        by (cases "pc' = []") (auto simp: eval_loop.simps [of E pc] eval_loop.simps [of E "[]"])
    next
      case F: False
      then show ?thesis using False g eval_step_safe [OF 1(2,3), of opcode v pc']
        by (cases ok; cases "eval_step E opcode v pc' st") (auto simp: eval_loop.simps [of E pc])
    qed
  qed (use 1(3) in \<open>simp add: eval_loop.simps [of E "[]"]\<close>)
qed

lemma interp_ok_start:
  "small s \<Longrightarrow> interp_ok \<lparr>stack = s, altstack = [], vfExec = cond_new, nOpCount = 0, pbegincodehash = script\<rparr>"
  using cond.new by (auto simp: interp_ok_def MAX_OPS_PER_SCRIPT_def)

lemma EvalScript_safe:
  assumes "hash_sizes (crypto E)" "small s"
  shows "EvalScript E s script \<noteq> Inl Assertion"
    "EvalScript E s script = Inr t \<Longrightarrow> small t \<and> (script \<noteq> [] \<longrightarrow> length t \<le> MAX_STACK_SIZE)"
  using eval_loop_safe [OF assms(1) interp_ok_start [OF assms(2)], of script script]
  by (auto simp: EvalScript_def bind_sum_Inl_conv interp_ok_def split: if_splits)

text \<open>
  C17. Evaluating a script keeps the types of the interpreter: no stack element is longer than 520 bytes, after every
  instruction the two stacks together hold at most 1000 elements, at most 201 operations have been counted, and the
  condition stack stands for a list of booleans that is no longer than the number of operations.
\<close>

theorem evaluation_keeps_types:
  assumes "hash_sizes (crypto E)" "interp_ok st" "eval_loop E pc st = Inr st'"
  shows "interp_ok st' \<and> (pc \<noteq> [] \<longrightarrow> length (stack st') + length (altstack st') \<le> MAX_STACK_SIZE)"
  using eval_loop_safe [OF assms(1,2), of pc] assms(3) by blast

lemma example_hash_sizes: "hash_sizes (crypto (example_env F))"
  by (simp add: example_env_def example_crypto_def hash_sizes_def)

theorem evaluation_keeps_types_witness:
  "\<exists>st'. eval_loop (example_env 0) [OP_1, OP_DUP] \<lparr>stack = [], altstack = [], vfExec = cond_new, nOpCount = 0, pbegincodehash = []\<rparr> = Inr st'
    \<and> interp_ok st'"
proof -
  let ?st = "\<lparr>stack = [], altstack = [], vfExec = cond_new, nOpCount = 0, pbegincodehash = []\<rparr>"
  have "eval_loop (example_env 0) [OP_1, OP_DUP] ?st = Inr (?st\<lparr>stack := [[1], [1]], nOpCount := 1\<rparr>)" by code_simp
  then show ?thesis
    using evaluation_keeps_types [OF example_hash_sizes interp_ok_start [of "[]" "[]"], of 0 "[OP_1, OP_DUP]"] by fastforce
qed

lemma p2sh_needs_argument:
  assumes "IsPayToScriptHash pub"
  shows "EvalScript E [] pub \<noteq> Inr t"
proof -
  obtain rest where r: "pub = OP_HASH160 # rest" using assms by (cases pub) (auto simp: IsPayToScriptHash_def)
  have g: "GetScriptOp pub = (True, OP_HASH160, [], rest)" by (simp add: r GetScriptOp_def word_le_nat_alt)
  have "map_of opcode_table OP_HASH160 = Some do_hash" by (simp add: opcode_table_def)
  then have "exec_opcode E OP_HASH160 [] rest st \<noteq> Inr st'" if "stack st = []" "all_true (vfExec st)" for st st'
    using that by (simp add: exec_opcode_def exec_switch_def do_hash_def on_stack_def)
  then have "eval_step E OP_HASH160 [] rest
      \<lparr>stack = [], altstack = [], vfExec = cond_new, nOpCount = 0, pbegincodehash = pub\<rparr> \<noteq> Inr st'" for st'
    by (auto simp: eval_step_def Let_def cond_new_def all_true_def split: if_splits)
  then show ?thesis using g r by (auto simp: EvalScript_def eval_loop.simps [of E "OP_HASH160 # rest"] split: if_splits)
qed

text \<open>
  Verifying a script never fails an assertion of the interpreter, whatever the scripts and the checker are, when the clean-stack
  flag is only used with the pay-to-script-hash flag: it either succeeds or returns a script error.
\<close>

lemma VerifyScript_no_assert:
  assumes "hash_sizes (crypto E)" "flag_set E SCRIPT_VERIFY_CLEANSTACK \<longrightarrow> flag_set E SCRIPT_VERIFY_P2SH"
  shows "VerifyScript E sig pub = Inr () \<or> (\<exists>err. VerifyScript E sig pub = Inl (Fail err))"
proof -
  have "VerifyScript E sig pub \<noteq> Inl Assertion"
  proof
    assume a: "VerifyScript E sig pub = Inl Assertion"
    note safe = EvalScript_safe [OF assms(1)]
    obtain c s where c: "EvalScript E [] sig = Inr c" "EvalScript E c pub = Inr s"
      "verify_p2sh E sig pub c s = Inl Assertion \<or> (\<exists>t. check_cleanstack E t = Inl Assertion)"
      using a safe(1) [of "[]" sig] safe(1) [of _ pub] safe(2) [of "[]" sig]
      by (auto simp: VerifyScript_def bind_sum_Inl_conv top_is_true_def split: if_splits)
    have small: "small c" using safe(2) [OF _ c(1)] by simp
    have "\<exists>t. check_cleanstack E t = Inl Assertion \<Longrightarrow> False" using assms(2) by (auto simp: check_cleanstack_def split: if_splits)
    then have "verify_p2sh E sig pub c s = Inl Assertion" using c(3) by blast
    moreover have "c \<noteq> []" if "IsPayToScriptHash pub" using p2sh_needs_argument [OF that] c(2) by auto
    moreover have "EvalScript E (tl c) (hd c) \<noteq> Inl Assertion" by (rule safe(1) [OF small_take_drop(3) [OF small]])
    ultimately show False by (auto simp: verify_p2sh_def bind_sum_Inl_conv top_is_true_def split: if_splits)
  qed
  then show ?thesis by (cases "VerifyScript E sig pub") (auto split: failure.splits intro: failure.exhaust)
qed

end
