(* ===== verification/Sighash.thy ===== *)
theory Sighash
  imports Interpreter_Safety
begin

text \<open>
What a signature of a transaction input signs, from \<open>script/interpreter.cpp\<close>: the legacy serializer with its blanked inputs and
  skipped code separators, the BLAKE2b digest of Sapling-version transactions with its precomputed parts, and the checker of an input
  that verifies signatures and lock times for the script interpreter. SHA-256, BLAKE2b and the verification of a signature are
  parameters.
\<close>

unbundle bit_operations_syntax

section \<open>What a legacy signature signs\<close>

text \<open>The two loops of \<open>SerializeScriptCode\<close>; \<open>itBegin\<close> and \<open>it\<close> are iterators, the rest of the script from there on.\<close>

function code_separators :: "bytes \<Rightarrow> nat" where
  "code_separators it = (case GetScriptOp it of
     (True, opcode, _, it') \<Rightarrow> (if opcode = OP_CODESEPARATOR then 1 else 0) + code_separators it'
   | (False, _) \<Rightarrow> 0)"
  by pat_completeness auto

termination code_separators
  by (relation "measure length") (auto dest: GetScriptOp_shorter [OF sym])

declare code_separators.simps [simp del]

function write_segments :: "bytes \<Rightarrow> bytes \<Rightarrow> bytes" where
  "write_segments itBegin it = (case GetScriptOp it of
     (True, opcode, _, it') \<Rightarrow>
       if opcode = OP_CODESEPARATOR
       then take (length itBegin - length it' - 1) itBegin @ write_segments it' it'
       else write_segments itBegin it'
   | (False, _, _, it') \<Rightarrow> if itBegin \<noteq> [] then take (length itBegin - length it') itBegin else [])"
  by pat_completeness auto

termination write_segments
  by (relation "measure (\<lambda>(_, it). length it)") (auto dest: GetScriptOp_shorter [OF sym])

declare write_segments.simps [simp del]

definition SerializeScriptCode :: "CScript \<Rightarrow> bytes" where
  "SerializeScriptCode scriptCode =
     WriteCompactSize (length scriptCode - code_separators scriptCode) @ write_segments scriptCode scriptCode"

text \<open>The hash type is the C++ type int; only its bits matter.\<close>

definition fAnyoneCanPay :: "u32 \<Rightarrow> bool" where
  "fAnyoneCanPay nHashType \<longleftrightarrow> nHashType AND ucast SIGHASH_ANYONECANPAY \<noteq> 0"

definition fHashSingle :: "u32 \<Rightarrow> bool" where
  "fHashSingle nHashType \<longleftrightarrow> nHashType AND 0x1f = ucast SIGHASH_SINGLE"

definition fHashNone :: "u32 \<Rightarrow> bool" where
  "fHashNone nHashType \<longleftrightarrow> nHashType AND 0x1f = ucast SIGHASH_NONE"

definition SerializeInput :: "CTransaction \<Rightarrow> CScript \<Rightarrow> nat \<Rightarrow> u32 \<Rightarrow> nat \<Rightarrow> bytes" where
  "SerializeInput txTo scriptCode nIn nHashType nInput =
     (let nInput = (if fAnyoneCanPay nHashType then nIn else nInput)
      in ser_outpoint (prevout (vin txTo ! nInput))
         @ (if nInput \<noteq> nIn then ser_blob [] else SerializeScriptCode scriptCode)
         @ (if nInput \<noteq> nIn \<and> (fHashSingle nHashType \<or> fHashNone nHashType) then ser_writedata32 0
            else ser_writedata32 (nSequence (vin txTo ! nInput))))"

definition SerializeOutput :: "CTransaction \<Rightarrow> nat \<Rightarrow> u32 \<Rightarrow> nat \<Rightarrow> bytes" where
  "SerializeOutput txTo nIn nHashType nOutput =
     (if fHashSingle nHashType \<and> nOutput \<noteq> nIn then ser_txout CTxOut_null else ser_txout (vout txTo ! nOutput))"

definition CTransactionSignatureSerializer :: "CTransaction \<Rightarrow> CScript \<Rightarrow> nat \<Rightarrow> u32 \<Rightarrow> bytes" where
  "CTransactionSignatureSerializer txTo scriptCode nIn nHashType =
     (let nInputs = (if fAnyoneCanPay nHashType then 1 else length (vin txTo));
          nOutputs = (if fHashNone nHashType then 0 else if fHashSingle nHashType then nIn + 1 else length (vout txTo))
      in ser_writedata32 (n32bitVersion txTo)
         @ WriteCompactSize nInputs @ concat (map (SerializeInput txTo scriptCode nIn nHashType) [0..<nInputs])
         @ WriteCompactSize nOutputs @ concat (map (SerializeOutput txTo nIn nHashType) [0..<nOutputs])
         @ ser_writedata32 (nLockTime txTo)
         @ (if tx_nVersion txTo \<ge> SPECIAL_VERSION \<and> nType txTo \<noteq> TRANSACTION_NORMAL then ser_blob (vExtraPayload txTo) else []))"

section \<open>What a Sapling-version signature signs\<close>

text \<open>
  \<open>blake\<close> is the BLAKE2b-256 hash of libsodium, of a personalization and the data written; \<open>HashWriter::GetHash\<close>
  is SHA-256 applied twice.
\<close>

definition personal :: "string \<Rightarrow> bytes" where
  "personal s = map of_char s"

definition GetPrevoutHash :: "(bytes \<Rightarrow> bytes \<Rightarrow> uint256) \<Rightarrow> CTransaction \<Rightarrow> uint256" where
  "GetPrevoutHash blake txTo = blake (personal ''SMTPrevoutHash01'') (concat (map (\<lambda>txin. ser_outpoint (prevout txin)) (vin txTo)))"

definition GetSequenceHash :: "(bytes \<Rightarrow> bytes \<Rightarrow> uint256) \<Rightarrow> CTransaction \<Rightarrow> uint256" where
  "GetSequenceHash blake txTo = blake (personal ''SMTSequenceHash1'') (concat (map (\<lambda>txin. ser_writedata32 (nSequence txin)) (vin txTo)))"

definition GetOutputsHash :: "(bytes \<Rightarrow> bytes \<Rightarrow> uint256) \<Rightarrow> CTransaction \<Rightarrow> uint256" where
  "GetOutputsHash blake txTo = blake (personal ''SMTOutputsHash01'') (concat (map ser_txout (vout txTo)))"

definition GetShieldedSpendsHash :: "(bytes \<Rightarrow> bytes \<Rightarrow> uint256) \<Rightarrow> CTransaction \<Rightarrow> uint256" where
  "GetShieldedSpendsHash blake txTo = blake (personal ''SMTSSpendsHash01'')
     (concat (map (\<lambda>spend. spend_cv spend @ spend_anchor spend @ nullifier spend @ rk spend @ spend_zkproof spend)
                  (vShieldedSpend (sapData txTo))))"

definition GetShieldedOutputsHash :: "(bytes \<Rightarrow> bytes \<Rightarrow> uint256) \<Rightarrow> CTransaction \<Rightarrow> uint256" where
  "GetShieldedOutputsHash blake txTo = blake (personal ''SMTSOutputHash01'') (concat (map ser_output (vShieldedOutput (sapData txTo))))"

record PrecomputedTransactionData =
  hashPrevouts :: uint256
  hashSequence :: uint256
  hashOutputs :: uint256
  hashShieldedSpends :: uint256
  hashShieldedOutputs :: uint256
  m_spent_outputs :: "CTxOut list"
  m_ready :: bool

definition PrecomputedTransactionData_new :: PrecomputedTransactionData where
  "PrecomputedTransactionData_new = \<lparr>hashPrevouts = replicate 32 0, hashSequence = replicate 32 0, hashOutputs = replicate 32 0,
     hashShieldedSpends = replicate 32 0, hashShieldedOutputs = replicate 32 0, m_spent_outputs = [], m_ready = False\<rparr>"

definition PrecomputedTransactionData_Init ::
  "(bytes \<Rightarrow> bytes \<Rightarrow> uint256) \<Rightarrow> CTransaction \<Rightarrow> CTxOut list \<Rightarrow> PrecomputedTransactionData \<Rightarrow> PrecomputedTransactionData option" where
  "PrecomputedTransactionData_Init blake txTo spent_outputs d =
     (if m_ready d then None
      else let d = d\<lparr>m_spent_outputs := spent_outputs, hashPrevouts := GetPrevoutHash blake txTo, hashSequence := GetSequenceHash blake txTo,
                     hashOutputs := GetOutputsHash blake txTo\<rparr>;
               d = (if HasShieldedPayloadField txTo
                    then d\<lparr>hashShieldedSpends := GetShieldedSpendsHash blake txTo,
                           hashShieldedOutputs := GetShieldedOutputsHash blake txTo\<rparr> else d)
           in Some (d\<lparr>m_ready := True\<rparr>))"

definition NOT_AN_INPUT :: nat where "NOT_AN_INPUT = 2 ^ 32 - 1"

definition uint256_ONE :: uint256 where "uint256_ONE = 1 # replicate 31 0"

definition sapling_preimage ::
  "(bytes \<Rightarrow> bytes \<Rightarrow> uint256) \<Rightarrow> CScript \<Rightarrow> CTransaction \<Rightarrow> nat \<Rightarrow> u32 \<Rightarrow> CAmount \<Rightarrow> PrecomputedTransactionData option \<Rightarrow> bytes" where
  "sapling_preimage blake scriptCode txTo nIn nHashType amount cache =
     (let all_outputs = (\<not> fHashSingle nHashType \<and> \<not> fHashNone nHashType);
          zero = replicate 32 0;
          prevouts = (if \<not> fAnyoneCanPay nHashType
                      then (case cache of Some d \<Rightarrow> hashPrevouts d | None \<Rightarrow> GetPrevoutHash blake txTo) else zero);
          sequence = (if \<not> fAnyoneCanPay nHashType \<and> all_outputs
                      then (case cache of Some d \<Rightarrow> hashSequence d | None \<Rightarrow> GetSequenceHash blake txTo) else zero);
          outputs = (if all_outputs then (case cache of Some d \<Rightarrow> hashOutputs d | None \<Rightarrow> GetOutputsHash blake txTo)
                     else if fHashSingle nHashType \<and> nIn < length (vout txTo)
                     then blake (personal ''SMTOutputsHash01'') (ser_txout (vout txTo ! nIn)) else zero);
          hasSpends = (HasShieldedPayloadField txTo \<and> vShieldedSpend (sapData txTo) \<noteq> []);
          hasOutputs = (HasShieldedPayloadField txTo \<and> vShieldedOutput (sapData txTo) \<noteq> []);
          spends = (if hasSpends then (case cache of Some d \<Rightarrow> hashShieldedSpends d | None \<Rightarrow> GetShieldedSpendsHash blake txTo) else zero);
          shielded = (if hasOutputs then (case cache of Some d \<Rightarrow> hashShieldedOutputs d | None \<Rightarrow> GetShieldedOutputsHash blake txTo) else zero)
      in ser_writedata16 (word_of_int (tx_nVersion txTo)) @ ser_writedata16 (nType txTo) @ prevouts @ sequence @ outputs
         @ (if hasSpends \<or> hasOutputs then spends @ shielded @ ser_int64 (valueBalance (sapData txTo)) else [])
         @ (if nIn \<noteq> NOT_AN_INPUT
            then ser_outpoint (prevout (vin txTo ! nIn)) @ ser_blob scriptCode @ ser_int64 amount
                 @ ser_writedata32 (nSequence (vin txTo ! nIn)) else [])
         @ (if HasExtraPayloadField txTo then ser_blob (vExtraPayload txTo) else [])
         @ ser_writedata32 (nLockTime txTo) @ ser_writedata32 nHashType)"

text \<open>None is the failed assertion.\<close>

definition SignatureHash ::
  "Crypto \<Rightarrow> (bytes \<Rightarrow> bytes \<Rightarrow> uint256) \<Rightarrow> CScript \<Rightarrow> CTransaction \<Rightarrow> nat \<Rightarrow> u32 \<Rightarrow> CAmount \<Rightarrow> SigVersion
     \<Rightarrow> PrecomputedTransactionData option \<Rightarrow> uint256 option" where
  "SignatureHash C blake scriptCode txTo nIn nHashType amount version cache =
     (if nIn \<ge> length (vin txTo) \<and> nIn \<noteq> NOT_AN_INPUT then Some uint256_ONE
      else if version = SAPLING
      then Some (blake (personal ''KSHSigHash'' @ replicate 6 0) (sapling_preimage blake scriptCode txTo nIn nHashType amount cache))
      else if \<not> nIn < length (vin txTo) then None
      else if fHashSingle nHashType \<and> nIn \<ge> length (vout txTo) then Some uint256_ONE
      else Some (SHA256 C (SHA256 C (CTransactionSignatureSerializer txTo scriptCode nIn nHashType @ ser_writedata32 nHashType))))"

section \<open>The signature checker of a transaction input\<close>

definition GetLen :: "u8 \<Rightarrow> nat" where
  "GetLen chHeader = (if chHeader = 2 \<or> chHeader = 3 then COMPRESSED_SIZE
     else if chHeader = 4 \<or> chHeader = 6 \<or> chHeader = 7 then PUBKEY_SIZE else 0)"

text \<open>Whether the key built from \<open>vch\<close> is valid: \<open>Set\<close> keeps the bytes or invalidates the key.\<close>

definition CPubKey_IsValid :: "bytes \<Rightarrow> bool" where
  "CPubKey_IsValid vch \<longleftrightarrow> (let len = (if vch = [] then 0 else GetLen (hd vch)) in len \<noteq> 0 \<and> len = length vch)"

definition CheckSig_tx ::
  "Crypto \<Rightarrow> (bytes \<Rightarrow> bytes \<Rightarrow> uint256) \<Rightarrow> CTransaction \<Rightarrow> nat \<Rightarrow> CAmount \<Rightarrow> PrecomputedTransactionData option
     \<Rightarrow> bytes \<Rightarrow> bytes \<Rightarrow> CScript \<Rightarrow> SigVersion \<Rightarrow> bool option" where
  "CheckSig_tx C blake txTo nIn amount txdata vchSigIn vchPubKey scriptCode version =
     (if \<not> CPubKey_IsValid vchPubKey then Some False
      else if vchSigIn = [] then Some False
      else case SignatureHash C blake scriptCode txTo nIn (ucast (last vchSigIn)) amount version txdata of
        None \<Rightarrow> None
      | Some sighash \<Rightarrow> Some (pubkey_Verify C vchPubKey sighash (butlast vchSigIn)))"

definition CheckLockTime_tx :: "CTransaction \<Rightarrow> nat \<Rightarrow> int \<Rightarrow> bool" where
  "CheckLockTime_tx txTo nIn lockTime =
     (if \<not> (uint (nLockTime txTo) < LOCKTIME_THRESHOLD \<and> lockTime < LOCKTIME_THRESHOLD
           \<or> uint (nLockTime txTo) \<ge> LOCKTIME_THRESHOLD \<and> lockTime \<ge> LOCKTIME_THRESHOLD) then False
      else if lockTime > uint (nLockTime txTo) then False
      else if SEQUENCE_FINAL = nSequence (vin txTo ! nIn) then False else True)"

definition CheckSequence_tx :: "CTransaction \<Rightarrow> nat \<Rightarrow> int \<Rightarrow> bool" where
  "CheckSequence_tx txTo nIn sequence =
     (let txToSequence = nSequence (vin txTo ! nIn);
          nLockTimeMask = SEQUENCE_LOCKTIME_TYPE_FLAG OR SEQUENCE_LOCKTIME_MASK;
          txToSequenceMasked = uint (txToSequence AND nLockTimeMask);
          nSequenceMasked = sequence AND uint nLockTimeMask;
          typeFlag = uint SEQUENCE_LOCKTIME_TYPE_FLAG
      in if uint (word_of_int (tx_nVersion txTo) :: u32) < 2 then False
         else if txToSequence AND SEQUENCE_LOCKTIME_DISABLE_FLAG \<noteq> 0 then False
         else if \<not> (txToSequenceMasked < typeFlag \<and> nSequenceMasked < typeFlag
                 \<or> txToSequenceMasked \<ge> typeFlag \<and> nSequenceMasked \<ge> typeFlag) then False
         else if nSequenceMasked > txToSequenceMasked then False else True)"

text \<open>
  The checker the interpreter is run with. The interface of the interpreter has no value for an assertion that fails in the
  checker, so the failure of \<open>SignatureHash\<close> is read as a refused signature here; \<open>CheckSig_tx_defined\<close> below shows that it does not
  occur for an input of the transaction. The interpreter indexes the inputs with \<open>nIn\<close> only for such inputs.
\<close>

definition TransactionSignatureChecker ::
  "Crypto \<Rightarrow> (bytes \<Rightarrow> bytes \<Rightarrow> uint256) \<Rightarrow> CTransaction \<Rightarrow> nat \<Rightarrow> CAmount \<Rightarrow> PrecomputedTransactionData option \<Rightarrow> BaseSignatureChecker" where
  "TransactionSignatureChecker C blake txTo nIn amount txdata =
     \<lparr>CheckSig = (\<lambda>vchSigIn vchPubKey scriptCode version.
         CheckSig_tx C blake txTo nIn amount txdata vchSigIn vchPubKey scriptCode version = Some True),
      CheckLockTime = CheckLockTime_tx txTo nIn, CheckSequence = CheckSequence_tx txTo nIn\<rparr>"

definition CScriptCheck :: "Crypto \<Rightarrow> (bytes \<Rightarrow> bytes \<Rightarrow> uint256) \<Rightarrow> CTxOut \<Rightarrow> CTransaction \<Rightarrow> nat \<Rightarrow> u32 \<Rightarrow> failure + unit" where
  "CScriptCheck C blake m_tx_out txTo nIn nFlags =
     VerifyScript \<lparr>script_flags = nFlags,
                   sigversion = (if IsShieldedTxVersion txTo then SAPLING else BASE),
                   checker = TransactionSignatureChecker C blake txTo nIn (nValue m_tx_out)
                     (PrecomputedTransactionData_Init blake txTo [] PrecomputedTransactionData_new),
                   crypto = C\<rparr>
       (scriptSig (vin txTo ! nIn)) (scriptPubKey m_tx_out)"

lemma CheckSig_tx_defined:
  "nIn < length (vin tx) \<Longrightarrow> \<exists>ok. CheckSig_tx C blake tx nIn amount txdata sig key code version = Some ok"
  by (auto simp: CheckSig_tx_def SignatureHash_def)

text \<open>
  C37. Checking the script of an input never fails an assertion, whatever the scripts, the transaction and the coin are, when the
  clean-stack flag is only used with the pay-to-script-hash flag: the checks of signatures do not fail the assertion of the
  signature hash, with or without precomputed hashes, and the interpreter run on them fails none of its own: it succeeds or
  returns a script error.
\<close>

theorem verification_never_aborts:
  assumes "nIn < length (vin tx)" "hash_sizes C"
    and "has_flag nFlags SCRIPT_VERIFY_CLEANSTACK \<longrightarrow> has_flag nFlags SCRIPT_VERIFY_P2SH"
  shows "(\<exists>ok. CheckSig_tx C blake tx nIn amount txdata sig key code version = Some ok)
    \<and> (CScriptCheck C blake m_tx_out tx nIn nFlags = Inr () \<or> (\<exists>err. CScriptCheck C blake m_tx_out tx nIn nFlags = Inl (Fail err)))"
  using CheckSig_tx_defined [OF assms(1)] VerifyScript_no_assert assms(2,3) by (simp add: CScriptCheck_def)

theorem verification_never_aborts_witness:
  "(\<exists>ok. CheckSig_tx example_crypto (\<lambda>_ _. []) example_tx 0 5 None [1] [2] [OP_CHECKSIG] BASE = Some ok)
   \<and> (CScriptCheck example_crypto (\<lambda>_ _. []) \<lparr>nValue = 5, scriptPubKey = [OP_VERIF]\<rparr> example_tx 0 0 = Inr ()
      \<or> (\<exists>err. CScriptCheck example_crypto (\<lambda>_ _. []) \<lparr>nValue = 5, scriptPubKey = [OP_VERIF]\<rparr> example_tx 0 0 = Inl (Fail err)))"
  by (rule verification_never_aborts) (simp_all add: example_tx_defs has_flag_def hash_sizes_def example_crypto_def)

section \<open>The script code without its separators\<close>












section \<open>What \<open>SIGHASH_ALL\<close> signs is a transaction\<close>












text \<open>
  The hashes precomputed once per transaction change no signature hash: with the data \<open>Init\<close> prepares for a transaction,
  \<open>SignatureHash\<close> gives for every input, script code, hash type and version what it gives without them.
\<close>

theorem precomputed_hashes_change_nothing:
  assumes "PrecomputedTransactionData_Init blake tx spent_outputs d = Some d'"
  shows "SignatureHash C blake sc tx nIn h amount version (Some d') = SignatureHash C blake sc tx nIn h amount version None"
proof -
  have "hashPrevouts d' = GetPrevoutHash blake tx" "hashSequence d' = GetSequenceHash blake tx" "hashOutputs d' = GetOutputsHash blake tx"
    "HasShieldedPayloadField tx \<Longrightarrow> hashShieldedSpends d' = GetShieldedSpendsHash blake tx"
    "HasShieldedPayloadField tx \<Longrightarrow> hashShieldedOutputs d' = GetShieldedOutputsHash blake tx"
    using assms by (auto simp: PrecomputedTransactionData_Init_def Let_def split: if_splits)
  then have "sapling_preimage blake sc tx nIn h amount (Some d') = sapling_preimage blake sc tx nIn h amount None"
    by (simp add: sapling_preimage_def Let_def)
  then show ?thesis by (simp only: SignatureHash_def)
qed


theorem precomputed_hashes_change_nothing_witness:
  "\<exists>d. PrecomputedTransactionData_Init (\<lambda>p b. take 32 (p @ b)) example_tx [] PrecomputedTransactionData_new = Some d \<and>
     SignatureHash example_crypto (\<lambda>p b. take 32 (p @ b)) [OP_CHECKSIG] example_tx 0 1 5 SAPLING (Some d)
       = SignatureHash example_crypto (\<lambda>p b. take 32 (p @ b)) [OP_CHECKSIG] example_tx 0 1 5 SAPLING None"
proof -
  obtain d where "PrecomputedTransactionData_Init (\<lambda>p b. take 32 (p @ b)) example_tx [] PrecomputedTransactionData_new = Some d"
    by (simp add: PrecomputedTransactionData_Init_def PrecomputedTransactionData_new_def Let_def)
  then show ?thesis using precomputed_hashes_change_nothing by blast
qed

section \<open>Lock times checked by scripts\<close>

lemma and_power: "(x :: int) AND 2 ^ n = of_bool (bit x n) * 2 ^ n"
  by (rule bit_eqI) (auto simp: bit_simps)

lemma and_low16: "(x :: int) AND 65535 = take_bit 16 x"
proof -
  have "(65535 :: int) = mask 16" by (simp add: mask_eq_exp_minus_1)
  then show ?thesis by (simp only: take_bit_eq_mask)
qed

lemma bit_22: "bit (4194304 :: int) n \<longleftrightarrow> n = 22"
  using bit_exp_iff [of 22 n, where ?'a = int] by simp

lemma lock_fields:
  "(x :: int) AND 0x40ffff = of_bool (bit x 22) * 2 ^ 22 + take_bit 16 x"
proof -
  have "x AND 0x40ffff = (x AND 2 ^ 22) OR (x AND 65535)"
    unfolding bit.conj_disj_distrib [symmetric] by simp
  also have "\<dots> = (x AND 2 ^ 22) + (x AND 65535)"
    unfolding and_power and_low16
    by (rule disjunctive_add_eq_or [symmetric]) (cases "bit x 22"; rule bit_eqI; auto simp: bit_and_iff bit_take_bit_iff bit_22)
  finally show ?thesis by (simp only: and_power and_low16)
qed

lemma take_bit16_less: "take_bit 16 (x :: int) < 65536" "0 \<le> take_bit 16 (x :: int)"
  using take_bit_int_less_exp [of 16 x] by simp_all

lemma sequence_mask: "uint (SEQUENCE_LOCKTIME_TYPE_FLAG OR SEQUENCE_LOCKTIME_MASK) = 0x40ffff"
  by (simp add: SEQUENCE_LOCKTIME_TYPE_FLAG_def SEQUENCE_LOCKTIME_MASK_def)

lemma sequence_bits:
  "uint (w AND SEQUENCE_LOCKTIME_MASK) = take_bit 16 (uint w)"
  "w AND SEQUENCE_LOCKTIME_TYPE_FLAG \<noteq> 0 \<longleftrightarrow> bit (uint w) 22"
proof -
  show "uint (w AND SEQUENCE_LOCKTIME_MASK) = take_bit 16 (uint w)"
    by (simp add: uint_and SEQUENCE_LOCKTIME_MASK_def and_low16)
  have "uint (w AND SEQUENCE_LOCKTIME_TYPE_FLAG) = uint w AND 2 ^ 22"
    by (simp add: uint_and SEQUENCE_LOCKTIME_TYPE_FLAG_def)
  then show "w AND SEQUENCE_LOCKTIME_TYPE_FLAG \<noteq> 0 \<longleftrightarrow> bit (uint w) 22"
    by (metis and_exp_eq_0_iff_not_bit uint_0_iff)
qed

lemma CheckSequence_tx_less:
  assumes "CheckSequence_tx tx nIn n"
  shows "bit (uint (nSequence (vin tx ! nIn))) 22 \<longleftrightarrow> bit n 22"
    and "take_bit 16 n \<le> take_bit 16 (uint (nSequence (vin tx ! nIn)))"
    and "nSequence (vin tx ! nIn) AND SEQUENCE_LOCKTIME_DISABLE_FLAG = 0"
proof -
  let ?s = "uint (nSequence (vin tx ! nIn))"
  have "uint SEQUENCE_LOCKTIME_TYPE_FLAG = 2 ^ 22" by (simp add: SEQUENCE_LOCKTIME_TYPE_FLAG_def)
  then have "(of_bool (bit ?s 22) * 2 ^ 22 + take_bit 16 ?s < 2 ^ 22 \<and> of_bool (bit n 22) * 2 ^ 22 + take_bit 16 n < 2 ^ 22
      \<or> of_bool (bit ?s 22) * 2 ^ 22 + take_bit 16 ?s \<ge> 2 ^ 22 \<and> of_bool (bit n 22) * 2 ^ 22 + take_bit 16 n \<ge> 2 ^ 22)
      \<and> of_bool (bit n 22) * 2 ^ 22 + take_bit 16 n \<le> of_bool (bit ?s 22) * 2 ^ 22 + take_bit 16 ?s"
    "nSequence (vin tx ! nIn) AND SEQUENCE_LOCKTIME_DISABLE_FLAG = 0"
    using assms unfolding CheckSequence_tx_def Let_def uint_and sequence_mask lock_fields by (auto split: if_splits)
  then show "bit ?s 22 \<longleftrightarrow> bit n 22" "take_bit 16 n \<le> take_bit 16 ?s" "nSequence (vin tx ! nIn) AND SEQUENCE_LOCKTIME_DISABLE_FLAG = 0"
    using take_bit16_less [of ?s] take_bit16_less [of n] by (auto simp: of_bool_def split: if_splits)
qed

text \<open>
  C15. The lock times a script demands are enforced by the rules for blocks. When the checker of an input accepts the absolute
  lock time \<open>n\<close> and the transaction is final for a block, the block is above the height \<open>n\<close>, or later than the time \<open>n\<close>. When it
  accepts the relative lock time \<open>m\<close> and \<open>SequenceLocks\<close>, with the flag that turns relative lock times on, accepts the
  transaction for a block, then the coin of that input has the age \<open>m\<close> demands: as many blocks as the low 16 bits of \<open>m\<close>
  say, or that many units of 512 seconds of median time past if bit 22 is set.
\<close>

theorem script_lock_times_are_enforced:
  assumes "nIn < length (vin tx)" "linked bm" "skips_ok bm" "bm block = Some b" "pprev b = Some p"
    and "length prevHeights = length (vin tx)" "\<forall>h \<in> set prevHeights. h \<le> nHeight b + 1" "flags AND LOCKTIME_VERIFY_SEQUENCE \<noteq> 0"
  shows "(CheckLockTime_tx tx nIn n \<and> 0 < n \<and> IsFinalTx tx nBlockHeight nBlockTime \<longrightarrow>
      (if n < LOCKTIME_THRESHOLD then n < nBlockHeight else n < nBlockTime)) \<and>
    (CheckSequence_tx tx nIn m \<and> SequenceLocks bm tx flags prevHeights block = Inr (True, hs) \<longrightarrow>
      (if bit m 22 then mtp bm (the (ancestor_at bm block (max (prevHeights ! nIn - 1) 0))) + take_bit 16 m * 512 \<le> mtp bm p
       else prevHeights ! nIn + take_bit 16 m \<le> nHeight b))"
proof (intro conjI impI; elim conjE)
  assume "CheckLockTime_tx tx nIn n" "0 < n" "IsFinalTx tx nBlockHeight nBlockTime"
  moreover have "vin tx ! nIn \<in> set (vin tx)" using assms(1) by simp
  ultimately show "if n < LOCKTIME_THRESHOLD then n < nBlockHeight else n < nBlockTime"
    by (auto simp: CheckLockTime_tx_def IsFinalTx_def list_all_iff split: if_splits)
next
  assume c: "CheckSequence_tx tx nIn m" and l: "SequenceLocks bm tx flags prevHeights block = Inr (True, hs)"
  have "2 \<le> uint (word_of_int (tx_nVersion tx) :: u32)" by (rule ccontr) (use c in \<open>simp add: CheckSequence_tx_def not_le\<close>)
  then have "list_all2 (input_unlocked bm block) (vin tx) prevHeights"
    using SequenceLocks_spec [OF assms(2-7) _ assms(8)] l by auto
  then have "input_unlocked bm block (vin tx ! nIn) (prevHeights ! nIn)" using assms(1) by (simp add: list_all2_nthD)
  then show "if bit m 22 then mtp bm (the (ancestor_at bm block (max (prevHeights ! nIn - 1) 0))) + take_bit 16 m * 512 \<le> mtp bm p
      else prevHeights ! nIn + take_bit 16 m \<le> nHeight b"
    using CheckSequence_tx_less [OF c] assms(4,5) by (auto simp: input_unlocked_def Let_def sequence_bits)
qed

definition lock_tx :: CTransaction where
  "lock_tx = CMutableTransaction_default\<lparr>tx_nVersion := 2, nLockTime := 7, 
     vin := [\<lparr>prevout = \<lparr>op_hash = replicate 32 1, op_n = 0\<rparr>, scriptSig = [], nSequence = 3\<rparr>]\<rparr>"

theorem script_lock_times_are_enforced_witness:
  "(5 :: int) < 8 \<and> [4] ! 0 + take_bit 16 2 \<le> nHeight (line_entry (\<lambda>_. 0) 0 7)"
proof -
  let ?bm = "line_map 8 (\<lambda>_. 0) 0"
  have b: "?bm (line_ptr 7) = Some (line_entry (\<lambda>_. 0) 0 7)" by (rule line_map_ptr) auto
  have p: "pprev (line_entry (\<lambda>_. 0) 0 7) = Some (line_ptr 6)" by (simp add: line_entry_def)
  have "\<exists>hs. SequenceLocks ?bm lock_tx 1 [4] (line_ptr 7) = Inr (list_all2 (input_unlocked ?bm (line_ptr 7)) (vin lock_tx) [4], hs)"
    by (rule SequenceLocks_spec [OF linked_line_map skips_ok_line_map b p])
       (simp_all add: line_entry_def lock_tx_def CMutableTransaction_default_def LOCKTIME_VERIFY_SEQUENCE_def)
  moreover have "input_unlocked ?bm (line_ptr 7) (vin lock_tx ! 0) 4"
    by (simp add: lock_tx_def input_unlocked_def b line_entry_def SEQUENCE_LOCKTIME_TYPE_FLAG_def SEQUENCE_LOCKTIME_MASK_def)
  ultimately obtain hs where l: "SequenceLocks ?bm lock_tx 1 [4] (line_ptr 7) = Inr (True, hs)" by (auto simp: lock_tx_def)
  have c: "CheckLockTime_tx lock_tx 0 5" "IsFinalTx lock_tx 8 0" "CheckSequence_tx lock_tx 0 2"
    by (simp_all add: lock_tx_def CMutableTransaction_default_def CheckLockTime_tx_def IsFinalTx_def CheckSequence_tx_def
       LOCKTIME_THRESHOLD_def SEQUENCE_FINAL_def SEQUENCE_LOCKTIME_TYPE_FLAG_def SEQUENCE_LOCKTIME_MASK_def SEQUENCE_LOCKTIME_DISABLE_FLAG_def)
  have "\<not> bit (2 :: int) 22" by (simp add: bit_iff_odd)
  then show ?thesis
    using script_lock_times_are_enforced [OF _ linked_line_map skips_ok_line_map b p, of 0 lock_tx "[4]" 1 5 8 0 2 hs] c l
    by (simp add: lock_tx_def LOCKTIME_THRESHOLD_def LOCKTIME_VERIFY_SEQUENCE_def line_entry_def)
qed

end
