(* ===== verification/Tx_Inputs.thy ===== *)
theory Tx_Inputs
  imports Coins_Refinement Sighash
begin

text \<open>
The checks of a transaction against the coins it spends (consensus/tx_verify.cpp, evo/assetlocktx.cpp, CheckInputScripts of
  validation.cpp): fees and values, signature operations, and the script checks of its inputs, run or queued. The values that
  the checks read are those of the set the view stands for, so an accepted transaction does not create value.
\<close>

unbundle bit_operations_syntax

section \<open>Fees of asset unlocks\<close>

text \<open>
  The payload of an asset unlock transaction. \<open>bls_ok\<close> tells whether the bytes of a BLS signature are read without the exception
  for a malleable object; the signature itself is only kept.
\<close>

record CAssetUnlockPayload =
  unlock_nVersion :: u8
  unlock_index :: u64
  unlock_fee :: u32
  requestedHeight :: u32
  quorumHash :: uint256
  quorumSig :: bytes

definition BLS_CURVE_SIG_SIZE :: nat where "BLS_CURVE_SIG_SIZE = 96"

definition unser_asset_unlock :: "(bytes \<Rightarrow> bool) \<Rightarrow> CAssetUnlockPayload reader" where
  "unser_asset_unlock bls_ok s = do {
     (v, s) \<leftarrow> ser_readdata8 s;
     (i, s) \<leftarrow> ser_readdata64 s;
     (f, s) \<leftarrow> ser_readdata32 s;
     (r, s) \<leftarrow> ser_readdata32 s;
     (q, s) \<leftarrow> unser_uint256 s;
     (sig, s) \<leftarrow> read_bytes BLS_CURVE_SIG_SIZE s;
     if bls_ok sig
     then Some (\<lparr>unlock_nVersion = v, unlock_index = i, unlock_fee = f, requestedHeight = r, quorumHash = q, quorumSig = sig\<rparr>, s)
     else None }"

definition ser_asset_unlock :: "CAssetUnlockPayload \<Rightarrow> bytes" where
  "ser_asset_unlock p = ser_writedata8 (unlock_nVersion p) @ ser_writedata64 (unlock_index p) @ ser_writedata32 (unlock_fee p)
     @ ser_writedata32 (requestedHeight p) @ quorumHash p @ quorumSig p"

definition GetTxPayload :: "'a reader \<Rightarrow> u16 \<Rightarrow> CTransaction \<Rightarrow> 'a option" where
  "GetTxPayload rd SPECIALTX_TYPE tx =
     (if nType tx \<noteq> SPECIALTX_TYPE then None
      else case rd (vExtraPayload tx) of Some (obj, []) \<Rightarrow> Some obj | _ \<Rightarrow> None)"

definition GetAssetUnlockFee :: "(bytes \<Rightarrow> bool) \<Rightarrow> CTransaction \<Rightarrow> CAmount tx_check" where
  "GetAssetUnlockFee bls_ok tx = (case GetTxPayload (unser_asset_unlock bls_ok) TRANSACTION_ASSET_UNLOCK tx of
     None \<Rightarrow> Inl (TX_BAD_SPECIAL, ''bad-assetunlocktx-payload'')
   | Some payload \<Rightarrow>
       let txfee_aux = uint (unlock_fee payload)
       in if txfee_aux = 0 \<or> \<not> MoneyRange txfee_aux then invalid ''bad-txns-assetunlock-fee-outofrange'' else Inr txfee_aux)"

section \<open>Signature operations\<close>

definition GetLegacySigOpCount :: "CTransaction \<Rightarrow> u32" where
  "GetLegacySigOpCount tx =
     sum_list (map (\<lambda>txin. GetSigOpCount False (scriptSig txin)) (vin tx))
     + sum_list (map (\<lambda>txout. GetSigOpCount False (scriptPubKey txout)) (vout tx))"

text \<open>Reading a coin fills the caches, so the view is passed on; None is a failed assertion.\<close>

fun p2sh_sigops :: "CTxIn list \<Rightarrow> u32 \<Rightarrow> CCoinsView \<Rightarrow> (u32 \<times> CCoinsView) option" where
  "p2sh_sigops [] nSigOps v = Some (nSigOps, v)"
| "p2sh_sigops (txin # ins) nSigOps v =
     (let (c, v) = AccessCoin (prevout txin) v
      in if IsSpent c then None
         else p2sh_sigops ins (if IsPayToScriptHash (scriptPubKey (coin_out c))
                               then nSigOps + GetSigOpCount_sig (scriptPubKey (coin_out c)) (scriptSig txin) else nSigOps) v)"

definition GetP2SHSigOpCount :: "CTransaction \<Rightarrow> CCoinsView \<Rightarrow> (u32 \<times> CCoinsView) option" where
  "GetP2SHSigOpCount tx v = (if IsCoinBase_tx tx then Some (0, v) else p2sh_sigops (vin tx) 0 v)"

definition GetTransactionSigOpCount :: "CTransaction \<Rightarrow> CCoinsView \<Rightarrow> u32 \<Rightarrow> (u32 \<times> CCoinsView) option" where
  "GetTransactionSigOpCount tx v flags =
     (let nSigOps = GetLegacySigOpCount tx
      in if IsCoinBase_tx tx then Some (nSigOps, v)
         else if flags AND SCRIPT_VERIFY_P2SH \<noteq> 0
         then do { (n, v) \<leftarrow> GetP2SHSigOpCount tx v; Some (nSigOps + n, v) }
         else Some (nSigOps, v))"

section \<open>The value of the inputs\<close>

fun input_values :: "int \<Rightarrow> CTxIn list \<Rightarrow> CAmount \<Rightarrow> CCoinsView \<Rightarrow> (CAmount tx_check \<times> CCoinsView) option" where
  "input_values nSpendHeight [] nValueIn v = Some (Inr nValueIn, v)"
| "input_values nSpendHeight (txin # ins) nValueIn v =
     (let (c, v) = AccessCoin (prevout txin) v
      in if IsSpent c then None
         else if fCoinBase c \<and> nSpendHeight - uint (coin_nHeight c) < COINBASE_MATURITY
         then Some (Inl (TX_PREMATURE_SPEND, ''bad-txns-premature-spend-of-coinbase''), v)
         else let nValueIn = nValueIn + nValue (coin_out c)
         in if \<not> MoneyRange (nValue (coin_out c)) \<or> \<not> MoneyRange nValueIn
            then Some (invalid ''bad-txns-inputvalues-outofrange'', v)
            else input_values nSpendHeight ins nValueIn v)"

text \<open>None is a failed assertion or the exception of \<open>GetValueOut\<close>.\<close>

definition CheckTxInputs :: "(bytes \<Rightarrow> bool) \<Rightarrow> TreeHash \<Rightarrow> CTransaction \<Rightarrow> CCoinsView \<Rightarrow> int \<Rightarrow> (CAmount tx_check \<times> CCoinsView) option" where
  "CheckTxInputs bls_ok H tx v nSpendHeight =
     (if IsSpecialTxVersion tx \<and> nType tx = TRANSACTION_ASSET_UNLOCK then Some (GetAssetUnlockFee bls_ok tx, v)
      else let (ok, v) = HaveInputs tx v
      in if \<not> ok then Some (Inl (TX_MISSING_INPUTS, ''bad-txns-inputs-missingorspent''), v)
      else let (ok, v) = HaveShieldedRequirements H tx v
      in if \<not> ok then Some (Inl (TX_MISSING_INPUTS, ''bad-txns-sapling-requirements-not-met''), v)
      else do {
        (r, v) \<leftarrow> input_values nSpendHeight (vin tx) 0 v;
        case r of Inl e \<Rightarrow> Some (Inl e, v)
        | Inr nValueIn \<Rightarrow>
            let balance = valueBalance (sapData tx); shielded = (HasShieldedPayloadField tx \<and> balance > 0);
                nValueIn = (if shielded then nValueIn + balance else nValueIn)
            in if shielded \<and> (\<not> MoneyRange balance \<or> \<not> MoneyRange nValueIn)
               then Some (invalid ''bad-txns-inputvalues-outofrange'', v)
               else do {
                 value_out \<leftarrow> GetValueOut tx;
                 if nValueIn < value_out then Some (invalid ''bad-txns-in-belowout'', v)
                 else let txfee_aux = nValueIn - value_out
                      in if \<not> MoneyRange txfee_aux then Some (invalid ''bad-txns-fee-outofrange'', v)
                         else Some (Inr txfee_aux, v) } })"

section \<open>The scripts of the inputs\<close>

fun ScriptErrorString :: "ScriptError \<Rightarrow> string" where
  "ScriptErrorString SCRIPT_ERR_EVAL_FALSE = ''Script evaluated without error but finished with a false/empty top stack element''"
| "ScriptErrorString SCRIPT_ERR_VERIFY = ''Script failed an OP_VERIFY operation''"
| "ScriptErrorString SCRIPT_ERR_EQUALVERIFY = ''Script failed an OP_EQUALVERIFY operation''"
| "ScriptErrorString SCRIPT_ERR_CHECKMULTISIGVERIFY = ''Script failed an OP_CHECKMULTISIGVERIFY operation''"
| "ScriptErrorString SCRIPT_ERR_CHECKSIGVERIFY = ''Script failed an OP_CHECKSIGVERIFY operation''"
| "ScriptErrorString SCRIPT_ERR_CHECKDATASIGVERIFY = ''Script failed an OP_CHECKDATASIGVERIFY operation''"
| "ScriptErrorString SCRIPT_ERR_NUMEQUALVERIFY = ''Script failed an OP_NUMEQUALVERIFY operation''"
| "ScriptErrorString SCRIPT_ERR_SCRIPT_SIZE = ''Script is too big''"
| "ScriptErrorString SCRIPT_ERR_PUSH_SIZE = ''Push value size limit exceeded''"
| "ScriptErrorString SCRIPT_ERR_OP_COUNT = ''Operation limit exceeded''"
| "ScriptErrorString SCRIPT_ERR_STACK_SIZE = ''Stack size limit exceeded''"
| "ScriptErrorString SCRIPT_ERR_SIG_COUNT = ''Signature count negative or greater than pubkey count''"
| "ScriptErrorString SCRIPT_ERR_PUBKEY_COUNT = ''Pubkey count negative or limit exceeded''"
| "ScriptErrorString SCRIPT_ERR_BAD_OPCODE = ''Opcode missing or not understood''"
| "ScriptErrorString SCRIPT_ERR_DISABLED_OPCODE = ''Attempted to use a disabled opcode''"
| "ScriptErrorString SCRIPT_ERR_INVALID_STACK_OPERATION = ''Operation not valid with the current stack size''"
| "ScriptErrorString SCRIPT_ERR_INVALID_ALTSTACK_OPERATION = ''Operation not valid with the current altstack size''"
| "ScriptErrorString SCRIPT_ERR_OP_RETURN = ''OP_RETURN was encountered''"
| "ScriptErrorString SCRIPT_ERR_UNBALANCED_CONDITIONAL = ''Invalid OP_IF construction''"
| "ScriptErrorString SCRIPT_ERR_INVALID_SPLIT_RANGE = ''Invalid OP_SPLIT range''"
| "ScriptErrorString SCRIPT_ERR_INVALID_OPERAND_SIZE = ''Invalid operand size''"
| "ScriptErrorString SCRIPT_ERR_INVALID_NUMBER_RANGE = ''Given operand is not a number within the valid range [-2^31...2^31]''"
| "ScriptErrorString SCRIPT_ERR_IMPOSSIBLE_ENCODING = ''The requested encoding is impossible to satisfy''"
| "ScriptErrorString SCRIPT_ERR_DIV_BY_ZERO = ''Division by zero error''"
| "ScriptErrorString SCRIPT_ERR_MOD_BY_ZERO = ''Modulo by zero error''"
| "ScriptErrorString SCRIPT_ERR_NEGATIVE_LOCKTIME = ''Negative locktime''"
| "ScriptErrorString SCRIPT_ERR_UNSATISFIED_LOCKTIME = ''Locktime requirement not satisfied''"
| "ScriptErrorString SCRIPT_ERR_SIG_HASHTYPE = ''Signature hash type missing or not understood''"
| "ScriptErrorString SCRIPT_ERR_SIG_DER = ''Non-canonical DER signature''"
| "ScriptErrorString SCRIPT_ERR_MINIMALDATA = ''Data push larger than necessary''"
| "ScriptErrorString SCRIPT_ERR_SIG_PUSHONLY = ''Only push operators allowed in signatures''"
| "ScriptErrorString SCRIPT_ERR_SIG_HIGH_S = ''Non-canonical signature: S value is unnecessarily high''"
| "ScriptErrorString SCRIPT_ERR_SIG_NULLDUMMY = ''Dummy CHECKMULTISIG argument must be zero''"
| "ScriptErrorString SCRIPT_ERR_SIG_NULLFAIL = ''Signature must be zero for failed CHECK(MULTI)SIG operation''"
| "ScriptErrorString SCRIPT_ERR_DISCOURAGE_UPGRADABLE_NOPS = ''NOPx reserved for soft-fork upgrades''"
| "ScriptErrorString SCRIPT_ERR_PUBKEYTYPE = ''Public key is neither compressed or uncompressed''"
| "ScriptErrorString SCRIPT_ERR_CLEANSTACK = ''Stack size must be exactly one after execution''"
| "ScriptErrorString SCRIPT_ERR_OP_CODESEPARATOR = ''Using OP_CODESEPARATOR''"
| "ScriptErrorString SCRIPT_ERR_SIG_FINDANDDELETE = ''Signature is found in scriptCode''"
| "ScriptErrorString SCRIPT_ERR_UNKNOWN_ERROR = ''unknown error''"

definition MANDATORY_SCRIPT_VERIFY_FLAGS :: u32 where
  "MANDATORY_SCRIPT_VERIFY_FLAGS = SCRIPT_VERIFY_P2SH"

definition STANDARD_NOT_MANDATORY_VERIFY_FLAGS :: u32 where
  "STANDARD_NOT_MANDATORY_VERIFY_FLAGS =
     (MANDATORY_SCRIPT_VERIFY_FLAGS OR SCRIPT_VERIFY_DERSIG OR SCRIPT_VERIFY_STRICTENC OR SCRIPT_VERIFY_MINIMALDATA
      OR SCRIPT_VERIFY_NULLDUMMY OR SCRIPT_VERIFY_DISCOURAGE_UPGRADABLE_NOPS OR SCRIPT_VERIFY_CLEANSTACK OR SCRIPT_VERIFY_NULLFAIL
      OR SCRIPT_VERIFY_CHECKLOCKTIMEVERIFY OR SCRIPT_VERIFY_CHECKSEQUENCEVERIFY OR SCRIPT_VERIFY_LOW_S OR SCRIPT_VERIFY_CONST_SCRIPTCODE)
     AND NOT MANDATORY_SCRIPT_VERIFY_FLAGS"

text \<open>A check that is pushed onto \<open>pvChecks\<close> to be run later: the output spent, the transaction, the input and the flags.\<close>

type_synonym script_check = "CTxOut \<times> CTransaction \<times> nat \<times> u32"

fun check_scripts :: "Crypto \<Rightarrow> (bytes \<Rightarrow> bytes \<Rightarrow> uint256) \<Rightarrow> CTransaction \<Rightarrow> u32 \<Rightarrow> bool \<Rightarrow> (nat \<times> CTxIn) list \<Rightarrow> CCoinsView
    \<Rightarrow> (script_check list tx_check \<times> CCoinsView) option" where
  "check_scripts C blake tx flags queued [] v = Some (Inr [], v)"
| "check_scripts C blake tx flags queued ((i, txin) # ins) v =
     (let (c, v) = AccessCoin (prevout txin) v
      in if IsSpent c then None
         else if queued
         then do {
           (r, v) \<leftarrow> check_scripts C blake tx flags queued ins v;
           Some (bind_sum r (\<lambda>checks. Inr ((coin_out c, tx, i, flags) # checks)), v) }
         else case CScriptCheck C blake (coin_out c) tx i flags of
           Inr u \<Rightarrow> check_scripts C blake tx flags queued ins v
         | Inl Assertion \<Rightarrow> None
         | Inl (Fail e) \<Rightarrow>
             let mandatory = Some (invalid (''mandatory-script-verify-flag-failed ('' @ ScriptErrorString e @ '')''), v)
             in if flags AND STANDARD_NOT_MANDATORY_VERIFY_FLAGS \<noteq> 0
                then case CScriptCheck C blake (coin_out c) tx i (flags AND NOT STANDARD_NOT_MANDATORY_VERIFY_FLAGS) of
                  Inr u \<Rightarrow> Some (Inl (TX_NOT_STANDARD, ''non-mandatory-script-verify-flag ('' @ ScriptErrorString e @ '')''), v)
                | Inl Assertion \<Rightarrow> None
                | Inl (Fail e') \<Rightarrow> mandatory
                else mandatory)"

text \<open>
  \<open>executed\<close> is whether the script execution cache holds the entry for this transaction and these flags. The checks left
  to the caller are returned, and whether the entry is to be stored in the cache.
\<close>

definition CheckInputScripts :: "Crypto \<Rightarrow> (bytes \<Rightarrow> bytes \<Rightarrow> uint256) \<Rightarrow> bool \<Rightarrow> CTransaction \<Rightarrow> CCoinsView \<Rightarrow> u32 \<Rightarrow> bool \<Rightarrow> bool
    \<Rightarrow> ((script_check list \<times> bool) tx_check \<times> CCoinsView) option" where
  "CheckInputScripts C blake executed tx v flags cacheFullScriptStore queued =
     (if IsCoinBase_tx tx then Some (Inr ([], False), v)
      else if executed then Some (Inr ([], False), v)
      else do {
        (r, v) \<leftarrow> check_scripts C blake tx flags queued (enumerate 0 (vin tx)) v;
        Some (bind_sum r (\<lambda>checks. Inr (checks, cacheFullScriptStore \<and> \<not> queued)), v) })"

section \<open>Reading through a cache\<close>

definition cache_view :: "TreeHash \<Rightarrow> CCoinsView \<Rightarrow> bool" where
  "cache_view H v \<longleftrightarrow> view_ok H v \<and> is_cache v"

text \<open>What an operation that only reads leaves behind: a good view that stands for the same coins.\<close>

definition reads :: "TreeHash \<Rightarrow> CCoinsView \<Rightarrow> CCoinsView \<Rightarrow> bool" where
  "reads H v v' \<longleftrightarrow> cache_view H v' \<and> state_of H v' = state_of H v"

lemma reads_refl: "cache_view H v \<Longrightarrow> reads H v v"
  by (simp add: reads_def)

lemma reads_trans: "reads H u v \<Longrightarrow> reads H v w \<Longrightarrow> reads H u w"
  by (simp add: reads_def)

lemma reads_view: "reads H v v' \<Longrightarrow> cache_view H v'"
  by (simp add: reads_def)

lemma reads_eqs:
  assumes "reads H v v'"
  shows "coins_of v' = coins_of v" "anchors_of H v' = anchors_of H v" "nullifiers_of v' = nullifiers_of v"
    "best_block_of v' = best_block_of v" "best_anchor_of H v' = best_anchor_of H v"
  using assms by (auto simp: reads_def state_of_def)

lemma is_cacheE: "is_cache v \<Longrightarrow> (\<And>c b. v = View_Cache c b \<Longrightarrow> P) \<Longrightarrow> P"
  by (cases v) auto

lemma AccessCoin_cache: "is_cache v \<Longrightarrow> is_cache (snd (AccessCoin k v))"
  by (cases v) (auto simp: AccessCoin_def Let_def split: prod.split option.split)

lemma AccessCoin_reads:
  assumes "cache_view H v"
  obtains c v' where "AccessCoin k v = (c, v')" "reads H v v'" "coins_of v k = unspent c"
proof -
  obtain c b where v: "v = View_Cache c b" "view_ok H (View_Cache c b)" using assms by (auto simp: cache_view_def elim: is_cacheE)
  obtain d v' where d: "AccessCoin k v = (d, v')" by (cases "AccessCoin k v")
  show thesis
    by (rule that [OF d]) (use AccessCoin_spec [OF v(2), of k] AccessCoin_cache [of v k] d v(1) in
        \<open>auto simp: cache_view_def reads_def same_def\<close>)
qed

lemma HaveCoin_reads:
  assumes "cache_view H v"
  obtains v' where "HaveCoin k v = (coins_of v k \<noteq> None, v')" "reads H v v'"
  using assms HaveCoin_spec [of H v k] is_cache_read(2) [of v k]
  by (cases "HaveCoin k v") (auto simp: cache_view_def reads_def same_def)

lemma GetNullifier_reads:
  assumes "cache_view H v"
  obtains v' where "GetNullifier nf v = (nullifiers_of v nf, v')" "reads H v v'"
  using assms GetNullifier_spec [of H v nf] is_cache_read(6) [of v nf]
  by (cases "GetNullifier nf v") (auto simp: cache_view_def reads_def same_def)

lemma GetSaplingAnchorAt_reads:
  assumes "cache_view H v"
  obtains v' where "GetSaplingAnchorAt H rt v = (anchors_of H v rt, v')" "reads H v v'"
  using assms GetSaplingAnchorAt_spec [of H v rt] is_cache_read(5) [of v H rt]
  by (cases "GetSaplingAnchorAt H rt v") (auto simp: cache_view_def reads_def same_def)

lemma have_all_reads:
  assumes "cache_view H v"
  shows "\<exists>v'. have_all ks v = (\<forall>k \<in> set ks. coins_of v k \<noteq> None, v') \<and> reads H v v'"
  using assms
proof (induction ks arbitrary: v)
  case Nil
  then show ?case by (simp add: reads_refl)
next
  case (Cons k ks)
  obtain v1 where v1: "HaveCoin k v = (coins_of v k \<noteq> None, v1)" "reads H v v1" by (rule HaveCoin_reads [OF Cons(2)])
  then show ?case
    using Cons(1) [OF reads_view [OF v1(2)]] by (cases "coins_of v k = None") (auto simp: reads_eqs intro: reads_trans)
qed

lemma spends_available_reads:
  assumes "cache_view H v"
  shows "\<exists>v'. spends_available H ds v
    = (\<forall>d \<in> set ds. \<not> nullifiers_of v (nullifier d) \<and> anchors_of H v (spend_anchor d) \<noteq> None, v') \<and> reads H v v'"
  using assms
proof (induction ds arbitrary: v)
  case Nil
  then show ?case by (simp add: reads_refl)
next
  case (Cons d ds)
  obtain v1 where v1: "GetNullifier (nullifier d) v = (nullifiers_of v (nullifier d), v1)" "reads H v v1"
    by (rule GetNullifier_reads [OF Cons(2)])
  obtain v2 where v2: "GetSaplingAnchorAt H (spend_anchor d) v1 = (anchors_of H v1 (spend_anchor d), v2)" "reads H v1 v2"
    by (rule GetSaplingAnchorAt_reads [OF reads_view [OF v1(2)]])
  note r = reads_trans [OF v1(2) v2(2)]
  obtain v3 where "spends_available H ds v2
      = (\<forall>d \<in> set ds. \<not> nullifiers_of v2 (nullifier d) \<and> anchors_of H v2 (spend_anchor d) \<noteq> None, v3)" "reads H v2 v3"
    using Cons(1) [OF reads_view [OF r]] by auto
  then show ?case using v1 v2 r reads_trans [OF r] by (auto simp: reads_eqs split: option.split)
qed

lemma input_values_reads:
  assumes "cache_view H v" "input_values h ins acc v = Some (Inr nIn_total, v')"
  shows "reads H v v' \<and> (\<forall>txin \<in> set ins. \<exists>c. coins_of v (prevout txin) = Some c \<and> MoneyRange (nValue (coin_out c))
      \<and> (fCoinBase c \<longrightarrow> COINBASE_MATURITY \<le> h - uint (coin_nHeight c)))
    \<and> nIn_total = acc + (\<Sum>txin \<leftarrow> ins. nValue (coin_out (the (coins_of v (prevout txin)))))"
  using assms
proof (induction ins arbitrary: acc v)
  case Nil
  then show ?case by (auto simp: reads_refl)
next
  case (Cons txin ins)
  obtain c v1 where v1: "AccessCoin (prevout txin) v = (c, v1)" "reads H v v1" "coins_of v (prevout txin) = unspent c"
    by (rule AccessCoin_reads [OF Cons(2)])
  then have ok: "\<not> IsSpent c" "fCoinBase c \<longrightarrow> COINBASE_MATURITY \<le> h - uint (coin_nHeight c)" "MoneyRange (nValue (coin_out c))"
    "input_values h ins (acc + nValue (coin_out c)) v1 = Some (Inr nIn_total, v')"
    using Cons(3) by (auto simp: Let_def split: if_splits)
  note IH = Cons(1) [OF reads_view [OF v1(2)] ok(4)]
  show ?case using IH v1 ok reads_trans [OF v1(2)] by (auto simp: reads_eqs [OF v1(2)] unspent_def)
qed

text \<open>The value of the outputs is that of the transparent outputs and of what goes into the shielded pool.\<close>

lemma sum_outputs_value: "sum_outputs outs acc = Some t \<Longrightarrow> t = acc + (\<Sum>x \<leftarrow> outs. nValue x)"
  by (induction outs arbitrary: acc) (fastforce split: if_splits)+

lemma GetValueOut_value:
  assumes "GetValueOut tx = Some t"
  shows "t = (\<Sum>x \<leftarrow> vout tx. nValue x) + (if HasShieldedPayloadField tx \<and> valueBalance (sapData tx) < 0 then - valueBalance (sapData tx) else 0)"
  using assms sum_outputs_value [of "vout tx" 0] by (auto simp: GetValueOut_def Let_def split: bind_splits if_splits)

lemma CheckTxInputs_reads:
  assumes "cache_view H v" "\<not> IsCoinBase_tx tx" "\<not> (IsSpecialTxVersion tx \<and> nType tx = TRANSACTION_ASSET_UNLOCK)"
    and "CheckTxInputs bls_ok H tx v h = Some (Inr fee, v')"
  shows "reads H v v'" "MoneyRange fee"
    and "(\<Sum>txin \<leftarrow> vin tx. nValue (coin_out (the (coins_of v (prevout txin)))))
        + (if HasShieldedPayloadField tx then valueBalance (sapData tx) else 0) = (\<Sum>x \<leftarrow> vout tx. nValue x) + fee"
    and "\<forall>txin \<in> set (vin tx). \<exists>c. coins_of v (prevout txin) = Some c \<and> (fCoinBase c \<longrightarrow> COINBASE_MATURITY \<le> h - uint (coin_nHeight c))"
    and "HasShieldedPayload tx \<longrightarrow>
        (\<forall>d \<in> set (vShieldedSpend (sapData tx)). \<not> nullifiers_of v (nullifier d) \<and> anchors_of H v (spend_anchor d) \<noteq> None)"
proof -
  note cv = assms(1)
  obtain v1 where v1: "HaveInputs tx v = (\<forall>k \<in> set (map prevout (vin tx)). coins_of v k \<noteq> None, v1)" "reads H v v1"
    using have_all_reads [OF cv, of "map prevout (vin tx)"] assms(2) by (auto simp: HaveInputs_def)
  obtain ok v2 where v2: "HaveShieldedRequirements H tx v1 = (ok, v2)" "reads H v1 v2"
    "ok \<and> HasShieldedPayload tx \<longrightarrow> (\<forall>d \<in> set (vShieldedSpend (sapData tx)). \<not> nullifiers_of v1 (nullifier d) \<and> anchors_of H v1 (spend_anchor d) \<noteq> None)"
    using spends_available_reads [OF reads_view [OF v1(2)]] reads_refl [OF reads_view [OF v1(2)]]
    by (cases "HasShieldedPayload tx") (fastforce simp: HaveShieldedRequirements_def)+
  note r2 = reads_trans [OF v1(2) v2(2)]
  obtain nIn_total out where t: "input_values h (vin tx) 0 v2 = Some (Inr nIn_total, v')" "GetValueOut tx = Some out" "ok" "MoneyRange fee"
    "fee = nIn_total + (if HasShieldedPayloadField tx \<and> valueBalance (sapData tx) > 0 then valueBalance (sapData tx) else 0) - out"
    using assms(3,4) v1(1) v2(1) by (auto simp: CheckTxInputs_def Let_def split: if_splits bind_splits sum.splits prod.splits)
  note iv = input_values_reads [OF reads_view [OF r2] t(1)]
  show "reads H v v'" "MoneyRange fee" using iv t(4) reads_trans [OF r2] by blast+
  show "(\<Sum>txin \<leftarrow> vin tx. nValue (coin_out (the (coins_of v (prevout txin)))))
      + (if HasShieldedPayloadField tx then valueBalance (sapData tx) else 0) = (\<Sum>x \<leftarrow> vout tx. nValue x) + fee"
    using iv t(5) GetValueOut_value [OF t(2)] by (simp add: reads_eqs [OF r2])
  show "\<forall>txin \<in> set (vin tx). \<exists>c. coins_of v (prevout txin) = Some c \<and> (fCoinBase c \<longrightarrow> COINBASE_MATURITY \<le> h - uint (coin_nHeight c))"
    using iv by (auto simp: reads_eqs [OF r2])
  show "HasShieldedPayload tx \<longrightarrow>
      (\<forall>d \<in> set (vShieldedSpend (sapData tx)). \<not> nullifiers_of v (nullifier d) \<and> anchors_of H v (spend_anchor d) \<noteq> None)"
    using v2(3) t(3) by (auto simp: reads_eqs [OF v1(2)])
qed

text \<open>
  C5. No ordinary transaction creates money: when the inputs of a transaction that is neither a coinbase nor an asset unlock
  are accepted, every input spends an existing coin, mature if it is from a coinbase; the coins spent and the amount leaving the shielded pool are worth exactly
  the outputs and the fee, and the fee is in the range of money; the nullifiers of its shielded spends are unused and
  their anchors known; and the check leaves the coins, anchors and nullifiers as they are.
\<close>

theorem inputs_cover_outputs:
  assumes "view_ok H v" "is_cache v" "\<not> IsCoinBase_tx tx" "\<not> (IsSpecialTxVersion tx \<and> nType tx = TRANSACTION_ASSET_UNLOCK)"
    and "CheckTxInputs bls_ok H tx v h = Some (Inr fee, v')"
  shows "MoneyRange fee
    \<and> (\<Sum>txin \<leftarrow> vin tx. nValue (coin_out (the (coins_of v (prevout txin)))))
        + (if HasShieldedPayloadField tx then valueBalance (sapData tx) else 0) = (\<Sum>x \<leftarrow> vout tx. nValue x) + fee
    \<and> (\<forall>txin \<in> set (vin tx). \<exists>c. coins_of v (prevout txin) = Some c \<and> (fCoinBase c \<longrightarrow> COINBASE_MATURITY \<le> h - uint (coin_nHeight c)))
    \<and> (HasShieldedPayload tx \<longrightarrow>
        (\<forall>d \<in> set (vShieldedSpend (sapData tx)). \<not> nullifiers_of v (nullifier d) \<and> anchors_of H v (spend_anchor d) \<noteq> None))
    \<and> view_ok H v' \<and> state_of H v' = state_of H v"
  using CheckTxInputs_reads [of H v tx bls_ok h fee v'] assms by (auto simp: cache_view_def reads_def)

definition spending_tx :: CTransaction where
  "spending_tx = CMutableTransaction_default
     \<lparr>vin := [\<lparr>prevout = example_outpoint, scriptSig = [], nSequence = SEQUENCE_FINAL\<rparr>], vout := [\<lparr>nValue = 3, scriptPubKey = [0x51]\<rparr>]\<rparr>"

definition spendable_db :: CCoinsViewDB where
  "spendable_db = example_db\<lparr>db_coins := [example_outpoint \<mapsto> example_coin]\<rparr>"

lemmas spending_eval = spending_tx_def CMutableTransaction_default_def SaplingTxData_default_def spendable_db_def example_outpoint_def

lemma spendable_view_ok: "view_ok example_hash (View_Cache CCoinsViewCache_new (View_DB spendable_db))"
  by (simp add: CCoinsViewCache_new_def example_db_def db_GetSaplingAnchorAt_def spendable_db_def example_coin_def IsSpent_def CTxOut_IsNull_def)

theorem inputs_cover_outputs_witness:
  "\<exists>v'. CheckTxInputs (\<lambda>_. True) example_hash spending_tx (View_Cache CCoinsViewCache_new (View_DB spendable_db)) 10 = Some (Inr 2, v')
     \<and> (5 :: int) = 3 + 2 \<and> view_ok example_hash v'"
proof -
  let ?v = "View_Cache CCoinsViewCache_new (View_DB spendable_db)"
  have tx: "\<not> IsCoinBase_tx spending_tx" "\<not> (IsSpecialTxVersion spending_tx \<and> nType spending_tx = TRANSACTION_ASSET_UNLOCK)"
    by (simp_all add: spending_eval IsCoinBase_tx_def COutPoint_IsNull_def IsSpecialTxVersion_def tx_version_defs)
  have "\<exists>v'. CheckTxInputs (\<lambda>_. True) example_hash spending_tx ?v 10 = Some (Inr 2, v')"
    using tx by (simp add: CheckTxInputs_def HaveInputs_def HaveShieldedRequirements_def HasShieldedPayload_def HasShieldedPayloadField_def
        IsShieldedTxVersion_def spending_eval tx_version_defs HaveCoin_def FetchCoin_def CCoinsViewCache_new_def Let_def example_coin_def
        IsSpent_def CTxOut_IsNull_def AccessCoin_def MoneyRange_def MAX_MONEY_def COIN_def GetValueOut_def IsCoinBase_tx_def
        COutPoint_IsNull_def IsSpecialTxVersion_def)
  then obtain v' where v': "CheckTxInputs (\<lambda>_. True) example_hash spending_tx ?v 10 = Some (Inr 2, v')" by blast
  show ?thesis
    using inputs_cover_outputs [OF spendable_view_ok _ tx v'] v'
    by (simp add: spending_eval HasShieldedPayloadField_def IsShieldedTxVersion_def tx_version_defs CCoinsViewCache_new_def example_coin_def)
qed

text \<open>An asset unlock whose only effect is a shielded spend, with any value balance.\<close>

definition shielded_unlock :: "CAssetUnlockPayload \<Rightarrow> SpendDescription \<Rightarrow> CAmount \<Rightarrow> bytes \<Rightarrow> CTransaction" where
  "shielded_unlock payload d balance sig = CMutableTransaction_default
     \<lparr>tx_nVersion := SHIELDED_VERSION, nType := TRANSACTION_ASSET_UNLOCK, vExtraPayload := ser_asset_unlock payload,
      sapData := \<lparr>valueBalance = balance, vShieldedSpend = [d], vShieldedOutput = [], bindingSig = sig\<rparr>\<rparr>"

definition payload_ok :: "(bytes \<Rightarrow> bool) \<Rightarrow> CAssetUnlockPayload \<Rightarrow> bool" where
  "payload_ok bls_ok p \<longleftrightarrow> length (quorumHash p) = 32 \<and> length (quorumSig p) = BLS_CURVE_SIG_SIZE \<and> bls_ok (quorumSig p) \<and> unlock_fee p \<noteq> 0"

lemma unser_ser_asset_unlock: "payload_ok bls_ok p \<Longrightarrow> unser_asset_unlock bls_ok (ser_asset_unlock p) = Some (p, [])"
  using read_bytes_append [of "quorumSig p" "[]"] read_bytes_append [of "quorumHash p" "quorumSig p"]
  by (simp add: payload_ok_def unser_asset_unlock_def ser_asset_unlock_def wire_simps unser_uint256_def)

lemmas shielded_unlock_eval = shielded_unlock_def CMutableTransaction_default_def SaplingTxData_default_def tx_version_defs tx_type_defs
  HasShieldedPayload_def HasShieldedPayloadField_def IsShieldedTxVersion_def HasExtraPayloadField_def IsSpecialTxVersion_def
  SaplingTxData_IsEmpty_def

lemma shielded_unlock_accepted:
  assumes "payload_ok bls_ok p"
  shows "CheckTxInputs bls_ok H (shielded_unlock p d balance sig) v h = Some (Inr (uint (unlock_fee p)), v)"
proof -
  have "uint (unlock_fee p) < 2 ^ 32" using uint_lt2p [of "unlock_fee p"] by simp
  moreover have "uint (unlock_fee p) \<noteq> 0" using assms by (simp add: payload_ok_def uint_0_iff)
  ultimately show ?thesis
    using unser_ser_asset_unlock [OF assms]
    by (simp add: CheckTxInputs_def shielded_unlock_eval GetAssetUnlockFee_def GetTxPayload_def MoneyRange_def MAX_MONEY_def COIN_def Let_def)
qed

lemma shielded_unlock_checked:
  assumes "payload_ok bls_ok p" "spend_ok d" "- MAX_MONEY \<le> balance" "balance \<le> MAX_MONEY" "length sig = 64"
  shows "CheckTransaction (shielded_unlock p d balance sig) = Inr ()"
  using assms
  by (cases "balance < 0"; cases "balance = 0") (simp_all add: Let_def shielded_unlock_eval CheckTransaction_def GetTotalSize_def ser_tx_def ser_vector_def ser_sapling_def ser_spend_def ser_int64_def
      ser_blob_def ser_asset_unlock_def payload_ok_def spend_ok_def BLS_CURVE_SIG_SIZE_def GROTH_PROOF_SIZE_def WriteCompactSize_def
      ser_writedata8_def ser_writedata32_def ser_writedata64_def MAX_LEGACY_BLOCK_SIZE_def MAX_TX_EXTRA_PAYLOAD_def
      MAX_MONEY_def COIN_def MoneyRange_def Sapling_CheckTransaction_def CheckTransactionWithoutProofVerification_def IsCoinBase_tx_def)

lemma HaveShieldedRequirements_refuses:
  assumes "cache_view H v" "HasShieldedPayload tx" "d \<in> set (vShieldedSpend (sapData tx))"
    and "nullifiers_of v (nullifier d) \<or> anchors_of H v (spend_anchor d) = None"
  shows "\<not> fst (HaveShieldedRequirements H tx v)"
  using spends_available_reads [OF assms(1), of "vShieldedSpend (sapData tx)"] assms(2-4) by (fastforce simp: HaveShieldedRequirements_def)

text \<open>
  C32. Asset unlocks escape the shielded checks: take any shielded spend with fields of the right sizes, any value balance in the
  range of money, in either direction, and any payload of an asset unlock that can be read and has a fee. The transaction with
  these and no transparent input or output passes the context-free checks, and \<open>CheckTxInputs\<close> accepts it in every view with the
  fee of the payload and without looking at the view, even where the nullifier of the spend is already used or its anchor
  unknown, which is where \<open>HaveShieldedRequirements\<close> refuses it. What stands behind it are the proof checks of the shielded
  data and the quorum signature of the payload, which are separate.
\<close>

theorem asset_unlock_escapes_shielded_checks:
  assumes "payload_ok bls_ok payload" "spend_ok d" "- MAX_MONEY \<le> balance" "balance \<le> MAX_MONEY" "length sig = 64"
    and "view_ok H v" "is_cache v" "nullifiers_of v (nullifier d) \<or> anchors_of H v (spend_anchor d) = None"
  shows "CheckTransaction (shielded_unlock payload d balance sig) = Inr ()
    \<and> \<not> fst (HaveShieldedRequirements H (shielded_unlock payload d balance sig) v)
    \<and> CheckTxInputs bls_ok H (shielded_unlock payload d balance sig) v h = Some (Inr (uint (unlock_fee payload)), v)"
proof -
  have "HasShieldedPayload (shielded_unlock payload d balance sig)" "d \<in> set (vShieldedSpend (sapData (shielded_unlock payload d balance sig)))"
    by (simp_all add: shielded_unlock_eval)
  then show ?thesis
    using shielded_unlock_checked [OF assms(1-5)] shielded_unlock_accepted [OF assms(1)] HaveShieldedRequirements_refuses assms(6-8)
    by (simp add: cache_view_def)
qed

definition spent_db :: CCoinsViewDB where
  "spent_db = spendable_db\<lparr>db_nullifiers := [replicate 32 2 \<mapsto> True]\<rparr>"

lemma spent_view_ok: "view_ok example_hash (View_Cache CCoinsViewCache_new (View_DB spent_db))"
  by (simp add: CCoinsViewCache_new_def example_db_def db_GetSaplingAnchorAt_def spent_db_def spendable_db_def example_coin_def IsSpent_def CTxOut_IsNull_def)

theorem asset_unlock_escapes_shielded_checks_witness:
  "\<exists>tx. CheckTransaction tx = Inr () \<and> valueBalance (sapData tx) = - 5 \<and> vin tx = []
     \<and> CheckTxInputs (\<lambda>_. True) example_hash tx (View_Cache CCoinsViewCache_new (View_DB spent_db)) 10
         = Some (Inr 7, View_Cache CCoinsViewCache_new (View_DB spent_db))"
proof -
  let ?v = "View_Cache CCoinsViewCache_new (View_DB spent_db)"
  define d where "d = \<lparr>spend_cv = replicate 32 0, spend_anchor = replicate 32 1, nullifier = replicate 32 2,
    rk = replicate 32 0, spend_zkproof = replicate GROTH_PROOF_SIZE 0, spendAuthSig = replicate 64 0\<rparr>"
  define p where "p = \<lparr>unlock_nVersion = 1, unlock_index = 0, unlock_fee = 7, requestedHeight = 0, quorumHash = replicate 32 0,
    quorumSig = replicate BLS_CURVE_SIG_SIZE 0\<rparr>"
  have "payload_ok (\<lambda>_. True) p" "spend_ok d" by (simp_all add: p_def d_def payload_ok_def spend_ok_def)
  moreover have "nullifiers_of ?v (nullifier d) \<or> anchors_of example_hash ?v (spend_anchor d) = None"
    by (simp add: d_def CCoinsViewCache_new_def spent_db_def spendable_db_def example_db_def db_GetNullifier_def)
  ultimately have "CheckTransaction (shielded_unlock p d (- 5) (replicate 64 0)) = Inr ()"
    "CheckTxInputs (\<lambda>_. True) example_hash (shielded_unlock p d (- 5) (replicate 64 0)) ?v 10 = Some (Inr 7, ?v)"
    using asset_unlock_escapes_shielded_checks [OF _ _ _ _ _ spent_view_ok, of "\<lambda>_. True" p d "- 5" "replicate 64 0" 10]
    by (simp_all add: p_def MAX_MONEY_def COIN_def)
  then show ?thesis by (intro exI [of _ "shielded_unlock p d (- 5) (replicate 64 0)"]) (simp add: shielded_unlock_def CMutableTransaction_default_def)
qed

end
