(* ===== verification/Merkle.thy ===== *)
theory Merkle
  imports Headers Note_Tree
begin

text \<open>
Merkle trees over the transactions of a block, from \<open>consensus/merkle.cpp\<close> and \<open>merkleblock.cpp\<close>: the root with its mutation flag,
  and the partial trees that prove the inclusion of selected transactions, built, written, read and extracted. The double SHA-256 of
  two hashes is a parameter.
\<close>

unbundle bit_operations_syntax

section \<open>The Merkle root of a block\<close>

text \<open>\<open>H\<close> is the double SHA-256 of two hashes written one after the other.\<close>

fun equal_pair :: "uint256 list \<Rightarrow> bool" where
  "equal_pair (a # b # hashes) = (a = b \<or> equal_pair hashes)"
| "equal_pair _ = False"

fun SHA256D64 :: "(uint256 \<Rightarrow> uint256 \<Rightarrow> uint256) \<Rightarrow> uint256 list \<Rightarrow> uint256 list" where
  "SHA256D64 H (a # b # hashes) = H a b # SHA256D64 H hashes"
| "SHA256D64 H _ = []"

lemma length_SHA256D64 [simp]: "length (SHA256D64 H xs) = length xs div 2"
  by (induction H xs rule: SHA256D64.induct) auto

definition padded :: "uint256 list \<Rightarrow> uint256 list" where
  "padded hashes = (if odd (length hashes) then hashes @ [last hashes] else hashes)"

function merkle_loop :: "(uint256 \<Rightarrow> uint256 \<Rightarrow> uint256) \<Rightarrow> uint256 list \<Rightarrow> bool \<Rightarrow> uint256 list \<times> bool" where
  "merkle_loop H hashes mutation =
     (if length hashes > 1
      then merkle_loop H (SHA256D64 H (padded hashes)) (if equal_pair hashes then True else mutation)
      else (hashes, mutation))"
  by pat_completeness auto

termination merkle_loop
  by (relation "measure (\<lambda>(H, hashes, _). length hashes)") (auto simp: padded_def, presburger)

declare merkle_loop.simps [simp del]

definition ComputeMerkleRoot :: "(uint256 \<Rightarrow> uint256 \<Rightarrow> uint256) \<Rightarrow> uint256 list \<Rightarrow> uint256 \<times> bool" where
  "ComputeMerkleRoot H hashes = (let (hashes, mutation) = merkle_loop H hashes False
     in (if length hashes = 0 then replicate 32 0 else hashes ! 0, mutation))"

definition BlockMerkleRoot :: "(uint256 \<Rightarrow> uint256 \<Rightarrow> uint256) \<Rightarrow> (CTransaction \<Rightarrow> uint256) \<Rightarrow> CBlock \<Rightarrow> uint256 \<times> bool" where
  "BlockMerkleRoot H GetHash block = ComputeMerkleRoot H (map GetHash (vtx block))"

section \<open>Partial Merkle trees\<close>

definition BitsToBytes :: "bool list \<Rightarrow> bytes" where
  "BitsToBytes bits = fold (\<lambda>p ret. ret[p div 8 := ret ! (p div 8) OR push_bit (p mod 8) (of_bool (bits ! p))])
     [0..<length bits] (replicate ((length bits + 7) div 8) 0)"

definition BytesToBits :: "bytes \<Rightarrow> bool list" where
  "BytesToBits bs = map (\<lambda>p. bs ! (p div 8) AND push_bit (p mod 8) 1 \<noteq> 0) [0..<length bs * 8]"

record CPartialMerkleTree =
  nTransactions :: u32
  vBits :: "bool list"
  vHash :: "uint256 list"
  fBad :: bool

definition CalcTreeWidth :: "u32 \<Rightarrow> nat \<Rightarrow> u32" where
  "CalcTreeWidth n height = drop_bit height (n + push_bit height 1 - 1)"

text \<open>The asserted list of transactions is not empty where this is called: at the leaves the position is one of the list.\<close>

fun CalcHash :: "(uint256 \<Rightarrow> uint256 \<Rightarrow> uint256) \<Rightarrow> u32 \<Rightarrow> nat \<Rightarrow> nat \<Rightarrow> uint256 list \<Rightarrow> uint256" where
  "CalcHash H n 0 pos vTxid = vTxid ! pos"
| "CalcHash H n (Suc height) pos vTxid =
     (let left = CalcHash H n height (pos * 2) vTxid;
          right = (if pos * 2 + 1 < unat (CalcTreeWidth n height) then CalcHash H n height (pos * 2 + 1) vTxid else left)
      in H left right)"

text \<open>The bits and hashes pushed by the traversal.\<close>

fun TraverseAndBuild :: "(uint256 \<Rightarrow> uint256 \<Rightarrow> uint256) \<Rightarrow> u32 \<Rightarrow> nat \<Rightarrow> nat \<Rightarrow> uint256 list \<Rightarrow> bool list \<Rightarrow> bool list \<times> uint256 list" where
  "TraverseAndBuild H n height pos vTxid vMatch =
     (let fParentOfMatch = list_ex (\<lambda>p. vMatch ! p) [pos * 2 ^ height ..< min ((pos + 1) * 2 ^ height) (unat n)]
      in case height of
        0 \<Rightarrow> ([fParentOfMatch], [CalcHash H n height pos vTxid])
      | Suc h \<Rightarrow>
          if \<not> fParentOfMatch then ([fParentOfMatch], [CalcHash H n height pos vTxid])
          else let (lb, lh) = TraverseAndBuild H n h (pos * 2) vTxid vMatch;
                   (rb, rh) = (if pos * 2 + 1 < unat (CalcTreeWidth n h)
                               then TraverseAndBuild H n h (pos * 2 + 1) vTxid vMatch else ([], []))
               in (fParentOfMatch # lb @ rb, lh @ rh))"

declare TraverseAndBuild.simps [simp del]

function tree_height :: "u32 \<Rightarrow> nat \<Rightarrow> nat" where
  "tree_height n h = (if CalcTreeWidth n h > 1 then tree_height n (h + 1) else h)"
  by pat_completeness auto

termination tree_height
proof (relation "measure (\<lambda>(n, h). 32 - h)")
  fix n :: u32 and h :: nat assume "CalcTreeWidth n h > 1"
  moreover have "CalcTreeWidth n h = 0" if "\<not> h < 32"
    unfolding CalcTreeWidth_def using that by (intro bit_word_eqI) (auto simp: bit_simps dest: bit_imp_le_length)
  ultimately have "h < 32" by fastforce
  then show "((n, h + 1), n, h) \<in> measure (\<lambda>(n, h). 32 - h)" by simp
qed simp

declare tree_height.simps [simp del]

definition CPartialMerkleTree_of :: "(uint256 \<Rightarrow> uint256 \<Rightarrow> uint256) \<Rightarrow> uint256 list \<Rightarrow> bool list \<Rightarrow> CPartialMerkleTree" where
  "CPartialMerkleTree_of H vTxid vMatch =
     (let n = of_nat (length vTxid); (bits, hashes) = TraverseAndBuild H n (tree_height n 0) 0 vTxid vMatch
      in \<lparr>nTransactions = n, vBits = bits, vHash = hashes, fBad = False\<rparr>)"

text \<open>What the traversal of a received tree changes.\<close>

record Extraction =
  bad :: bool
  nBitsUsed :: nat
  nHashUsed :: nat
  matches :: "uint256 list"
  vnIndex :: "nat list"

fun TraverseAndExtract :: "(uint256 \<Rightarrow> uint256 \<Rightarrow> uint256) \<Rightarrow> CPartialMerkleTree \<Rightarrow> nat \<Rightarrow> nat \<Rightarrow> Extraction \<Rightarrow> uint256 \<times> Extraction" where
  "TraverseAndExtract H t height pos x =
     (if nBitsUsed x \<ge> length (vBits t) then (replicate 32 0, x\<lparr>bad := True\<rparr>)
      else let fParentOfMatch = vBits t ! nBitsUsed x; x = x\<lparr>nBitsUsed := nBitsUsed x + 1\<rparr>
      in if height = 0 \<or> \<not> fParentOfMatch
         then if nHashUsed x \<ge> length (vHash t) then (replicate 32 0, x\<lparr>bad := True\<rparr>)
              else let h = vHash t ! nHashUsed x; x = x\<lparr>nHashUsed := nHashUsed x + 1\<rparr>
                   in (h, if height = 0 \<and> fParentOfMatch
                          then x\<lparr>matches := matches x @ [h], vnIndex := vnIndex x @ [pos]\<rparr> else x)
         else let (left, x) = TraverseAndExtract H t (height - 1) (pos * 2) x
              in if pos * 2 + 1 < unat (CalcTreeWidth (nTransactions t) (height - 1))
                 then let (right, x) = TraverseAndExtract H t (height - 1) (pos * 2 + 1) x
                      in (H left right, if right = left then x\<lparr>bad := True\<rparr> else x)
                 else (H left left, x))"

declare TraverseAndExtract.simps [simp del]

text \<open>The result and the two lists filled; what the call leaves in the member \<open>fBad\<close>, read only by a second call, is not kept.\<close>

definition ExtractMatches :: "(uint256 \<Rightarrow> uint256 \<Rightarrow> uint256) \<Rightarrow> CPartialMerkleTree \<Rightarrow> nat list \<Rightarrow> uint256 \<times> uint256 list \<times> nat list" where
  "ExtractMatches H t vnIndex0 =
     (if nTransactions t = 0 \<or> unat (nTransactions t) > MaxBlockSize True div 60 \<or> length (vHash t) > unat (nTransactions t)
         \<or> length (vBits t) < length (vHash t) then (replicate 32 0, [], vnIndex0)
      else let (hashMerkleRoot, x) = TraverseAndExtract H t (tree_height (nTransactions t) 0) 0
                 \<lparr>bad = fBad t, nBitsUsed = 0, nHashUsed = 0, matches = [], vnIndex = vnIndex0\<rparr>
           in (if bad x \<or> (nBitsUsed x + 7) div 8 \<noteq> (length (vBits t) + 7) div 8 \<or> nHashUsed x \<noteq> length (vHash t)
               then replicate 32 0 else hashMerkleRoot, matches x, vnIndex x))"

definition ser_partial_tree :: "CPartialMerkleTree \<Rightarrow> bytes" where
  "ser_partial_tree t = ser_writedata32 (nTransactions t) @ ser_vector ser_uint256 (vHash t) @ ser_blob (BitsToBytes (vBits t))"

definition unser_partial_tree :: "CPartialMerkleTree reader" where
  "unser_partial_tree s = do {
     (n, s) \<leftarrow> ser_readdata32 s;
     (hashes, s) \<leftarrow> unser_vector unser_uint256 s;
     (bs, s) \<leftarrow> unser_blob s;
     Some (\<lparr>nTransactions = n, vBits = BytesToBits bs, vHash = hashes, fBad = False\<rparr>, s) }"

text \<open>
  A block relayed with the proof of its matching transactions. \<open>filter\<close> is \<open>IsRelevantAndUpdate\<close> of a Bloom filter, which
  changes with every transaction it is asked about.
\<close>

record CMerkleBlock =
  mb_header :: CBlockHeader
  mb_txn :: CPartialMerkleTree
  vMatchedTxn :: "(nat \<times> uint256) list"

definition allowedTxTypes :: "u16 list" where
  "allowedTxTypes = [TRANSACTION_NORMAL, TRANSACTION_PROVIDER_REGISTER, TRANSACTION_PROVIDER_UPDATE_SERVICE,
     TRANSACTION_PROVIDER_UPDATE_REGISTRAR, TRANSACTION_PROVIDER_UPDATE_REVOKE, TRANSACTION_COINBASE,
     TRANSACTION_ASSET_LOCK, TRANSACTION_ASSET_UNLOCK]"

fun match_loop :: "(CTransaction \<Rightarrow> uint256) \<Rightarrow> ('f \<Rightarrow> CTransaction \<Rightarrow> bool \<times> 'f) \<Rightarrow> uint256 set option \<Rightarrow> (nat \<times> CTransaction) list
    \<Rightarrow> 'f option \<Rightarrow> bool list \<times> (nat \<times> uint256) list" where
  "match_loop GetHash IsRelevantAndUpdate txids [] flt = ([], [])"
| "match_loop GetHash IsRelevantAndUpdate txids ((i, tx) # txs) flt =
     (let hash = GetHash tx;
          isAllowedType = (\<not> IsSpecialTxVersion tx \<or> nType tx \<in> set allowedTxTypes)
      in if (case txids of Some ids \<Rightarrow> hash \<in> ids | None \<Rightarrow> False)
         then let (m, v) = match_loop GetHash IsRelevantAndUpdate txids txs flt in (True # m, v)
         else case (isAllowedType, flt) of
           (True, Some f) \<Rightarrow>
             let (relevant, f) = IsRelevantAndUpdate f tx;
                 (m, v) = match_loop GetHash IsRelevantAndUpdate txids txs (Some f)
             in if relevant then (True # m, (i, hash) # v) else (False # m, v)
         | _ \<Rightarrow> let (m, v) = match_loop GetHash IsRelevantAndUpdate txids txs flt in (False # m, v))"

definition CMerkleBlock_of :: "(uint256 \<Rightarrow> uint256 \<Rightarrow> uint256) \<Rightarrow> (CTransaction \<Rightarrow> uint256) \<Rightarrow> ('f \<Rightarrow> CTransaction \<Rightarrow> bool \<times> 'f)
    \<Rightarrow> CBlock \<Rightarrow> 'f option \<Rightarrow> uint256 set option \<Rightarrow> CMerkleBlock" where
  "CMerkleBlock_of H GetHash IsRelevantAndUpdate block flt txids =
     (let (vMatch, matched) = match_loop GetHash IsRelevantAndUpdate txids (enumerate 0 (vtx block)) flt
      in \<lparr>mb_header = CBlockHeader.truncate block, mb_txn = CPartialMerkleTree_of H (map GetHash (vtx block)) vMatch,
          vMatchedTxn = matched\<rparr>)"

section \<open>The root commits to the transactions\<close>

fun pairs :: "'a list \<Rightarrow> ('a \<times> 'a) list" where
  "pairs (a # b # xs) = (a, b) # pairs xs"
| "pairs _ = []"

definition join :: "(uint256 \<Rightarrow> uint256 \<Rightarrow> uint256) \<Rightarrow> uint256 \<times> uint256 \<Rightarrow> uint256" where
  "join H p = H (fst p) (snd p)"

lemma SHA256D64_pairs: "SHA256D64 H xs = map (join H) (pairs xs)"
  by (induction xs rule: pairs.induct) (auto simp: join_def)

text \<open>The pairs of hashes that are hashed together on the way to the root.\<close>

function hashed :: "(uint256 \<Rightarrow> uint256 \<Rightarrow> uint256) \<Rightarrow> uint256 list \<Rightarrow> (uint256 \<times> uint256) set" where
  "hashed H xs = (if length xs > 1 then set (pairs (padded xs)) \<union> hashed H (SHA256D64 H (padded xs)) else {})"
  by pat_completeness auto

lemma shorter_level: "1 < length xs \<Longrightarrow> length (SHA256D64 H (padded xs)) < length xs"
  by (auto simp: padded_def) presburger

termination hashed
  by (relation "measure (\<lambda>(H, xs). length xs)") (use shorter_level in auto)

declare hashed.simps [simp del]

lemma hashed_level:
  assumes "1 < length xs"
  shows "set (pairs (padded xs)) \<subseteq> hashed H xs" "hashed H (SHA256D64 H (padded xs)) \<subseteq> hashed H xs"
  using assms by (auto simp: hashed.simps [of H xs])

text \<open>Two different pairs of nodes of the trees over two lists have the same hash.\<close>

definition node_collision :: "(uint256 \<Rightarrow> uint256 \<Rightarrow> uint256) \<Rightarrow> uint256 list \<Rightarrow> uint256 list \<Rightarrow> bool" where
  "node_collision H xs ys \<longleftrightarrow> (\<exists>p \<in> hashed H xs. \<exists>q \<in> hashed H ys. p \<noteq> q \<and> join H p = join H q)"

text \<open>A leaf of one list has the hash of a pair of nodes of the other.\<close>

definition leaf_is_node :: "(uint256 \<Rightarrow> uint256 \<Rightarrow> uint256) \<Rightarrow> uint256 list \<Rightarrow> uint256 list \<Rightarrow> bool" where
  "leaf_is_node H xs ys \<longleftrightarrow> (\<exists>x \<in> set xs. \<exists>q \<in> hashed H ys. x = join H q) \<or> (\<exists>y \<in> set ys. \<exists>p \<in> hashed H xs. y = join H p)"

definition hash_conflict :: "(uint256 \<Rightarrow> uint256 \<Rightarrow> uint256) \<Rightarrow> uint256 list \<Rightarrow> uint256 list \<Rightarrow> bool" where
  "hash_conflict H xs ys \<longleftrightarrow> node_collision H xs ys \<or> leaf_is_node H xs ys"

lemmas hash_conflict_defs = hash_conflict_def node_collision_def leaf_is_node_def

lemma hash_conflictI:
  "p \<in> hashed H xs \<Longrightarrow> q \<in> hashed H ys \<Longrightarrow> p \<noteq> q \<Longrightarrow> join H p = join H q \<Longrightarrow> hash_conflict H xs ys"
  "x \<in> set xs \<Longrightarrow> q \<in> hashed H ys \<Longrightarrow> x = join H q \<Longrightarrow> hash_conflict H xs ys"
  "y \<in> set ys \<Longrightarrow> p \<in> hashed H xs \<Longrightarrow> y = join H p \<Longrightarrow> hash_conflict H xs ys"
  unfolding hash_conflict_defs by blast+

lemma hash_conflict_sym: "hash_conflict H xs ys \<Longrightarrow> hash_conflict H ys xs"
  unfolding hash_conflict_defs by (elim disjE bexE conjE) (metis, blast+)

lemma merkle_loop_mutation: "merkle_loop H xs m = (fst (merkle_loop H xs False), m \<or> snd (merkle_loop H xs False))"
proof (induction "length xs" arbitrary: xs m rule: less_induct)
  case less
  show ?case
  proof (cases "1 < length xs")
    case True
    note IH = less [OF shorter_level [OF True]]
    show ?thesis
      unfolding merkle_loop.simps [of H xs] using True
      by (subst (1 2 3) IH) simp
  qed (simp add: merkle_loop.simps)
qed

lemma ComputeMerkleRoot_level:
  "1 < length xs \<Longrightarrow> ComputeMerkleRoot H xs =
     (fst (ComputeMerkleRoot H (SHA256D64 H (padded xs))), equal_pair xs \<or> snd (ComputeMerkleRoot H (SHA256D64 H (padded xs))))"
  unfolding ComputeMerkleRoot_def merkle_loop.simps [of H xs]
  by (subst merkle_loop_mutation) (simp add: case_prod_beta)

lemma ComputeMerkleRoot_single: "ComputeMerkleRoot H [x] = (x, False)"
  by (simp add: ComputeMerkleRoot_def merkle_loop.simps)

lemma level_not_Nil: "xs \<noteq> [] \<Longrightarrow> SHA256D64 H (padded xs) \<noteq> []"
  unfolding length_0_conv [symmetric] by (cases xs) (auto simp: padded_def simp del: length_0_conv)

lemma root_hashed:
  "1 < length xs \<Longrightarrow> fst (ComputeMerkleRoot H xs) \<in> join H ` hashed H xs"
proof (induction "length xs" arbitrary: xs rule: less_induct)
  case less
  let ?n = "SHA256D64 H (padded xs)"
  show ?case
  proof (cases "1 < length ?n")
    case True
    have "fst (ComputeMerkleRoot H ?n) \<in> join H ` hashed H ?n"
      by (rule less(1) [OF shorter_level True]) (rule less(2))
    then show ?thesis
      using hashed_level(2) [OF less(2), of H] by (auto simp: ComputeMerkleRoot_level [OF less(2)])
  next
    case False
    then obtain y where y: "?n = [y]"
      using level_not_Nil [of xs H] less(2) by (cases ?n; cases xs) auto
    then have "y \<in> join H ` set (pairs (padded xs))" by (auto simp: SHA256D64_pairs)
    then show ?thesis
      using hashed_level(1) [OF less(2), of H] by (auto simp: ComputeMerkleRoot_level [OF less(2)] y ComputeMerkleRoot_single)
  qed
qed

lemma pairs_padded_inj:
  "pairs (padded xs) = pairs (padded ys) \<Longrightarrow> \<not> equal_pair xs \<Longrightarrow> \<not> equal_pair ys \<Longrightarrow> xs = ys"
proof (induction xs arbitrary: ys rule: pairs.induct)
  case (1 a b xs)
  then obtain c d ys' where ys: "ys = c # d # ys'"
    by (cases ys rule: pairs.cases) (auto simp: padded_def split: if_splits)
  have p: "padded (u # v # zs) = u # v # padded zs" for u v zs
    by (cases zs) (auto simp: padded_def)
  show ?case using 1 ys by (auto simp: p)
qed (case_tac ys rule: pairs.cases; auto simp: padded_def split: if_splits)+

lemma map_eq_or_conflict:
  "map f ps = map f qs \<Longrightarrow> ps = qs \<or> (\<exists>p \<in> set ps. \<exists>q \<in> set qs. p \<noteq> q \<and> f p = f q)"
proof (induction ps arbitrary: qs)
  case (Cons p ps)
  then show ?case by (cases qs) auto
qed simp

lemma padded_pair_members: "(a, b) \<in> set (pairs (padded xs)) \<Longrightarrow> a \<in> set xs \<and> b \<in> set xs"
proof -
  have "(a, b) \<in> set (pairs ys) \<Longrightarrow> a \<in> set ys \<and> b \<in> set ys" for ys
    by (induction ys rule: pairs.induct) auto
  moreover have "set (padded xs) \<subseteq> set xs \<or> xs = []" by (auto simp: padded_def)
  moreover have "xs = [] \<Longrightarrow> padded xs = []" by (simp add: padded_def)
  ultimately show "(a, b) \<in> set (pairs (padded xs)) \<Longrightarrow> a \<in> set xs \<and> b \<in> set xs" by fastforce
qed

lemma hashed_members:
  "(a, b) \<in> hashed H xs \<Longrightarrow> a \<in> set xs \<or> a \<in> join H ` hashed H xs"
proof (induction "length xs" arbitrary: xs rule: less_induct)
  case less
  then have l: "1 < length xs" by (auto simp: hashed.simps [of H xs] split: if_splits)
  consider "(a, b) \<in> set (pairs (padded xs))" | "(a, b) \<in> hashed H (SHA256D64 H (padded xs))"
    using less(2) l by (auto simp: hashed.simps [of H xs])
  then show ?case
  proof cases
    case 2
    then show ?thesis
      using less(1) [OF shorter_level [OF l]] hashed_level [OF l, of H] by (fastforce simp: SHA256D64_pairs)
  qed (use padded_pair_members in blast)
qed

text \<open>A leaf of the upper levels that is hashed lower down is a conflict of the lists themselves.\<close>

lemma conflict_below:
  assumes "1 < length xs" "x \<in> set (SHA256D64 H (padded xs))" "q \<in> hashed H (SHA256D64 H (padded ys))" "x = join H q"
    and "1 < length ys"
  shows "hash_conflict H xs ys"
proof -
  obtain p where p: "p \<in> set (pairs (padded xs))" "x = join H p"
    using assms(2) by (auto simp: SHA256D64_pairs)
  have ph: "p \<in> hashed H xs" and qh: "q \<in> hashed H ys" using hashed_level [OF assms(1), of H] hashed_level [OF assms(5), of H] p assms(3) by blast+
  show ?thesis
  proof (cases "p = q")
    case True
    obtain a b where ab: "p = (a, b)" by (cases p)
    have "a \<in> set xs" using padded_pair_members p ab by blast
    moreover have "\<exists>q' \<in> hashed H ys. a = join H q'"
      using hashed_members [of a b H "SHA256D64 H (padded ys)"] assms(3) True ab hashed_level [OF assms(5), of H]
      by (fastforce simp: SHA256D64_pairs)
    ultimately show ?thesis by (auto simp: hash_conflict_defs)
  qed (use hash_conflictI(1) [OF ph qh] p(2) assms(4) in simp)
qed

lemma conflict_up:
  assumes "1 < length xs" "1 < length ys" "hash_conflict H (SHA256D64 H (padded xs)) (SHA256D64 H (padded ys))"
  shows "hash_conflict H xs ys"
proof -
  let ?X = "SHA256D64 H (padded xs)" and ?Y = "SHA256D64 H (padded ys)"
  consider p q where "p \<in> hashed H ?X" "q \<in> hashed H ?Y" "p \<noteq> q" "join H p = join H q"
    | x q where "x \<in> set ?X" "q \<in> hashed H ?Y" "x = join H q"
    | y p where "y \<in> set ?Y" "p \<in> hashed H ?X" "y = join H p"
    using assms(3) unfolding hash_conflict_defs by blast
  then show ?thesis
  proof cases
    case 1
    then have "p \<in> hashed H xs" "q \<in> hashed H ys"
      using hashed_level(2) [OF assms(1), of H] hashed_level(2) [OF assms(2), of H] by auto
    then show ?thesis using 1(3,4) by (rule hash_conflictI(1))
  next
    case 2
    then show ?thesis by (rule conflict_below [OF assms(1) _ _ _ assms(2)])
  next
    case 3
    then show ?thesis by (intro hash_conflict_sym [of H ys]) (rule conflict_below [OF assms(2) _ _ _ assms(1)])
  qed
qed

lemma merkle_root_commits_aux:
  assumes "xs \<noteq> []" "ys \<noteq> []" "ComputeMerkleRoot H xs = (r, False)" "ComputeMerkleRoot H ys = (r, False)"
  shows "xs = ys \<or> hash_conflict H xs ys"
  using assms
proof (induction "length xs" arbitrary: xs ys rule: less_induct)
  case less
  consider "length xs = 1" "length ys = 1" | "length xs = 1" "1 < length ys" | "1 < length xs" "length ys = 1" | "1 < length xs" "1 < length ys"
    using less(2,3) by (metis One_nat_def Suc_lessI length_greater_0_conv)
  then show ?case
  proof cases
    case 1
    then show ?thesis using less(4,5) by (auto simp: length_Suc_conv ComputeMerkleRoot_single)
  next
    case 2
    then have "r \<in> set xs" using less(4) by (auto simp: length_Suc_conv ComputeMerkleRoot_single)
    then show ?thesis using root_hashed [OF 2(2), of H] less(5) by (auto simp: hash_conflict_defs)
  next
    case 3
    then have "r \<in> set ys" using less(5) by (auto simp: length_Suc_conv ComputeMerkleRoot_single)
    then show ?thesis using root_hashed [OF 3(1), of H] less(4) by (auto simp: hash_conflict_defs)
  next
    case 4
    let ?X = "SHA256D64 H (padded xs)" and ?Y = "SHA256D64 H (padded ys)"
    have roots: "ComputeMerkleRoot H ?X = (r, False)" "ComputeMerkleRoot H ?Y = (r, False)" "\<not> equal_pair xs" "\<not> equal_pair ys"
      using less(4,5) ComputeMerkleRoot_level [OF 4(1), of H] ComputeMerkleRoot_level [OF 4(2), of H] by (auto simp: prod_eq_iff)
    have "?X = ?Y \<or> hash_conflict H ?X ?Y"
      by (rule less(1) [OF shorter_level [OF 4(1)] level_not_Nil level_not_Nil roots(1,2)]) (use less in auto)
    then show ?thesis
    proof
      assume "?X = ?Y"
      then consider "pairs (padded xs) = pairs (padded ys)"
        | p q where "p \<in> set (pairs (padded xs))" "q \<in> set (pairs (padded ys))" "p \<noteq> q" "join H p = join H q"
        using map_eq_or_conflict [of "join H" "pairs (padded xs)" "pairs (padded ys)"] unfolding SHA256D64_pairs by blast
      then show ?thesis
      proof cases
        case 1
        then show ?thesis using pairs_padded_inj roots(3,4) by blast
      next
        case 2
        then have "p \<in> hashed H xs" "q \<in> hashed H ys"
          using hashed_level(1) [OF 4(1), of H] hashed_level(1) [OF 4(2), of H] by auto
        then show ?thesis using hash_conflictI(1) 2(3,4) by blast
      qed
    qed (use conflict_up [OF 4] in simp)
  qed
qed

text \<open>The number of levels above the leaves. Between trees of the same number of levels only a collision is possible: a leaf of one
  meets a node of the other only when the trees have different heights.\<close>

fun levels :: "nat \<Rightarrow> nat" where
  "levels n = (if n \<le> 1 then 0 else Suc (levels ((n + 1) div 2)))"

declare levels.simps [simp del]

lemma length_next_level: "length (SHA256D64 H (padded xs)) = (length xs + 1) div 2"
  by (auto simp: padded_def)

lemma merkle_root_commits_same_levels:
  assumes "xs \<noteq> []" "ys \<noteq> []" "ComputeMerkleRoot H xs = (r, False)" "ComputeMerkleRoot H ys = (r, False)"
    and "levels (length xs) = levels (length ys)"
  shows "xs = ys \<or> node_collision H xs ys"
  using assms
proof (induction "length xs" arbitrary: xs ys rule: less_induct)
  case less
  show ?case
  proof (cases "1 < length xs")
    case False
    then have "length ys \<le> 1" using less(6) by (auto simp: levels.simps split: if_splits)
    then have "length xs = 1" "length ys = 1" using False less(2,3) by (auto simp: Suc_le_eq le_Suc_eq not_less)
    then show ?thesis using less(4,5) by (auto simp: length_Suc_conv ComputeMerkleRoot_single)
  next
    case True
    then have True': "1 < length ys" using less(6) by (auto simp: levels.simps split: if_splits)
    let ?X = "SHA256D64 H (padded xs)" and ?Y = "SHA256D64 H (padded ys)"
    have roots: "ComputeMerkleRoot H ?X = (r, False)" "ComputeMerkleRoot H ?Y = (r, False)" "\<not> equal_pair xs" "\<not> equal_pair ys"
      using less(4,5) ComputeMerkleRoot_level [OF True, of H] ComputeMerkleRoot_level [OF True', of H] by (auto simp: prod_eq_iff)
    have lv: "levels (length ?X) = levels (length ?Y)"
      using less(6) True True' unfolding length_next_level by (simp add: levels.simps [of "length xs"] levels.simps [of "length ys"])
    have "?X = ?Y \<or> node_collision H ?X ?Y"
      by (rule less(1) [OF shorter_level [OF True] level_not_Nil level_not_Nil roots(1,2) lv]) (use less in auto)
    then show ?thesis
    proof
      assume "?X = ?Y"
      then consider "pairs (padded xs) = pairs (padded ys)"
        | p q where "p \<in> set (pairs (padded xs))" "q \<in> set (pairs (padded ys))" "p \<noteq> q" "join H p = join H q"
        using map_eq_or_conflict [of "join H" "pairs (padded xs)" "pairs (padded ys)"] unfolding SHA256D64_pairs by blast
      then show ?thesis
        using pairs_padded_inj roots(3,4) hashed_level(1) [OF True, of H] hashed_level(1) [OF True', of H]
        unfolding node_collision_def by cases blast+
    qed (use hashed_level(2) [OF True, of H] hashed_level(2) [OF True', of H] in \<open>unfold node_collision_def, blast\<close>)
  qed
qed

text \<open>
  The Merkle root in a header commits to the transactions: two blocks with transactions that give the same root without
  the mutation flag have the same transaction hashes in the same order, or their trees exhibit two different pairs of
  hashes with the same double hash, or the trees have different heights and a transaction of one has the hash of an inner
  node of the other. The last needs no collision: a node does not tell its height. The flag is needed for the rest: without
  it the lists [1,2,3] and [1,2,3,3] have the same root.
\<close>

theorem merkle_root_commits:
  fixes block block' GetHash
  defines "ids \<equiv> map GetHash (vtx block)" and "ids' \<equiv> map GetHash (vtx block')"
  assumes "vtx block \<noteq> []" "vtx block' \<noteq> []"
    and "BlockMerkleRoot H GetHash block = (root, False)" "BlockMerkleRoot H GetHash block' = (root, False)"
  shows "ids = ids' \<or> node_collision H ids ids' \<or> levels (length ids) \<noteq> levels (length ids') \<and> leaf_is_node H ids ids'"
  using merkle_root_commits_aux [of ids ids' H root] merkle_root_commits_same_levels [of ids ids' H root] assms
  by (auto simp: BlockMerkleRoot_def hash_conflict_def)

section \<open>Nodes of the tree by height and position\<close>

definition width :: "nat \<Rightarrow> nat \<Rightarrow> nat" where
  "width n k = (n + 2 ^ k - 1) div 2 ^ k"

lemma width_0 [simp]: "width n 0 = n"
  by (simp add: width_def)

lemma width_Suc: "width n (Suc k) = (width n k + 1) div 2"
proof -
  have "(n + 2 ^ Suc k - 1) = ((n + 2 ^ k - 1) + 2 ^ k)" by simp
  then have "width n (Suc k) = (((n + 2 ^ k - 1) + 2 ^ k) div 2 ^ k) div 2"
    by (simp only: width_def power_Suc2 div_mult2_eq)
  also have "((n + 2 ^ k - 1) + 2 ^ k) div 2 ^ k = width n k + 1"
    by (simp only: width_def) (rule div_add_self2, simp)
  finally show ?thesis .
qed

lemma width_pos: "0 < n \<Longrightarrow> 0 < width n k"
  by (induction k) (auto simp: width_Suc)

lemma width_less: "p < width n k \<longleftrightarrow> p * 2 ^ k < n"
proof (induction k arbitrary: p)
  case (Suc k)
  have "p < width n (Suc k) \<longleftrightarrow> p * 2 < width n k" by (auto simp: width_Suc)
  then show ?case by (simp add: Suc mult.assoc)
qed simp

lemma CalcTreeWidth_width:
  assumes "unat n \<le> 2 ^ 20" "k \<le> 20"
  shows "unat (CalcTreeWidth n k) = width (unat n) k"
proof -
  have k: "(2 :: nat) ^ k \<le> 2 ^ 20" using assms(2) by (intro power_increasing) auto
  have p: "unat ((2 :: u32) ^ k) = 2 ^ k"
    using unat_of_nat_small(3) [of "2 ^ k"] k by simp
  have s: "unat (n + 2 ^ k) = unat n + 2 ^ k"
    using assms(1) k by (subst unat_add_lem [THEN iffD1]) (simp_all add: p)
  have "(1 :: u32) \<le> n + 2 ^ k" by (simp add: word_le_nat_alt s Suc_le_eq)
  then have "unat (n + push_bit k 1 - 1) = unat n + 2 ^ k - 1" by (simp add: unat_sub s)
  then show ?thesis by (simp add: CalcTreeWidth_def width_def unat_drop_bit_word)
qed

lemma tree_height_width:
  assumes "0 < unat n" "unat n \<le> 2 ^ 16"
  shows "width (unat n) (tree_height n 0) = 1" "tree_height n 0 \<le> 16" "k < tree_height n 0 \<Longrightarrow> 1 < width (unat n) k"
proof -
  have w: "width (unat n) 16 = 1"
    using width_pos [OF assms(1), of 16] assms(2) width_less [of 1 "unat n" 16] by simp
  have eq: "CalcTreeWidth n h > 1 \<longleftrightarrow> 1 < width (unat n) h" if "h \<le> 16" for h
    using CalcTreeWidth_width [of n h] assms(2) that by (simp add: word_less_nat_alt)
  have *: "h \<le> 16 \<Longrightarrow> (\<forall>k < h. 1 < width (unat n) k) \<Longrightarrow>
     width (unat n) (tree_height n h) = 1 \<and> tree_height n h \<le> 16 \<and> (\<forall>k < tree_height n h. 1 < width (unat n) k)" for h
  proof (induction "16 - h" arbitrary: h)
    case 0
    then have "h = 16" by simp
    then show ?case using w 0 eq [of 16] by (simp add: tree_height.simps [of n 16])
  next
    case (Suc d)
    show ?case
    proof (cases "1 < width (unat n) h")
      case True
      have "h \<noteq> 16" using True w by auto
      then show ?thesis using Suc(1) [of "h + 1"] Suc True eq [of h]
        by (subst (1 2 3) tree_height.simps) (auto simp: less_Suc_eq)
    next
      case False
      then show ?thesis using Suc eq [of h] width_pos [OF assms(1), of h]
        by (subst (1 2 3) tree_height.simps) auto
    qed
  qed
  show "width (unat n) (tree_height n 0) = 1" "tree_height n 0 \<le> 16" "k < tree_height n 0 \<Longrightarrow> 1 < width (unat n) k"
    using * [of 0] by auto
qed

text \<open>The list of hashes at a height.\<close>

fun level :: "(uint256 \<Rightarrow> uint256 \<Rightarrow> uint256) \<Rightarrow> uint256 list \<Rightarrow> nat \<Rightarrow> uint256 list" where
  "level H xs 0 = xs"
| "level H xs (Suc k) = SHA256D64 H (padded (level H xs k))"

fun node :: "(uint256 \<Rightarrow> uint256 \<Rightarrow> uint256) \<Rightarrow> uint256 list \<Rightarrow> nat \<Rightarrow> nat \<Rightarrow> uint256" where
  "node H xs 0 p = xs ! p"
| "node H xs (Suc k) p = H (node H xs k (2 * p)) (if 2 * p + 1 < width (length xs) k then node H xs k (2 * p + 1) else node H xs k (2 * p))"

lemma CalcHash_node:
  assumes "unat n = length xs" "length xs \<le> 2 ^ 20" "k \<le> 20"
  shows "CalcHash H n k p xs = node H xs k p"
  using assms(3) by (induction k arbitrary: p) (use assms CalcTreeWidth_width [of n] in \<open>auto simp: Let_def mult.commute\<close>)

lemma pairs_nth: "i < length xs div 2 \<Longrightarrow> pairs xs ! i = (xs ! (2 * i), xs ! (2 * i + 1))"
proof (induction xs arbitrary: i rule: pairs.induct)
  case (1 a b xs)
  then show ?case by (cases i) auto
qed auto

lemma length_pairs [simp]: "length (pairs xs) = length xs div 2"
  by (induction xs rule: pairs.induct) auto

lemma length_padded: "length (padded xs) = 2 * ((length xs + 1) div 2)"
  by (auto simp: padded_def)

lemma pairs_padded_nth:
  assumes "i < (length xs + 1) div 2"
  shows "pairs (padded xs) ! i = (xs ! (2 * i), if 2 * i + 1 < length xs then xs ! (2 * i + 1) else xs ! (2 * i))"
proof -
  have "pairs (padded xs) ! i = (padded xs ! (2 * i), padded xs ! (2 * i + 1))"
    by (rule pairs_nth) (use assms in \<open>simp add: length_padded\<close>)
  moreover have "2 * i < length xs" using assms by linarith
  then have "padded xs ! (2 * i) = xs ! (2 * i)" by (simp add: padded_def nth_append)
  moreover have "padded xs ! (2 * i + 1) = (if 2 * i + 1 < length xs then xs ! (2 * i + 1) else xs ! (2 * i))"
  proof (cases "2 * i + 1 < length xs")
    case False
    then have "length xs = 2 * i + 1" using assms by linarith
    moreover have "xs \<noteq> []" using calculation by auto
    ultimately show ?thesis by (simp add: padded_def nth_append last_conv_nth)
  qed (simp add: padded_def nth_append)
  ultimately show ?thesis by simp
qed

lemma length_level: "length (level H xs k) = width (length xs) k"
  by (induction k) (simp_all add: width_Suc length_padded)

lemma level_node: "level H xs k = map (node H xs k) [0..<width (length xs) k]"
proof (induction k)
  case 0
  have "node H xs 0 = (!) xs" by auto
  then show ?case by (simp add: map_nth)
next
  case (Suc k)
  let ?w = "width (length xs) k"
  have l: "length (level H xs k) = ?w" by (rule length_level)
  have "level H xs (Suc k) ! i = node H xs (Suc k) i" if "i < width (length xs) (Suc k)" for i
  proof -
    have i: "i < (?w + 1) div 2" "2 * i < ?w" using that by (auto simp: width_Suc)
    have "level H xs (Suc k) ! i = join H (pairs (padded (level H xs k)) ! i)"
      using i by (simp add: SHA256D64_pairs length_padded l)
    also have "\<dots> = H (node H xs k (2 * i)) (if 2 * i + 1 < ?w then node H xs k (2 * i + 1) else node H xs k (2 * i))"
      using pairs_padded_nth [of i "level H xs k"] i by (simp add: join_def l) (simp add: Suc)
    finally show ?thesis by simp
  qed
  then show ?case
    by (intro nth_equalityI [of "level H xs (Suc k)"]) (simp_all only: length_level length_map length_upt nth_map nth_upt minus_nat.diff_0 add_0)
qed

lemma root_level:
  "(\<And>j. j < k \<Longrightarrow> 1 < width (length xs) j) \<Longrightarrow>
     fst (ComputeMerkleRoot H xs) = fst (ComputeMerkleRoot H (level H xs k))
     \<and> (\<not> snd (ComputeMerkleRoot H xs) \<longrightarrow> \<not> snd (ComputeMerkleRoot H (level H xs k)))
     \<and> hashed H (level H xs k) \<subseteq> hashed H xs"
proof (induction k)
  case (Suc k)
  then have l: "1 < length (level H xs k)" by (simp add: length_level)
  show ?case
    using Suc ComputeMerkleRoot_level [OF l, of H] hashed_level(2) [OF l, of H] by (simp add: less_Suc_eq) blast
qed simp

lemma equal_pair_nth: "2 * i + 1 < length xs \<Longrightarrow> xs ! (2 * i) = xs ! (2 * i + 1) \<Longrightarrow> equal_pair xs"
proof (induction xs arbitrary: i rule: equal_pair.induct)
  case (1 a b hs)
  then show ?case by (cases i) auto
qed auto

lemma siblings_differ:
  assumes "\<And>j. j < Suc k \<Longrightarrow> 1 < width (length xs) j" "\<not> snd (ComputeMerkleRoot H xs)" "2 * p + 1 < width (length xs) k"
  shows "node H xs k (2 * p) \<noteq> node H xs k (2 * p + 1)"
proof
  assume eq: "node H xs k (2 * p) = node H xs k (2 * p + 1)"
  have "equal_pair (level H xs k)"
    by (rule equal_pair_nth [of p]) (use assms(3) eq in \<open>simp_all add: level_node\<close>)
  moreover have "\<not> snd (ComputeMerkleRoot H (level H xs k))" using root_level [of k xs H] assms by auto
  moreover have "1 < length (level H xs k)" using assms(1) by (simp add: length_level)
  ultimately show False using ComputeMerkleRoot_level [of "level H xs k" H] by simp
qed

lemma siblings_hashed:
  assumes "\<And>j. j < Suc k \<Longrightarrow> 1 < width (length xs) j" "p < width (length xs) (Suc k)"
  shows "(node H xs k (2 * p), if 2 * p + 1 < width (length xs) k then node H xs k (2 * p + 1) else node H xs k (2 * p)) \<in> hashed H xs"
proof -
  let ?l = "level H xs k"
  have l: "length ?l = width (length xs) k" "1 < length ?l" using assms(1) by (simp_all add: length_level)
  have p: "p < (length ?l + 1) div 2" "2 * p < width (length xs) k" using assms(2) by (auto simp: width_Suc l)
  have "pairs (padded ?l) ! p \<in> set (pairs (padded ?l))" using p by (intro nth_mem) (simp add: length_padded)
  then have "pairs (padded ?l) ! p \<in> hashed H xs"
    using hashed_level(1) [OF l(2), of H] root_level [of k xs H] assms(1) by fastforce
  moreover have "pairs (padded ?l) ! p = (node H xs k (2 * p), if 2 * p + 1 < width (length xs) k then node H xs k (2 * p + 1) else node H xs k (2 * p))"
    unfolding pairs_padded_nth [OF p(1)] l(1) using p(2) by (simp add: level_node)
  ultimately show ?thesis by simp
qed

section \<open>What is extracted from a partial tree is in the block\<close>

text \<open>The pairs of hashes that are hashed together while a partial tree is traversed.\<close>

fun extracted_pairs :: "(uint256 \<Rightarrow> uint256 \<Rightarrow> uint256) \<Rightarrow> CPartialMerkleTree \<Rightarrow> nat \<Rightarrow> nat \<Rightarrow> Extraction \<Rightarrow> (uint256 \<times> uint256) set" where
  "extracted_pairs H t 0 pos x = {}"
| "extracted_pairs H t (Suc h) pos x =
     (if nBitsUsed x \<ge> length (vBits t) \<or> \<not> vBits t ! nBitsUsed x then {}
      else let (left, y) = TraverseAndExtract H t h (pos * 2) (x\<lparr>nBitsUsed := nBitsUsed x + 1\<rparr>)
           in extracted_pairs H t h (pos * 2) (x\<lparr>nBitsUsed := nBitsUsed x + 1\<rparr>) \<union>
              (if pos * 2 + 1 < unat (CalcTreeWidth (nTransactions t) h)
               then insert (left, fst (TraverseAndExtract H t h (pos * 2 + 1) y)) (extracted_pairs H t h (pos * 2 + 1) y)
               else {(left, left)}))"

declare extracted_pairs.simps(2) [simp del]

lemma TraverseAndExtract_Suc:
  assumes "nBitsUsed x < length (vBits t)" "vBits t ! nBitsUsed x"
    and "TraverseAndExtract H t h (pos * 2) (x\<lparr>nBitsUsed := nBitsUsed x + 1\<rparr>) = (l, y)"
    and "TraverseAndExtract H t h (pos * 2 + 1) y = (r, z)"
  shows "TraverseAndExtract H t (Suc h) pos x =
     (if pos * 2 + 1 < unat (CalcTreeWidth (nTransactions t) h) then (H l r, if r = l then z\<lparr>bad := True\<rparr> else z) else (H l l, y))"
  using assms by (subst TraverseAndExtract.simps) (simp add: Let_def)

lemma TraverseAndExtract_stop:
  assumes "\<not> (nBitsUsed x < length (vBits t) \<and> vBits t ! nBitsUsed x)"
  shows "matches (snd (TraverseAndExtract H t h pos x)) = matches x" "vnIndex (snd (TraverseAndExtract H t h pos x)) = vnIndex x"
    "bad x \<Longrightarrow> bad (snd (TraverseAndExtract H t h pos x))"
    "nBitsUsed x \<ge> length (vBits t) \<Longrightarrow> bad (snd (TraverseAndExtract H t h pos x))"
  using assms by (subst TraverseAndExtract.simps; auto simp: Let_def)+

lemma TraverseAndExtract_bad: "bad x \<Longrightarrow> bad (snd (TraverseAndExtract H t h pos x))"
proof (induction h arbitrary: pos x)
  case 0
  then show ?case by (subst TraverseAndExtract.simps) (auto simp: Let_def)
next
  case (Suc h)
  let ?x = "x\<lparr>nBitsUsed := nBitsUsed x + 1\<rparr>"
  obtain l y where l: "TraverseAndExtract H t h (pos * 2) ?x = (l, y)" by (cases "TraverseAndExtract H t h (pos * 2) ?x")
  obtain r z where r: "TraverseAndExtract H t h (pos * 2 + 1) y = (r, z)" by (cases "TraverseAndExtract H t h (pos * 2 + 1) y")
  have "bad y" "bad z" using Suc(1) [of ?x "pos * 2"] Suc(1) [of y "pos * 2 + 1"] Suc(2) l r by auto
  then show ?case
    using TraverseAndExtract_Suc [OF _ _ l r] TraverseAndExtract_stop(3) [of x t] Suc(2)
    by (cases "nBitsUsed x < length (vBits t) \<and> vBits t ! nBitsUsed x") auto
qed

definition proved :: "uint256 list \<Rightarrow> Extraction \<Rightarrow> Extraction \<Rightarrow> bool" where
  "proved txids x y \<longleftrightarrow> (\<exists>is. vnIndex y = vnIndex x @ is \<and> matches y = matches x @ map ((!) txids) is \<and> (\<forall>i \<in> set is. i < length txids))"

lemma proved_refl: "matches y = matches x \<Longrightarrow> vnIndex y = vnIndex x \<Longrightarrow> proved txids x y"
  by (simp add: proved_def)

lemma proved_trans: "proved txids x y \<Longrightarrow> proved txids y z \<Longrightarrow> proved txids x z"
  unfolding proved_def by (elim exE conjE) (rule exI, auto)

lemma proved_step: "matches x' = matches x \<Longrightarrow> vnIndex x' = vnIndex x \<Longrightarrow> proved txids x' y \<Longrightarrow> proved txids x y"
  by (simp add: proved_def)

lemma extract_sound:
  assumes n: "unat (nTransactions t) = length txids" "length txids \<le> 2 ^ 16"
    and "h \<le> 16" "\<And>j. j < h \<Longrightarrow> 1 < width (length txids) j" "pos < width (length txids) h"
    and "fst (TraverseAndExtract H t h pos x) = node H txids h pos" "\<not> bad (snd (TraverseAndExtract H t h pos x))"
    and "\<not> (\<exists>p \<in> hashed H txids. \<exists>q \<in> extracted_pairs H t h pos x. p \<noteq> q \<and> join H p = join H q)"
  shows "proved txids x (snd (TraverseAndExtract H t h pos x))"
  using assms(3-)
proof (induction h arbitrary: pos x)
  case 0
  show ?case
    using 0 by (subst (asm) (1 2) TraverseAndExtract.simps, subst TraverseAndExtract.simps)
      (auto simp: Let_def proved_def split: if_splits)
next
  case (Suc h)
  let ?x = "x\<lparr>nBitsUsed := nBitsUsed x + 1\<rparr>"
  show ?case
  proof (cases "nBitsUsed x < length (vBits t) \<and> vBits t ! nBitsUsed x")
    case False
    then show ?thesis by (intro proved_refl TraverseAndExtract_stop)
  next
    case True
    obtain l y where l: "TraverseAndExtract H t h (pos * 2) ?x = (l, y)" by (cases "TraverseAndExtract H t h (pos * 2) ?x")
    obtain r z where r: "TraverseAndExtract H t h (pos * 2 + 1) y = (r, z)" by (cases "TraverseAndExtract H t h (pos * 2 + 1) y")
    let ?two = "2 * pos + 1 < width (length txids) h"
    have w: "unat (CalcTreeWidth (nTransactions t) h) = width (length txids) h"
      using CalcTreeWidth_width [of "nTransactions t" h] n Suc(2) by simp
    have step: "TraverseAndExtract H t (Suc h) pos x =
        (if ?two then (H l r, if r = l then z\<lparr>bad := True\<rparr> else z) else (H l l, y))"
      using TraverseAndExtract_Suc [OF _ _ l r] True by (simp add: w mult.commute)
    have ep: "extracted_pairs H t (Suc h) pos x = extracted_pairs H t h (pos * 2) ?x \<union>
        (if ?two then insert (l, r) (extracted_pairs H t h (pos * 2 + 1) y) else {(l, l)})"
      using True l r by (simp add: extracted_pairs.simps(2) w mult.commute)
    let ?q = "(l, if ?two then r else l)"
    let ?p = "(node H txids h (2 * pos), if ?two then node H txids h (2 * pos + 1) else node H txids h (2 * pos))"
    have "?p \<in> hashed H txids" by (rule siblings_hashed [OF Suc(3)]) (use Suc(4) in auto)
    moreover have "?q \<in> extracted_pairs H t (Suc h) pos x" unfolding ep by auto
    moreover have "join H ?p = join H ?q" using Suc(5) by (auto simp: step join_def)
    ultimately have eq: "?p = ?q" using Suc(7) by blast
    have pos: "pos * 2 < width (length txids) h" using Suc(4) by (auto simp: width_Suc)
    have bady: "\<not> bad y" using Suc(6) TraverseAndExtract_bad [of y H t h "pos * 2 + 1"] r by (auto simp: step split: if_splits)
    have free: "\<not> (\<exists>p \<in> hashed H txids. \<exists>q \<in> S. p \<noteq> q \<and> join H p = join H q)"
      if "S \<subseteq> extracted_pairs H t (Suc h) pos x" for S
      using Suc(7) that by blast
    have "proved txids ?x (snd (TraverseAndExtract H t h (pos * 2) ?x))"
      by (rule Suc(1) [OF _ _ _ _ _ free]) (use Suc(2,3) pos bady l eq in \<open>auto simp: ep mult.commute\<close>)
    then have left: "proved txids x y" unfolding l by (simp add: proved_def)
    show ?thesis
    proof (cases ?two)
      case True
      have "proved txids y (snd (TraverseAndExtract H t h (pos * 2 + 1) y))"
        by (rule Suc(1) [OF _ _ _ _ _ free]) (use Suc(2,3,6) True r eq in \<open>auto simp: ep step mult.commute split: if_splits\<close>)
      then show ?thesis using Suc(6) left r True by (auto simp: step intro: proved_trans split: if_splits)
    qed (use left in \<open>simp add: step\<close>)
  qed
qed

text \<open>The state in which the traversal of a received tree starts.\<close>

definition extraction_start :: "CPartialMerkleTree \<Rightarrow> Extraction" where
  "extraction_start t = \<lparr>bad = fBad t, nBitsUsed = 0, nHashUsed = 0, matches = [], vnIndex = []\<rparr>"

text \<open>
  C14. A proof of inclusion cannot lie: when the matches extracted from any received partial Merkle tree come with the Merkle
  root of a block and name its number of transactions, every extracted hash is the hash of the block's transaction
  at the index extracted with it, or the traversal has hashed a pair that collides with a different pair of the block's tree.
\<close>

theorem extracted_matches_are_in_block:
  assumes "ExtractMatches H t [] = (root, found, indices)" "root \<noteq> replicate 32 0"
    and "root = fst (ComputeMerkleRoot H txids)" "unat (nTransactions t) = length txids"
    and "\<not> (\<exists>p \<in> hashed H txids. \<exists>q \<in> extracted_pairs H t (tree_height (nTransactions t) 0) 0 (extraction_start t).
           p \<noteq> q \<and> join H p = join H q)"
  shows "found = map ((!) txids) indices \<and> (\<forall>i \<in> set indices. i < length txids)"
proof -
  let ?h = "tree_height (nTransactions t) 0" and ?r = "TraverseAndExtract H t (tree_height (nTransactions t) 0) 0 (extraction_start t)"
  have "MaxBlockSize True div 60 \<le> 2 ^ 16" by (simp add: MaxBlockSize_def MAX_DIP0001_BLOCK_SIZE_def)
  then have n: "0 < length txids" "length txids \<le> 2 ^ 16"
    and r: "\<not> bad (snd ?r)" "root = fst ?r" "found = matches (snd ?r)" "indices = vnIndex (snd ?r)"
    using assms(1,2,4) by (auto simp: ExtractMatches_def extraction_start_def Let_def unat_eq_zero [symmetric] split: if_splits prod.splits)
  note hw = tree_height_width [of "nTransactions t", unfolded assms(4), OF n]
  have "fst (ComputeMerkleRoot H txids) = node H txids ?h 0"
    using root_level [of ?h txids H] hw level_node [of H txids ?h] by (simp add: ComputeMerkleRoot_single)
  then have "proved txids (extraction_start t) (snd ?r)"
    using extract_sound [OF assms(4) n(2) hw(2,3), of 0 H "extraction_start t"] hw r assms(3,5) by simp
  then show ?thesis by (auto simp: proved_def extraction_start_def r)
qed

section \<open>A partial tree gives back what it was built for\<close>

definition below :: "nat \<Rightarrow> nat \<Rightarrow> nat \<Rightarrow> nat list" where
  "below n h pos = [pos * 2 ^ h ..< min ((pos + 1) * 2 ^ h) n]"

definition selected :: "bool list \<Rightarrow> nat \<Rightarrow> nat \<Rightarrow> nat \<Rightarrow> nat list" where
  "selected m n h pos = filter (\<lambda>p. m ! p) (below n h pos)"

lemma upt_split: "i \<le> j \<Longrightarrow> j \<le> k \<Longrightarrow> [i..<k] = [i..<j] @ [j..<k]"
  by (metis le_add_diff_inverse upt_add_eq_append)

lemma below_Suc:
  "below n (Suc h) pos = below n h (2 * pos) @ (if 2 * pos + 1 < width n h then below n h (2 * pos + 1) else [])"
proof (cases "2 * pos + 1 < width n h")
  case True
  then have t: "(2 * pos + 1) * 2 ^ h < n" by (simp only: width_less)
  have "below n (Suc h) pos = [2 * pos * 2 ^ h ..< min ((2 * pos + 2) * 2 ^ h) n]"
    by (simp add: below_def algebra_simps)
  also have "\<dots> = [2 * pos * 2 ^ h ..< (2 * pos + 1) * 2 ^ h] @ [(2 * pos + 1) * 2 ^ h ..< min ((2 * pos + 2) * 2 ^ h) n]"
    by (rule upt_split) (use t in simp_all)
  finally show ?thesis using True t by (simp add: below_def algebra_simps)
next
  case False
  then have t: "n \<le> (2 * pos + 1) * 2 ^ h" by (simp only: width_less)
  then have "min ((2 * pos + 2) * 2 ^ h) n = min ((2 * pos + 1) * 2 ^ h) n" by (simp add: algebra_simps)
  then show ?thesis using False by (simp add: below_def algebra_simps)
qed

lemma selected_Suc:
  "selected m n (Suc h) pos = selected m n h (2 * pos) @ (if 2 * pos + 1 < width n h then selected m n h (2 * pos + 1) else [])"
  by (simp add: selected_def below_Suc)

lemma below_0: "pos < n \<Longrightarrow> below n 0 pos = [pos]"
  by (simp add: below_def)


lemma TraverseAndBuild_0:
  "pos < unat n \<Longrightarrow> TraverseAndBuild H n 0 pos txids m = ([m ! pos], [txids ! pos])"
  by (subst TraverseAndBuild.simps) (simp add: min_def Let_def)

lemma TraverseAndBuild_Suc:
  assumes "unat n = length txids" "length txids \<le> 2 ^ 16" "Suc h \<le> 16"
  shows "TraverseAndBuild H n (Suc h) pos txids m =
     (if selected m (length txids) (Suc h) pos = [] then ([False], [node H txids (Suc h) pos])
      else let (lb, lh) = TraverseAndBuild H n h (2 * pos) txids m;
               (rb, rh) = (if 2 * pos + 1 < width (length txids) h then TraverseAndBuild H n h (2 * pos + 1) txids m else ([], []))
           in (True # lb @ rb, lh @ rh))"
proof -
  have w: "unat (CalcTreeWidth n h) = width (length txids) h"
    using CalcTreeWidth_width [of n h] assms by simp
  have c: "CalcHash H n (Suc h) pos txids = node H txids (Suc h) pos"
    by (rule CalcHash_node) (use assms in auto)
  have s: "list_ex (\<lambda>p. m ! p) [pos * 2 ^ Suc h ..< min ((pos + 1) * 2 ^ Suc h) (unat n)] \<longleftrightarrow> selected m (length txids) (Suc h) pos \<noteq> []"
    by (simp add: selected_def below_def filter_empty_conv list_ex_iff assms(1))
  show ?thesis
    by (subst TraverseAndBuild.simps) (simp only: s w c Let_def nat.case mult.commute [of pos 2] not_not if_not_P if_P cong: if_cong, simp)
qed

lemma build_sizes:
  assumes "unat n = length txids" "length txids \<le> 2 ^ 16" "h \<le> 16" "pos < width (length txids) h"
    and "TraverseAndBuild H n h pos txids m = (bits, hashes)"
  shows "length hashes \<le> length (below (length txids) h pos) \<and> length hashes \<le> length bits"
  using assms(3-)
proof (induction h arbitrary: pos bits hashes)
  case 0
  then show ?case using assms(1) by (auto simp: TraverseAndBuild_0 below_0)
next
  case (Suc h)
  obtain lb lh where l: "TraverseAndBuild H n h (2 * pos) txids m = (lb, lh)" by fastforce
  obtain rb rh where r: "TraverseAndBuild H n h (2 * pos + 1) txids m = (rb, rh)" by fastforce
  have pos: "2 * pos < width (length txids) h" using Suc(3) by (auto simp: width_Suc)
  have ne: "below (length txids) (Suc h) pos \<noteq> []" using Suc(3) by (auto simp: below_def width_less min_def)
  show ?case
    using Suc(4) Suc(1) [OF _ pos l] Suc(1) [OF _ _ r] Suc(2) ne
    unfolding TraverseAndBuild_Suc [OF assms(1,2) Suc(2)] l r
    by (auto simp: below_Suc Suc_le_eq split: if_splits)
qed

lemma build_extract:
  assumes "unat n = length txids" "length txids \<le> 2 ^ 16" "\<not> snd (ComputeMerkleRoot H txids)" "nTransactions t = n"
    and "h \<le> 16" "\<And>j. j < h \<Longrightarrow> 1 < width (length txids) j" "pos < width (length txids) h"
    and "TraverseAndBuild H n h pos txids m = (bits, hashes)"
    and "vBits t = b @ bits @ b'" "vHash t = g @ hashes @ g'" "nBitsUsed x = length b" "nHashUsed x = length g"
  shows "TraverseAndExtract H t h pos x = (node H txids h pos,
     x\<lparr>nBitsUsed := length (b @ bits), nHashUsed := length (g @ hashes),
       matches := matches x @ map ((!) txids) (selected m (length txids) h pos), vnIndex := vnIndex x @ selected m (length txids) h pos\<rparr>)"
  using assms(5-)
proof (induction h arbitrary: pos bits hashes b b' g g' x)
  case 0
  then have "bits = [m ! pos]" "hashes = [txids ! pos]" using TraverseAndBuild_0 [of pos n H txids m] assms(1) by auto
  then show ?case using 0 by (subst TraverseAndExtract.simps) (simp add: Let_def selected_def below_0 nth_append)
next
  case (Suc h)
  have w: "unat (CalcTreeWidth (nTransactions t) h) = width (length txids) h"
    using CalcTreeWidth_width [of n h] assms(1,2,4) Suc(2) by simp
  show ?case
  proof (cases "selected m (length txids) (Suc h) pos = []")
    case True
    then have "bits = [False]" "hashes = [node H txids (Suc h) pos]"
      using Suc(5) TraverseAndBuild_Suc [OF assms(1,2) Suc(2), of H pos m] by auto
    then show ?thesis using Suc(6-9) True
      by (subst TraverseAndExtract.simps) (simp add: Let_def nth_append)
  next
    case False
    let ?two = "2 * pos + 1 < width (length txids) h"
    obtain lb lh where l: "TraverseAndBuild H n h (2 * pos) txids m = (lb, lh)" by fastforce
    obtain rb rh where r: "TraverseAndBuild H n h (2 * pos + 1) txids m = (rb, rh)" by fastforce
    have bits: "bits = True # lb @ (if ?two then rb else [])" "hashes = lh @ (if ?two then rh else [])"
      using Suc(5) False TraverseAndBuild_Suc [OF assms(1,2) Suc(2), of H pos m] l r by auto
    let ?x = "x\<lparr>nBitsUsed := nBitsUsed x + 1\<rparr>"
    have pos: "2 * pos < width (length txids) h" using Suc(4) by (auto simp: width_Suc)
    define y where "y = ?x\<lparr>nBitsUsed := length (b @ True # lb), nHashUsed := length (g @ lh),
       matches := matches x @ map ((!) txids) (selected m (length txids) h (2 * pos)), vnIndex := vnIndex x @ selected m (length txids) h (2 * pos)\<rparr>"
    have left: "TraverseAndExtract H t h (pos * 2) ?x = (node H txids h (2 * pos), y)"
      using Suc(1) [OF _ _ pos l, of "b @ [True]" "(if ?two then rb else []) @ b'" g "(if ?two then rh else []) @ g'" ?x]
        Suc(2,3,6-9) by (simp add: bits y_def mult.commute)
    obtain r' z where r': "TraverseAndExtract H t h (pos * 2 + 1) y = (r', z)" by fastforce
    have step: "TraverseAndExtract H t (Suc h) pos x = (if ?two then (H (node H txids h (2 * pos)) r',
        if r' = node H txids h (2 * pos) then z\<lparr>bad := True\<rparr> else z) else (H (node H txids h (2 * pos)) (node H txids h (2 * pos)), y))"
      using TraverseAndExtract_Suc [OF _ _ left r'] Suc(6,8) by (simp add: bits w mult.commute)
    show ?thesis
    proof (cases ?two)
      case True
      have "TraverseAndExtract H t h (2 * pos + 1) y = (node H txids h (2 * pos + 1),
          y\<lparr>nBitsUsed := length (b @ bits), nHashUsed := length (g @ hashes),
            matches := matches y @ map ((!) txids) (selected m (length txids) h (2 * pos + 1)),
            vnIndex := vnIndex y @ selected m (length txids) h (2 * pos + 1)\<rparr>)"
        using Suc(1) [OF _ _ True r, of "b @ True # lb" b' "g @ lh" g' y] Suc(2,3,6-9) True
        by (simp add: bits y_def)
      moreover have "node H txids h (2 * pos + 1) \<noteq> node H txids h (2 * pos)"
        using siblings_differ [OF Suc(3) assms(3) True] by simp
      ultimately show ?thesis using True r' by (simp add: step mult.commute selected_Suc y_def)
    qed (use Suc(8,9) in \<open>simp add: step bits selected_Suc y_def\<close>)
  qed
qed

section \<open>Partial trees on the wire\<close>

lemma BitsToBytes_fixed: "BitsToBytes bits = WriteFixedBitSet bits (length bits)"
  by (simp add: BitsToBytes_def WriteFixedBitSet_def)

lemma BytesToBits_BitsToBytes:
  "BytesToBits (BitsToBytes bits) = bits @ replicate ((length bits + 7) div 8 * 8 - length bits) False"
proof (rule nth_equalityI)
  note spec = WriteFixedBitSet_spec [of bits, OF refl]
  show l: "length (BytesToBits (BitsToBytes bits)) = length (bits @ replicate ((length bits + 7) div 8 * 8 - length bits) False)"
    by (simp add: BytesToBits_def BitsToBytes_fixed spec(1))
  fix p assume "p < length (BytesToBits (BitsToBytes bits))"
  then have p: "p < (length bits + 7) div 8 * 8" by (simp add: BytesToBits_def BitsToBytes_fixed spec(1))
  then have "p div 8 < (length bits + 7) div 8" by (simp add: less_mult_imp_div_less)
  then have "bit (BitsToBytes bits ! (p div 8)) (p mod 8) \<longleftrightarrow> p < length bits \<and> bits ! p"
    using spec(2) [of "p div 8" "p mod 8"] by (simp add: BitsToBytes_fixed)
  then show "BytesToBits (BitsToBytes bits) ! p = (bits @ replicate ((length bits + 7) div 8 * 8 - length bits) False) ! p"
    using p by (auto simp: BytesToBits_def BitsToBytes_fixed spec(1) nth_append and_exp_eq_0_iff_not_bit)
qed

interpretation hash256: codec ser_uint256 unser_uint256 "\<lambda>h. length h = 32"
  by unfold_locales (simp add: ser_uint256_def unser_uint256_def read_bytes_def)

lemma node_length:
  "(\<And>a b. length (H a b) = 32) \<Longrightarrow> list_all (\<lambda>h. length h = 32) xs \<Longrightarrow> p < width (length xs) k \<Longrightarrow> length (node H xs k p) = 32"
  by (cases k) (auto simp: list_all_length)

lemma build_hashes:
  assumes "unat n = length txids" "length txids \<le> 2 ^ 16" "h \<le> 16" "pos < width (length txids) h"
    and "\<And>a b. length (H a b) = 32" "list_all (\<lambda>h. length h = 32) txids"
    and "TraverseAndBuild H n h pos txids m = (bits, hashes)"
  shows "list_all (\<lambda>h. length h = 32) hashes \<and> length bits < 2 ^ (h + 1)"
  using assms(3,4,7)
proof (induction h arbitrary: pos bits hashes)
  case 0
  then show ?case using assms(1,6) by (auto simp: TraverseAndBuild_0 list_all_length)
next
  case (Suc h)
  obtain lb lh where l: "TraverseAndBuild H n h (2 * pos) txids m = (lb, lh)" by fastforce
  obtain rb rh where r: "TraverseAndBuild H n h (2 * pos + 1) txids m = (rb, rh)" by fastforce
  have pos: "2 * pos < width (length txids) h" using Suc(3) by (auto simp: width_Suc)
  have small: "1 < (2 :: nat) ^ (Suc h + 1)" by (rule one_less_power) simp_all
  show ?case
    using Suc(4) Suc(1) [OF _ pos l] Suc(1) [OF _ _ r] Suc(2) small
    unfolding TraverseAndBuild_Suc [OF assms(1,2) Suc(2)] l r
    by (auto simp: assms(5) split: if_splits)
qed

text \<open>
  C13. A partial Merkle tree survives the wire and proves what it was built for: for the transaction hashes of a block and any
  selection of them, reading the serialised tree back and extracting its matches gives the Merkle root of the block and
  exactly the selected hashes with their positions, provided the block is within the size limit of the extraction and
  its tree is not a mutated one.
\<close>

theorem partial_tree_round_trip:
  assumes "txids \<noteq> []" "length txids \<le> MaxBlockSize True div 60" "\<not> snd (ComputeMerkleRoot H txids)"
    and "list_all (\<lambda>h. length h = 32) txids" "\<And>a b. length (H a b) = 32"
    and "is = filter (\<lambda>i. m ! i) [0..<length txids]"
  shows "\<exists>t. unser_partial_tree (ser_partial_tree (CPartialMerkleTree_of H txids m) @ rest) = Some (t, rest)
     \<and> ExtractMatches H t [] = (fst (ComputeMerkleRoot H txids), map ((!) txids) is, is)"
proof -
  define n :: u32 where "n = of_nat (length txids)"
  let ?h = "tree_height n 0"
  have lim: "MaxBlockSize True div 60 = 33333" by (simp add: MaxBlockSize_def MAX_DIP0001_BLOCK_SIZE_def)
  have n: "unat n = length txids" "0 < unat n" "length txids \<le> 2 ^ 16" "unat n \<le> 2 ^ 16"
    using assms(1,2) lim unat_of_nat_small(3) [of "length txids"] by (simp_all add: n_def)
  note hw = tree_height_width [OF n(2,4), unfolded n(1)]
  obtain bits hashes where b: "TraverseAndBuild H n ?h 0 txids m = (bits, hashes)" by fastforce
  have top_pos: "0 < width (length txids) ?h" using hw by simp
  have sizes: "length hashes \<le> length txids" "length hashes \<le> length bits"
    using build_sizes [OF n(1,3) hw(2) top_pos b] by (simp_all add: below_def)
  have hs: "list_all (\<lambda>h. length h = 32) hashes" "length bits < 2 ^ (?h + 1)"
    using build_hashes [OF n(1,3) hw(2) top_pos assms(5,4) b] by auto
  have "(2 :: nat) ^ (?h + 1) \<le> 2 ^ 17" using hw(2) by (intro power_increasing) auto
  then have small: "length bits < 2 ^ 17" using hs(2) by linarith
  define t where "t = \<lparr>nTransactions = n, vBits = bits @ replicate ((length bits + 7) div 8 * 8 - length bits) False, vHash = hashes, fBad = False\<rparr>"
  have "length (BitsToBytes bits) \<le> MAX_SIZE"
    using small by (simp add: BitsToBytes_fixed WriteFixedBitSet_spec(1) [of bits, OF refl] MAX_SIZE_def)
  then have "unser_partial_tree (ser_partial_tree (CPartialMerkleTree_of H txids m) @ rest) = Some (t, rest)"
    using hs(1) sizes(1) assms(2) lim small
    by (simp add: unser_partial_tree_def ser_partial_tree_def CPartialMerkleTree_of_def b flip: n_def)
       (simp add: u32.dec_enc hash256.vector_dec_enc blob.dec_enc MAX_SIZE_def BytesToBits_BitsToBytes t_def)
  moreover have "fst (ComputeMerkleRoot H txids) = node H txids ?h 0"
    using root_level [of ?h txids H] hw level_node [of H txids ?h] by (simp add: ComputeMerkleRoot_single)
  moreover have "TraverseAndExtract H t ?h 0 (extraction_start t) = (node H txids ?h 0, (extraction_start t)
     \<lparr>nBitsUsed := length bits, nHashUsed := length hashes, matches := map ((!) txids) is, vnIndex := is\<rparr>)"
    using build_extract [OF n(1,3) assms(3) _ hw(2,3) top_pos b, of t "[]" _ "[]" "[]" "extraction_start t"]
      width_less [of 1 "length txids" ?h] hw(1)
    by (simp add: t_def extraction_start_def selected_def below_def assms(6) min_def not_less)
  ultimately show ?thesis
    using n sizes assms(2) lim by (auto simp: ExtractMatches_def t_def extraction_start_def unat_eq_zero [symmetric])
qed

section \<open>Examples\<close>

text \<open>A hash of two hashes for the examples, and blocks of empty transactions told apart by their lock time.\<close>

definition example_join :: "uint256 \<Rightarrow> uint256 \<Rightarrow> uint256" where
  "example_join a b = (hd a + 2 * hd b + 7) # replicate 31 1"

definition example_txid :: "CTransaction \<Rightarrow> uint256" where
  "example_txid tx = ucast (nLockTime tx) # replicate 31 0"

definition example_block :: "u32 list \<Rightarrow> CBlock" where
  "example_block ts = CBlockHeader.extend CBlockHeader_null (CBlock.fields (map (\<lambda>i. CMutableTransaction_default\<lparr>nLockTime := i\<rparr>) ts))"

definition example_txids :: "uint256 list" where
  "example_txids = map (\<lambda>i. i # replicate 31 0) [1, 2, 3]"

lemma example_ids: "map example_txid (vtx (example_block [1, 2, 3])) = example_txids" "vtx (example_block (1 # ts)) \<noteq> []"
  by (simp_all add: example_block_def example_txids_def example_txid_def CBlock.defs CBlockHeader.defs CMutableTransaction_default_def)

lemma example_root: "ComputeMerkleRoot example_join example_txids = (51 # replicate 31 1, False)"
  by (simp add: ComputeMerkleRoot_def merkle_loop.simps example_txids_def padded_def example_join_def)

theorem partial_tree_round_trip_witness:
  "\<exists>t. unser_partial_tree (ser_partial_tree (CPartialMerkleTree_of example_join example_txids [False, False, True])) = Some (t, [])
     \<and> ExtractMatches example_join t [] = (51 # replicate 31 1, [3 # replicate 31 0], [2])"
  using partial_tree_round_trip [of example_txids example_join "[2]" "[False, False, True]" "[]"] example_root
  by (simp add: example_txids_def MaxBlockSize_def MAX_DIP0001_BLOCK_SIZE_def example_join_def upt_rec)

definition example_proof :: CPartialMerkleTree where
  "example_proof = \<lparr>nTransactions = 3, vBits = [True, False, True, True], vHash = [12 # replicate 31 1, 3 # replicate 31 0], fBad = False\<rparr>"

lemma extracted_pairs_unfold:
  "extracted_pairs H t h pos x =
     (if h = 0 \<or> nBitsUsed x \<ge> length (vBits t) \<or> \<not> vBits t ! nBitsUsed x then {}
      else let (left, y) = TraverseAndExtract H t (h - 1) (pos * 2) (x\<lparr>nBitsUsed := nBitsUsed x + 1\<rparr>)
           in extracted_pairs H t (h - 1) (pos * 2) (x\<lparr>nBitsUsed := nBitsUsed x + 1\<rparr>) \<union>
              (if pos * 2 + 1 < unat (CalcTreeWidth (nTransactions t) (h - 1))
               then insert (left, fst (TraverseAndExtract H t (h - 1) (pos * 2 + 1) y)) (extracted_pairs H t (h - 1) (pos * 2 + 1) y)
               else {(left, left)}))"
  by (cases h) (simp_all only: extracted_pairs.simps diff_Suc_1 nat.distinct simp_thms if_True if_False)

theorem extracted_matches_are_in_block_witness:
  "ExtractMatches example_join example_proof [] = (51 # replicate 31 1, [3 # replicate 31 0], [2])
   \<and> [3 # replicate 31 0] = map ((!) example_txids) [2]"
proof -
  have h: "tree_height 3 0 = 2" by (simp add: tree_height.simps CalcTreeWidth_def)
  have x: "ExtractMatches example_join example_proof [] = (51 # replicate 31 1, [3 # replicate 31 0], [2])"
    by (simp add: ExtractMatches_def example_proof_def h TraverseAndExtract.simps CalcTreeWidth_def example_join_def
        MaxBlockSize_def MAX_DIP0001_BLOCK_SIZE_def Let_def)
  have free: "\<not> (\<exists>p \<in> hashed example_join example_txids. \<exists>q \<in> extracted_pairs example_join example_proof
      (tree_height (nTransactions example_proof) 0) 0 (extraction_start example_proof). p \<noteq> q \<and> join example_join p = join example_join q)"
    by (simp add: example_proof_def h extraction_start_def extracted_pairs_unfold Let_def TraverseAndExtract.simps CalcTreeWidth_def
        hashed.simps example_txids_def padded_def example_join_def join_def)
  have "[3 # replicate 31 0] = map ((!) example_txids) [2]"
    using extracted_matches_are_in_block [OF x _ _ _ free] example_root by (simp add: example_proof_def example_txids_def)
  then show ?thesis using x by simp
qed

end
