(* ===== verification/Pow.thy ===== *)
theory Pow
  imports Block_Index
begin

text \<open>
  The difficulty rules of \<^verbatim>\<open>pow.cpp\<close>. A multiplication of a target by an \<open>int64_t\<close> selects the
  overload for \<open>uint32_t\<close>, so the factor is truncated to 32 bits; a division by one goes through
  the constructor from \<open>uint64_t\<close>.

  Kimoto's gravity well compares ratios in double precision. The two floating-point computations
  are parameters: \<open>secondsMin\<close> is the truncated product of the timespan with the literal 0.025,
  and \<open>horizon mass actual target\<close> is the test that leaves the loop once the ratio of
  the target seconds to the actual seconds is outside the event horizon for that many blocks.
\<close>

definition lift_arith :: "uint_error + 'a \<Rightarrow> chain_error + 'a" where
  "lift_arith m = (case m of Inl e \<Rightarrow> Inl (Arith_error e) | Inr x \<Rightarrow> Inr x)"

definition int64_u32 :: "int \<Rightarrow> u32" where
  "int64_u32 n = word_of_int n"

definition int64_u64 :: "int \<Rightarrow> u64" where
  "int64_u64 n = word_of_int n"

section \<open>The retarget step all three rules end with\<close>

definition retarget :: "base_uint \<Rightarrow> int \<Rightarrow> int \<Rightarrow> base_uint \<Rightarrow> chain_error + base_uint" where
  "retarget bn nActual nTarget bnPowLimit =
     bind_sum (lift_arith (uint_div (uint_mul32 bn (int64_u32 nActual)) (of_uint64 (int64_u64 nTarget))))
       (\<lambda>bnNew. Inr (if CompareTo bnNew bnPowLimit > 0 then bnPowLimit else bnNew))"

definition clamp_timespan :: "int \<Rightarrow> int \<Rightarrow> int \<Rightarrow> int" where
  "clamp_timespan k nTarget nActual =
     (let a = (if nActual < cdiv nTarget k then cdiv nTarget k else nActual)
      in if a > nTarget * k then nTarget * k else a)"

section \<open>Kimoto's gravity well\<close>

definition kgw_average :: "u32 \<Rightarrow> base_uint \<Rightarrow> base_uint \<Rightarrow> chain_error + base_uint" where
  "kgw_average i avg prev =
     (if i > 1
      then if CompareTo avg prev \<ge> 0
           then bind_sum (lift_arith (uint_div (uint_sub avg prev) (of_uint64 (ucast i))))
                  (\<lambda>d. Inr (uint_add d prev))
           else bind_sum (lift_arith (uint_div (uint_sub prev avg) (of_uint64 (ucast i))))
                  (\<lambda>d. Inr (uint_sub prev d))
      else Inr avg)"

primrec kgw_loop ::
    "nat \<Rightarrow> (nat \<Rightarrow> int \<Rightarrow> int \<Rightarrow> bool) \<Rightarrow> BlockMap \<Rightarrow> int \<Rightarrow> nat \<Rightarrow> nat \<Rightarrow> int \<Rightarrow>
     nat \<Rightarrow> ptr option \<Rightarrow> base_uint \<times> int \<times> int \<Rightarrow> chain_error + (base_uint \<times> int \<times> int)" where
  "kgw_loop 0 horizon bm lastTime blocksMin blocksMax spacing i reading st = Inl Fuel_exhausted"
| "kgw_loop (Suc fuel) horizon bm lastTime blocksMin blocksMax spacing i reading st =
     (case reading of None \<Rightarrow> Inr st
      | Some p \<Rightarrow> bind_sum (deref bm p) (\<lambda>b.
          if \<not> nHeight b > 0 then Inr st
          else if blocksMax > 0 \<and> i > blocksMax then Inr st
          else bind_sum (kgw_average (of_nat i) (fst (SetCompact (nBits b))) (fst st)) (\<lambda>avg.
               let actual0 = lastTime - GetBlockTime b;
                   target = spacing * int i;
                   actual = (if actual0 < 0 then 0 else actual0);
                   st' = (avg, actual, target)
               in if i \<ge> blocksMin \<and> horizon i actual target then Inr st'
                  else case pprev b of None \<Rightarrow> Inr st'
                    | Some q \<Rightarrow> kgw_loop fuel horizon bm lastTime blocksMin blocksMax spacing (Suc i) (Some q) st')))"

definition KimotoGravityWell ::
    "(nat \<Rightarrow> int \<Rightarrow> int \<Rightarrow> bool) \<Rightarrow> (int \<Rightarrow> int) \<Rightarrow> BlockMap \<Rightarrow> ptr option \<Rightarrow> Params \<Rightarrow> int \<Rightarrow> chain_error + u32" where
  "KimotoGravityWell horizon secondsMin bm pindexLast params nTargetSpacing =
     (let blocksMin = cdiv (secondsMin (nPowTargetTimespan params)) nTargetSpacing;
          blocksMax = cdiv (nPowTargetTimespan params * 7) nTargetSpacing;
          limit = UintToArith256 (powLimit params)
      in case pindexLast of None \<Rightarrow> Inr (GetCompact limit False)
         | Some p \<Rightarrow> bind_sum (deref bm p) (\<lambda>b.
             if nHeight b = 0 \<or> nHeight b < blocksMin then Inr (GetCompact limit False)
             else bind_sum (kgw_loop (nat (nHeight b) + 2) horizon bm (GetBlockTime b) (nat blocksMin)
                              (nat blocksMax) nTargetSpacing 1 (Some p) (uint_zero, 0, 0))
               (\<lambda>(avg, actual, target).
                 bind_sum (if actual \<noteq> 0 \<and> target \<noteq> 0 then retarget avg actual target limit
                           else Inr (if CompareTo avg limit > 0 then limit else avg))
                   (\<lambda>bnNew. Inr (GetCompact bnNew False)))))"

section \<open>Dark gravity wave\<close>

definition nPastBlocks :: nat where
  "nPastBlocks = 20"

text \<open>\<open>dgw_loop left count\<close> runs the iterations \<open>count, \<dots>, count + left - 1\<close> of the averaging loop.\<close>

primrec dgw_loop :: "nat \<Rightarrow> BlockMap \<Rightarrow> nat \<Rightarrow> ptr \<Rightarrow> base_uint \<Rightarrow> chain_error + (base_uint \<times> ptr)" where
  "dgw_loop 0 bm nCountBlocks pindex avg = Inr (avg, pindex)"
| "dgw_loop (Suc left) bm nCountBlocks pindex avg =
     bind_sum (deref bm pindex) (\<lambda>b.
       let bnTarget = fst (SetCompact (nBits b))
       in bind_sum (if nCountBlocks = 1 then Inr bnTarget
                    else lift_arith (uint_div (uint_add (uint_mul32 avg (of_nat nCountBlocks)) bnTarget)
                                       (of_uint64 (of_nat (nCountBlocks + 1)))))
            (\<lambda>avg'. if nCountBlocks \<noteq> nPastBlocks
                     then case pprev b of None \<Rightarrow> Inl Assertion_failed
                          | Some q \<Rightarrow> dgw_loop left bm (nCountBlocks + 1) q avg'
                     else dgw_loop left bm (nCountBlocks + 1) pindex avg'))"

definition DarkGravityWave :: "BlockMap \<Rightarrow> ptr option \<Rightarrow> Params \<Rightarrow> int \<Rightarrow> chain_error + u32" where
  "DarkGravityWave bm pindexLast params nTargetSpacing =
     (let bnPowLimit = UintToArith256 (powLimit params)
      in case pindexLast of None \<Rightarrow> Inr (GetCompact bnPowLimit False)
         | Some p \<Rightarrow> bind_sum (deref bm p) (\<lambda>lst.
             if nHeight lst < int nPastBlocks then Inr (GetCompact bnPowLimit False)
             else bind_sum (dgw_loop nPastBlocks bm 1 p uint_zero) (\<lambda>(avg, q).
                  bind_sum (deref bm q) (\<lambda>fst_b.
                    let nTargetTimespan = int nPastBlocks * nTargetSpacing;
                        nActualTimespan = clamp_timespan 3 nTargetTimespan (GetBlockTime lst - GetBlockTime fst_b)
                    in bind_sum (retarget avg nActualTimespan nTargetTimespan bnPowLimit)
                         (\<lambda>bnNew. Inr (GetCompact bnNew False))))))"

section \<open>The interval rule\<close>

definition CalculateNextWorkRequired :: "CBlockIndex \<Rightarrow> int \<Rightarrow> Params \<Rightarrow> chain_error + u32" where
  "CalculateNextWorkRequired lst nFirstBlockTime params =
     (if fPowNoRetargeting params then Inr (nBits lst)
      else let nActualTimespan = clamp_timespan 4 (nPowTargetTimespan params) (GetBlockTime lst - nFirstBlockTime)
           in bind_sum (retarget (fst (SetCompact (nBits lst))) nActualTimespan (nPowTargetTimespan params)
                          (UintToArith256 (powLimit params)))
                (\<lambda>bnNew. Inr (GetCompact bnNew False)))"

primrec last_non_special :: "nat \<Rightarrow> BlockMap \<Rightarrow> Params \<Rightarrow> u32 \<Rightarrow> ptr \<Rightarrow> chain_error + u32" where
  "last_non_special 0 bm params limit pindex = Inl Fuel_exhausted"
| "last_non_special (Suc fuel) bm params limit pindex =
     bind_sum (deref bm pindex) (\<lambda>b. case pprev b of None \<Rightarrow> Inr (nBits b)
       | Some q \<Rightarrow> if cmod (nHeight b) (DifficultyAdjustmentInterval params) \<noteq> 0 \<and> nBits b = limit
                   then last_non_special fuel bm params limit q else Inr (nBits b))"

definition GetNextWorkRequiredBTC :: "BlockMap \<Rightarrow> ptr \<Rightarrow> CBlockHeader \<Rightarrow> Params \<Rightarrow> chain_error + u32" where
  "GetNextWorkRequiredBTC bm pindexLast pblock params =
     bind_sum (deref bm pindexLast) (\<lambda>lst.
       let nTargetSpacing = PowTargetSpacing params (nHeight lst + 1);
           nProofOfWorkLimit = GetCompact (UintToArith256 (powLimit params)) False;
           interval = DifficultyAdjustmentInterval params
       in if cmod (nHeight lst + 1) interval \<noteq> 0
          then if fPowAllowMinDifficultyBlocks params
               then if uint (hdr_nTime pblock) > GetBlockTime lst + nTargetSpacing * 2 then Inr nProofOfWorkLimit
                    else last_non_special (nat (nHeight lst) + 2) bm params nProofOfWorkLimit pindexLast
               else Inr (nBits lst)
          else let nHeightFirst = nHeight lst - (interval - 1)
               in if \<not> nHeightFirst \<ge> 0 then Inl Assertion_failed
                  else bind_sum (GetAncestor bm pindexLast nHeightFirst) (\<lambda>a. case a of
                         None \<Rightarrow> Inl Assertion_failed
                       | Some q \<Rightarrow> bind_sum (deref bm q) (\<lambda>first.
                           CalculateNextWorkRequired lst (GetBlockTime first) params)))"

section \<open>The rule of the node\<close>

definition GetNextWorkRequired ::
    "(nat \<Rightarrow> int \<Rightarrow> int \<Rightarrow> bool) \<Rightarrow> (int \<Rightarrow> int) \<Rightarrow> BlockMap \<Rightarrow> ptr \<Rightarrow> CBlockHeader \<Rightarrow> Params \<Rightarrow> chain_error + u32" where
  "GetNextWorkRequired horizon secondsMin bm pindexLast pblock params =
     bind_sum (deref bm pindexLast) (\<lambda>lst.
       let nNextHeight = nHeight lst + 1;
           nTargetSpacing = PowTargetSpacing params nNextHeight;
           bnPowLimit = UintToArith256 (powLimit params);
           late = (\<lambda>secs. uint (hdr_nTime pblock) > GetBlockTime lst + secs)
       in if nHeight lst < nMinimumDifficultyBlocks params then Inr (GetCompact bnPowLimit False)
          else if nNextHeight \<ge> nKSHv005ForkHeight params \<and> cmod nNextHeight 20 \<noteq> 0 then Inr (nBits lst)
          else if \<not> nNextHeight \<ge> nKSHv005ForkHeight params \<and>
                  nPowTargetTimespan params = 20 * 60 \<and> cmod nNextHeight 20 \<noteq> 0 then Inr (nBits lst)
          else if nHeight lst + 1 < nPowKGWHeight params then GetNextWorkRequiredBTC bm pindexLast pblock params
          else if fPowNoRetargeting params then Inr (GetCompact bnPowLimit False)
          else if fPowAllowMinDifficultyBlocks params \<and> late (2 * 60 * 60) then Inr (GetCompact bnPowLimit False)
          else if fPowAllowMinDifficultyBlocks params \<and> late (nTargetSpacing * 4)
               then let bnNew = uint_mul32 (fst (SetCompact (nBits lst))) 10
                    in if CompareTo bnNew bnPowLimit > 0 then Inr (GetCompact bnPowLimit False)
                       else Inr (GetCompact bnNew False)
          else if nHeight lst + 1 < nPowDGWHeight params
               then KimotoGravityWell horizon secondsMin bm (Some pindexLast) params nTargetSpacing
          else DarkGravityWave bm (Some pindexLast) params nTargetSpacing)"

section \<open>Checking a proof of work\<close>

definition CheckProofOfWork :: "uint256 \<Rightarrow> u32 \<Rightarrow> Params \<Rightarrow> bool" where
  "CheckProofOfWork hash bits params =
     (let (bnTarget, fNegative, fOverflow) = SetCompact bits
      in if fNegative \<or> EqualTo bnTarget 0 \<or> fOverflow \<or>
            CompareTo bnTarget (UintToArith256 (powLimit params)) > 0 then False
         else if CompareTo (UintToArith256 hash) bnTarget > 0 then False
         else True)"

section \<open>Retargeting computes the scaled target\<close>

lemma unat_int64_u32: "0 \<le> n \<Longrightarrow> n < 2 ^ 32 \<Longrightarrow> unat (int64_u32 n) = nat n"
  by (simp add: int64_u32_def unsigned_of_int take_bit_int_eq_self)

lemma unat_int64_u64: "0 \<le> n \<Longrightarrow> n < 2 ^ 64 \<Longrightarrow> unat (int64_u64 n) = nat n"
  by (simp add: int64_u64_def unsigned_of_int take_bit_int_eq_self)

lemma retarget_value:
  assumes "limbs bn" "limbs limit" "0 \<le> a" "a < 2 ^ 32" "0 < t" "t < 2 ^ 64"
  shows "\<exists>r. retarget bn a t limit = Inr r \<and> limbs r \<and>
             uval r = min ((uval bn * nat a) mod 2 ^ 256 div nat t) (uval limit)"
proof -
  have "int64_u64 t \<noteq> 0" using unat_int64_u64 [of t] assms(5,6) by auto
  then obtain q where q: "uint_div (uint_mul32 bn (int64_u32 a)) (of_uint64 (int64_u64 t)) = Inr q" "limbs q"
      "uval q = (uval bn * nat a) mod 2 ^ 256 div nat t"
    using limb.scale_value [OF assms(1), of "int64_u64 t" "int64_u32 a"] unat_int64_u32 [OF assms(3,4)]
      unat_int64_u64 [of t] assms(5,6) by auto
  show ?thesis
    using limb.capped_ok [OF q(2) assms(2)] q(1,3) by (simp add: retarget_def lift_arith_def)
qed

lemma clamp_bounds:
  assumes "0 < k" "0 < t"
  shows "cdiv t k \<le> clamp_timespan k t a" "clamp_timespan k t a \<le> t * k" "0 \<le> clamp_timespan k t a"
proof -
  have le: "t * 1 \<le> t * k" using assms by (intro mult_left_mono) auto
  have "t div k \<le> t" "0 \<le> t div k" "cdiv t k = t div k"
    using assms zdiv_mono2 [of t 1 k] by (auto simp: pos_imp_zdiv_nonneg_iff)
  with le have "0 \<le> cdiv t k" "cdiv t k \<le> t * k" by linarith+
  then show "cdiv t k \<le> clamp_timespan k t a" "clamp_timespan k t a \<le> t * k" "0 \<le> clamp_timespan k t a"
    by (auto simp: clamp_timespan_def Let_def)
qed

section \<open>Required targets never exceed the limit\<close>

definition bits_within_limit :: "Params \<Rightarrow> u32 \<Rightarrow> bool" where
  "bits_within_limit params c = (let (v, neg, ovf) = SetCompact c
     in \<not> neg \<and> \<not> ovf \<and> uval v \<le> uval (UintToArith256 (powLimit params)))"

definition target_of :: "CBlockIndex \<Rightarrow> nat" where
  "target_of b = uval (fst (SetCompact (nBits b)))"

lemma bits_within_limit_GetCompact:
  assumes "limbs a" "uval a \<le> uval (UintToArith256 (powLimit params))"
  shows "bits_within_limit params (GetCompact a False)"
proof -
  have "uval a div 256 ^ compact_shift a * 256 ^ compact_shift a \<le> uval a" by (rule div_times_less_eq_dividend)
  then have "uval (fst (SetCompact (GetCompact a False))) \<le> uval (UintToArith256 (powLimit params))"
    using SetCompact_GetCompact_value(2) [OF assms(1)] assms(2) by linarith
  then show ?thesis
    unfolding bits_within_limit_def by (subst SetCompact_GetCompact_value(1) [OF assms(1)]) simp
qed

lemma bits_within_limit_limit [simp]: "bits_within_limit params (GetCompact (UintToArith256 (powLimit params)) False)"
  by (rule bits_within_limit_GetCompact) simp_all

lemma bits_within_limit_target: "bits_within_limit params (nBits b) \<Longrightarrow> target_of b \<le> uval (UintToArith256 (powLimit params))"
  by (auto simp: bits_within_limit_def target_of_def split: prod.splits)

lemma retarget_bits_ok:
  assumes "limbs bn" "0 \<le> a" "a < 2 ^ 32" "0 < t" "t < 2 ^ 64"
  shows "\<exists>c. bind_sum (retarget bn a t (UintToArith256 (powLimit params))) (\<lambda>r. Inr (GetCompact r False)) = Inr c \<and>
             bits_within_limit params c"
proof -
  obtain r where "retarget bn a t (UintToArith256 (powLimit params)) = Inr r" "limbs r"
    "uval r \<le> uval (UintToArith256 (powLimit params))"
    using retarget_value [OF assms(1) _ assms(2-5), of "UintToArith256 (powLimit params)"] by auto
  then show ?thesis using bits_within_limit_GetCompact by simp
qed

section \<open>The average of dark gravity wave\<close>

text \<open>The loop over numbers: each step weighs the running value with the number of blocks seen.\<close>

primrec dgw_mean :: "nat \<Rightarrow> nat \<Rightarrow> nat list \<Rightarrow> nat" where
  "dgw_mean n avg [] = avg"
| "dgw_mean n avg (t # ts) = dgw_mean (n + 1) (if n = 1 then t else (avg * n + t) div (n + 1)) ts"

lemma mean_step_le:
  fixes avg n t u :: nat
  assumes "avg \<le> u" "t \<le> u"
  shows "(avg * n + t) div (n + 1) \<le> u"
proof -
  have "avg * n + t \<le> u * n + u" using assms by (intro add_mono mult_right_mono) auto
  then have "(avg * n + t) div (n + 1) \<le> (u * (n + 1)) div (n + 1)" by (intro div_le_mono) simp
  also have "\<dots> = u" by (rule nonzero_mult_div_cancel_right) simp
  finally show ?thesis .
qed

lemma mean_step_ge:
  fixes avg n t l :: nat
  assumes "l \<le> avg" "l \<le> t"
  shows "l \<le> (avg * n + t) div (n + 1)"
proof -
  have "l * (n + 1) \<le> avg * n + t" using assms add_mono [OF mult_right_mono [OF assms(1), of n] assms(2)] by simp
  then have "(l * (n + 1)) div (n + 1) \<le> (avg * n + t) div (n + 1)" by (rule div_le_mono)
  moreover have "(l * (n + 1)) div (n + 1) = l" by (rule nonzero_mult_div_cancel_right) simp
  ultimately show ?thesis by simp
qed

lemma dgw_mean_bounds:
  assumes "\<And>t. t \<in> set ts \<Longrightarrow> l \<le> t \<and> t \<le> u" "n \<noteq> 1 \<or> ts = [] \<Longrightarrow> l \<le> avg \<and> avg \<le> u"
  shows "l \<le> dgw_mean n avg ts \<and> dgw_mean n avg ts \<le> u"
  using assms
proof (induction ts arbitrary: n avg)
  case (Cons t ts)
  have "l \<le> t" "t \<le> u" using Cons.prems(1) [of t] by auto
  then show ?case
    using Cons.prems mean_step_le [of avg u t n] mean_step_ge [of l avg t n] by (auto intro!: Cons.IH)
qed simp

definition dgw_step :: "nat \<Rightarrow> base_uint \<Rightarrow> base_uint \<Rightarrow> chain_error + base_uint" where
  "dgw_step count avg bnTarget =
     (if count = 1 then Inr bnTarget
      else lift_arith (uint_div (uint_add (uint_mul32 avg (of_nat count)) bnTarget) (of_uint64 (of_nat (count + 1)))))"

lemma dgw_step_correct:
  assumes "limbs avg" "limbs t" "uval avg \<le> M" "uval t \<le> M" "M * 21 < 2 ^ 256" "count \<le> 20"
  shows "\<exists>a. dgw_step count avg t = Inr a \<and> limbs a \<and> uval a \<le> M \<and>
      uval a = (if count = 1 then uval t else (uval avg * count + uval t) div (count + 1))"
proof (cases "count = 1")
  case False
  have w: "unat (of_nat count :: u32) = count" "unat (of_nat (count + 1) :: u64) = count + 1"
    using assms(6) by (simp_all add: unsigned_of_nat take_bit_nat_eq_self_iff del: of_nat_add of_nat_Suc)
  have "uval avg * count + uval t \<le> M * count + M" using assms(3,4) by (intro add_mono mult_right_mono) auto
  also have "\<dots> = M * (count + 1)" by simp
  also have "\<dots> \<le> M * 21" using assms(6) by (intro mult_left_mono) auto
  finally have small: "uval avg * count + uval t < 2 ^ 256" using assms(5) by linarith
  then have "uval (uint_mul32 avg (of_nat count)) = uval avg * count"
    using assms(1) w(1) by (simp add: uval_uint_mul32 WIDTH_def)
  then have s: "uval (uint_add (uint_mul32 avg (of_nat count)) t) = uval avg * count + uval t"
    using small assms(1,2) by (simp add: uval_uint_add WIDTH_def)
  have d: "uval (of_uint64 (of_nat (count + 1))) = count + 1" using w(2) by (simp only: uval_of_uint64)
  obtain a where "uint_div (uint_add (uint_mul32 avg (of_nat count)) t) (of_uint64 (of_nat (count + 1))) = Inr a"
    "limbs a" "uval a = (uval avg * count + uval t) div (count + 1)"
    using uint_div_spec [of "uint_add (uint_mul32 avg (of_nat count)) t" "of_uint64 (of_nat (count + 1))"] s d assms(1,2)
    by (auto simp del: of_nat_add of_nat_Suc)
  then show ?thesis using False mean_step_le [OF assms(3,4)] by (simp add: dgw_step_def lift_arith_def)
qed (use assms in \<open>simp add: dgw_step_def\<close>)

text \<open>The targets of the last blocks of the branch of \<open>p\<close>, the newest first.\<close>

definition anc_target :: "BlockMap \<Rightarrow> ptr \<Rightarrow> int \<Rightarrow> nat" where
  "anc_target bm p k = (case ancestor_at bm p k of None \<Rightarrow> 0
     | Some r \<Rightarrow> (case bm r of None \<Rightarrow> 0 | Some c \<Rightarrow> target_of c))"

lemma dgw_loop_correct:
  assumes "linked bm" "bm p = Some b" "int nPastBlocks \<le> nHeight b"
    and "\<And>k. nHeight b - int nPastBlocks < k \<Longrightarrow> k \<le> nHeight b \<Longrightarrow> anc_target bm p k \<le> M"
    and "M * 21 < 2 ^ 256"
    and "limbs avg" "uval avg \<le> M" "count + left = 21" "1 \<le> count" "1 \<le> left"
    and "ancestor_at bm p (nHeight b + 1 - int count) = Some r"
  shows "\<exists>a q. dgw_loop left bm count r avg = Inr (a, q) \<and> limbs a \<and>
    ancestor_at bm p (nHeight b + 1 - int nPastBlocks) = Some q \<and>
    uval a = dgw_mean count (uval avg) (map (\<lambda>i. anc_target bm p (nHeight b + 1 - int i)) [count..<21])"
  using assms(6-11)
proof (induction left arbitrary: count r avg)
  case (Suc left)
  let ?h = "nHeight b + 1 - int count"
  have cnt: "count \<le> 20" using Suc.prems(3,5) by simp
  obtain c where c: "bm r = Some c" "nHeight c = ?h" "pprev c = ancestor_at bm p (?h - 1)"
    using ancestor_step [OF assms(1) Suc.prems(6)] by auto
  have t: "anc_target bm p ?h = target_of c" using Suc.prems(6) c(1) by (simp add: anc_target_def)
  then have tM: "uval (fst (SetCompact (nBits c))) \<le> M"
    using assms(4) [of ?h] cnt Suc.prems(4) by (simp add: nPastBlocks_def target_of_def)
  obtain a where a: "dgw_step count avg (fst (SetCompact (nBits c))) = Inr a" "limbs a" "uval a \<le> M"
    "uval a = (if count = 1 then target_of c else (uval avg * count + target_of c) div (count + 1))"
    using dgw_step_correct [OF Suc.prems(1) _ Suc.prems(2) tM assms(5) cnt] by (auto simp: target_of_def)
  have step: "dgw_loop (Suc left) bm count r avg = (if count \<noteq> nPastBlocks
      then case pprev c of None \<Rightarrow> Inl Assertion_failed | Some q \<Rightarrow> dgw_loop left bm (count + 1) q a
      else dgw_loop left bm (count + 1) r a)"
    using a(1) c(1) by (simp add: Let_def dgw_step_def)
  have mean: "dgw_mean count (uval avg) (map (\<lambda>i. anc_target bm p (nHeight b + 1 - int i)) [count..<21]) =
      dgw_mean (count + 1) (uval a) (map (\<lambda>i. anc_target bm p (nHeight b + 1 - int i)) [count + 1..<21])"
    using cnt a(4) t by (simp add: upt_rec [of count])
  show ?case
  proof (cases "count = nPastBlocks")
    case True
    then show ?thesis
      unfolding step mean using Suc.prems(3,6) a(2) by (simp add: nPastBlocks_def)
  next
    case False
    then have lt: "count < 20" using cnt by (simp add: nPastBlocks_def)
    obtain q where q: "ancestor_at bm p (nHeight b + 1 - int (count + 1)) = Some q"
      using ancestor_at_exists [OF assms(1,2), of "nHeight b - int count"] assms(3) lt by (auto simp: nPastBlocks_def)
    then have "pprev c = Some q" using c(3) by (simp add: algebra_simps)
    then show ?thesis
      unfolding step mean using Suc.IH [OF a(2,3) _ _ _ q] Suc.prems(3) lt False by (simp del: upt_Suc)
  qed
qed simp

section \<open>What dark gravity wave returns\<close>

definition dgw_timespan :: "BlockMap \<Rightarrow> ptr \<Rightarrow> int \<Rightarrow> int \<Rightarrow> int" where
  "dgw_timespan bm p h spacing =
     clamp_timespan 3 (20 * spacing) (GetBlockTime (the (bm (the (ancestor_at bm p h))))
       - GetBlockTime (the (bm (the (ancestor_at bm p (h - 19))))))"

definition pow_params_ok :: "Params \<Rightarrow> bool" where
  "pow_params_ok p \<longleftrightarrow>
     0 < nPowTargetSpacing p \<and> nPowTargetSpacing p \<le> 1000000 \<and>
     0 < nKSHv040PowTargetSpacing p \<and> nKSHv040PowTargetSpacing p \<le> 1000000 \<and>
     nPowTargetSpacing p \<le> nPowTargetTimespan p \<and> 4 \<le> nPowTargetTimespan p \<and> nPowTargetTimespan p \<le> 1000000000 \<and>
     uval (UintToArith256 (powLimit p)) * 21 < 2 ^ 256"

lemma spacing_ok:
  assumes "pow_params_ok p"
  shows "0 < PowTargetSpacing p h" "PowTargetSpacing p h \<le> 1000000"
  using assms by (auto simp: pow_params_ok_def PowTargetSpacing_def)

lemma DarkGravityWave_value:
  assumes "linked bm" "bm p = Some b" "20 \<le> nHeight b" "0 < spacing" "spacing \<le> 1000000"
    and "\<And>k. nHeight b - 20 < k \<Longrightarrow> k \<le> nHeight b \<Longrightarrow> anc_target bm p k \<le> M" "M * 21 < 2 ^ 256"
  shows "\<exists>r. DarkGravityWave bm (Some p) params spacing = Inr (GetCompact r False) \<and> limbs r \<and>
    uval r = min ((dgw_mean 1 0 (map (\<lambda>i. anc_target bm p (nHeight b - int i)) [0..<20]) *
                   nat (dgw_timespan bm p (nHeight b) spacing)) mod 2 ^ 256 div nat (20 * spacing))
               (uval (UintToArith256 (powLimit params)))"
proof -
  have self: "ancestor_at bm p (nHeight b) = Some p" by (rule ancestor_at_self [OF assms(1,2)])
  obtain a q where a: "dgw_loop 20 bm 1 p uint_zero = Inr (a, q)" "limbs a"
    "ancestor_at bm p (nHeight b - 19) = Some q"
    "uval a = dgw_mean 1 0 (map (\<lambda>i. anc_target bm p (nHeight b + 1 - int i)) [1..<21])"
    using dgw_loop_correct [OF assms(1,2) _ _ assms(7), of uint_zero 1 20 p] assms(3,6) self
    by (auto simp: nPastBlocks_def simp del: upt_Suc upt_rec_numeral dgw_loop.simps)
  have "map (\<lambda>i. anc_target bm p (nHeight b + 1 - int i)) [1..<21] = map (\<lambda>i. anc_target bm p (nHeight b - int i)) [0..<20]"
    by (rule nth_equalityI) (auto simp: algebra_simps simp del: upt_rec_numeral)
  then have mean: "uval a = dgw_mean 1 0 (map (\<lambda>i. anc_target bm p (nHeight b - int i)) [0..<20])"
    using a(4) by simp
  obtain c where c: "bm q = Some c" using ancestor_step [OF assms(1) a(3)] by auto
  let ?t = "20 * spacing" and ?l = "UintToArith256 (powLimit params)"
  let ?a = "clamp_timespan 3 ?t (GetBlockTime b - GetBlockTime c)"
  have span: "dgw_timespan bm p (nHeight b) spacing = ?a"
    using self a(3) c assms(2) by (simp add: dgw_timespan_def)
  have "0 \<le> ?a" "?a < 2 ^ 32" "0 < ?t" "?t < 2 ^ 64"
    using clamp_bounds [of 3 ?t "GetBlockTime b - GetBlockTime c"] assms(4,5) by auto
  then obtain r where r: "retarget a ?a ?t ?l = Inr r" "limbs r"
      "uval r = min ((uval a * nat ?a) mod 2 ^ 256 div nat ?t) (uval ?l)"
    using retarget_value [OF a(2), of ?l ?a ?t] by auto
  have "DarkGravityWave bm (Some p) params spacing = Inr (GetCompact r False)"
    using a(1) r(1) c assms(2,3)
    by (simp add: DarkGravityWave_def Let_def nPastBlocks_def del: dgw_loop.simps)
  then show ?thesis using r(2,3) by (auto simp: span mean)
qed

section \<open>The required bits are in range\<close>

lemma GetBlockTime_bounds: "0 \<le> GetBlockTime b" "GetBlockTime b < 2 ^ 32"
proof -
  have "uint (nTime b) < 2 ^ LENGTH(32)" by (rule unsigned_less)
  then show "GetBlockTime b < 2 ^ 32" by (simp add: GetBlockTime_def)
qed (simp add: GetBlockTime_def)

lemma kgw_average_total:
  assumes "limbs avg" "limbs prev" "0 < i" "i < 2 ^ 32"
  shows "\<exists>a. kgw_average (of_nat i) avg prev = Inr a \<and> limbs a"
proof (cases "(1 :: u32) < of_nat i")
  case True
  have "unat (ucast (of_nat i :: u32) :: u64) = i" using assms(4)
    by (simp add: unsigned_ucast_eq unsigned_of_nat take_bit_nat_eq_self_iff)
  then have nz: "uval (of_uint64 (ucast (of_nat i :: u32))) \<noteq> 0" using assms(3) by (simp add: uval_of_uint64)
  show ?thesis
    using True uint_div_spec [OF _ _ nz, of "uint_sub avg prev"] uint_div_spec [OF _ _ nz, of "uint_sub prev avg"] assms(1,2)
    by (auto simp: kgw_average_def lift_arith_def)
qed (use assms in \<open>simp add: kgw_average_def\<close>)

lemma kgw_loop_total:
  assumes "linked bm" "0 < spacing" "spacing \<le> 1000000" "lastTime < 2 ^ 32"
    and "bm p = Some b" "nat (nHeight b) < fuel" "int i + nHeight b \<le> 2 ^ 31" "1 \<le> i"
    and "limbs (fst st)" "fst (snd st) \<in> {0..<2 ^ 32}" "snd (snd st) \<in> {0..<2 ^ 64}"
  shows "\<exists>a s t. kgw_loop fuel horizon bm lastTime bmin bmax spacing i (Some p) st = Inr (a, s, t) \<and>
           limbs a \<and> s \<in> {0..<2 ^ 32} \<and> t \<in> {0..<2 ^ 64}"
  using assms(5-11)
proof (induction fuel arbitrary: p b i st)
  case (Suc fuel)
  obtain a0 s0 t0 where st: "st = (a0, s0, t0)" by (cases st)
  have h: "0 \<le> nHeight b" by (rule linkedD(2) [OF assms(1) Suc.prems(1)])
  show ?case
  proof (cases "\<not> nHeight b > 0 \<or> (bmax > 0 \<and> i > bmax)")
    case True
    then show ?thesis using Suc.prems st by auto
  next
    case False
    then have i32: "i < 2 ^ 32" using Suc.prems(3) by auto
    obtain avg where avg: "kgw_average (of_nat i) (fst (SetCompact (nBits b))) a0 = Inr avg" "limbs avg"
      using kgw_average_total [of "fst (SetCompact (nBits b))" a0 i] Suc.prems(4,5) i32 st by auto
    let ?s = "max 0 (lastTime - GetBlockTime b)" and ?t = "spacing * int i"
    have s: "?s \<in> {0..<2 ^ 32}" using assms(4) GetBlockTime_bounds [of b] by auto
    have "?t \<le> 1000000 * 2 ^ 31" using assms(2,3) Suc.prems(3) h by (intro mult_mono) auto
    then have t: "?t \<in> {0..<2 ^ 64}" using assms(2) by auto
    obtain q c where q: "pprev b = Some q" "bm q = Some c" "nHeight c = nHeight b - 1"
      using linked_prev_exists [OF assms(1) Suc.prems(1)] False by auto
    have eq: "kgw_loop (Suc fuel) horizon bm lastTime bmin bmax spacing i (Some p) st =
        (if i \<ge> bmin \<and> horizon i ?s ?t then Inr (avg, ?s, ?t)
         else kgw_loop fuel horizon bm lastTime bmin bmax spacing (Suc i) (Some q) (avg, ?s, ?t))"
      using False Suc.prems(1) avg(1) q(1) st by (auto simp: Let_def max_def)
    show ?thesis
    proof (cases "i \<ge> bmin \<and> horizon i ?s ?t")
      case True
      then show ?thesis unfolding eq using avg(2) s t by simp
    next
      case go: False
      show ?thesis
        unfolding eq using Suc.IH [OF q(2), of "Suc i" "(avg, ?s, ?t)"] go Suc.prems(2,3) q(3) h avg(2) s t False
        by (auto simp: nat_less_iff)
    qed
  qed
qed simp

lemma KimotoGravityWell_ok:
  assumes "linked bm" "bm p = Some b" "nHeight b < 2 ^ 31" "0 < spacing" "spacing \<le> 1000000"
  shows "\<exists>c. KimotoGravityWell horizon secondsMin bm (Some p) params spacing = Inr c \<and> bits_within_limit params c"
proof -
  let ?l = "UintToArith256 (powLimit params)"
  define bmin where "bmin = cdiv (secondsMin (nPowTargetTimespan params)) spacing"
  define bmax where "bmax = cdiv (nPowTargetTimespan params * 7) spacing"
  obtain a s t where l: "kgw_loop (nat (nHeight b) + 2) horizon bm (GetBlockTime b) (nat bmin) (nat bmax) spacing 1
      (Some p) (uint_zero, 0, 0) = Inr (a, s, t)" "limbs a" "0 \<le> s" "s < 2 ^ 32" "0 \<le> t" "t < 2 ^ 64"
    using kgw_loop_total [OF assms(1,4,5) _ assms(2), where lastTime = "GetBlockTime b" and fuel = "nat (nHeight b) + 2"
      and i = 1 and st = "(uint_zero, 0, 0)" and horizon = horizon and bmin = "nat bmin" and bmax = "nat bmax"] assms(3) GetBlockTime_bounds(2) [of b]
    by (auto simp del: kgw_loop.simps)
  have fin: "\<exists>c. bind_sum (if s \<noteq> 0 \<and> t \<noteq> 0 then retarget a s t ?l
        else Inr (if CompareTo a ?l > 0 then ?l else a)) (\<lambda>bnNew. Inr (GetCompact bnNew False)) = Inr c \<and> bits_within_limit params c"
  proof (cases "s \<noteq> 0 \<and> t \<noteq> 0")
    case True
    then show ?thesis using retarget_bits_ok [OF l(2-4) _ l(6), of params] l(5) by auto
  next
    case False
    then show ?thesis using bits_within_limit_GetCompact [of a params] l(2) by (auto simp: CompareTo_gt)
  qed
  show ?thesis
    unfolding KimotoGravityWell_def Let_def bmin_def [symmetric] bmax_def [symmetric]
    using fin l(1) assms(2) by (auto simp del: kgw_loop.simps)
qed

lemma CalculateNextWorkRequired_ok:
  assumes "pow_params_ok params" "bits_within_limit params (nBits b)"
  shows "\<exists>c. CalculateNextWorkRequired b t params = Inr c \<and> bits_within_limit params c"
proof (cases "fPowNoRetargeting params")
  case False
  let ?T = "nPowTargetTimespan params"
  have T: "0 < ?T" "?T \<le> 1000000000" using assms(1) by (auto simp: pow_params_ok_def)
  have "0 \<le> clamp_timespan 4 ?T x" "clamp_timespan 4 ?T x < 2 ^ 32" for x
    using clamp_bounds [of 4 ?T x] T by auto
  then show ?thesis
    using False retarget_bits_ok [of "fst (SetCompact (nBits b))" _ ?T params] T
    by (simp add: CalculateNextWorkRequired_def Let_def)
qed (use assms in \<open>simp add: CalculateNextWorkRequired_def\<close>)

lemma last_non_special_ok:
  assumes "linked bm" "\<And>q c. bm q = Some c \<Longrightarrow> bits_within_limit params (nBits c)" "bm p = Some b" "nat (nHeight b) < fuel"
  shows "\<exists>c. last_non_special fuel bm params limit p = Inr c \<and> bits_within_limit params c"
  using assms(3,4)
proof (induction fuel arbitrary: p b)
  case (Suc fuel)
  show ?case
  proof (cases "pprev b")
    case None
    then show ?thesis using Suc.prems(1) assms(2) by simp
  next
    case (Some q)
    then obtain c where c: "bm q = Some c" "nHeight c = nHeight b - 1"
      using linkedD(4) [OF assms(1) Suc.prems(1)] by auto
    moreover have "0 \<le> nHeight c" by (rule linkedD(2) [OF assms(1) c(1)])
    ultimately have "\<exists>c. last_non_special fuel bm params limit q = Inr c \<and> bits_within_limit params c"
      using Suc.IH [OF c(1)] Suc.prems(2) by (simp add: nat_less_iff)
    then show ?thesis using Suc.prems(1) Some assms(2) by simp
  qed
qed simp

lemma GetNextWorkRequiredBTC_ok:
  assumes "linked bm" "skips_ok bm" "bm p = Some b" "pow_params_ok params"
    and "\<And>q c. bm q = Some c \<Longrightarrow> bits_within_limit params (nBits c)"
  shows "\<exists>c. GetNextWorkRequiredBTC bm p hdr params = Inr c \<and> bits_within_limit params c"
proof -
  let ?i = "DifficultyAdjustmentInterval params"
  have i: "1 \<le> ?i"
    using assms(4) zdiv_mono1 [of "nPowTargetSpacing params" "nPowTargetTimespan params" "nPowTargetSpacing params"]
    by (auto simp: pow_params_ok_def DifficultyAdjustmentInterval_def)
  have h: "0 \<le> nHeight b" by (rule linkedD(2) [OF assms(1,3)])
  have first: "\<exists>q c. ancestor_at bm p (nHeight b - (?i - 1)) = Some q \<and> bm q = Some c \<and> 0 \<le> nHeight b - (?i - 1)"
    if "cmod (nHeight b + 1) ?i = 0"
  proof -
    have "?i dvd nHeight b + 1" using that h i by (simp add: mod_eq_0_iff_dvd)
    then have "?i \<le> nHeight b + 1" using h by (intro zdvd_imp_le) auto
    then show ?thesis using ancestor_at_exists [OF assms(1,3), of "nHeight b - (?i - 1)"] i by auto
  qed
  show ?thesis
  proof (cases "cmod (nHeight b + 1) ?i = 0")
    case True
    then obtain q c where "ancestor_at bm p (nHeight b - (?i - 1)) = Some q" "bm q = Some c" "0 \<le> nHeight b - (?i - 1)"
      using first by blast
    then show ?thesis
      using True assms(3) GetAncestor_correct [OF assms(1,2,3)] CalculateNextWorkRequired_ok [OF assms(4) assms(5) [OF assms(3)]]
      by (simp add: GetNextWorkRequiredBTC_def Let_def)
  next
    case False
    then show ?thesis
      using assms(3) assms(5) [OF assms(3)] last_non_special_ok [OF assms(1,5,3), where fuel = "nat (nHeight b) + 2"]
      by (simp add: GetNextWorkRequiredBTC_def Let_def del: last_non_special.simps)
  qed
qed

lemma anc_target_le_limit:
  assumes "linked bm" "\<And>q c. bm q = Some c \<Longrightarrow> bits_within_limit params (nBits c)"
  shows "anc_target bm p k \<le> uval (UintToArith256 (powLimit params))"
  using bits_within_limit_target assms(2) by (auto simp: anc_target_def split: option.splits)

lemma DarkGravityWave_ok:
  assumes "linked bm" "bm p = Some b" "pow_params_ok params" "0 < spacing" "spacing \<le> 1000000"
    and "\<And>q c. bm q = Some c \<Longrightarrow> bits_within_limit params (nBits c)"
  shows "\<exists>c. DarkGravityWave bm (Some p) params spacing = Inr c \<and> bits_within_limit params c"
proof (cases "nHeight b < 20")
  case True
  then show ?thesis using assms(2) by (simp add: DarkGravityWave_def nPastBlocks_def)
next
  case False
  let ?l = "uval (UintToArith256 (powLimit params))"
  have "?l * 21 < 2 ^ 256" using assms(3) by (simp only: pow_params_ok_def)
  with DarkGravityWave_value [OF assms(1,2) _ assms(4,5), of ?l params] False anc_target_le_limit [OF assms(1,6)]
  obtain r where "DarkGravityWave bm (Some p) params spacing = Inr (GetCompact r False)" "limbs r" "uval r \<le> ?l"
    by auto
  then show ?thesis using bits_within_limit_GetCompact by blast
qed

lemma GetNextWorkRequired_ok:
  assumes "index_ok bm" "bm p = Some b" "nHeight b < 2 ^ 31" "pow_params_ok params"
    and "\<And>q c. bm q = Some c \<Longrightarrow> bits_within_limit params (nBits c)"
  shows "\<exists>c. GetNextWorkRequired horizon secondsMin bm p hdr params = Inr c \<and> bits_within_limit params c"
proof -
  note l = index_ok_parts [OF assms(1)]
  note sp = spacing_ok [OF assms(4), of "nHeight b + 1"]
  let ?n = "uint_mul32 (fst (SetCompact (nBits b))) 10" and ?l = "UintToArith256 (powLimit params)"
  have x: "\<not> CompareTo ?n ?l > 0 \<Longrightarrow> bits_within_limit params (GetCompact ?n False)"
    by (intro bits_within_limit_GetCompact) (simp_all add: CompareTo_gt)
  have btc: "\<exists>c. GetNextWorkRequiredBTC bm p hdr params = Inr c \<and> bits_within_limit params c"
    by (rule GetNextWorkRequiredBTC_ok [OF l(1,2) assms(2,4)]) (rule assms(5))
  have dgw: "\<exists>c. DarkGravityWave bm (Some p) params (PowTargetSpacing params (nHeight b + 1)) = Inr c \<and> bits_within_limit params c"
    by (rule DarkGravityWave_ok [OF l(1) assms(2,4) sp]) (rule assms(5))
  note kgw = KimotoGravityWell_ok [OF l(1) assms(2,3) sp, of horizon secondsMin params]
  show ?thesis
    unfolding GetNextWorkRequired_def deref_Some [of bm p, OF assms(2)] bind_sum.simps Let_def
    using assms(5) [OF assms(2)] btc dgw kgw x by simp
qed

lemma CheckProofOfWork_iff:
  "CheckProofOfWork hash bits params \<longleftrightarrow>
     (let (t, neg, ovf) = SetCompact bits
      in \<not> neg \<and> \<not> ovf \<and> 0 < uval t \<and> uval t \<le> uval (UintToArith256 (powLimit params)) \<and>
         uval (UintToArith256 hash) \<le> uval t)"
proof -
  obtain t neg ovf where t: "SetCompact bits = (t, neg, ovf)" by (metis prod_cases3)
  then have "limbs t" using limbs_SetCompact [of bits] by simp
  then show ?thesis by (auto simp: CheckProofOfWork_def t CompareTo_gt EqualTo_uval)
qed

lemma dgw_mean_const:
  assumes "\<And>x. x \<in> set ts \<Longrightarrow> x = t" "ts \<noteq> []"
  shows "dgw_mean 1 avg ts = t"
  using dgw_mean_bounds [of ts t t 1 avg] assms by auto

lemma korsh_limit: "UintToArith256 korsh_powLimit = [0, 0, 0, 0, 0, 0, 0xff000000, 0x00ffffff]"
  by code_simp

lemma uval_korsh_limit: "uval (UintToArith256 korsh_powLimit) = 0xffffffff * 2 ^ 216"
  by (simp add: korsh_limit)

lemma korsh_params_ok: "pow_params_ok CMainParams" "pow_params_ok CTestNetParams"
  by (simp_all add: pow_params_ok_def CMainParams_def CTestNetParams_def uval_korsh_limit)

section \<open>When a required target is not zero\<close>

definition bits_in_range :: "Params \<Rightarrow> u32 \<Rightarrow> bool" where
  "bits_in_range params c \<longleftrightarrow> bits_within_limit params c \<and> 0 < uval (fst (SetCompact c))"

text \<open>The bits are in range exactly when some hash passes \<open>CheckProofOfWork\<close> with them.\<close>

lemma zero_hash: "UintToArith256 (replicate 32 0) = replicate 8 0"
  by code_simp

lemma bits_in_range_iff: "bits_in_range params c \<longleftrightarrow> (\<exists>hash. CheckProofOfWork hash c params)"
proof -
  obtain t neg ovf where t: "SetCompact c = (t, neg, ovf)" by (metis prod_cases3)
  have z: "uval (UintToArith256 (replicate 32 0)) = 0" by (simp add: zero_hash uval_replicate_0)
  have "CheckProofOfWork (replicate 32 0) c params" if "bits_in_range params c"
    using that unfolding CheckProofOfWork_iff z by (simp add: bits_in_range_def bits_within_limit_def t)
  then show ?thesis by (auto simp: CheckProofOfWork_iff bits_in_range_def bits_within_limit_def t)
qed

lemma bits_in_range_GetCompact:
  assumes "limbs a" "uval a \<le> uval (UintToArith256 (powLimit params))" "0 < uval a"
  shows "bits_in_range params (GetCompact a False)"
proof -
  have "0 < uval a div 256 ^ compact_shift a"
    using compact_shift_precision [OF assms(1)] assms(3) by (cases "compact_shift a = 0") auto
  then show ?thesis
    using bits_within_limit_GetCompact [OF assms(1,2)] SetCompact_GetCompact_value(2) [OF assms(1)] by (simp add: bits_in_range_def)
qed

text \<open>
  The largest time span by which the rule for the next block multiplies a target, and the condition under which neither the
  product wraps nor the quotient is zero.
\<close>

definition max_span :: "Params \<Rightarrow> int \<Rightarrow> int" where
  "max_span params next = (if next < nPowKGWHeight params then 4 * nPowTargetTimespan params
     else if next < nPowDGWHeight params then 2 ^ 32 else 60 * PowTargetSpacing params next)"

definition no_wrap :: "Params \<Rightarrow> int \<Rightarrow> nat \<Rightarrow> bool" where
  "no_wrap params next target \<longleftrightarrow> 2 ^ 64 \<le> target \<and> target * nat (max_span params next) < 2 ^ 256"

lemma retarget_in_range:
  assumes "limbs bn" "0 < a" "a < 2 ^ 32" "0 < t" "t < 2 ^ 64" "2 ^ 64 \<le> uval bn" "uval bn * nat a < 2 ^ 256"
    and "0 < uval (UintToArith256 (powLimit params))"
    and "bind_sum (retarget bn a t (UintToArith256 (powLimit params))) (\<lambda>r. Inr (GetCompact r False)) = Inr c"
  shows "bits_in_range params c"
proof -
  obtain r where r: "retarget bn a t (UintToArith256 (powLimit params)) = Inr r" "limbs r"
    "uval r = min ((uval bn * nat a) mod 2 ^ 256 div nat t) (uval (UintToArith256 (powLimit params)))"
    using retarget_value [OF assms(1), of "UintToArith256 (powLimit params)" a t] assms(2-5) by auto
  have "nat t < 2 ^ 64" using assms(4,5) by (simp add: nat_less_iff)
  then have "nat t \<le> uval bn * 1" using assms(6) by linarith
  also have "\<dots> \<le> uval bn * nat a" using assms(2) by (intro mult_left_mono) auto
  finally have "0 < uval bn * nat a div nat t" using assms(4) by (simp add: div_greater_zero_iff)
  then have "0 < uval r" using r(3) assms(7,8) by simp
  then show ?thesis using r assms(9) bits_in_range_GetCompact [OF r(2)] by auto
qed

lemma DarkGravityWave_in_range:
  assumes "linked bm" "bm p = Some b" "20 \<le> nHeight b" "0 < spacing" "spacing \<le> 1000000"
    and "\<And>k. nHeight b - 20 < k \<Longrightarrow> k \<le> nHeight b \<Longrightarrow> 2 ^ 64 \<le> anc_target bm p k \<and> anc_target bm p k \<le> hi"
    and "hi * nat (60 * spacing) < 2 ^ 256" "0 < uval (UintToArith256 (powLimit params))"
  shows "\<exists>c. DarkGravityWave bm (Some p) params spacing = Inr c \<and> bits_in_range params c"
proof -
  let ?ts = "map (\<lambda>i. anc_target bm p (nHeight b - int i)) [0..<20]" and ?a = "dgw_timespan bm p (nHeight b) spacing"
  have "2 ^ 64 \<le> t \<and> t \<le> hi" if "t \<in> set ?ts" for t using that assms(6) by auto
  then have m: "2 ^ 64 \<le> dgw_mean 1 0 ?ts" "dgw_mean 1 0 ?ts \<le> hi" using dgw_mean_bounds [of ?ts "2 ^ 64" hi 1 0] by auto
  have "cdiv (20 * spacing) 3 \<le> ?a" and u: "?a \<le> 60 * spacing"
    using clamp_bounds [of 3 "20 * spacing"] assms(4) by (simp_all add: dgw_timespan_def)
  moreover have "6 \<le> cdiv (20 * spacing) 3" using assms(4) zdiv_mono1 [of 20 "20 * spacing" 3] by simp
  ultimately have a: "0 < ?a" "nat (20 * spacing) \<le> 2 ^ 64" using assms(5) by auto
  have "dgw_mean 1 0 ?ts * nat ?a \<le> hi * nat (60 * spacing)" using m(2) u by (intro mult_mono) auto
  then have w: "(dgw_mean 1 0 ?ts * nat ?a) mod 2 ^ 256 = dgw_mean 1 0 ?ts * nat ?a" using assms(7) by (intro mod_less) linarith
  have "hi * 21 \<le> hi * nat (60 * spacing)" using assms(4) by (intro mult_left_mono) auto
  then have 21: "hi * 21 < 2 ^ 256" using assms(7) by linarith
  obtain r where r: "DarkGravityWave bm (Some p) params spacing = Inr (GetCompact r False)" "limbs r"
    "uval r = min (dgw_mean 1 0 ?ts * nat ?a div nat (20 * spacing)) (uval (UintToArith256 (powLimit params)))"
    using DarkGravityWave_value [OF assms(1-5) _ 21, of params] assms(6) unfolding w by blast
  have "nat (20 * spacing) \<le> dgw_mean 1 0 ?ts * 1" using a(2) m(1) by linarith
  also have "\<dots> \<le> dgw_mean 1 0 ?ts * nat ?a" using a(1) by (intro mult_left_mono) auto
  finally have "0 < dgw_mean 1 0 ?ts * nat ?a div nat (20 * spacing)" using assms(4) by (simp add: div_greater_zero_iff)
  then have "0 < uval r" using r(3) assms(8) by simp
  then show ?thesis using r bits_in_range_GetCompact [OF r(2)] by auto
qed

lemma kgw_average_between:
  assumes "limbs avg" "limbs prev" "0 < i" "i < 2 ^ 32" "lo \<le> uval avg" "uval avg \<le> hi" "i = 1 \<or> lo \<le> uval prev \<and> uval prev \<le> hi"
    and "kgw_average (of_nat i) avg prev = Inr a"
  shows "lo \<le> uval a \<and> uval a \<le> hi"
proof (cases "i = 1")
  case True
  then show ?thesis using assms by (simp add: kgw_average_def)
next
  case False
  have u: "unat (of_nat i :: u32) = i" "unat (ucast (of_nat i :: u32) :: u64) = i" using assms(4)
    by (simp_all add: unsigned_ucast_eq unsigned_of_nat take_bit_nat_eq_self_iff)
  then have gt: "(1 :: u32) < of_nat i" using False assms(3) by (simp add: word_less_nat_alt)
  have d: "uval (of_uint64 (ucast (of_nat i :: u32))) = i" using u(2) by (simp add: uval_of_uint64)
  have nz: "uval (of_uint64 (ucast (of_nat i :: u32))) \<noteq> 0" using d assms(3) by simp
  have p: "lo \<le> uval prev" "uval prev \<le> hi" using False assms(7) by auto
  have lt: "uval avg < 2 ^ 256" "uval prev < 2 ^ 256" using assms(1,2) uval_bound [of avg] uval_bound [of prev] by (simp_all add: WIDTH_def)
  show ?thesis
  proof (cases "uval prev \<le> uval avg")
    case True
    obtain q where q: "uint_div (uint_sub avg prev) (of_uint64 (ucast (of_nat i :: u32))) = Inr q" "limbs q"
      "uval q = (uval avg - uval prev) div i"
      using uint_div_spec [OF _ _ nz, of "uint_sub avg prev"] assms(1,2) True by (auto simp: d uval_uint_sub_le)
    have "(uval avg - uval prev) div i \<le> uval avg - uval prev" by simp
    then have "uval q + uval prev \<le> uval avg" using q(3) True by linarith
    then have "uval a = uval q + uval prev"
      using assms(1,2,8) gt q(1,2) True lt by (auto simp: kgw_average_def CompareTo_ge lift_arith_def uval_uint_add WIDTH_def)
    then show ?thesis using \<open>uval q + uval prev \<le> uval avg\<close> p assms(6) by linarith
  next
    case lt': False
    obtain q where q: "uint_div (uint_sub prev avg) (of_uint64 (ucast (of_nat i :: u32))) = Inr q" "limbs q"
      "uval q = (uval prev - uval avg) div i"
      using uint_div_spec [OF _ _ nz, of "uint_sub prev avg"] assms(1,2) lt' by (auto simp: d uval_uint_sub_le)
    have le: "uval q \<le> uval prev - uval avg" using q(3) by simp
    then have "uval a = uval prev - uval q"
      using assms(1,2,8) gt q(1,2) lt' by (auto simp: kgw_average_def CompareTo_ge lift_arith_def uval_uint_sub_le)
    then show ?thesis using le p assms(5) lt' by linarith
  qed
qed

lemma kgw_loop_between:
  assumes "linked bm" "\<And>q c. bm q = Some c \<Longrightarrow> lo \<le> target_of c \<and> target_of c \<le> hi"
    and "bm p = Some b" "int i + nHeight b \<le> 2 ^ 31" "1 \<le> i" "limbs (fst st)"
    and "i = 1 \<and> 0 < nHeight b \<or> 1 < i \<and> lo \<le> uval (fst st) \<and> uval (fst st) \<le> hi"
    and "kgw_loop fuel horizon bm lastTime bmin bmax spacing i (Some p) st = Inr (a, s, t)"
  shows "lo \<le> uval a \<and> uval a \<le> hi"
  using assms(3-8)
proof (induction fuel arbitrary: p b i st)
  case (Suc fuel)
  obtain a0 s0 t0 where st: "st = (a0, s0, t0)" by (cases st)
  have h: "0 \<le> nHeight b" by (rule linkedD(2) [OF assms(1) Suc.prems(1)])
  show ?case
  proof (cases "\<not> nHeight b > 0 \<or> (bmax > 0 \<and> i > bmax)")
    case True
    then have "a = a0" "i \<noteq> 1" using Suc.prems(1,3,5,6) st by (auto split: if_splits)
    then show ?thesis using Suc.prems(5) st by simp
  next
    case False
    then have i32: "i < 2 ^ 32" using Suc.prems(2) by auto
    obtain avg where avg: "kgw_average (of_nat i) (fst (SetCompact (nBits b))) a0 = Inr avg" "limbs avg"
      using kgw_average_total [of "fst (SetCompact (nBits b))" a0 i] Suc.prems(3,4) i32 st by auto
    have between: "lo \<le> uval avg \<and> uval avg \<le> hi"
      using kgw_average_between [of "fst (SetCompact (nBits b))" a0 i lo hi avg] assms(2) [OF Suc.prems(1)] Suc.prems(3-5) i32 avg(1) st
      by (auto simp: target_of_def)
    let ?s = "max 0 (lastTime - GetBlockTime b)" and ?t = "spacing * int i"
    obtain q c where q: "pprev b = Some q" "bm q = Some c" "nHeight c = nHeight b - 1"
      using linked_prev_exists [OF assms(1) Suc.prems(1)] False by auto
    have eq: "kgw_loop (Suc fuel) horizon bm lastTime bmin bmax spacing i (Some p) st =
        (if i \<ge> bmin \<and> horizon i ?s ?t then Inr (avg, ?s, ?t)
         else kgw_loop fuel horizon bm lastTime bmin bmax spacing (Suc i) (Some q) (avg, ?s, ?t))"
      using False Suc.prems(1) avg(1) q(1) st by (auto simp: Let_def max_def)
    show ?thesis
      using Suc.prems(6) Suc.IH [OF q(2), of "Suc i" "(avg, ?s, ?t)"] between avg(2) Suc.prems(2,3) q(3) unfolding eq
      by (auto split: if_splits)
  qed
qed simp

lemma KimotoGravityWell_in_range:
  assumes "linked bm" "bm p = Some b" "nHeight b < 2 ^ 31" "0 < spacing" "spacing \<le> 1000000"
    and "\<And>q c. bm q = Some c \<Longrightarrow> 2 ^ 64 \<le> target_of c \<and> target_of c * 2 ^ 32 < 2 ^ 256"
    and "0 < uval (UintToArith256 (powLimit params))"
    and "KimotoGravityWell horizon secondsMin bm (Some p) params spacing = Inr c"
  shows "bits_in_range params c"
proof -
  let ?l = "UintToArith256 (powLimit params)"
  define bmin where "bmin = cdiv (secondsMin (nPowTargetTimespan params)) spacing"
  define bmax where "bmax = cdiv (nPowTargetTimespan params * 7) spacing"
  obtain a s t where l: "kgw_loop (nat (nHeight b) + 2) horizon bm (GetBlockTime b) (nat bmin) (nat bmax) spacing 1
      (Some p) (uint_zero, 0, 0) = Inr (a, s, t)" "limbs a" "0 \<le> s" "s < 2 ^ 32" "0 \<le> t" "t < 2 ^ 64"
    using kgw_loop_total [OF assms(1,4,5) _ assms(2), where lastTime = "GetBlockTime b" and fuel = "nat (nHeight b) + 2"
      and i = 1 and st = "(uint_zero, 0, 0)" and horizon = horizon and bmin = "nat bmin" and bmax = "nat bmax"] assms(3) GetBlockTime_bounds(2) [of b]
    by (auto simp del: kgw_loop.simps)
  have tgt: "2 ^ 64 \<le> target_of c \<and> target_of c \<le> 2 ^ 224 - 1" if "bm q = Some c" for q c
    using assms(6) [OF that] by simp
  have fin: "bits_in_range params c" if h: "0 < nHeight b" and c: "bind_sum (if s \<noteq> 0 \<and> t \<noteq> 0 then retarget a s t ?l
        else Inr (if CompareTo a ?l > 0 then ?l else a)) (\<lambda>bnNew. Inr (GetCompact bnNew False)) = Inr c"
  proof -
    have a: "2 ^ 64 \<le> uval a" "uval a \<le> 2 ^ 224 - 1"
      using kgw_loop_between [OF assms(1) tgt assms(2) _ _ _ _ l(1)] assms(3) h by auto
    show ?thesis
    proof (cases "s \<noteq> 0 \<and> t \<noteq> 0")
      case True
      have "uval a * nat s \<le> (2 ^ 224 - 1) * 2 ^ 32" using a(2) l(3,4) by (intro mult_mono) auto
      then have "uval a * nat s < 2 ^ 256" by simp
      then show ?thesis using retarget_in_range [OF l(2) _ l(4) _ l(6) a(1) _ assms(7), of c] True l(3,5) c by auto
    next
      case False
      then show ?thesis
        using bits_in_range_GetCompact [of a params] bits_in_range_GetCompact [of ?l params] l(2) a(1) assms(7) c
        by (auto simp: CompareTo_gt split: if_splits)
    qed
  qed
  have "bits_in_range params (GetCompact ?l False)" by (rule bits_in_range_GetCompact) (use assms(7) in auto)
  moreover have "0 \<le> nHeight b" by (rule linkedD(2) [OF assms(1,2)])
  ultimately show ?thesis
    using fin assms(2,8) l(1) unfolding KimotoGravityWell_def Let_def bmin_def [symmetric] bmax_def [symmetric]
    by (auto simp del: kgw_loop.simps split: if_splits)
qed

lemma last_non_special_from:
  "last_non_special fuel bm params limit p = Inr c \<Longrightarrow> \<exists>q b. bm q = Some b \<and> c = nBits b"
  by (induction fuel arbitrary: p) (auto simp: deref_def split: option.splits if_splits)

lemma CalculateNextWorkRequired_in_range:
  assumes "pow_params_ok params" "bits_in_range params (nBits b)" "2 ^ 64 \<le> target_of b"
    and "target_of b * nat (4 * nPowTargetTimespan params) < 2 ^ 256" "4 \<le> nPowTargetTimespan params"
    and "CalculateNextWorkRequired b t params = Inr c"
  shows "bits_in_range params c"
proof (cases "fPowNoRetargeting params")
  case False
  let ?T = "nPowTargetTimespan params" and ?a = "clamp_timespan 4 (nPowTargetTimespan params) (GetBlockTime b - t)"
  have T: "0 < ?T" "?T \<le> 1000000000" using assms(1) by (auto simp: pow_params_ok_def)
  have "1 \<le> cdiv ?T 4" using assms(5) zdiv_mono1 [of 4 ?T 4] by simp
  then have a: "0 < ?a" "?a \<le> 4 * ?T" using clamp_bounds [of 4 ?T "GetBlockTime b - t"] T by auto
  have "target_of b * nat ?a \<le> target_of b * nat (4 * ?T)" using a by (intro mult_left_mono) auto
  then have "target_of b * nat ?a < 2 ^ 256" using assms(4) by linarith
  moreover have "0 < uval (UintToArith256 (powLimit params))"
    using assms(2) by (auto simp: bits_in_range_def bits_within_limit_def split: prod.splits)
  ultimately show ?thesis
    using retarget_in_range [of "fst (SetCompact (nBits b))" ?a ?T params c] a T assms(3,6) False
    by (auto simp: CalculateNextWorkRequired_def Let_def target_of_def)
qed (use assms in \<open>simp add: CalculateNextWorkRequired_def\<close>)

lemma GetNextWorkRequiredBTC_in_range:
  assumes "pow_params_ok params" "4 \<le> nPowTargetTimespan params" "bm p = Some b"
    and "\<And>q c. bm q = Some c \<Longrightarrow> bits_in_range params (nBits c) \<and> 2 ^ 64 \<le> target_of c
      \<and> target_of c * nat (4 * nPowTargetTimespan params) < 2 ^ 256"
    and "GetNextWorkRequiredBTC bm p hdr params = Inr c"
  shows "bits_in_range params c"
proof -
  have lim: "bits_in_range params (GetCompact (UintToArith256 (powLimit params)) False)"
    using assms(4) [OF assms(3)] by (intro bits_in_range_GetCompact) (auto simp: bits_in_range_def bits_within_limit_def split: prod.splits)
  have calc: "CalculateNextWorkRequired b t params = Inr c \<Longrightarrow> bits_in_range params c" for t
    using CalculateNextWorkRequired_in_range [OF assms(1), of b t c] assms(2) assms(4) [OF assms(3)] by blast
  have prior: "last_non_special fuel bm params l p = Inr c \<Longrightarrow> bits_in_range params c" for fuel l
    using last_non_special_from assms(4) by blast
  show ?thesis
    using assms(3,5) assms(4) [OF assms(3)] lim calc prior
    by (auto simp: GetNextWorkRequiredBTC_def Let_def bind_sum_Inr_conv split: if_splits option.split_asm simp del: last_non_special.simps)
qed

lemma GetNextWorkRequired_in_range:
  assumes "index_ok bm" "bm p = Some b" "nHeight b < 2 ^ 31" "pow_params_ok params" "4 \<le> nPowTargetTimespan params"
    and "\<And>q c. bm q = Some c \<Longrightarrow> bits_within_limit params (nBits c) \<and> no_wrap params (nHeight b + 1) (target_of c)"
    and "GetNextWorkRequired horizon secondsMin bm p hdr params = Inr c"
  shows "bits_in_range params c"
proof -
  note l = index_ok_parts [OF assms(1)]
  note sp = spacing_ok [OF assms(4), of "nHeight b + 1"]
  let ?n = "uint_mul32 (fst (SetCompact (nBits b))) 10" and ?l = "UintToArith256 (powLimit params)" and ?h = "nHeight b + 1"
  let ?sp = "PowTargetSpacing params ?h"
  have r: "bits_in_range params (nBits c) \<and> 2 ^ 64 \<le> target_of c \<and> target_of c * nat (max_span params ?h) < 2 ^ 256"
    if "bm q = Some c" for q c
    using assms(6) [OF that] by (auto simp: bits_in_range_def no_wrap_def target_of_def)
  note rb = r [OF assms(2)]
  have lim0: "0 < uval ?l" using rb by (auto simp: bits_in_range_def bits_within_limit_def split: prod.splits)
  have lim: "bits_in_range params (GetCompact ?l False)" by (rule bits_in_range_GetCompact) (use lim0 in auto)
  have "target_of b * 10 < 2 ^ 256"
    using bits_within_limit_target [of params b] assms(4) assms(6) [OF assms(2)] by (simp add: pow_params_ok_def)
  then have "uval ?n = target_of b * 10" by (simp add: uval_uint_mul32 WIDTH_def target_of_def)
  then have ten: "\<not> CompareTo ?n ?l > 0 \<Longrightarrow> bits_in_range params (GetCompact ?n False)"
    using rb by (intro bits_in_range_GetCompact) (auto simp: CompareTo_gt)
  have btc: "bits_in_range params c" if "?h < nPowKGWHeight params" "GetNextWorkRequiredBTC bm p hdr params = Inr c"
    using GetNextWorkRequiredBTC_in_range [OF assms(4,5,2) _ that(2)] r that(1) by (simp add: max_span_def)
  have kgw: "bits_in_range params c" if "\<not> ?h < nPowKGWHeight params" "?h < nPowDGWHeight params"
    "KimotoGravityWell horizon secondsMin bm (Some p) params ?sp = Inr c"
    using KimotoGravityWell_in_range [OF l(1) assms(2,3) sp _ lim0 that(3)] r that(1,2) by (simp add: max_span_def)
  have dgw: "bits_in_range params c" if "\<not> ?h < nPowKGWHeight params" "\<not> ?h < nPowDGWHeight params"
    "DarkGravityWave bm (Some p) params ?sp = Inr c"
  proof (cases "nHeight b < 20")
    case True
    then show ?thesis using that(3) assms(2) lim by (auto simp: DarkGravityWave_def nPastBlocks_def)
  next
    case False
    let ?m = "nat (60 * ?sp)"
    have m: "0 < ?m" using sp(1) by simp
    have t: "2 ^ 64 \<le> anc_target bm p k \<and> anc_target bm p k \<le> (2 ^ 256 - 1) div ?m" if k: "nHeight b - 20 < k" "k \<le> nHeight b" for k
    proof -
      obtain q d where "ancestor_at bm p k = Some q" "bm q = Some d" using ancestor_at_exists [OF l(1) assms(2), of k] k False by auto
      then show ?thesis
        using r [of q d] \<open>\<not> ?h < nPowKGWHeight params\<close> \<open>\<not> ?h < nPowDGWHeight params\<close> m
        by (simp add: anc_target_def max_span_def less_eq_div_iff_mult_less_eq)
    qed
    have "(2 ^ 256 - 1) div ?m * ?m \<le> 2 ^ 256 - 1" by (rule div_times_less_eq_dividend)
    then have "(2 ^ 256 - 1) div ?m * ?m < 2 ^ 256" by (rule le_less_trans) simp
    then show ?thesis using DarkGravityWave_in_range [OF l(1) assms(2) _ sp t _ lim0] False that(3) by auto
  qed
  show ?thesis
    using assms(7) rb lim ten btc kgw dgw
    unfolding GetNextWorkRequired_def deref_Some [of bm p, OF assms(2)] bind_sum.simps Let_def
    by (auto split: if_splits)
qed

section \<open>Properties of the difficulty rules\<close>

text \<open>
  C2. On a well-formed header tree whose blocks carry targets within the limit, with parameters like those of the main and the
  test network (\<open>pow_params_ok\<close>: small positive spacings and a limit of at most a 21st of 2 to the 256; the limits of devnet and
  regtest are larger), the work required of the next block is always defined (no assertion, null pointer, division by zero or
  endless loop) and is a target not above the limit, with neither sign nor overflow, under every difficulty rule: the interval
  rule, Kimoto's gravity well, dark gravity wave, and the exceptions for late blocks. If moreover no target is below 2 to
  the 64 and none times the largest time span of the rule reaches 2 to the 256, the required target is not zero, so it passes
  the range check of \<open>CheckProofOfWork\<close>.
\<close>

theorem next_work_in_range:
  assumes "index_ok bm" "bm p = Some b" "nHeight b < 2 ^ 31" "pow_params_ok params"
    and "\<forall>q c. bm q = Some c \<longrightarrow> bits_within_limit params (nBits c)"
  shows "\<exists>c. GetNextWorkRequired horizon secondsMin bm p hdr params = Inr c \<and> bits_within_limit params c
    \<and> ((\<forall>q d. bm q = Some d \<longrightarrow> no_wrap params (nHeight b + 1) (target_of d)) \<longrightarrow> bits_in_range params c)"
proof -
  obtain c where c: "GetNextWorkRequired horizon secondsMin bm p hdr params = Inr c" "bits_within_limit params c"
    using GetNextWorkRequired_ok [OF assms(1-4)] assms(5) by blast
  then show ?thesis
    using GetNextWorkRequired_in_range [OF assms(1-4) _ _ c(1)] assms(4,5) by (auto simp: pow_params_ok_def)
qed

lemma example_bits_ok: "bits_within_limit CMainParams 0x1e3fffff"
  using SetCompact_parts(1) [where c = "0x1e3fffff" and m = "0x3fffff" and s = 30]
    SetCompact_parts(2) [where c = "0x1e3fffff" and m = "0x3fffff" and s = 30]
  by (auto simp: bits_within_limit_def CMainParams_def uval_korsh_limit Let_def split: prod.splits)

theorem next_work_in_range_witness:
  "\<exists>bman c. AddToBlockIndex example_header [7] BLOCK_VALID_TREE empty_manager = Inr ([7], bman) \<and>
     GetNextWorkRequired (\<lambda>_ _ _. False) (\<lambda>_. 90) (m_block_index bman) [7] example_header CMainParams = Inr c \<and>
     bits_in_range CMainParams c"
proof -
  obtain bman b where b: "AddToBlockIndex example_header [7] BLOCK_VALID_TREE empty_manager = Inr ([7], bman)"
    "m_block_index bman = [[7] \<mapsto> b]" "manager_ok bman" "nHeight b = 0" "nBits b = 0x1e3fffff"
    using AddToBlockIndex_new [OF manager_ok_empty _ example_header_ok]
    by (auto simp: empty_manager_def entry_of_def example_header_def)
  have "target_of b = 0x3fffff * 256 ^ 27"
    using SetCompact_parts(2) [where c = "0x1e3fffff" and m = "0x3fffff" and s = 30] b(5) by (simp add: target_of_def)
  then have "no_wrap CMainParams (nHeight b + 1) (target_of b)"
    using b(4) by (simp add: no_wrap_def max_span_def PowTargetSpacing_def CMainParams_def)
  moreover have "\<exists>c. GetNextWorkRequired (\<lambda>_ _ _. False) (\<lambda>_. 90) (m_block_index bman) [7] example_header CMainParams = Inr c
    \<and> bits_within_limit CMainParams c
    \<and> ((\<forall>q d. m_block_index bman q = Some d \<longrightarrow> no_wrap CMainParams (nHeight b + 1) (target_of d)) \<longrightarrow> bits_in_range CMainParams c)"
    by (rule next_work_in_range) (use b korsh_params_ok example_bits_ok in \<open>auto simp: manager_ok_def\<close>)
  ultimately show ?thesis using b(1,2) by (auto split: if_splits)
qed

text \<open>
  C20. Dark gravity wave, when the scaled average fits 256 bits: the result encodes the smaller of
  the limit and the weighted average of the last 20 targets times the clamped time span over the
  target time span, exactly; the average lies between the smallest and the largest of the 20 targets.
\<close>

theorem DarkGravityWave_exact:
  assumes "linked bm" "bm p = Some b" "20 \<le> nHeight b" "0 < spacing" "spacing \<le> 1000000"
    and "\<forall>k. nHeight b - 20 < k \<longrightarrow> k \<le> nHeight b \<longrightarrow> lo \<le> anc_target bm p k \<and> anc_target bm p k \<le> hi"
    and "hi * 21 < 2 ^ 256" "hi * nat (dgw_timespan bm p (nHeight b) spacing) < 2 ^ 256"
  shows "\<exists>r mean. DarkGravityWave bm (Some p) params spacing = Inr (GetCompact r False) \<and> limbs r \<and>
    lo \<le> mean \<and> mean \<le> hi \<and>
    mean = dgw_mean 1 0 (map (\<lambda>i. anc_target bm p (nHeight b - int i)) [0..<20]) \<and>
    uval r = min (mean * nat (dgw_timespan bm p (nHeight b) spacing) div nat (20 * spacing))
                 (uval (UintToArith256 (powLimit params)))"
proof -
  let ?ts = "map (\<lambda>i. anc_target bm p (nHeight b - int i)) [0..<20]" and ?a = "nat (dgw_timespan bm p (nHeight b) spacing)"
  have "lo \<le> t \<and> t \<le> hi" if "t \<in> set ?ts" for t using that assms(6) by auto
  then have m: "lo \<le> dgw_mean 1 0 ?ts" "dgw_mean 1 0 ?ts \<le> hi" using dgw_mean_bounds [of ?ts lo hi 1 0] by auto
  have "dgw_mean 1 0 ?ts * ?a \<le> hi * ?a" using m(2) by (rule mult_right_mono) simp
  then have "(dgw_mean 1 0 ?ts * ?a) mod 2 ^ 256 = dgw_mean 1 0 ?ts * ?a"
    using assms(8) by (intro mod_less) linarith
  then show ?thesis
    using DarkGravityWave_value [OF assms(1-5) _ assms(7), of params] assms(6) m by (auto simp del: upt_rec_numeral)
qed

lemma line_target:
  assumes "0 \<le> k" "k \<le> int i" "i < n" "n \<le> 256"
  shows "anc_target (line_map n tm bits) (line_ptr i) k = uval (fst (SetCompact bits))"
  using line_ancestor [OF assms] line_map_ptr [of "nat k" n tm bits] assms
  by (simp add: anc_target_def target_of_def line_entry_def)

lemma line_span:
  assumes "19 \<le> i" "i < n" "n \<le> 256"
  shows "dgw_timespan (line_map n tm bits) (line_ptr i) (int i) spacing =
         clamp_timespan 3 (20 * spacing) (uint (tm i) - uint (tm (i - 19)))"
proof -
  have n: "nat (int i - 19) = i - 19" by arith
  show ?thesis
    using line_ancestor [of "int i" i n tm bits] line_ancestor [of "int i - 19" i n tm bits] assms
    by (simp add: dgw_timespan_def line_map_ptr line_entry_def GetBlockTime_def n)
qed

theorem DarkGravityWave_exact_witness:
  "\<exists>r mean. DarkGravityWave (line_map 21 (\<lambda>i. 60 * of_nat i) 0x1d00ffff) (Some (line_ptr 20)) CMainParams 60 =
     Inr (GetCompact r False) \<and> limbs r \<and> mean = 65535 * 256 ^ 26 \<and> uval r = mean * 1140 div 1200"
proof -
  let ?bm = "line_map 21 (\<lambda>i. 60 * of_nat i) 0x1d00ffff" and ?t = "65535 * 256 ^ 26 :: nat"
  have t: "uval (fst (SetCompact 0x1d00ffff)) = ?t" using SetCompact_parts(2) [of "0x1d00ffff" 65535 29] by simp
  have p: "?bm (line_ptr 20) = Some (line_entry (\<lambda>i. 60 * of_nat i) 0x1d00ffff 20)" by (rule line_map_ptr) simp_all
  have h: "nHeight (line_entry (\<lambda>i. 60 * of_nat i) 0x1d00ffff 20) = 20" by (simp add: line_entry_def)
  have span: "dgw_timespan ?bm (line_ptr 20) 20 60 = 1140"
    using line_span [of 20 21 "\<lambda>i. 60 * of_nat i" "0x1d00ffff" 60] by (simp add: clamp_timespan_def)
  have tgt: "\<forall>k. 20 - 20 < k \<longrightarrow> k \<le> 20 \<longrightarrow> ?t \<le> anc_target ?bm (line_ptr 20) k \<and> anc_target ?bm (line_ptr 20) k \<le> ?t"
    using line_target [of _ 20 21 "\<lambda>i. 60 * of_nat i" "0x1d00ffff"] t by auto
  have "\<exists>r mean. DarkGravityWave ?bm (Some (line_ptr 20)) CMainParams 60 = Inr (GetCompact r False) \<and> limbs r \<and>
      ?t \<le> mean \<and> mean \<le> ?t \<and>
      mean = dgw_mean 1 0 (map (\<lambda>i. anc_target ?bm (line_ptr 20) (20 - int i)) [0..<20]) \<and>
      uval r = min (mean * nat 1140 div nat (20 * 60)) (uval (UintToArith256 (powLimit CMainParams)))"
    by (rule DarkGravityWave_exact [OF linked_line_map p, of 60 ?t ?t CMainParams, unfolded h span])
       (use tgt in simp_all)
  then obtain r mean where "DarkGravityWave ?bm (Some (line_ptr 20)) CMainParams 60 = Inr (GetCompact r False)" "limbs r"
    "mean = ?t" "uval r = min (mean * 1140 div 1200) (uval (UintToArith256 (powLimit CMainParams)))" by auto
  then show ?thesis by (intro exI [of _ r] exI [of _ mean]) (auto simp: CMainParams_def uval_korsh_limit)
qed

text \<open>
  C21. At the easiest difficulty the retarget of dark gravity wave does not fit 256 bits. If the last
  20 blocks of the main network carry the bits of the limit and span at least an hour (three
  times too slow), the required target drops to less than a 75th of the limit: the product wraps
  around, and slow blocks make mining harder instead of easier.
\<close>

theorem DarkGravityWave_wraps_at_limit:
  assumes "linked bm" "bm p = Some b" "20 \<le> nHeight b"
    and "\<forall>k q c. nHeight b - 20 < k \<longrightarrow> ancestor_at bm p k = Some q \<longrightarrow> bm q = Some c \<longrightarrow> nBits c = 0x2000ffff"
    and "3600 \<le> GetBlockTime b - GetBlockTime (the (bm (the (ancestor_at bm p (nHeight b - 19)))))"
  shows "\<exists>c. DarkGravityWave bm (Some p) CMainParams 60 = Inr c \<and>
    75 * uval (fst (SetCompact c)) < uval (fst (SetCompact 0x2000ffff))"
proof -
  let ?t = "65535 * 2 ^ 232 :: nat"
  have lim: "uval (fst (SetCompact 0x2000ffff)) = ?t"
    using SetCompact_parts(2) [of "0x2000ffff" 65535 32] by simp
  have anc: "anc_target bm p k = ?t" if k: "nHeight b - 20 < k" "k \<le> nHeight b" for k
  proof -
    obtain q c where "ancestor_at bm p k = Some q" "bm q = Some c"
      using ancestor_at_exists [OF assms(1,2), of k] k assms(3) by auto
    then show ?thesis using assms(4) k(1) lim by (simp add: anc_target_def target_of_def)
  qed
  have mean: "dgw_mean 1 0 (map (\<lambda>i. anc_target bm p (nHeight b - int i)) [0..<20]) = ?t"
    by (rule dgw_mean_const) (auto simp: anc simp del: upt_rec_numeral)
  have span: "dgw_timespan bm p (nHeight b) 60 = 3600"
    using assms(5) ancestor_at_self [OF assms(1,2)] assms(2) by (simp add: dgw_timespan_def clamp_timespan_def Let_def cdiv_def)
  have "\<exists>r. DarkGravityWave bm (Some p) CMainParams 60 = Inr (GetCompact r False) \<and> limbs r \<and>
      uval r = min ((?t * nat 3600) mod 2 ^ 256 div nat (20 * 60)) (uval (UintToArith256 (powLimit CMainParams)))"
    using DarkGravityWave_value [OF assms(1-3), of 60 ?t CMainParams] anc unfolding mean span by simp
  then obtain r where r: "DarkGravityWave bm (Some p) CMainParams 60 = Inr (GetCompact r False)" "limbs r"
    "uval r \<le> (?t * 3600) mod 2 ^ 256 div 1200" by auto
  have "uval (fst (SetCompact (GetCompact r False))) \<le> uval r"
    using SetCompact_GetCompact_value(2) [OF r(2)] div_times_less_eq_dividend [of "uval r"] by simp
  with r(3) have "75 * uval (fst (SetCompact (GetCompact r False))) < uval (fst (SetCompact 0x2000ffff))"
    unfolding lim by simp
  with r(1) show ?thesis by blast
qed

theorem DarkGravityWave_wraps_at_limit_witness:
  "\<exists>c. DarkGravityWave (line_map 21 (\<lambda>i. 200 * of_nat i) 0x2000ffff) (Some (line_ptr 20)) CMainParams 60 = Inr c \<and>
    75 * uval (fst (SetCompact c)) < uval (fst (SetCompact 0x2000ffff))"
proof -
  let ?bm = "line_map 21 (\<lambda>i. 200 * of_nat i) 0x2000ffff"
  have p: "?bm (line_ptr 20) = Some (line_entry (\<lambda>i. 200 * of_nat i) 0x2000ffff 20)" by (rule line_map_ptr) simp_all
  have "ancestor_at ?bm (line_ptr 20) 1 = Some (line_ptr 1)" using line_ancestor [of 1 20 21] by simp
  then show ?thesis
    by (intro DarkGravityWave_wraps_at_limit [OF linked_line_map p])
       (auto simp: line_entry_def line_map_ptr GetBlockTime_def elim: line_map_SomeD)
qed

text \<open>
  C22. On the main network dark gravity wave can require a target of zero, which no block meets: when the last twenty blocks carry the
  bits 0x1f400000, a quarter of the limit, and the first and the last of them are 1024 seconds apart, the product of the average target
  with the time span is exactly 2 to the 256 and wraps to zero. \<open>CheckProofOfWork\<close> then refuses every hash for the next block.
\<close>

theorem required_target_can_be_zero:
  assumes "linked bm" "bm p = Some b" "20 \<le> nHeight b" "nHeight b < 1000000"
    and "\<forall>k q c. nHeight b - 20 < k \<longrightarrow> ancestor_at bm p k = Some q \<longrightarrow> bm q = Some c \<longrightarrow> nBits c = 0x1f400000"
    and "GetBlockTime b - GetBlockTime (the (bm (the (ancestor_at bm p (nHeight b - 19))))) = 1024"
  shows "\<exists>c. GetNextWorkRequired horizon secondsMin bm p hdr CMainParams = Inr c \<and> (\<forall>hash. \<not> CheckProofOfWork hash c CMainParams)"
proof -
  let ?t = "2 ^ 246 :: nat"
  have bits: "uval (fst (SetCompact 0x1f400000)) = ?t"
    using SetCompact_parts(2) [of "0x1f400000" 4194304 31] by simp
  have anc: "anc_target bm p k = ?t" if k: "nHeight b - 20 < k" "k \<le> nHeight b" for k
  proof -
    obtain q c where "ancestor_at bm p k = Some q" "bm q = Some c"
      using ancestor_at_exists [OF assms(1,2), of k] k assms(3) by auto
    then show ?thesis using assms(5) k(1) bits by (simp add: anc_target_def target_of_def)
  qed
  have mean: "dgw_mean 1 0 (map (\<lambda>i. anc_target bm p (nHeight b - int i)) [0..<20]) = ?t"
    by (rule dgw_mean_const) (auto simp: anc simp del: upt_rec_numeral)
  have span: "dgw_timespan bm p (nHeight b) 60 = 1024"
    using assms(6) ancestor_at_self [OF assms(1,2)] assms(2) by (simp add: dgw_timespan_def clamp_timespan_def Let_def cdiv_def)
  have "\<exists>r. DarkGravityWave bm (Some p) CMainParams 60 = Inr (GetCompact r False) \<and> limbs r \<and>
      uval r = min ((?t * nat 1024) mod 2 ^ 256 div nat (20 * 60)) (uval (UintToArith256 (powLimit CMainParams)))"
    using DarkGravityWave_value [OF assms(1-3), of 60 ?t CMainParams] anc unfolding mean span by simp
  then obtain r where r: "DarkGravityWave bm (Some p) CMainParams 60 = Inr (GetCompact r False)" "limbs r" "uval r = 0" by auto
  have "\<not> bits_in_range CMainParams (GetCompact r False)"
    using SetCompact_GetCompact_value(2) [OF r(2)] r(3) by (simp add: bits_in_range_def)
  moreover have "GetNextWorkRequired horizon secondsMin bm p hdr CMainParams = DarkGravityWave bm (Some p) CMainParams 60"
    using assms(2-4) by (simp add: GetNextWorkRequired_def Let_def PowTargetSpacing_def CMainParams_def)
  ultimately show ?thesis using r(1) by (simp add: bits_in_range_iff)
qed

theorem required_target_can_be_zero_witness:
  "\<exists>c. GetNextWorkRequired (\<lambda>_ _ _. False) (\<lambda>_. 90) (line_map 21 (\<lambda>i. if i = 20 then 1024 else 0) 0x1f400000) (line_ptr 20) example_header CMainParams
      = Inr c \<and> (\<forall>hash. \<not> CheckProofOfWork hash c CMainParams)"
proof -
  let ?bm = "line_map 21 (\<lambda>i. if i = 20 then 1024 else 0) 0x1f400000"
  have p: "?bm (line_ptr 20) = Some (line_entry (\<lambda>i. if i = 20 then 1024 else 0) 0x1f400000 20)" by (rule line_map_ptr) simp_all
  have "ancestor_at ?bm (line_ptr 20) 1 = Some (line_ptr 1)" using line_ancestor [of 1 20 21] by simp
  then show ?thesis
    by (intro required_target_can_be_zero [OF linked_line_map p])
       (auto simp: line_entry_def line_map_ptr GetBlockTime_def elim: line_map_SomeD)
qed

text \<open>
  \<open>CheckProofOfWork\<close> accepts a hash exactly when the bits encode a positive target without
  sign or overflow, not above the limit, and the hash as a number does not exceed the target.
\<close>

theorem CheckProofOfWork_spec:
  "CheckProofOfWork hash bits params \<longleftrightarrow>
     (let (t, neg, ovf) = SetCompact bits
      in \<not> neg \<and> \<not> ovf \<and> 0 < uval t \<and> uval t \<le> uval (UintToArith256 (powLimit params)) \<and>
         uval (UintToArith256 hash) \<le> uval t)"
  by (rule CheckProofOfWork_iff)

end
