(* ===== verification/Block_Checks.thy ===== *)
theory Block_Checks
  imports Tx_Inputs Merkle Pow
begin

text \<open>
The checks of a block before it is connected (validation.cpp): of its header and transactions alone, and against the block
  before it. A header whose block is accepted determines the hashes of the transactions.
\<close>

unbundle bit_operations_syntax

section \<open>Results of block checks\<close>

datatype BlockValidationResult =
  BLOCK_RESULT_UNSET | BLOCK_CONSENSUS | BLOCK_RECENT_CONSENSUS_CHANGE | BLOCK_CACHED_INVALID | BLOCK_INVALID_HEADER
| BLOCK_MUTATED | BLOCK_MISSING_PREV | BLOCK_INVALID_PREV | BLOCK_TIME_FUTURE | BLOCK_CHECKPOINT | BLOCK_CHAINLOCK

text \<open>A check fails with the result and the reason left in the validation state; None is a failed assertion or an exception.\<close>

type_synonym 'a block_check = "((BlockValidationResult \<times> string) + 'a) option"

abbreviation (input) bad_block :: "BlockValidationResult \<Rightarrow> string \<Rightarrow> 'a block_check" where
  "bad_block r reason \<equiv> Some (Inl (r, reason))"

definition of_chain :: "chain_error + 'a \<Rightarrow> 'a option" where
  "of_chain r = (case r of Inl e \<Rightarrow> None | Inr x \<Rightarrow> Some x)"

text \<open>The hashes among the consensus parameters.\<close>

record ParamHashes =
  hashGenesisBlock :: uint256
  hashDevnetGenesisBlock :: uint256
  BIP34Hash :: uint256
  nSuperblockStartHash :: uint256

section \<open>Checks without context\<close>

definition CheckBlockHeader :: "ParamHashes \<Rightarrow> Params \<Rightarrow> 'a CBlockHeader_scheme \<Rightarrow> uint256 \<Rightarrow> bool \<Rightarrow> unit block_check" where
  "CheckBlockHeader hs p block hash fCheckPOW =
     (if fCheckPOW \<and> \<not> CheckProofOfWork hash (hdr_nBits block) p then bad_block BLOCK_INVALID_HEADER ''high-hash''
      else if \<not> uint256_IsNull (hashDevnetGenesisBlock hs) \<and> hashPrevBlock block = hashGenesisBlock hs \<and> hash \<noteq> hashDevnetGenesisBlock hs
      then bad_block BLOCK_CONSENSUS ''devnet-genesis''
      else Some (Inr ()))"

fun check_transactions :: "CTransaction list \<Rightarrow> unit block_check" where
  "check_transactions [] = Some (Inr ())"
| "check_transactions (tx # txs) = (case CheckTransaction tx of
     Inl (r, reason) \<Rightarrow> if r \<noteq> TX_CONSENSUS then None else bad_block BLOCK_CONSENSUS reason
   | Inr u \<Rightarrow> check_transactions txs)"

text \<open>
  \<open>fChecked\<close> is the flag a block carries once it has passed, returned with its new value. \<open>H\<close> is the double hash of two hashes,
  \<open>GetHash\<close> the hash of a transaction and \<open>HeaderHash\<close> that of a header.
\<close>

definition CheckBlock :: "(uint256 \<Rightarrow> uint256 \<Rightarrow> uint256) \<Rightarrow> (CTransaction \<Rightarrow> uint256) \<Rightarrow> (CBlockHeader \<Rightarrow> uint256) \<Rightarrow> ParamHashes \<Rightarrow> Params
    \<Rightarrow> CBlock \<Rightarrow> bool \<Rightarrow> bool \<Rightarrow> bool \<Rightarrow> bool block_check" where
  "CheckBlock H GetHash HeaderHash hs p block fChecked fCheckPOW fCheckMerkleRoot =
     (if fChecked then Some (Inr fChecked)
      else case CheckBlockHeader hs p block (HeaderHash (CBlockHeader.truncate block)) fCheckPOW of
        None \<Rightarrow> None
      | Some (Inl e) \<Rightarrow> Some (Inl e)
      | Some (Inr _) \<Rightarrow>
      (let (hashMerkleRoot2, mutated) = BlockMerkleRoot H GetHash block
       in if fCheckMerkleRoot \<and> hdr_hashMerkleRoot block \<noteq> hashMerkleRoot2 then bad_block BLOCK_MUTATED ''bad-txnmrklroot''
          else if fCheckMerkleRoot \<and> mutated then bad_block BLOCK_MUTATED ''bad-txns-duplicate''
          else if vtx block = [] \<or> length (vtx block) > MaxBlockSize True \<or> length (ser_block block) > MaxBlockSize True
          then bad_block BLOCK_CONSENSUS ''bad-blk-length''
          else if vtx block = [] \<or> \<not> IsCoinBase_tx (hd (vtx block)) then bad_block BLOCK_CONSENSUS ''bad-cb-missing''
          else if list_ex IsCoinBase_tx (tl (vtx block)) then bad_block BLOCK_CONSENSUS ''bad-cb-multiple''
          else case check_transactions (vtx block) of
            None \<Rightarrow> None
          | Some (Inl e) \<Rightarrow> Some (Inl e)
          | Some (Inr _) \<Rightarrow>
              if unat (sum_list (map GetLegacySigOpCount (vtx block))) > MaxBlockSigOps True
              then bad_block BLOCK_CONSENSUS ''bad-blk-sigops''
              else Some (Inr (fCheckPOW \<and> fCheckMerkleRoot))))"

section \<open>Checks against the previous block\<close>

definition MAX_STANDARD_TX_SIZE :: nat where "MAX_STANDARD_TX_SIZE = 100000"

text \<open>\<open>sapling\<close> is the contextual check of the shielded data, a function of the height of the previous block.\<close>

definition ContextualCheckTransaction :: "(int option \<Rightarrow> CTransaction \<Rightarrow> unit tx_check) \<Rightarrow> Params \<Rightarrow> int option \<Rightarrow> CTransaction \<Rightarrow> unit tx_check" where
  "ContextualCheckTransaction sapling p prev tx =
     (if IsShieldedTxVersion tx \<and> \<not> DeploymentActiveAfter prev p DEPLOYMENT_KSH_SHIELD then invalid ''bad-txns-shield-not-active''
      else bind_sum (sapling prev tx) (\<lambda>_.
      if DeploymentActiveAfter prev p DEPLOYMENT_DIP0003 \<and> IsSpecialTxVersion tx
         \<and> nType tx \<notin> {TRANSACTION_NORMAL, TRANSACTION_PROVIDER_REGISTER, TRANSACTION_PROVIDER_UPDATE_SERVICE,
              TRANSACTION_PROVIDER_UPDATE_REGISTRAR, TRANSACTION_PROVIDER_UPDATE_REVOKE, TRANSACTION_COINBASE,
              TRANSACTION_QUORUM_COMMITMENT, TRANSACTION_MNHF_SIGNAL, TRANSACTION_ASSET_LOCK, TRANSACTION_ASSET_UNLOCK}
      then invalid ''bad-txns-type''
      else if DeploymentActiveAfter prev p DEPLOYMENT_DIP0003 \<and> IsSpecialTxVersion tx \<and> IsCoinBase_tx tx \<and> nType tx \<noteq> TRANSACTION_COINBASE
      then invalid ''bad-txns-cb-type''
      else if DeploymentActiveAfter prev p DEPLOYMENT_DIP0003 \<and> \<not> IsSpecialTxVersion tx \<and> nType tx \<noteq> TRANSACTION_NORMAL
      then invalid ''bad-txns-type''
      else if DeploymentActiveAfter prev p DEPLOYMENT_DIP0001 \<and> GetTotalSize tx > MAX_STANDARD_TX_SIZE
      then invalid ''bad-txns-oversize''
      else Inr ()))"

fun GetLastCheckpoint :: "BlockMap \<Rightarrow> uint256 list \<Rightarrow> CBlockIndex option" where
  "GetLastCheckpoint bm [] = None"
| "GetLastCheckpoint bm (hash # hashes) = (case bm hash of Some b \<Rightarrow> Some b | None \<Rightarrow> GetLastCheckpoint bm hashes)"

definition MAX_FUTURE_BLOCK_TIME :: int where "MAX_FUTURE_BLOCK_TIME = 2 * 60 * 60"

definition hex32 :: "u32 \<Rightarrow> string" where
  "hex32 w = map (\<lambda>i. ''0123456789abcdef'' ! unat (drop_bit (4 * i) w AND 15)) (rev [0..<8])"

text \<open>
  The comparison in double precision of the bits of early main network blocks is the parameter \<open>far_off\<close>; \<open>next_work\<close> is
  \<open>GetNextWorkRequired\<close> with its floating-point parameters, \<open>checkpoints\<close> the checkpoint hashes from the last to the first,
  empty when checkpoints are disabled.
\<close>

definition ContextualCheckBlockHeader ::
  "(u32 \<Rightarrow> u32 \<Rightarrow> bool) \<Rightarrow> (BlockMap \<Rightarrow> ptr \<Rightarrow> CBlockHeader \<Rightarrow> Params \<Rightarrow> chain_error + u32) \<Rightarrow> uint256 list \<Rightarrow> Params \<Rightarrow> BlockMap \<Rightarrow> ptr \<Rightarrow> CBlockHeader \<Rightarrow> int \<Rightarrow> unit block_check" where
  "ContextualCheckBlockHeader far_off next_work checkpoints p bm prev block nAdjustedTime = do {
     b \<leftarrow> bm prev;
     let h = nHeight b + 1;
     nBitsNext \<leftarrow> of_chain (next_work bm prev block p);
     if (if NetworkID p = MAIN \<and> h \<le> 68589 then far_off (hdr_nBits block) nBitsNext else hdr_nBits block \<noteq> nBitsNext)
     then bad_block BLOCK_INVALID_HEADER ''bad-diffbits''
     else if (case GetLastCheckpoint bm checkpoints of Some c \<Rightarrow> h < nHeight c | None \<Rightarrow> False)
     then bad_block BLOCK_CHECKPOINT ''bad-fork-prior-to-checkpoint''
     else do {
       mtp_prev \<leftarrow> of_chain (GetMedianTimePast bm prev);
       if uint (hdr_nTime block) \<le> mtp_prev then bad_block BLOCK_INVALID_HEADER ''time-too-old''
       else if uint (hdr_nTime block) > nAdjustedTime + MAX_FUTURE_BLOCK_TIME then bad_block BLOCK_TIME_FUTURE ''time-too-new''
       else if sint (hdr_nVersion block) < 2 \<and> DeploymentActiveAfter (Some (nHeight b)) p DEPLOYMENT_HEIGHTINCB
            \<or> sint (hdr_nVersion block) < 3 \<and> DeploymentActiveAfter (Some (nHeight b)) p DEPLOYMENT_DERSIG
            \<or> sint (hdr_nVersion block) < 4 \<and> DeploymentActiveAfter (Some (nHeight b)) p DEPLOYMENT_CLTV
       then bad_block BLOCK_INVALID_HEADER (''bad-version(0x'' @ hex32 (hdr_nVersion block) @ '')'')
       else Some (Inr ()) } }"

fun contextual_transactions :: "(CTransaction \<Rightarrow> unit tx_check) \<Rightarrow> int \<Rightarrow> int \<Rightarrow> CTransaction list \<Rightarrow> unit block_check" where
  "contextual_transactions chk h nLockTimeCutoff [] = Some (Inr ())"
| "contextual_transactions chk h nLockTimeCutoff (tx # txs) =
     (if \<not> IsFinalTx tx h nLockTimeCutoff then bad_block BLOCK_CONSENSUS ''bad-txns-nonfinal''
      else case chk tx of
        Inl (r, reason) \<Rightarrow> if r \<noteq> TX_CONSENSUS then None else bad_block BLOCK_CONSENSUS reason
      | Inr u \<Rightarrow> contextual_transactions chk h nLockTimeCutoff txs)"

definition ContextualCheckBlock :: "(int option \<Rightarrow> CTransaction \<Rightarrow> unit tx_check) \<Rightarrow> Params \<Rightarrow> BlockMap \<Rightarrow> ptr option \<Rightarrow> CBlock \<Rightarrow> unit block_check" where
  "ContextualCheckBlock sapling p bm pindexPrev block = do {
     prev \<leftarrow> (case pindexPrev of None \<Rightarrow> Some None | Some q \<Rightarrow> map_option Some (bm q));
     let prev_height = map_option nHeight prev;
     let h = (case prev_height of None \<Rightarrow> 0 | Some n \<Rightarrow> n + 1);
     nLockTimeCutoff \<leftarrow> (if DeploymentActiveAfter prev_height p DEPLOYMENT_CSV
       then (case pindexPrev of None \<Rightarrow> None | Some q \<Rightarrow> of_chain (GetMedianTimePast bm q))
       else Some (uint (hdr_nTime block)));
     let fDIP0001Active = DeploymentActiveAfter prev_height p DEPLOYMENT_DIP0001;
     let fDIP0003Active = DeploymentActiveAfter prev_height p DEPLOYMENT_DIP0003;
     let nMaxBlockSize = MaxBlockSize fDIP0001Active;
     if vtx block = [] \<or> length (vtx block) > nMaxBlockSize \<or> length (ser_block block) > nMaxBlockSize
     then bad_block BLOCK_CONSENSUS ''bad-blk-length''
     else do {
       r \<leftarrow> contextual_transactions (ContextualCheckTransaction sapling p prev_height) h nLockTimeCutoff (vtx block);
       case r of Inl e \<Rightarrow> Some (Inl e)
       | Inr u \<Rightarrow>
           let expect = push_int64 [] h; sig = scriptSig (vin (hd (vtx block)) ! 0)
           in if unat (sum_list (map GetLegacySigOpCount (vtx block))) > MaxBlockSigOps fDIP0001Active
              then bad_block BLOCK_CONSENSUS ''bad-blk-sigops''
              else if DeploymentActiveAfter prev_height p DEPLOYMENT_HEIGHTINCB \<and> \<not> fDIP0003Active
                 \<and> (length sig < length expect \<or> take (length expect) sig \<noteq> expect)
              then bad_block BLOCK_CONSENSUS ''bad-cb-height''
              else if fDIP0003Active \<and> nType (hd (vtx block)) \<noteq> TRANSACTION_COINBASE
              then bad_block BLOCK_CONSENSUS ''bad-cb-type''
              else Some (Inr ()) } }"

section \<open>What an accepted block satisfies\<close>

lemma check_transactions_accepts: "check_transactions txs = Some (Inr u) \<longleftrightarrow> (\<forall>tx \<in> set txs. CheckTransaction tx = Inr ())"
  by (induction txs) (auto split: sum.splits if_splits)

text \<open>A block that passes the checks without context, read as its conditions.\<close>

lemma CheckBlock_accepted:
  assumes "CheckBlock H GetHash HeaderHash hs p block False fCheckPOW fCheckMerkleRoot = Some (Inr c)"
  shows "vtx block \<noteq> []" "IsCoinBase_tx (hd (vtx block))" "\<forall>tx \<in> set (tl (vtx block)). \<not> IsCoinBase_tx tx"
    and "\<forall>tx \<in> set (vtx block). CheckTransaction tx = Inr ()"
    and "fCheckMerkleRoot \<Longrightarrow> BlockMerkleRoot H GetHash block = (hdr_hashMerkleRoot block, False)"
    and "fCheckPOW \<Longrightarrow> CheckProofOfWork (HeaderHash (CBlockHeader.truncate block)) (hdr_nBits block) p"
    and "length (ser_block block) \<le> MaxBlockSize True"
  using assms
  by (auto simp: CheckBlock_def CheckBlockHeader_def check_transactions_accepts list_ex_iff split: if_splits prod.splits option.splits sum.splits)

text \<open>
  C6. A header determines the transactions: two blocks whose headers have the same merkle root and that both pass the
  context-free checks hold the same transaction hashes in the same order, or two different pairs of nodes of their trees have
  the same hash, or their trees have different heights and a transaction hash of one is the hash of a pair of nodes of the
  other. So among blocks with the same number of transactions only a collision of the node hash escapes; the last case, a
  transaction that can be read as two nodes, is not excluded by the checks. The malleation by a repeated tail is refused.
\<close>

theorem header_determines_transactions:
  fixes block block' GetHash
  defines "ids \<equiv> map GetHash (vtx block)" and "ids' \<equiv> map GetHash (vtx block')"
  assumes "CheckBlock H GetHash HeaderHash hs p block False pow True = Some (Inr c)"
    and "CheckBlock H GetHash HeaderHash hs p block' False pow' True = Some (Inr c')"
    and "hdr_hashMerkleRoot block = hdr_hashMerkleRoot block'"
  shows "ids = ids' \<or> node_collision H ids ids' \<or> levels (length ids) \<noteq> levels (length ids') \<and> leaf_is_node H ids ids'"
  unfolding ids_def ids'_def
  by (rule merkle_root_commits [of block block' H GetHash "hdr_hashMerkleRoot block"])
    (use CheckBlock_accepted(1,5) [OF assms(3)] CheckBlock_accepted(1,5) [OF assms(4)] assms(5) in simp_all)

definition coinbase_tx :: "u32 \<Rightarrow> CTransaction" where
  "coinbase_tx t = CMutableTransaction_default
     \<lparr>vin := [\<lparr>prevout = \<lparr>op_hash = replicate 32 0, op_n = NULL_INDEX\<rparr>, scriptSig = [1, 2], nSequence = SEQUENCE_FINAL\<rparr>],
      vout := [\<lparr>nValue = 5, scriptPubKey = [0x51]\<rparr>], nLockTime := t\<rparr>"

text \<open>A block of a coinbase and two spending transactions, told apart by their lock times.\<close>

definition three_tx_block :: "u32 \<Rightarrow> u32 \<Rightarrow> u32 \<Rightarrow> CBlock" where
  "three_tx_block a b c = CBlockHeader.extend (CBlockHeader_null\<lparr>hdr_hashMerkleRoot := 51 # replicate 31 1\<rparr>)
     (CBlock.fields [coinbase_tx a, spending_tx\<lparr>nLockTime := b\<rparr>, spending_tx\<lparr>nLockTime := c\<rparr>])"

definition no_hashes :: ParamHashes where
  "no_hashes = \<lparr>hashGenesisBlock = replicate 32 0, hashDevnetGenesisBlock = replicate 32 0, BIP34Hash = replicate 32 0,
     nSuperblockStartHash = replicate 32 0\<rparr>"

lemmas coinbase_eval = coinbase_tx_def CMutableTransaction_default_def SaplingTxData_default_def tx_version_defs tx_type_defs
  ser_tx_def ser_vector_def ser_txin_def ser_txout_def ser_outpoint_def ser_int64_def ser_blob_def WriteCompactSize_def
  ser_writedata8_def ser_writedata32_def ser_writedata64_def HasShieldedPayload_def HasShieldedPayloadField_def
  IsShieldedTxVersion_def HasExtraPayloadField_def IsSpecialTxVersion_def spending_tx_def example_outpoint_def

lemmas transaction_check_eval = CheckTransaction_def GetTotalSize_def MAX_LEGACY_BLOCK_SIZE_def MAX_TX_EXTRA_PAYLOAD_def MAX_MONEY_def
  COIN_def MoneyRange_def Sapling_CheckTransaction_def IsCoinBase_tx_def COutPoint_IsNull_def NULL_INDEX_def

lemma coinbase_tx_ok: "CheckTransaction (coinbase_tx t) = Inr ()" "IsCoinBase_tx (coinbase_tx t)"
  by (simp_all add: coinbase_eval transaction_check_eval)

lemma spending_tx_ok: "CheckTransaction (spending_tx\<lparr>nLockTime := t\<rparr>) = Inr ()" "\<not> IsCoinBase_tx (spending_tx\<lparr>nLockTime := t\<rparr>)"
  by (simp_all add: coinbase_eval transaction_check_eval)

lemma example_sigops: "GetLegacySigOpCount (coinbase_tx t) = 0" "GetLegacySigOpCount (spending_tx\<lparr>nLockTime := t\<rparr>) = 0"
  by (simp_all add: GetLegacySigOpCount_def coinbase_tx_def spending_tx_def GetSigOpCount_def sigops_loop.simps GetScriptOp_def read_push_size_def)

lemma three_tx_block_sel:
  "vtx (three_tx_block a b c) = [coinbase_tx a, spending_tx\<lparr>nLockTime := b\<rparr>, spending_tx\<lparr>nLockTime := c\<rparr>]"
  "hdr_hashMerkleRoot (three_tx_block a b c) = 51 # replicate 31 1"
  by (simp_all add: three_tx_block_def CBlock.defs CBlockHeader.defs)

lemma three_tx_block_ids:
  "map example_txid (vtx (three_tx_block a b c)) = map (\<lambda>i. ucast i # replicate 31 0) [a, b, c]"
  by (simp add: three_tx_block_sel example_txid_def coinbase_tx_def spending_tx_def)

lemma three_tx_block_accepted:
  assumes "ComputeMerkleRoot example_join (map (\<lambda>i. ucast i # replicate 31 0) [a, b, c]) = (51 # replicate 31 1, False)"
  shows "CheckBlock example_join example_txid h no_hashes p (three_tx_block a b c) False False True = Some (Inr False)"
proof -
  have "length (ser_block (three_tx_block a b c)) \<le> MaxBlockSize True"
    by (simp add: ser_block_def three_tx_block_sel ser_header_def coinbase_eval three_tx_block_def CBlock.defs CBlockHeader.defs
        CBlockHeader_null_def MaxBlockSize_def MAX_DIP0001_BLOCK_SIZE_def)
  moreover have "BlockMerkleRoot example_join example_txid (three_tx_block a b c) = (51 # replicate 31 1, False)"
    by (simp only: BlockMerkleRoot_def three_tx_block_ids assms)
  ultimately show ?thesis
    by (simp add: CheckBlock_def CheckBlockHeader_def no_hashes_def uint256_IsNull_def three_tx_block_sel coinbase_tx_ok spending_tx_ok
        example_sigops MaxBlockSize_def MAX_DIP0001_BLOCK_SIZE_def)
qed

theorem header_determines_transactions_witness:
  "map example_txid (vtx (three_tx_block 1 2 3)) \<noteq> map example_txid (vtx (three_tx_block 3 1 3))
   \<and> node_collision example_join (map example_txid (vtx (three_tx_block 1 2 3))) (map example_txid (vtx (three_tx_block 3 1 3)))"
proof -
  have "CheckBlock example_join example_txid h no_hashes p (three_tx_block 1 2 3) False False True = Some (Inr False)"
    "CheckBlock example_join example_txid h no_hashes p (three_tx_block 3 1 3) False False True = Some (Inr False)" for h p
    by (rule three_tx_block_accepted; simp add: ComputeMerkleRoot_def merkle_loop.simps padded_def example_join_def)+
  from header_determines_transactions [OF this] show ?thesis by (simp add: three_tx_block_ids three_tx_block_sel(2))
qed

end
