(* ===== verification/Spec2Isabelle.thy ===== *)
theory Spec2Isabelle
  imports Payments Versionbits Block_Checks
begin

text \<open>
  Verification of the consensus core of Korsh Core.

  \<^bold>\<open>The program.\<close> Korsh Core is a full node of a proof-of-work chain with masternodes and a shielded pool, a descendant of Bitcoin,
  Dash and PIVX. A node receives headers, puts them into a tree of block headers, checks their difficulty and proof of work,
  checks blocks without and with context, checks the transactions against a set of unspent coins kept in stacked caches over a
  database, runs the scripts of the inputs, and checks what the coinbase pays. The theories follow this path from the bottom to
  the top; each names the files under \<^verbatim>\<open>src/src\<close> it models.

  \<^bold>\<open>Arithmetic, parameters and the header tree.\<close>
  \<^item> \<open>Prelude\<close>: machine integers as words, C division, sums as results with an error (\<open>bind_sum\<close>), shared list and word facts and
    the collections of rewrite rules.
  \<^item> \<open>Arith_Uint256\<close> (arith_uint256.h/.cpp): \<open>base_uint\<close> is a list of eight 32-bit limbs with the carries, shifts and the division loop
    of the code and the compact form of targets. The operations are shown to be arithmetic modulo 2 to the 256 on the value
    \<open>uval\<close>, collected in the locale \<open>uint_arith\<close> that the difficulty rules rest on.
  \<^item> \<open>Consensus_Params\<close> (consensus/params.h, consensus/amount.h, chainparams.cpp, deploymentstatus.h): parameters, buried deployments and the
    values of the main and the test network.
  \<^item> \<open>Block_Index\<close> (chain.h/.cpp, node/blockstorage.cpp): the tree of headers. A pointer to a \<open>CBlockIndex\<close> is the hash of the block, an
    index of the map \<open>BlockMap\<close>; dereferencing an unknown pointer and failed assertions are values of \<open>chain_error\<close>. The skip
    list, the active chain, locators, median time and \<open>AddToBlockIndex\<close>. \<open>linked\<close>, \<open>skips_ok\<close> and \<open>totals_ok\<close> say that a tree is
    well formed; the locale \<open>ancestry\<close> gives the laws of the ancestor at a height.
  \<^item> \<open>Pow\<close> (pow.cpp): all difficulty rules, with the wrap-around of the retarget product. The two computations of Kimoto's gravity
    well in double precision are parameters.
  \<^item> \<open>Versionbits\<close> (versionbits.h/.cpp): the deployment state machine with its cache, counts of signals and start heights, against a
    recursive specification of BIP 9. The heights signalled by masternodes (\<open>GetSignalsStage\<close>) are a parameter.

  \<^bold>\<open>Data on the wire.\<close>
  \<^item> \<open>Serialize\<close>, \<open>Formatters\<close> (serialize.h): writers to byte lists and readers that may fail. The locales \<open>codec\<close> and \<open>canonical_codec\<close> state
    the round trips; each format is an interpretation, composed from those of its parts.
  \<^item> \<open>Transactions\<close> (primitives/transaction.h, sapling/sapling_transaction.h, consensus/tx_check.cpp, sapling/sapling_validation.cpp,
    consensus/tx_verify.cpp): transactions, their checks without context and lock times.
  \<^item> \<open>Headers\<close> (primitives/block.h/.cpp, net_processing.cpp): headers, blocks and the compressed headers exchanged by peers.
  \<^item> \<open>Merkle\<close> (consensus/merkle.cpp, merkleblock.h/.cpp): Merkle roots with the mutation flag, partial trees and merkle blocks. The hash of two
    nodes is a parameter; results say which equality of hashes would have to occur.
  \<^item> \<open>Note_Tree\<close> (sapling/incrementalmerkletree.h/.cpp): the tree of note commitments and its witnesses.

  \<^bold>\<open>Scripts.\<close>
  \<^item> \<open>Script\<close> (script/script.h/.cpp): opcodes, script numbers, pushes, templates and counts of signature operations.
  \<^item> \<open>Interpreter\<close> (script/interpreter.h/.cpp): \<open>EvalScript\<close> with one handler per group of opcodes in \<open>opcode_table\<close>, and \<open>VerifyScript\<close>. A failure is a
    script error or a failed assertion. Hash functions and ECDSA are the record \<open>Crypto\<close>, the signature checker the record
    \<open>BaseSignatureChecker\<close>.
  \<^item> \<open>Interpreter_Safety\<close>: types and limits kept by evaluation, flags as soft forks, the condition stack as a stack of booleans (locale
    \<open>bool_stack\<close>), multiple signatures.
  \<^item> \<open>Sighash\<close> (script/interpreter.cpp, validation.cpp): legacy and Sapling signature hashes, the transaction checker and \<open>CScriptCheck\<close>.

  \<^bold>\<open>Coins, transactions and blocks.\<close>
  \<^item> \<open>Coins\<close> (coins.h/.cpp, txdb.cpp, sapling/sapling_txdb.cpp): a view is a database or a cache over a view; every operation of the
    cache that touches coins, anchors or nullifiers, and the batches of a database write. None is an assertion or exception.
  \<^item> \<open>Coins_Refinement\<close>: \<open>state_of\<close> reads a view as a set of coins, anchors and nullifiers with a best block and a best anchor; \<open>view_ok\<close> is
    the invariant of the flags. \<open>utxo_run\<close> is the specification of a sequence of operations.
  \<^item> \<open>Tx_Inputs\<close> (consensus/tx_verify.cpp, evo/assetlocktx.h/.cpp, validation.cpp): \<open>CheckTxInputs\<close>, signature operation counts and
    \<open>CheckInputScripts\<close>.
  \<^item> \<open>Block_Checks\<close> (validation.cpp): \<open>CheckBlock\<close> and the contextual checks of headers, transactions and blocks.
  \<^item> \<open>Subsidy\<close> (validation.cpp) and \<open>Payments\<close> (masternode/payments.cpp, governance/classes.cpp): emission, masternode and superblock payments.

  \<^bold>\<open>What the properties show.\<close>
  \<^item> Coins: the caches refine a set of coins whatever the flags of the levels; a write interrupted between batches is
    recognised. The one value left out of the refinement is the best anchor, which a flush can lose.
  \<^item> Headers: the tree stays well formed and the new entry is the one of the header; the skip list, forks and deployments are what
    their plain specifications say; the required work is defined and within the limit, but the product of dark gravity wave
    can wrap, even to a target of zero.
  \<^item> Value: a transaction that is neither a coinbase nor an asset unlock creates no value; coinbases are bounded; filling in
    payments moves value and adds only the superblock payments; mainnet emission is capped and testnet emission is not. For
    shielded data asset unlocks are an exception.
  \<^item> Commitments: a header determines the transactions, a signature the transaction it signs, a partial tree its matches, and the
    note tree its leaves, each up to an equality of hashes that the statement exhibits.
  \<^item> Scripts: evaluation keeps its limits, never fails an assertion, and more flags accept less; lock times demanded by scripts are
    those enforced on blocks.
  \<^item> Formats: every codec returns what was written; those that are canonical have one encoding per value.

  \<^bold>\<open>Loops and bounds.\<close> Recursion is structural or has a termination proof wherever the loop ends for every input. The loops along
  \<open>pprev\<close> in \<open>Block_Index\<close> and over periods in \<open>Versionbits\<close> may run forever on a cyclic tree; they carry fuel of the height of the starting
  block plus two, and on linked trees the theorems show that this is enough, so \<open>Fuel_exhausted\<close> does not occur there. Integers
  keep their width where the code relies on it: targets and their products, counts of signature operations, tree sizes, versions
  and times. Heights and amounts are unbounded integers, which is right in the ranges of heights and money the checks establish.

  \<^bold>\<open>Not modelled.\<close> Cryptographic primitives (hashes, ECDSA, BLS, the zero-knowledge proofs of the Rust library) and double-precision arithmetic
  are parameters. Connecting and disconnecting blocks, the choice of the best chain, the memory pool, the masternode list,
  quorums, governance, networking, wallet and user interfaces are outside: they are threads, input and output, or policy around
  the rules modelled here, or rest on signatures of quorums.
\<close>

end
